(* ===== verification/Prelude.thy ===== *)
theory Prelude
  imports Main "HOL-Library.Word"
begin

text \<open>
  Shared vocabulary of the development: the fixed-width integers of the C++ code, the
  byte-copy primitive behind every \<^verbatim>\<open>memcpy\<close>, the result type of code that may end
  the process, and the generic lemmas on words, lists and maps that the component theories use.

  C++ integers: an \<^verbatim>\<open>unsigned\<close> or an \<^verbatim>\<open>int\<close> that the code mixes with unsigned values
  is a word of its width. Word addition and subtraction wrap; \<open><\<close> and \<open>\<le>\<close> on words are the
  unsigned comparisons of C++; a signed comparison is written with \<open>sint\<close>.
\<close>

type_synonym u8 = "8 word"
type_synonym u16 = "16 word"
type_synonym u32 = "32 word"
type_synonym u64 = "64 word"
type_synonym bytes = "u8 list"

text \<open>
  \<open>CrashDump::Crash\<close> and the deliberate null writes of the code end the process. A computation
  that may do so returns \<open>None\<close> there and \<open>Some\<close> of its result otherwise.
\<close>

type_synonym 'a run = "'a option"

named_theorems crash_free \<open>conditions under which an operation does not end the process\<close>
named_theorems frame \<open>fields an operation leaves alone\<close>

subsection \<open>Words read as natural numbers\<close>

lemma sint_unat:
  assumes "unat (x :: u32) < 2 ^ 31"
  shows "sint x = int (unat x)"
proof -
  have "uint x < 2 ^ 31"
    using assms by (metis of_nat_less_iff of_nat_numeral of_nat_power uint_nat unat_eq_nat_uint)
  then have "signed_take_bit 31 (uint x) = uint x"
    using uint_ge_0 [of x] by (intro signed_take_bit_int_eq_self) linarith+
  then show ?thesis by (simp add: sint_uint)
qed

lemma sint_le_0_iff:
  assumes "unat (x :: u32) < 2 ^ 31"
  shows "sint x \<le> 0 \<longleftrightarrow> unat x = 0"
  unfolding sint_unat[OF assms] by (simp only: of_nat_le_0_iff)

lemma sint_less_iff:
  assumes "unat (x :: u32) < 2 ^ 31" and "unat (y :: u32) < 2 ^ 31"
  shows "sint x < sint y \<longleftrightarrow> unat x < unat y"
  unfolding sint_unat[OF assms(1)] sint_unat[OF assms(2)] by (simp only: of_nat_less_iff)

lemma unat_sub_le: "unat (y :: 'a::len word) \<le> unat x \<Longrightarrow> unat (x - y) = unat x - unat y"
  by (simp add: unat_sub word_le_nat_alt)

lemma unat_add_small:
  "unat (x :: 'a::len word) + unat y < 2 ^ LENGTH('a) \<Longrightarrow> unat (x + y) = unat x + unat y"
  using unat_add_lem by blast

lemma unat_eq_iff: "(x :: 'a::len word) = y \<longleftrightarrow> unat x = unat y"
  by (rule word_unat_eq_iff)

lemma unat_ucast_u16_u32: "unat (ucast (x :: u16) :: u32) = unat x"
  by transfer (simp add: take_bit_take_bit min_def)

lemma unat_ucast_u16_u64: "unat (ucast (x :: u16) :: u64) = unat x"
  by transfer (simp add: take_bit_take_bit min_def)

lemma unat_scast_u32_u64:
  assumes "unat (x :: u32) < 2 ^ 31"
  shows "unat (scast x :: u64) = unat x"
proof -
  have "(scast x :: u64) = of_nat (unat x)"
    by (simp only: scast_eq sint_unat[OF assms] of_int_of_nat_eq)
  then show ?thesis
    using assms by (simp only: unat_of_nat) (simp add: take_bit_nat_eq_self)
qed

subsection \<open>Byte copies\<close>

text \<open>
  \<open>splice off src b\<close> is memory \<open>b\<close> after \<open>memcpy(b + off, src, length src)\<close> with the
  destination inside \<open>b\<close>.
\<close>

definition splice :: "nat \<Rightarrow> 'a list \<Rightarrow> 'a list \<Rightarrow> 'a list" where
  "splice off src b = take off b @ src @ drop (off + length src) b"

lemma length_splice [simp]: "off + length src \<le> length b \<Longrightarrow> length (splice off src b) = length b"
  by (simp add: splice_def)

lemma nth_splice:
  "off + length src \<le> length b \<Longrightarrow> i < length b \<Longrightarrow>
   splice off src b ! i = (if off \<le> i \<and> i < off + length src then src ! (i - off) else b ! i)"
  by (auto simp: splice_def nth_append)

lemma splice_Nil [simp]: "splice off [] b = b"
  by (simp add: splice_def)

lemma take_splice_before [simp]: "n \<le> off \<Longrightarrow> off \<le> length b \<Longrightarrow> take n (splice off src b) = take n b"
  by (simp add: splice_def min_def)

lemma drop_splice_after [simp]:
  "off + length src \<le> n \<Longrightarrow> off + length src \<le> length b \<Longrightarrow> drop n (splice off src b) = drop n b"
  by (simp add: splice_def)

lemma slice_splice [simp]:
  "off + length src \<le> length b \<Longrightarrow> n = length src \<Longrightarrow> take n (drop off (splice off src b)) = src"
  by (simp add: splice_def)

lemma splice_splice_adjacent:
  "off + length xs + length ys \<le> length b \<Longrightarrow>
   splice (off + length xs) ys (splice off xs b) = splice off (xs @ ys) b"
  by (auto intro!: nth_equalityI simp: nth_splice nth_append)

subsection \<open>Arithmetic modulo the size of a ring\<close>

lemma mod_shift_inj:
  assumes "(f + a) mod N = (f + b) mod N" and "a < N" and "b < (N :: nat)"
  shows "a = b"
proof -
  have "int a mod int N = int b mod int N"
    using assms(1) by (metis add_diff_cancel_left' mod_diff_left_eq of_nat_add of_nat_mod)
  then show ?thesis using assms(2,3) by simp
qed

subsection \<open>Results that may end the process\<close>

lemma bind_Some_iff: "Option.bind m f = Some y \<longleftrightarrow> (\<exists>x. m = Some x \<and> f x = Some y)"
  by (cases m) auto

text \<open>
  \<open>wpx C m Q\<close>: if \<open>m\<close> ends the process then \<open>C\<close>, and otherwise its result satisfies \<open>Q\<close>. With \<open>C\<close>
  false this is total correctness, with \<open>C\<close> true partial correctness; a lemma for all \<open>C\<close> says that
  the operation does not fail by itself and passes on the failure of what it calls.
\<close>

definition wpx :: "bool \<Rightarrow> 'a run \<Rightarrow> ('a \<Rightarrow> bool) \<Rightarrow> bool" where
  "wpx C m Q = (case m of None \<Rightarrow> C | Some r \<Rightarrow> Q r)"

lemma wpx_Some [simp]: "wpx C (Some r) Q = Q r"
  by (simp add: wpx_def)

lemma wpx_None [simp]: "wpx C None Q = C"
  by (simp add: wpx_def)

lemma wpx_bind [simp]: "wpx C (Option.bind m f) Q = wpx C m (\<lambda>r. wpx C (f r) Q)"
  by (cases m) simp_all

lemma wpx_mono: "wpx C m P \<Longrightarrow> (\<And>r. P r \<Longrightarrow> Q r) \<Longrightarrow> wpx C m Q"
  by (cases m) simp_all

lemma wpx_weaken: "wpx C m Q \<Longrightarrow> (C \<Longrightarrow> D) \<Longrightarrow> wpx D m Q"
  by (cases m) simp_all

lemma wpx_if: "(b \<Longrightarrow> wpx C m Q) \<Longrightarrow> (\<not> b \<Longrightarrow> wpx C n Q) \<Longrightarrow> wpx C (if b then m else n) Q"
  by simp

lemma wpx_map [simp]: "wpx C (map_option f m) Q = wpx C m (\<lambda>r. Q (f r))"
  by (cases m) simp_all

lemma wpx_prod: "wpx C m (\<lambda>(a, b). Q a b) \<longleftrightarrow> wpx C m (\<lambda>r. Q (fst r) (snd r))"
  by (simp add: case_prod_unfold)

lemma wpx_total: "wpx False m Q \<longleftrightarrow> (\<exists>r. m = Some r \<and> Q r)"
  by (cases m) simp_all

lemma wpx_partial: "wpx True m Q \<longleftrightarrow> (\<forall>r. m = Some r \<longrightarrow> Q r)"
  by (cases m) simp_all

lemma wpx_SomeE: "wpx C m Q \<Longrightarrow> m = Some r \<Longrightarrow> Q r"
  by simp

end
