(* ===== verification/Fifo.thy ===== *)
theory Fifo
  imports Prelude
begin

text \<open>
  The contract between the network code and its byte rings: a bounded first-in first-out byte
  queue whose \<open>put\<close> takes all of its argument or nothing and whose \<open>get\<close> returns exactly
  the requested number of bytes or nothing. What the clients of a ring need, that the bytes
  taken out are the bytes put in, in order, with none lost or repeated, is proved once from
  the contract.
\<close>

datatype fifo_op = Put bytes | Get nat

text \<open>Run a sequence of operations; collect the accepted and the delivered bytes.\<close>

fun fifo_run ::
  "('q \<Rightarrow> bytes \<Rightarrow> 'q \<times> bool) \<Rightarrow> ('q \<Rightarrow> nat \<Rightarrow> 'q \<times> bytes) \<Rightarrow> 'q \<Rightarrow> fifo_op list \<Rightarrow>
   'q \<times> bytes \<times> bytes" where
  "fifo_run put get q [] = (q, [], [])"
| "fifo_run put get q (Put d # ops) =
     (case put q d of (q', ok) \<Rightarrow>
      case fifo_run put get q' ops of (q'', acc, out) \<Rightarrow> (q'', (if ok then d else []) @ acc, out))"
| "fifo_run put get q (Get n # ops) =
     (case get q n of (q', d) \<Rightarrow>
      case fifo_run put get q' ops of (q'', acc, out) \<Rightarrow> (q'', acc, d @ out))"

text \<open>Requests the code can make: lengths are \<^verbatim>\<open>int\<close>s.\<close>

fun fifo_op_ok :: "fifo_op \<Rightarrow> bool" where
  "fifo_op_ok (Put d) \<longleftrightarrow> length d < 2 ^ 31"
| "fifo_op_ok (Get n) \<longleftrightarrow> n < 2 ^ 31"

text \<open>The reference: a list of at most \<open>c\<close> bytes.\<close>

definition bq_put :: "nat \<Rightarrow> bytes \<Rightarrow> bytes \<Rightarrow> bytes \<times> bool" where
  "bq_put c q d = (if d \<noteq> [] \<and> length d \<le> c - length q then (q @ d, True) else (q, False))"

definition bq_get :: "bytes \<Rightarrow> nat \<Rightarrow> bytes \<times> bytes" where
  "bq_get q n = (if 0 < n \<and> n \<le> length q then (drop n q, take n q) else (q, []))"

locale byte_fifo =
  fixes inv :: "'q \<Rightarrow> bool"
    and cap :: "'q \<Rightarrow> nat"
    and contents :: "'q \<Rightarrow> bytes"
    and put :: "'q \<Rightarrow> bytes \<Rightarrow> 'q \<times> bool"
    and get :: "'q \<Rightarrow> nat \<Rightarrow> 'q \<times> bytes"
  assumes put_ok: "inv q \<Longrightarrow> 0 < length d \<Longrightarrow> length d \<le> cap q - length (contents q) \<Longrightarrow>
      \<exists>q'. put q d = (q', True) \<and> inv q' \<and> cap q' = cap q \<and> contents q' = contents q @ d"
    and put_full: "inv q \<Longrightarrow> length d < 2 ^ 31 \<Longrightarrow>
      d = [] \<or> cap q - length (contents q) < length d \<Longrightarrow> put q d = (q, False)"
    and get_ok: "inv q \<Longrightarrow> 0 < n \<Longrightarrow> n \<le> length (contents q) \<Longrightarrow>
      \<exists>q'. get q n = (q', take n (contents q)) \<and> inv q' \<and> cap q' = cap q \<and>
           contents q' = drop n (contents q)"
    and get_short: "inv q \<Longrightarrow> n < 2 ^ 31 \<Longrightarrow> n = 0 \<or> length (contents q) < n \<Longrightarrow> get q n = (q, [])"
begin

lemma put_cases:
  assumes "inv q" and "length d < 2 ^ 31"
  obtains (taken) q' where "put q d = (q', True)" "inv q'" "cap q' = cap q" "contents q' = contents q @ d"
  | (refused) "put q d = (q, False)"
proof (cases "d = [] \<or> cap q - length (contents q) < length d")
  case True
  with refused put_full assms show ?thesis by blast
next
  case False
  with put_ok[of q d] assms(1) obtain q' where "put q d = (q', True)" "inv q'" "cap q' = cap q"
      "contents q' = contents q @ d"
    by (auto simp: not_less)
  then show ?thesis by (rule taken)
qed

lemma get_cases:
  assumes "inv q" and "n < 2 ^ 31"
  obtains (given) q' where "get q n = (q', take n (contents q))" "inv q'" "cap q' = cap q"
      "contents q' = drop n (contents q)"
  | (refused) "get q n = (q, [])"
proof (cases "n = 0 \<or> length (contents q) < n")
  case True
  with refused get_short assms show ?thesis by blast
next
  case False
  with get_ok[of q n] assms(1) obtain q' where "get q n = (q', take n (contents q))" "inv q'"
      "cap q' = cap q" "contents q' = drop n (contents q)"
    by (auto simp: not_less)
  then show ?thesis by (rule given)
qed

text \<open>Conservation: what was inside and what was accepted is what came out and what is left.\<close>

lemma run_stream:
  assumes "inv q" and "\<forall>x \<in> set ops. fifo_op_ok x" and "fifo_run put get q ops = (q', acc, out)"
  shows "contents q @ acc = out @ contents q' \<and> inv q' \<and> cap q' = cap q"
  using assms
proof (induction ops arbitrary: q q' acc out)
  case Nil
  then show ?case by simp
next
  case (Cons x ops)
  show ?case
  proof (cases x)
    case (Put d)
    with Cons.prems have d: "length d < 2 ^ 31" by simp
    obtain q1 acc1 ok where q1: "put q d = (q1, ok)" "fifo_run put get q1 ops = (q', acc1, out)"
        "acc = (if ok then d else []) @ acc1"
      using Cons.prems(3) Put by (auto split: prod.splits)
    from Cons.prems(1) d show ?thesis
      by (cases rule: put_cases) (use Cons.IH[OF _ _ q1(2)] Cons.prems(1,2) q1 in auto)
  next
    case (Get n)
    with Cons.prems have n: "n < 2 ^ 31" by simp
    obtain q1 out1 d where q1: "get q n = (q1, d)" "fifo_run put get q1 ops = (q', acc, out1)"
        "out = d @ out1"
      using Cons.prems(3) Get by (auto split: prod.splits)
    have IH: "inv q1 \<Longrightarrow> contents q1 @ acc = out1 @ contents q' \<and> inv q' \<and> cap q' = cap q1"
      using Cons.IH[OF _ _ q1(2)] Cons.prems(2) by simp
    from Cons.prems(1) n show ?thesis
    proof (cases rule: get_cases)
      case (given q2)
      with q1(1) IH have "drop n (contents q) @ acc = out1 @ contents q'" "inv q'" "cap q' = cap q"
        by auto
      then show ?thesis using given(1) q1(1,3)
        by (metis append.assoc append_take_drop_id prod.inject)
    next
      case refused
      with q1 IH Cons.prems(1) show ?thesis by simp
    qed
  qed
qed

lemma snd_case3:
  "snd (case x of (q, a, b) \<Rightarrow> (q, f a, g b)) = (case snd x of (a, b) \<Rightarrow> (f a, g b))"
  by (simp split: prod.split)

text \<open>Any sequence of operations delivers and refuses what the reference does.\<close>

lemma run_refines:
  assumes "inv q" and "\<forall>x \<in> set ops. fifo_op_ok x"
  shows "snd (fifo_run put get q ops) = snd (fifo_run (bq_put (cap q)) bq_get (contents q) ops)"
  using assms
proof (induction ops arbitrary: q)
  case Nil
  then show ?case by simp
next
  case (Cons x ops)
  show ?case
  proof (cases x)
    case (Put d)
    show ?thesis
    proof (cases "d \<noteq> [] \<and> length d \<le> cap q - length (contents q)")
      case True
      then obtain q' where "put q d = (q', True)" "inv q'" "cap q' = cap q" "contents q' = contents q @ d"
        using put_ok[of q d] Cons.prems(1) by auto
      with Cons.IH[of q'] Cons.prems(2) Put True show ?thesis
        by (simp add: bq_put_def snd_case3)
    next
      case False
      with put_full[of q d] Cons.prems Put have "put q d = (q, False)" by (auto simp: not_le)
      moreover have "bq_put (cap q) (contents q) d = (contents q, False)"
        using False by (auto simp: bq_put_def)
      ultimately show ?thesis
        using Cons.IH[of q] Cons.prems Put by (simp add: snd_case3)
    qed
  next
    case (Get n)
    show ?thesis
    proof (cases "0 < n \<and> n \<le> length (contents q)")
      case True
      then obtain q' where "get q n = (q', take n (contents q))" "inv q'" "cap q' = cap q"
          "contents q' = drop n (contents q)"
        using get_ok[of q n] Cons.prems(1) by auto
      with Cons.IH[of q'] Cons.prems(2) Get True show ?thesis
        by (simp add: bq_get_def snd_case3)
    next
      case False
      with get_short[of q n] Cons.prems Get have "get q n = (q, [])" by (auto simp: not_le)
      moreover have "bq_get (contents q) n = (contents q, [])"
        using False by (auto simp: bq_get_def)
      ultimately show ?thesis
        using Cons.IH[of q] Cons.prems Get by (simp add: snd_case3)
    qed
  qed
qed

end

end
