(* ===== verification/Ring.thy ===== *)
theory Ring
  imports Fifo
begin

text \<open>
  \<^verbatim>\<open>RingBuffer.h\<close>/\<^verbatim>\<open>RingBuffer.cpp\<close>: the byte ring every session receives into and
  sends from. One byte more than the capacity is allocated, \<open>front\<close> is the next byte to
  read, \<open>rear\<close> the next to write, and \<open>fillSize\<close> (updated with an interlocked add) counts the
  bytes between them.

  Operations first, exactly with the code's 32-bit arithmetic; then the abstraction \<open>rb_list\<close>
  to the bytes in the ring, the invariant \<open>rb_inv\<close>, and the refinement lemmas.
\<close>

subsection \<open>The object and its operations\<close>

text \<open>The fields of the class. \<open>rb_buf\<close> is the block the buffer allocator handed out.\<close>

record ring =
  rb_buf :: bytes
  rb_bufSize :: u32
  rb_front :: u32
  rb_rear :: u32
  rb_fillSize :: u32

text \<open>The constructor; \<open>mem\<close> is the block \<^verbatim>\<open>m_ba->Alloc(bufSize)\<close> returns, whose bytes
  are whatever the block held.\<close>

definition RingBuffer_ctor :: "u32 \<Rightarrow> bytes \<Rightarrow> ring" where
  "RingBuffer_ctor n mem =
     \<lparr>rb_buf = mem, rb_bufSize = n + 1, rb_front = 0, rb_rear = 0, rb_fillSize = 0\<rparr>"

definition RingBuffer_GetFillSize :: "ring \<Rightarrow> u32" where
  "RingBuffer_GetFillSize r = rb_fillSize r"

definition RingBuffer_GetEmptySize :: "ring \<Rightarrow> u32" where
  "RingBuffer_GetEmptySize r = rb_bufSize r - rb_fillSize r - 1"

definition RingBuffer_GetBufferSize :: "ring \<Rightarrow> u32" where
  "RingBuffer_GetBufferSize r = rb_bufSize r - 1"

definition RingBuffer_DirectEnqueSize :: "ring \<Rightarrow> u32" where
  "RingBuffer_DirectEnqueSize r =
     (let f_now = rb_front r in
      if rb_fillSize r = rb_bufSize r - 1 then 0
      else if rb_rear r < f_now then f_now - rb_rear r - 1
      else if rb_front r = 0 then rb_bufSize r - rb_rear r - 1
      else rb_bufSize r - rb_rear r)"

definition RingBuffer_DirectDequeSize :: "ring \<Rightarrow> u32" where
  "RingBuffer_DirectDequeSize r =
     (let r_now = rb_rear r in
      if rb_fillSize r = 0 then 0
      else if r_now < rb_front r then rb_bufSize r - rb_front r
      else r_now - rb_front r)"

text \<open>
  \<open>Enqueue(_buf, _size)\<close> returns the number of bytes taken, all or none. The comparisons mix
  \<^verbatim>\<open>int\<close> and \<^verbatim>\<open>unsigned\<close>, so they are unsigned; the first test is signed.
\<close>

definition RingBuffer_Enqueue :: "ring \<Rightarrow> bytes \<Rightarrow> u32 \<Rightarrow> ring \<times> u32" where
  "RingBuffer_Enqueue r src n =
     (if sint n \<le> 0 then (r, 0)
      else if n > rb_bufSize r - rb_fillSize r - 1 then (r, 0)
      else if n > rb_bufSize r - rb_rear r then
        let size1 = rb_bufSize r - rb_rear r;
            size2 = n - size1;
            b1 = splice (unat (rb_rear r)) (take (unat size1) src) (rb_buf r);
            b2 = splice 0 (take (unat size2) (drop (unat size1) src)) b1
        in (r\<lparr>rb_buf := b2, rb_rear := size2, rb_fillSize := rb_fillSize r + n\<rparr>, n)
      else
        let b1 = splice (unat (rb_rear r)) (take (unat n) src) (rb_buf r);
            rear = rb_rear r + n;
            rear = (if rear = rb_bufSize r then 0 else rear)
        in (r\<lparr>rb_buf := b1, rb_rear := rear, rb_fillSize := rb_fillSize r + n\<rparr>, n))"

text \<open>\<open>Dequeue\<close> returns the new ring, the result, and the bytes copied to the caller.\<close>

definition RingBuffer_Dequeue :: "ring \<Rightarrow> u32 \<Rightarrow> ring \<times> u32 \<times> bytes" where
  "RingBuffer_Dequeue r n =
     (if sint n \<le> 0 then (r, 0, [])
      else if sint n > sint (rb_fillSize r) then (r, 0, [])
      else if n > rb_bufSize r - rb_front r then
        let size1 = rb_bufSize r - rb_front r;
            size2 = n - size1;
            out = take (unat size1) (drop (unat (rb_front r)) (rb_buf r)) @ take (unat size2) (rb_buf r)
        in (r\<lparr>rb_front := size2, rb_fillSize := rb_fillSize r - n\<rparr>, n, out)
      else
        let out = take (unat n) (drop (unat (rb_front r)) (rb_buf r));
            front = rb_front r + n;
            front = (if front = rb_bufSize r then 0 else front)
        in (r\<lparr>rb_front := front, rb_fillSize := rb_fillSize r - n\<rparr>, n, out))"

definition RingBuffer_Peek :: "ring \<Rightarrow> u32 \<Rightarrow> u32 \<times> bytes" where
  "RingBuffer_Peek r n =
     (if sint n \<le> 0 then (0, [])
      else if sint n > sint (rb_fillSize r) then (0, [])
      else if n > rb_bufSize r - rb_front r then
        let size1 = rb_bufSize r - rb_front r;
            size2 = n - size1
        in (n, take (unat size1) (drop (unat (rb_front r)) (rb_buf r)) @ take (unat size2) (rb_buf r))
      else (n, take (unat n) (drop (unat (rb_front r)) (rb_buf r))))"

definition RingBuffer_MoveRear :: "ring \<Rightarrow> u32 \<Rightarrow> ring" where
  "RingBuffer_MoveRear r n =
     (let nowRear = (rb_rear r + n) mod rb_bufSize r
      in r\<lparr>rb_rear := nowRear, rb_fillSize := rb_fillSize r + n\<rparr>)"

definition RingBuffer_MoveFront :: "ring \<Rightarrow> u32 \<Rightarrow> ring" where
  "RingBuffer_MoveFront r n =
     (let nowFront = (rb_front r + n) mod rb_bufSize r
      in r\<lparr>rb_front := nowFront, rb_fillSize := rb_fillSize r - n\<rparr>)"

definition RingBuffer_ClearBuffer :: "ring \<Rightarrow> ring" where
  "RingBuffer_ClearBuffer r = r\<lparr>rb_rear := 0, rb_front := 0, rb_fillSize := 0\<rparr>"

text \<open>The pointer getters return an offset into the block.\<close>

definition RingBuffer_GetFrontPtr :: "ring \<Rightarrow> nat" where
  "RingBuffer_GetFrontPtr r = unat (rb_front r)"

definition RingBuffer_GetRearPtr :: "ring \<Rightarrow> nat" where
  "RingBuffer_GetRearPtr r = unat (rb_rear r)"

definition RingBuffer_GetBufPtr :: "ring \<Rightarrow> nat" where
  "RingBuffer_GetBufPtr r = 0"

definition RingBuffer_IsFull :: "ring \<Rightarrow> bool" where
  "RingBuffer_IsFull r \<longleftrightarrow> rb_fillSize r + 1 \<ge> rb_bufSize r"

definition RingBuffer_IsEmpty :: "ring \<Rightarrow> bool" where
  "RingBuffer_IsEmpty r \<longleftrightarrow> rb_fillSize r = 0"

subsection \<open>Scatter and gather\<close>

text \<open>
  \<open>WSARecv\<close> fills the supplied segments (offset and length in the ring's block) in order;
  \<open>WSASend\<close> sends their bytes in order. This is the documented behaviour of the two calls.
\<close>

fun seg_write :: "(nat \<times> nat) list \<Rightarrow> bytes \<Rightarrow> bytes \<Rightarrow> bytes" where
  "seg_write [] d b = b"
| "seg_write ((off, len) # segs) d b = seg_write segs (drop len d) (splice off (take len d) b)"

definition seg_read :: "(nat \<times> nat) list \<Rightarrow> bytes \<Rightarrow> bytes" where
  "seg_read segs b = concat (map (\<lambda>(off, len). take len (drop off b)) segs)"

definition seg_total :: "(nat \<times> nat) list \<Rightarrow> nat" where
  "seg_total segs = sum_list (map snd segs)"

subsection \<open>Invariant and abstraction\<close>

text \<open>\<open>rb_list r\<close> is what the ring holds, oldest byte first.\<close>

definition rb_list :: "ring \<Rightarrow> bytes" where
  "rb_list r = map (\<lambda>i. rb_buf r ! ((unat (rb_front r) + i) mod unat (rb_bufSize r)))
                   [0..<unat (rb_fillSize r)]"

definition rb_inv :: "ring \<Rightarrow> bool" where
  "rb_inv r \<longleftrightarrow> unat (rb_bufSize r) \<le> length (rb_buf r) \<and> unat (rb_bufSize r) < 2 ^ 30 \<and>
     unat (rb_front r) < unat (rb_bufSize r) \<and> unat (rb_fillSize r) < unat (rb_bufSize r) \<and>
     unat (rb_rear r) = (unat (rb_front r) + unat (rb_fillSize r)) mod unat (rb_bufSize r)"

definition rb_capacity :: "ring \<Rightarrow> nat" where
  "rb_capacity r = unat (rb_bufSize r) - 1"

subsection \<open>Writing behind the last byte\<close>

text \<open>Both ways the code writes (\<open>Enqueue\<close>, and a receive into the two free segments) put the
  bytes at \<open>w, w + 1, \<dots>\<close> modulo the ring size.\<close>

definition ring_put :: "nat \<Rightarrow> nat \<Rightarrow> bytes \<Rightarrow> bytes \<Rightarrow> bytes" where
  "ring_put N w src b =
     splice 0 (drop (N - w) src) (splice w (take (N - w) src) b)"

lemma length_ring_put [simp]:
  assumes "length src < N" "w < N" "N \<le> length b"
  shows "length (ring_put N w src b) = length b"
  using assms by (simp add: ring_put_def)

lemma ring_put_nth:
  assumes "length src < N" "w < N" "N \<le> length b" "j < length src"
  shows "ring_put N w src b ! ((w + j) mod N) = src ! j"
proof (cases "w + j < N")
  case True
  with assms show ?thesis by (auto simp: ring_put_def nth_splice)
next
  case False
  then have "(w + j) mod N = w + j - N"
    using assms by (simp add: mod_if le_mod_geq)
  with False assms show ?thesis by (auto simp: ring_put_def nth_splice)
qed

lemma ring_put_other:
  assumes "length src < N" "w < N" "N \<le> length b" "p < N"
    and "\<And>j. j < length src \<Longrightarrow> p \<noteq> (w + j) mod N"
  shows "ring_put N w src b ! p = b ! p"
proof -
  have "\<not> (w \<le> p \<and> p < w + min (length src) (N - w))"
  proof
    assume h: "w \<le> p \<and> p < w + min (length src) (N - w)"
    then have "p - w < length src" by linarith
    moreover have "p = (w + (p - w)) mod N" using h assms(4) by simp
    ultimately show False using assms(5) by blast
  qed
  moreover have "\<not> p < length src - (N - w)"
  proof
    assume h: "p < length src - (N - w)"
    then have "p + N - w < length src" using assms(2) by linarith
    moreover have "p = (w + (p + N - w)) mod N" using assms(2,4) by simp
    ultimately show False using assms(5) by blast
  qed
  ultimately show ?thesis using assms(1-4) by (auto simp: ring_put_def nth_splice min_def split: if_splits)
qed

lemma ring_put_list:
  assumes "k + length src < N" "f < N" "N \<le> length b" "w = (f + k) mod N"
  shows "map (\<lambda>i. ring_put N w src b ! ((f + i) mod N)) [0..<k + length src]
       = map (\<lambda>i. b ! ((f + i) mod N)) [0..<k] @ src"
proof (rule nth_equalityI, simp)
  fix i assume "i < length (map (\<lambda>i. ring_put N w src b ! ((f + i) mod N)) [0..<k + length src])"
  then have i: "i < k + length src" by simp
  have w: "w < N" using assms by (cases N) auto
  show "map (\<lambda>i. ring_put N w src b ! ((f + i) mod N)) [0..<k + length src] ! i
      = (map (\<lambda>i. b ! ((f + i) mod N)) [0..<k] @ src) ! i"
  proof (cases "i < k")
    case True
    have "ring_put N w src b ! ((f + i) mod N) = b ! ((f + i) mod N)"
    proof (rule ring_put_other)
      fix j assume "j < length src"
      show "(f + i) mod N \<noteq> (w + j) mod N"
      proof
        assume "(f + i) mod N = (w + j) mod N"
        then have "(f + i) mod N = (f + (k + j)) mod N"
          using assms(4) by (simp add: mod_add_left_eq add.assoc)
        then have "i = k + j"
          using mod_shift_inj[of f i N "k + j"] True \<open>j < length src\<close> assms(1) by simp
        with True show False by simp
      qed
    qed (use assms w in auto)
    with True i show ?thesis by (simp add: nth_append)
  next
    case False
    have "(w + (i - k)) mod N = (f + k + (i - k)) mod N"
      by (simp only: assms(4) mod_add_left_eq)
    then have "(f + i) mod N = (w + (i - k)) mod N"
      using False by simp
    then have "ring_put N w src b ! ((f + i) mod N) = src ! (i - k)"
      using ring_put_nth[of src N w b "i - k"] assms w i False by simp
    with False i show ?thesis by (simp add: nth_append)
  qed
qed

subsection \<open>The code's word arithmetic under the invariant\<close>

lemma rb_inv_words:
  assumes "rb_inv r"
  shows "unat (rb_bufSize r - rb_fillSize r - 1) = unat (rb_bufSize r) - unat (rb_fillSize r) - 1"
    and "unat (rb_bufSize r - 1) = unat (rb_bufSize r) - 1"
    and "unat (rb_bufSize r - rb_rear r) = unat (rb_bufSize r) - unat (rb_rear r)"
    and "unat (rb_bufSize r - rb_front r) = unat (rb_bufSize r) - unat (rb_front r)"
    and "unat (rb_rear r) < unat (rb_bufSize r)"
    and "unat (rb_fillSize r) < 2 ^ 31"
    and "unat (rb_bufSize r - rb_rear r - 1) = unat (rb_bufSize r) - unat (rb_rear r) - 1"
proof -
  have N: "0 < unat (rb_bufSize r)" using assms by (auto simp: rb_inv_def)
  show rear: "unat (rb_rear r) < unat (rb_bufSize r)"
    using assms N by (simp add: rb_inv_def)
  show "unat (rb_bufSize r - 1) = unat (rb_bufSize r) - 1"
    using N by (subst unat_sub_le) auto
  show f: "unat (rb_bufSize r - rb_front r) = unat (rb_bufSize r) - unat (rb_front r)"
    using assms by (subst unat_sub_le) (auto simp: rb_inv_def)
  show w: "unat (rb_bufSize r - rb_rear r) = unat (rb_bufSize r) - unat (rb_rear r)"
    using rear by (subst unat_sub_le) auto
  have k: "unat (rb_bufSize r - rb_fillSize r) = unat (rb_bufSize r) - unat (rb_fillSize r)"
    using assms by (subst unat_sub_le) (auto simp: rb_inv_def)
  show "unat (rb_bufSize r - rb_fillSize r - 1) = unat (rb_bufSize r) - unat (rb_fillSize r) - 1"
    using assms k by (subst unat_sub_le) (auto simp: rb_inv_def)
  show "unat (rb_bufSize r - rb_rear r - 1) = unat (rb_bufSize r) - unat (rb_rear r) - 1"
    using rear w by (subst unat_sub_le) auto
  show "unat (rb_fillSize r) < 2 ^ 31"
    using assms by (auto simp: rb_inv_def)
qed

lemma length_rb_list [simp]: "length (rb_list r) = unat (rb_fillSize r)"
  by (simp add: rb_list_def)

text \<open>After a write of \<open>src\<close> behind the last byte and the matching index update.\<close>

lemma rb_put:
  assumes r: "rb_inv r" and src: "length src < unat (rb_bufSize r) - unat (rb_fillSize r)"
    and n: "unat n = length src"
    and w': "unat w' = (unat (rb_rear r) + length src) mod unat (rb_bufSize r)"
    and b': "b' = ring_put (unat (rb_bufSize r)) (unat (rb_rear r)) src (rb_buf r)"
  defines "r' \<equiv> r\<lparr>rb_buf := b', rb_rear := w', rb_fillSize := rb_fillSize r + n\<rparr>"
  shows "rb_inv r' \<and> rb_list r' = rb_list r @ src"
proof
  let ?N = "unat (rb_bufSize r)" and ?f = "unat (rb_front r)" and ?k = "unat (rb_fillSize r)"
  have k': "unat (rb_fillSize r + n) = ?k + length src"
    using r src n by (subst unat_add_small) (auto simp: rb_inv_def)
  have w: "unat (rb_rear r) = (?f + ?k) mod ?N" using r by (simp add: rb_inv_def)
  have len: "length b' = length (rb_buf r)"
    unfolding b' using r src rb_inv_words(5)[OF r] by (intro length_ring_put) (auto simp: rb_inv_def)
  show "rb_inv r'"
    using r src k' len w' w by (auto simp: rb_inv_def r'_def mod_add_left_eq add.assoc)
  show "rb_list r' = rb_list r @ src"
    using ring_put_list[of ?k src ?N ?f "rb_buf r" "unat (rb_rear r)"] r src w
    by (simp add: rb_list_def r'_def k' b' rb_inv_def)
qed

subsection \<open>The operations refine a bounded byte queue\<close>

lemma rb_ctor:
  assumes "unat n < 2 ^ 30 - 1" and "unat n + 1 \<le> length mem"
  shows "rb_inv (RingBuffer_ctor n mem) \<and> rb_list (RingBuffer_ctor n mem) = [] \<and>
    rb_capacity (RingBuffer_ctor n mem) = unat n"
proof -
  have "unat (n + 1) = unat n + 1"
    using assms by (subst unat_add_small) auto
  with assms show ?thesis by (simp add: rb_inv_def rb_list_def rb_capacity_def RingBuffer_ctor_def)
qed

lemma rb_ClearBuffer:
  "rb_inv r \<Longrightarrow> rb_inv (RingBuffer_ClearBuffer r) \<and> rb_list (RingBuffer_ClearBuffer r) = [] \<and>
     rb_capacity (RingBuffer_ClearBuffer r) = rb_capacity r"
  by (auto simp: rb_inv_def rb_list_def rb_capacity_def RingBuffer_ClearBuffer_def)

lemma rb_sizes:
  assumes "rb_inv r"
  shows "unat (RingBuffer_GetFillSize r) = length (rb_list r)"
    and "unat (RingBuffer_GetEmptySize r) = rb_capacity r - length (rb_list r)"
    and "unat (RingBuffer_GetBufferSize r) = rb_capacity r"
    and "length (rb_list r) \<le> rb_capacity r"
  using assms rb_inv_words[OF assms]
  by (auto simp: RingBuffer_GetFillSize_def RingBuffer_GetEmptySize_def
      RingBuffer_GetBufferSize_def rb_capacity_def rb_inv_def)

lemma rb_capacity_upd [simp]:
  "rb_capacity (r\<lparr>rb_buf := b\<rparr>) = rb_capacity r"
  "rb_capacity (r\<lparr>rb_front := x\<rparr>) = rb_capacity r"
  "rb_capacity (r\<lparr>rb_rear := x\<rparr>) = rb_capacity r"
  "rb_capacity (r\<lparr>rb_fillSize := x\<rparr>) = rb_capacity r"
  by (simp_all add: rb_capacity_def)

lemma rb_Enqueue_ok:
  assumes r: "rb_inv r" and n: "0 < unat n" "unat n \<le> rb_capacity r - length (rb_list r)"
    and src: "unat n \<le> length src"
  obtains r' where "RingBuffer_Enqueue r src n = (r', n)" "rb_inv r'"
    "rb_list r' = rb_list r @ take (unat n) src" "rb_capacity r' = rb_capacity r"
proof -
  let ?N = "unat (rb_bufSize r)" and ?w = "unat (rb_rear r)" and ?s = "take (unat n) src"
  note W = rb_inv_words[OF r]
  have N: "?N < 2 ^ 30" using r by (simp add: rb_inv_def)
  have "unat n < 2 ^ 31" using n N by (simp add: rb_capacity_def)
  then have pos: "\<not> sint n \<le> 0" using n by (simp add: sint_le_0_iff)
  have fits: "\<not> n > rb_bufSize r - rb_fillSize r - 1"
    using n W(1) by (simp add: word_less_nat_alt rb_capacity_def)
  have ls: "length ?s = unat n" using src by simp
  have room: "length ?s < ?N - unat (rb_fillSize r)"
    using r n ls by (auto simp: rb_capacity_def rb_inv_def)
  define w' where "w' = (if n > rb_bufSize r - rb_rear r then n - (rb_bufSize r - rb_rear r)
     else if rb_rear r + n = rb_bufSize r then 0 else rb_rear r + n)"
  define r' where "r' = r\<lparr>rb_buf := ring_put ?N ?w ?s (rb_buf r), rb_rear := w',
     rb_fillSize := rb_fillSize r + n\<rparr>"
  have sum: "unat (rb_rear r + n) = ?w + unat n"
    using W(5) N n by (subst unat_add_small) (auto simp: rb_capacity_def)
  have w': "unat w' = (?w + unat n) mod ?N"
  proof (cases "n > rb_bufSize r - rb_rear r")
    case True
    then have "unat (n - (rb_bufSize r - rb_rear r)) = unat n - (?N - ?w)"
      using W(3) by (subst unat_sub_le) (auto simp: word_less_nat_alt)
    with True W(3,5) n show ?thesis
      by (auto simp: w'_def word_less_nat_alt mod_if rb_capacity_def)
  next
    case False
    with W(3,5) sum show ?thesis
      by (auto simp: w'_def word_less_nat_alt mod_if unat_eq_iff)
  qed
  have "rb_inv r' \<and> rb_list r' = rb_list r @ ?s"
    unfolding r'_def by (rule rb_put[OF r room _ _ refl]) (simp_all only: ls w')
  moreover have "RingBuffer_Enqueue r src n = (r', n)"
  proof (cases "n > rb_bufSize r - rb_rear r")
    case True
    then have "?N - ?w < unat n" using W(3) by (simp add: word_less_nat_alt)
    moreover have "unat (n - (rb_bufSize r - rb_rear r)) = unat n - (?N - ?w)"
      using True W(3) by (subst unat_sub_le) (auto simp: word_less_nat_alt)
    ultimately show ?thesis
      using pos fits True W(3) src
      by (simp add: RingBuffer_Enqueue_def Let_def r'_def w'_def ring_put_def min_def drop_take)
  next
    case False
    then have "unat n \<le> ?N - ?w" using W(3) by (simp add: word_less_nat_alt)
    with pos fits False src show ?thesis
      by (simp add: RingBuffer_Enqueue_def Let_def r'_def w'_def ring_put_def min_def)
  qed
  ultimately show ?thesis using that by (simp add: r'_def)
qed

lemma rb_Enqueue_fail:
  assumes r: "rb_inv r" and n: "unat n < 2 ^ 31"
    and bad: "unat n = 0 \<or> rb_capacity r - length (rb_list r) < unat n"
  shows "RingBuffer_Enqueue r src n = (r, 0)"
proof -
  have "sint n \<le> 0 \<longleftrightarrow> unat n = 0" using n by (rule sint_le_0_iff)
  moreover have "n > rb_bufSize r - rb_fillSize r - 1 \<longleftrightarrow> rb_capacity r - length (rb_list r) < unat n"
    using rb_inv_words(1)[OF r] by (auto simp: word_less_nat_alt rb_capacity_def)
  ultimately show ?thesis using bad by (auto simp: RingBuffer_Enqueue_def simp del: unat_eq_0)
qed

text \<open>Reading: the bytes from \<open>front\<close> on, in the two pieces the code copies.\<close>

lemma ring_get:
  assumes "n \<le> k" "k < N" "f < N" "N \<le> length b"
  shows "take n (map (\<lambda>i. b ! ((f + i) mod N)) [0..<k])
       = (if N - f < n then take (N - f) (drop f b) @ take (n - (N - f)) b else take n (drop f b))"
proof (rule nth_equalityI)
  fix i assume "i < length (take n (map (\<lambda>i. b ! ((f + i) mod N)) [0..<k]))"
  then have i: "i < n" "i < k" by simp_all
  then have m: "(f + i) mod N = (if i < N - f then f + i else i - (N - f))"
    using assms by (auto simp: mod_if)
  show "take n (map (\<lambda>i. b ! ((f + i) mod N)) [0..<k]) ! i
      = (if N - f < n then take (N - f) (drop f b) @ take (n - (N - f)) b else take n (drop f b)) ! i"
    using assms i by (auto simp: nth_append m)
qed (use assms in auto)

lemma ring_rest:
  assumes "n \<le> k" "k < N" "f < N"
  shows "drop n (map (\<lambda>i. b ! ((f + i) mod N)) [0..<k])
       = map (\<lambda>i. b ! (((f + n) mod N + i) mod N)) [0..<k - n]"
  using assms by (auto intro!: nth_equalityI simp: mod_add_left_eq add.assoc)

text \<open>The index update that both \<open>Dequeue\<close> and \<open>MoveFront\<close> perform.\<close>

lemma rb_advance:
  assumes r: "rb_inv r" and n: "unat n \<le> length (rb_list r)"
    and f': "unat f' = (unat (rb_front r) + unat n) mod unat (rb_bufSize r)"
  defines "r' \<equiv> r\<lparr>rb_front := f', rb_fillSize := rb_fillSize r - n\<rparr>"
  shows "rb_inv r' \<and> rb_list r' = drop (unat n) (rb_list r)"
proof
  have k: "unat (rb_fillSize r - n) = unat (rb_fillSize r) - unat n"
    using n by (subst unat_sub_le) auto
  show "rb_inv r'"
    using r n f' k by (auto simp: rb_inv_def r'_def mod_add_left_eq add.assoc simp flip: add_diff_assoc)
  show "rb_list r' = drop (unat n) (rb_list r)"
    using r n ring_rest[of "unat n" "unat (rb_fillSize r)" "unat (rb_bufSize r)" "unat (rb_front r)" "rb_buf r"]
    by (auto simp: rb_list_def r'_def f' k rb_inv_def)
qed

lemma rb_Peek_ok:
  assumes r: "rb_inv r" and n: "0 < unat n" "unat n \<le> length (rb_list r)"
  shows "RingBuffer_Peek r n = (n, take (unat n) (rb_list r))"
proof -
  note W = rb_inv_words[OF r]
  have "unat n < 2 ^ 31" using n W(6) by simp
  then have n31: "\<not> sint n \<le> 0" "\<not> sint n > sint (rb_fillSize r)"
    using n W(6) by (simp_all add: sint_le_0_iff sint_less_iff)
  have wrap: "n > rb_bufSize r - rb_front r \<longleftrightarrow> unat (rb_bufSize r) - unat (rb_front r) < unat n"
    using W(4) by (simp add: word_less_nat_alt)
  have sz2: "unat (n - (rb_bufSize r - rb_front r)) = unat n - (unat (rb_bufSize r) - unat (rb_front r))"
    if "n > rb_bufSize r - rb_front r" using that W(4) by (subst unat_sub_le) (auto simp: word_less_nat_alt)
  have "take (unat n) (rb_list r) = (if n > rb_bufSize r - rb_front r
      then take (unat (rb_bufSize r) - unat (rb_front r)) (drop (unat (rb_front r)) (rb_buf r)) @
           take (unat n - (unat (rb_bufSize r) - unat (rb_front r))) (rb_buf r)
      else take (unat n) (drop (unat (rb_front r)) (rb_buf r)))"
    unfolding rb_list_def wrap using r n by (intro ring_get) (auto simp: rb_inv_def)
  then show ?thesis
    using n31 W(4) sz2 by (auto simp: RingBuffer_Peek_def Let_def)
qed

lemma rb_Peek_fail:
  assumes r: "rb_inv r" and n: "unat n < 2 ^ 31" and bad: "unat n = 0 \<or> length (rb_list r) < unat n"
  shows "RingBuffer_Peek r n = (0, [])"
  using bad sint_le_0_iff[OF n] sint_less_iff[OF rb_inv_words(6)[OF r] n]
  by (auto simp: RingBuffer_Peek_def simp del: unat_eq_0)

text \<open>\<open>Dequeue\<close> copies out what \<open>Peek\<close> copies, then advances.\<close>

lemma rb_Dequeue_Peek: "snd (RingBuffer_Dequeue r n) = RingBuffer_Peek r n"
  by (auto simp: RingBuffer_Dequeue_def RingBuffer_Peek_def Let_def)

lemma rb_Dequeue_ok:
  assumes r: "rb_inv r" and n: "0 < unat n" "unat n \<le> length (rb_list r)"
  obtains r' where "RingBuffer_Dequeue r n = (r', n, take (unat n) (rb_list r))" "rb_inv r'"
    "rb_list r' = drop (unat n) (rb_list r)" "rb_capacity r' = rb_capacity r"
proof -
  note W = rb_inv_words[OF r]
  let ?N = "unat (rb_bufSize r)" and ?f = "unat (rb_front r)"
  have "unat n < 2 ^ 31" using n W(6) by simp
  then have pos: "\<not> sint n \<le> 0" "\<not> sint n > sint (rb_fillSize r)"
    using n W(6) by (simp_all add: sint_le_0_iff sint_less_iff)
  have N: "?N < 2 ^ 30" "?f < ?N" "unat n < ?N" using r n by (auto simp: rb_inv_def)
  define f' where "f' = (if n > rb_bufSize r - rb_front r then n - (rb_bufSize r - rb_front r)
     else if rb_front r + n = rb_bufSize r then 0 else rb_front r + n)"
  have sum: "unat (rb_front r + n) = ?f + unat n" using N by (subst unat_add_small) auto
  have f': "unat f' = (?f + unat n) mod ?N"
  proof (cases "n > rb_bufSize r - rb_front r")
    case True
    then have "unat (n - (rb_bufSize r - rb_front r)) = unat n - (?N - ?f)"
      using W(4) by (subst unat_sub_le) (auto simp: word_less_nat_alt)
    with True W(4) N show ?thesis by (auto simp: f'_def word_less_nat_alt mod_if)
  next
    case False
    with W(4) N sum show ?thesis by (auto simp: f'_def word_less_nat_alt mod_if unat_eq_iff)
  qed
  have eq: "fst (RingBuffer_Dequeue r n) = r\<lparr>rb_front := f', rb_fillSize := rb_fillSize r - n\<rparr>"
    using pos by (simp add: RingBuffer_Dequeue_def Let_def f'_def)
  have "RingBuffer_Dequeue r n = (fst (RingBuffer_Dequeue r n), n, take (unat n) (rb_list r))"
    using rb_Peek_ok[OF r n] rb_Dequeue_Peek[of r n] by (metis prod.collapse)
  with eq that show ?thesis using rb_advance[OF r n(2) f'] by simp
qed

lemma rb_Dequeue_fail:
  assumes r: "rb_inv r" and n: "unat n < 2 ^ 31" and bad: "unat n = 0 \<or> length (rb_list r) < unat n"
  shows "RingBuffer_Dequeue r n = (r, 0, [])"
  using bad sint_le_0_iff[OF n] sint_less_iff[OF rb_inv_words(6)[OF r] n]
  by (auto simp: RingBuffer_Dequeue_def simp del: unat_eq_0)

lemma rb_MoveFront:
  assumes r: "rb_inv r" and n: "unat n \<le> length (rb_list r)"
  shows "rb_inv (RingBuffer_MoveFront r n)"
    and "rb_list (RingBuffer_MoveFront r n) = drop (unat n) (rb_list r)"
    and "rb_capacity (RingBuffer_MoveFront r n) = rb_capacity r"
proof -
  have "unat (rb_front r + n) = unat (rb_front r) + unat n"
    using r n by (subst unat_add_small) (auto simp: rb_inv_def)
  then have "unat ((rb_front r + n) mod rb_bufSize r) =
      (unat (rb_front r) + unat n) mod unat (rb_bufSize r)"
    by (simp add: unat_mod)
  from rb_advance[OF r n this]
  show "rb_inv (RingBuffer_MoveFront r n)"
    and "rb_list (RingBuffer_MoveFront r n) = drop (unat n) (rb_list r)"
    by (simp_all add: RingBuffer_MoveFront_def Let_def)
qed (simp add: RingBuffer_MoveFront_def Let_def)

lemma rb_IsEmpty: "rb_inv r \<Longrightarrow> RingBuffer_IsEmpty r \<longleftrightarrow> rb_list r = []"
  by (simp add: RingBuffer_IsEmpty_def rb_list_def unat_eq_iff)

lemma rb_IsFull: "rb_inv r \<Longrightarrow> RingBuffer_IsFull r \<longleftrightarrow> length (rb_list r) = rb_capacity r"
proof -
  assume r: "rb_inv r"
  then have "unat (rb_fillSize r + 1) = unat (rb_fillSize r) + 1"
    by (subst unat_add_small) (auto simp: rb_inv_def)
  with r show ?thesis
    by (auto simp: RingBuffer_IsFull_def word_le_nat_alt rb_capacity_def rb_inv_def)
qed

subsection \<open>Scatter receive and gather send\<close>

text \<open>
  The two \<^verbatim>\<open>WSABUF\<close> entries \<open>recvPost\<close> hands to \<open>WSARecv\<close>: the free space behind \<open>rear\<close>, and,
  when that is not all of it, the free space at the start of the block.
\<close>

definition recv_segments :: "ring \<Rightarrow> (nat \<times> nat) list" where
  "recv_segments r =
     (let emptySize = RingBuffer_GetEmptySize r;
          size1 = RingBuffer_DirectEnqueSize r
      in (RingBuffer_GetRearPtr r, unat size1) #
         (if size1 < emptySize then [(RingBuffer_GetBufPtr r, unat (emptySize - size1))] else []))"

text \<open>The entries \<open>sendPost\<close> hands to \<open>WSASend\<close>.\<close>

definition send_segments :: "ring \<Rightarrow> (nat \<times> nat) list" where
  "send_segments r =
     (let fillSize = RingBuffer_GetFillSize r;
          size1 = RingBuffer_DirectDequeSize r
      in (RingBuffer_GetFrontPtr r, unat size1) #
         (if size1 < fillSize then [(RingBuffer_GetBufPtr r, unat (fillSize - size1))] else []))"

lemma rb_DirectEnqueSize:
  assumes r: "rb_inv r"
  shows "unat (RingBuffer_DirectEnqueSize r) =
    min (rb_capacity r - length (rb_list r)) (unat (rb_bufSize r) - unat (rb_rear r))"
proof -
  note W = rb_inv_words[OF r]
  let ?N = "unat (rb_bufSize r)" and ?f = "unat (rb_front r)" and ?k = "unat (rb_fillSize r)"
    and ?w = "unat (rb_rear r)"
  have b: "?f < ?N" "?k < ?N" "?w < ?N" using r W(5) by (auto simp: rb_inv_def)
  have w: "?w = (if ?f + ?k < ?N then ?f + ?k else ?f + ?k - ?N)"
    using r b by (auto simp: rb_inv_def mod_if)
  have full: "rb_fillSize r = rb_bufSize r - 1 \<longleftrightarrow> ?k = ?N - 1"
    using W(2) by (auto simp: unat_eq_iff)
  have bk: "unat (rb_front r - rb_rear r - 1) = ?f - ?w - 1" if "?w < ?f"
  proof -
    have "unat (rb_front r - rb_rear r) = ?f - ?w" using that by (subst unat_sub_le) auto
    then show ?thesis using that by (subst unat_sub_le) auto
  qed
  show ?thesis
    using b w full bk W(3,7)
    by (auto simp: RingBuffer_DirectEnqueSize_def Let_def rb_capacity_def word_less_nat_alt unat_eq_iff
        split: if_splits)
qed

lemma rb_DirectDequeSize:
  assumes r: "rb_inv r"
  shows "unat (RingBuffer_DirectDequeSize r) =
    min (length (rb_list r)) (unat (rb_bufSize r) - unat (rb_front r))"
proof -
  note W = rb_inv_words[OF r]
  let ?N = "unat (rb_bufSize r)" and ?f = "unat (rb_front r)" and ?k = "unat (rb_fillSize r)"
    and ?w = "unat (rb_rear r)"
  have b: "?f < ?N" "?k < ?N" "?w < ?N" using r W(5) by (auto simp: rb_inv_def)
  have w: "?w = (if ?f + ?k < ?N then ?f + ?k else ?f + ?k - ?N)"
    using r b by (auto simp: rb_inv_def mod_if)
  have fwd: "unat (rb_rear r - rb_front r) = ?w - ?f" if "\<not> ?w < ?f"
    using that by (subst unat_sub_le) auto
  show ?thesis
    using b w fwd W(4)
    by (auto simp: RingBuffer_DirectDequeSize_def Let_def word_less_nat_alt unat_eq_iff split: if_splits)
qed

text \<open>
  A receive of \<open>d\<close> into the free segments followed by \<open>MoveRear\<close> appends \<open>d\<close>: the kernel may
  write the ring directly.
\<close>

lemma recv_segments_total:
  assumes r: "rb_inv r"
  shows "seg_total (recv_segments r) = rb_capacity r - length (rb_list r)"
proof -
  have e: "unat (RingBuffer_GetEmptySize r) = rb_capacity r - length (rb_list r)"
    by (rule rb_sizes[OF r])
  note d = rb_DirectEnqueSize[OF r]
  then have "unat (RingBuffer_GetEmptySize r - RingBuffer_DirectEnqueSize r) =
      unat (RingBuffer_GetEmptySize r) - unat (RingBuffer_DirectEnqueSize r)"
    using e by (subst unat_sub_le) auto
  moreover have "unat (RingBuffer_DirectEnqueSize r) \<le> unat (RingBuffer_GetEmptySize r)"
    using d e by simp
  ultimately show ?thesis unfolding e [symmetric]
    by (auto simp: recv_segments_def seg_total_def Let_def word_less_nat_alt)
qed

lemma recv_segments_write:
  assumes r: "rb_inv r" and d: "length d \<le> rb_capacity r - length (rb_list r)"
  shows "seg_write (recv_segments r) d (rb_buf r)
       = ring_put (unat (rb_bufSize r)) (unat (rb_rear r)) d (rb_buf r)"
proof -
  let ?E = "unat (RingBuffer_GetEmptySize r)" and ?D = "unat (RingBuffer_DirectEnqueSize r)"
  let ?N = "unat (rb_bufSize r)" and ?w = "unat (rb_rear r)"
  note W = rb_inv_words(5)[OF r]
  have e: "?E = rb_capacity r - length (rb_list r)" by (rule rb_sizes[OF r])
  have D: "?D = min ?E (?N - ?w)" unfolding e by (rule rb_DirectEnqueSize[OF r])
  have sub: "unat (RingBuffer_GetEmptySize r - RingBuffer_DirectEnqueSize r) = ?E - ?D"
    using D by (subst unat_sub_le) auto
  show ?thesis
  proof (cases "?D < ?E")
    case True
    with D have "?D = ?N - ?w" by auto
    moreover have "take (?E - ?D) (drop ?D d) = drop ?D d" using d e by simp
    ultimately show ?thesis using True sub
      by (simp add: recv_segments_def ring_put_def Let_def word_less_nat_alt
          RingBuffer_GetRearPtr_def RingBuffer_GetBufPtr_def)
  next
    case False
    with D have "?D = ?E" "?E \<le> ?N - ?w" by auto
    with False d e show ?thesis
      by (simp add: recv_segments_def ring_put_def Let_def word_less_nat_alt RingBuffer_GetRearPtr_def)
  qed
qed

lemma rb_MoveRear:
  assumes r: "rb_inv r" and d: "length d \<le> rb_capacity r - length (rb_list r)"
    and n: "unat n = length d"
  defines "r' \<equiv> RingBuffer_MoveRear (r\<lparr>rb_buf := seg_write (recv_segments r) d (rb_buf r)\<rparr>) n"
  shows "rb_inv r'" and "rb_list r' = rb_list r @ d" and "rb_capacity r' = rb_capacity r"
proof -
  note W = rb_inv_words(5)[OF r]
  have N: "unat (rb_bufSize r) < 2 ^ 30" using r by (simp add: rb_inv_def)
  have room: "length d < unat (rb_bufSize r) - unat (rb_fillSize r)"
    using r d by (auto simp: rb_capacity_def rb_inv_def)
  have "unat (rb_rear r + n) = unat (rb_rear r) + unat n"
    using W room n N by (subst unat_add_small) auto
  then have w': "unat ((rb_rear r + n) mod rb_bufSize r) =
      (unat (rb_rear r) + length d) mod unat (rb_bufSize r)"
    by (simp add: unat_mod n)
  note p = rb_put[OF r room n w' recv_segments_write[OF r d]]
  from p show "rb_inv r'" and "rb_list r' = rb_list r @ d"
    by (simp_all add: r'_def RingBuffer_MoveRear_def Let_def)
  show "rb_capacity r' = rb_capacity r"
    by (simp add: r'_def RingBuffer_MoveRear_def Let_def)
qed

text \<open>The send segments are exactly the bytes in the ring, in order.\<close>

lemma send_segments_read:
  assumes r: "rb_inv r"
  shows "seg_read (send_segments r) (rb_buf r) = rb_list r"
proof -
  let ?K = "unat (RingBuffer_GetFillSize r)" and ?D = "unat (RingBuffer_DirectDequeSize r)"
  let ?N = "unat (rb_bufSize r)" and ?f = "unat (rb_front r)"
  have k: "?K = length (rb_list r)" by (rule rb_sizes[OF r])
  have D: "?D = min ?K (?N - ?f)" unfolding k by (rule rb_DirectDequeSize[OF r])
  have sub: "unat (RingBuffer_GetFillSize r - RingBuffer_DirectDequeSize r) = ?K - ?D"
    using D by (subst unat_sub_le) auto
  have all: "rb_list r = take (length (rb_list r)) (rb_list r)" by simp
  have "rb_list r = (if ?N - ?f < ?K then take (?N - ?f) (drop ?f (rb_buf r)) @
      take (?K - (?N - ?f)) (rb_buf r) else take ?K (drop ?f (rb_buf r)))"
    unfolding k by (subst all, subst (2) rb_list_def, rule ring_get)
      (use r in \<open>auto simp: rb_inv_def\<close>)
  with D sub show ?thesis
    by (auto simp: send_segments_def seg_read_def Let_def word_less_nat_alt min_def
        RingBuffer_GetFrontPtr_def RingBuffer_GetBufPtr_def split: if_splits)
qed

subsection \<open>The ring provides the byte-queue contract\<close>

definition ring_put_op :: "ring \<Rightarrow> bytes \<Rightarrow> ring \<times> bool" where
  "ring_put_op r d = (case RingBuffer_Enqueue r d (of_nat (length d)) of (r', m) \<Rightarrow> (r', m \<noteq> 0))"

definition ring_get_op :: "ring \<Rightarrow> nat \<Rightarrow> ring \<times> bytes" where
  "ring_get_op r n = (case RingBuffer_Dequeue r (of_nat n) of (r', m, d) \<Rightarrow> (r', d))"

lemma unat_of_nat_int: "n < 2 ^ 31 \<Longrightarrow> unat (of_nat n :: u32) = n"
  by (simp add: unat_of_nat take_bit_nat_eq_self)

interpretation ring: byte_fifo rb_inv rb_capacity rb_list ring_put_op ring_get_op
proof
  fix q :: ring and d :: bytes
  assume q: "rb_inv q" and d: "0 < length d" "length d \<le> rb_capacity q - length (rb_list q)"
  have "length d < 2 ^ 31" using q d by (auto simp: rb_inv_def rb_capacity_def)
  then have u: "unat (of_nat (length d) :: u32) = length d" by (rule unat_of_nat_int)
  obtain q' where "RingBuffer_Enqueue q d (of_nat (length d)) = (q', of_nat (length d))" "rb_inv q'"
      "rb_list q' = rb_list q @ take (length d) d" "rb_capacity q' = rb_capacity q"
    by (rule rb_Enqueue_ok[OF q, of "of_nat (length d)" d]) (use u d in simp_all)
  moreover have "(of_nat (length d) :: u32) \<noteq> 0" using u d by auto
  ultimately show "\<exists>q'. ring_put_op q d = (q', True) \<and> rb_inv q' \<and> rb_capacity q' = rb_capacity q \<and>
      rb_list q' = rb_list q @ d"
    by (simp add: ring_put_op_def)
next
  fix q :: ring and d :: bytes
  assume q: "rb_inv q" and l: "length d < 2 ^ 31"
    and bad: "d = [] \<or> rb_capacity q - length (rb_list q) < length d"
  show "ring_put_op q d = (q, False)"
    using rb_Enqueue_fail[OF q, of "of_nat (length d)" d] unat_of_nat_int[OF l] l bad
    by (auto simp: ring_put_op_def)
next
  fix q :: ring and n :: nat
  assume q: "rb_inv q" and n: "0 < n" "n \<le> length (rb_list q)"
  have "n < 2 ^ 31" using q n by (auto simp: rb_inv_def)
  then have u: "unat (of_nat n :: u32) = n" by (rule unat_of_nat_int)
  obtain q' where "RingBuffer_Dequeue q (of_nat n) = (q', of_nat n, take n (rb_list q))" "rb_inv q'"
      "rb_list q' = drop n (rb_list q)" "rb_capacity q' = rb_capacity q"
    by (rule rb_Dequeue_ok[OF q, of "of_nat n"]) (use u n in simp_all)
  then show "\<exists>q'. ring_get_op q n = (q', take n (rb_list q)) \<and> rb_inv q' \<and>
      rb_capacity q' = rb_capacity q \<and> rb_list q' = drop n (rb_list q)"
    by (simp add: ring_get_op_def)
next
  fix q :: ring and n :: nat
  assume q: "rb_inv q" and l: "n < 2 ^ 31" and bad: "n = 0 \<or> length (rb_list q) < n"
  show "ring_get_op q n = (q, [])"
    using rb_Dequeue_fail[OF q, of "of_nat n"] unat_of_nat_int[OF l] l bad
    by (auto simp: ring_get_op_def)
qed

subsection \<open>Properties\<close>

text \<open>
  C1. A ring made for \<open>n\<close> bytes is, for every sequence of enqueue and dequeue calls, the
  reference queue of at most \<open>n\<close> bytes: the same calls succeed and the same bytes come out.
\<close>

theorem ring_is_bounded_queue:
  assumes "unat n < 2 ^ 30 - 1" and "unat n + 1 \<le> length mem" and "\<forall>x \<in> set ops. fifo_op_ok x"
  shows "snd (fifo_run ring_put_op ring_get_op (RingBuffer_ctor n mem) ops)
       = snd (fifo_run (bq_put (unat n)) bq_get [] ops)"
  using ring.run_refines[of "RingBuffer_ctor n mem" ops] rb_ctor[OF assms(1,2)] assms(3) by simp

theorem ring_is_bounded_queue_witness:
  "snd (fifo_run ring_put_op ring_get_op (RingBuffer_ctor 3 [0, 0, 0, 0])
        [Put [1, 2], Get 1, Put [3, 4], Put [5], Get 3])
   = snd (fifo_run (bq_put 3) bq_get [] [Put [1, 2], Get 1, Put [3, 4], Put [5], Get 3])"
  using ring_is_bounded_queue[of 3 "[0, 0, 0, 0]" "[Put [1, 2], Get 1, Put [3, 4], Put [5], Get 3]"]
  by simp

text \<open>
  C2. A receive: whatever bytes \<open>d\<close> the system writes, in order, into the one or two segments
  that \<open>recvPost\<close> describes, moving the rear by their number appends exactly \<open>d\<close>; the
  segments hold all the free space.
\<close>

theorem ring_receive_appends:
  assumes "rb_inv r" and "length d \<le> seg_total (recv_segments r)"
  defines "r' \<equiv> RingBuffer_MoveRear (r\<lparr>rb_buf := seg_write (recv_segments r) d (rb_buf r)\<rparr>) (of_nat (length d))"
  shows "rb_inv r' \<and> rb_list r' = rb_list r @ d \<and> rb_capacity r' = rb_capacity r \<and>
    seg_total (recv_segments r) = rb_capacity r - length (rb_list r)"
proof -
  have room: "length d \<le> rb_capacity r - length (rb_list r)"
    using assms(2) recv_segments_total[OF assms(1)] by simp
  then have "length d < 2 ^ 31" using assms(1) by (auto simp: rb_inv_def rb_capacity_def)
  then have u: "unat (of_nat (length d) :: u32) = length d" by (rule unat_of_nat_int)
  show ?thesis
    unfolding r'_def using rb_MoveRear[OF assms(1) room u] recv_segments_total[OF assms(1)] by simp
qed

theorem ring_receive_appends_witness:
  "rb_list (RingBuffer_MoveRear ((RingBuffer_ctor 3 [0, 0, 0, 0])\<lparr>rb_buf :=
     seg_write (recv_segments (RingBuffer_ctor 3 [0, 0, 0, 0])) [7, 8] [0, 0, 0, 0]\<rparr>) (of_nat 2)) = [7, 8]"
proof -
  let ?r = "RingBuffer_ctor 3 [0, 0, 0, 0]"
  have r: "rb_inv ?r \<and> rb_list ?r = [] \<and> rb_capacity ?r = 3" using rb_ctor[of 3 "[0, 0, 0, 0]"] by simp
  then have "length [7, 8 :: u8] \<le> seg_total (recv_segments ?r)" using recv_segments_total[of ?r] by simp
  with ring_receive_appends[of ?r "[7, 8]"] r show ?thesis by (simp add: RingBuffer_ctor_def)
qed

text \<open>C3. The one or two segments that \<open>sendPost\<close> describes are the contents of the ring, in order.\<close>

theorem ring_send_segments:
  assumes "rb_inv r"
  shows "seg_read (send_segments r) (rb_buf r) = rb_list r"
  by (rule send_segments_read[OF assms])

theorem ring_send_segments_witness:
  "seg_read (send_segments (RingBuffer_ctor 3 [0, 0, 0, 0])) [0, 0, 0, 0] = []"
  using ring_send_segments[of "RingBuffer_ctor 3 [0, 0, 0, 0]"] rb_ctor[of 3 "[0, 0, 0, 0]"]
  by (simp add: RingBuffer_ctor_def)

end
