(* ===== verification/PoolSpec.thy ===== *)
theory PoolSpec
  imports Prelude
begin

text \<open>
  The contract of the object pools (\<^verbatim>\<open>MemoryPoolTls\<close>, \<^verbatim>\<open>LockFreePool\<close>, \<^verbatim>\<open>ObjectPool\<close>):
  with \<open>L\<close> the set of objects handed out and not yet returned, an allocation returns an object
  outside \<open>L\<close> and returning an object of \<open>L\<close> removes it. What the users of a pool rely on (two
  holders never share an object, whatever the interleaving of the threads' calls) follows from
  the contract alone.
\<close>

type_synonym addr = nat  \<comment> \<open>the address of a block; 0 is \<^verbatim>\<open>nullptr\<close>\<close>
type_synonym tid = nat   \<comment> \<open>a thread\<close>

datatype pool_op = Alloc tid | Free tid addr

text \<open>
  Run the calls of all threads in the order they take effect, keeping the set of objects that
  are out. \<open>None\<close>: a call ended the process, or an object was returned that was not out.
\<close>

fun pool_run ::
  "(tid \<Rightarrow> 'p \<Rightarrow> (addr \<times> 'p) run) \<Rightarrow> (tid \<Rightarrow> addr \<Rightarrow> 'p \<Rightarrow> (bool \<times> 'p) run) \<Rightarrow>
   pool_op list \<Rightarrow> 'p \<Rightarrow> addr set \<Rightarrow> ('p \<times> addr set) run" where
  "pool_run al fr [] p L = Some (p, L)"
| "pool_run al fr (Alloc t # ops) p L =
     (case al t p of None \<Rightarrow> None
      | Some (a, p') \<Rightarrow> if a \<in> L then None else pool_run al fr ops p' (insert a L))"
| "pool_run al fr (Free t a # ops) p L =
     (if a \<notin> L then None
      else case fr t a p of None \<Rightarrow> None
           | Some (b, p') \<Rightarrow> if b then pool_run al fr ops p' (L - {a}) else None)"

text \<open>The client's side: it returns only what is out. Objects are named by the allocation order
  in the client's own program, so the check is on the run.\<close>

fun pool_client ::
  "(tid \<Rightarrow> 'p \<Rightarrow> (addr \<times> 'p) run) \<Rightarrow> (tid \<Rightarrow> addr \<Rightarrow> 'p \<Rightarrow> (bool \<times> 'p) run) \<Rightarrow>
   pool_op list \<Rightarrow> 'p \<Rightarrow> addr set \<Rightarrow> bool" where
  "pool_client al fr [] p L \<longleftrightarrow> True"
| "pool_client al fr (Alloc t # ops) p L \<longleftrightarrow>
     (case al t p of None \<Rightarrow> True | Some (a, p') \<Rightarrow> pool_client al fr ops p' (insert a L))"
| "pool_client al fr (Free t a # ops) p L \<longleftrightarrow>
     a \<in> L \<and> (case fr t a p of None \<Rightarrow> True | Some (b, p') \<Rightarrow> pool_client al fr ops p' (L - {a}))"

text \<open>A pool that may run out: \<open>full\<close> says when an allocation fails.\<close>

locale limited_pool =
  fixes inv :: "'p \<Rightarrow> addr set \<Rightarrow> bool"
    and full :: "'p \<Rightarrow> bool"
    and alloc :: "tid \<Rightarrow> 'p \<Rightarrow> (addr \<times> 'p) run"
    and free :: "tid \<Rightarrow> addr \<Rightarrow> 'p \<Rightarrow> (bool \<times> 'p) run"
  assumes alloc_room: "inv p L \<Longrightarrow> \<not> full p \<Longrightarrow> \<exists>a p'. alloc t p = Some (a, p') \<and> a \<noteq> 0 \<and> a \<notin> L \<and> inv p' (insert a L)"
    and alloc_full: "inv p L \<Longrightarrow> full p \<Longrightarrow> alloc t p = None"
    and free_out: "inv p L \<Longrightarrow> a \<in> L \<Longrightarrow> \<exists>p'. free t a p = Some (True, p') \<and> inv p' (L - {a})"
begin

text \<open>A run that ends early ends at an allocation from a full pool; no object is handed out twice.\<close>

lemma run_or_full:
  assumes "inv p L" and "pool_client alloc free ops p L"
  shows "(\<exists>p' L'. pool_run alloc free ops p L = Some (p', L') \<and> inv p' L') \<or>
    pool_run alloc free ops p L = None \<and> (\<exists>ops1 t ops2 p' L'. ops = ops1 @ Alloc t # ops2 \<and>
      pool_run alloc free ops1 p L = Some (p', L') \<and> inv p' L' \<and> full p')"
  using assms
proof (induction ops arbitrary: p L)
  case Nil
  then show ?case by simp
next
  case (Cons x ops)
  have go: ?case if IH: "(\<exists>p' L'. pool_run alloc free ops q M = Some (p', L') \<and> inv p' L') \<or>
      pool_run alloc free ops q M = None \<and> (\<exists>ops1 t ops2 p' L'. ops = ops1 @ Alloc t # ops2 \<and>
        pool_run alloc free ops1 q M = Some (p', L') \<and> inv p' L' \<and> full p')"
    and step: "\<And>ops. pool_run alloc free (x # ops) p L = pool_run alloc free ops q M" for q M
    using IH unfolding step by (metis append_Cons step)
  show ?case
  proof (cases x)
    case (Alloc t)
    show ?thesis
    proof (cases "full p")
      case True
      then have "pool_run alloc free (x # ops) p L = None" using alloc_full[OF Cons.prems(1)] Alloc by simp
      moreover have "x # ops = [] @ Alloc t # ops" "pool_run alloc free [] p L = Some (p, L)" using Alloc by simp_all
      ultimately show ?thesis using Cons.prems(1) True by blast
    next
      case False
      obtain a p' where a: "alloc t p = Some (a, p')" "a \<notin> L" "inv p' (insert a L)"
        using alloc_room[OF Cons.prems(1) False, of t] by blast
      from Cons.IH[OF a(3)] Cons.prems(2) Alloc a show ?thesis by (intro go[of p' "insert a L"]) simp_all
    qed
  next
    case (Free t a)
    then have a: "a \<in> L" using Cons.prems(2) by simp
    obtain p' where p': "free t a p = Some (True, p')" "inv p' (L - {a})"
      using free_out[OF Cons.prems(1) a, of t] by blast
    from Cons.IH[OF p'(2)] Cons.prems(2) Free a p' show ?thesis by (intro go[of p' "L - {a}"]) simp_all
  qed
qed

end

locale object_pool =
  fixes inv :: "'p \<Rightarrow> addr set \<Rightarrow> bool"
    and alloc :: "tid \<Rightarrow> 'p \<Rightarrow> (addr \<times> 'p) run"
    and free :: "tid \<Rightarrow> addr \<Rightarrow> 'p \<Rightarrow> (bool \<times> 'p) run"
  assumes alloc_ok: "inv p L \<Longrightarrow> \<exists>a p'. alloc t p = Some (a, p') \<and> a \<noteq> 0 \<and> a \<notin> L \<and> inv p' (insert a L)"
    and free_ok: "inv p L \<Longrightarrow> a \<in> L \<Longrightarrow> \<exists>p'. free t a p = Some (True, p') \<and> inv p' (L - {a})"

sublocale object_pool \<subseteq> limited_pool inv "\<lambda>_. False" alloc free
  by unfold_locales (use alloc_ok free_ok in blast)+

context object_pool
begin

lemma alloc_new:
  assumes "inv p L" and "alloc t p = Some (a, p')"
  shows "a \<noteq> 0" and "a \<notin> L" and "inv p' (insert a L)"
  using alloc_ok[OF assms(1), of t] assms(2) by auto

lemma free_back:
  assumes "inv p L" and "a \<in> L" and "free t a p = Some (b, p')"
  shows "b" and "inv p' (L - {a})"
  using free_ok[OF assms(1,2), of t] assms(3) by auto

text \<open>No call fails, no object is handed out twice, and the invariant holds at the end.\<close>

lemma run_ok:
  assumes "inv p L" and "pool_client alloc free ops p L"
  shows "\<exists>p' L'. pool_run alloc free ops p L = Some (p', L') \<and> inv p' L'"
  using run_or_full[OF assms] by blast

end

end
