(* ===== verification/TlsPool.thy ===== *)
theory TlsPool
  imports PoolSpec
begin

text \<open>
  \<^verbatim>\<open>MemoryPoolTls.h\<close>: the pool behind packets, users and log records. Each thread keeps two
  stacks of free blocks (\<open>pool\<close>, used first when freeing, and \<open>chunk\<close>, used first when
  allocating); a full \<open>chunk\<close> moves as one unit to the shared \<open>chunk_pool\<close>, and a thread with
  both stacks empty takes a unit from there or makes new blocks.

  A stack is the list of its blocks, top first. The C++ list ends in an indeterminate pointer
  (the constructor of \<^verbatim>\<open>POOL\<close> does not set \<open>top\<close>); reading past the last block is the failure
  \<open>None\<close>, and \<open>mp_inv\<close> shows that the \<open>size\<close> fields keep the code from doing so. New blocks are
  numbered from \<open>mp_fresh\<close> in the order \<^verbatim>\<open>new\<close> makes them.
\<close>

record block_pool =
  bp_top :: "addr list"
  bp_size :: int
  bp_default_size :: int
  bp_placement_new :: bool

record thread_data =
  td_pool :: block_pool
  td_chunk :: block_pool

record mempool =
  mp_td :: "tid \<Rightarrow> thread_data option"
  mp_chunk_pool :: "addr list list"
  mp_use_size :: u32
  mp_alloc_size :: u32
  mp_placement_new :: bool
  mp_default_size :: int
  mp_fresh :: addr

subsection \<open>One thread's stack\<close>

definition POOL_Alloc :: "block_pool \<Rightarrow> (addr \<times> block_pool) run" where
  "POOL_Alloc p =
     (case bp_top p of [] \<Rightarrow> None
      | node # rest \<Rightarrow> Some (node, p\<lparr>bp_top := rest, bp_size := bp_size p - 1\<rparr>))"

definition POOL_Free :: "addr \<Rightarrow> block_pool \<Rightarrow> block_pool" where
  "POOL_Free data p = p\<lparr>bp_size := bp_size p + 1, bp_top := data # bp_top p\<rparr>"

text \<open>The loop of \<open>Generate\<close>: \<open>n\<close> new blocks from address \<open>f\<close> on, each pushed on the top.\<close>

fun POOL_push_new :: "nat \<Rightarrow> addr \<Rightarrow> addr list \<Rightarrow> addr list" where
  "POOL_push_new 0 f st = st"
| "POOL_push_new (Suc n) f st = POOL_push_new n (Suc f) (f # st)"

definition POOL_Generate :: "int \<Rightarrow> addr \<Rightarrow> block_pool \<Rightarrow> block_pool" where
  "POOL_Generate n f p = p\<lparr>bp_size := n, bp_top := POOL_push_new (nat n) f (bp_top p)\<rparr>"

definition POOL_GetSize :: "block_pool \<Rightarrow> int" where
  "POOL_GetSize p = bp_size p"

definition POOL_Clear :: "block_pool \<Rightarrow> block_pool" where
  "POOL_Clear p = p\<lparr>bp_top := [], bp_size := 0\<rparr>"

definition POOL_ctor :: "int \<Rightarrow> int \<Rightarrow> bool \<Rightarrow> addr \<Rightarrow> block_pool" where
  "POOL_ctor init_size default_size placement_new f =
     POOL_Generate init_size f
       \<lparr>bp_top = [], bp_size = 0, bp_default_size = default_size, bp_placement_new = placement_new\<rparr>"

subsection \<open>The pool\<close>

definition MemoryPoolTls_ctor :: "int \<Rightarrow> bool \<Rightarrow> mempool" where
  "MemoryPoolTls_ctor default_size placement_new =
     \<lparr>mp_td = (\<lambda>_. None), mp_chunk_pool = [], mp_use_size = 0, mp_alloc_size = 0,
      mp_placement_new = placement_new, mp_default_size = default_size, mp_fresh = 1\<rparr>"

text \<open>\<^verbatim>\<open>GeneratePool(int)\<close>: a new stack; \<^verbatim>\<open>GeneratePool(POOL*)\<close>: refill an empty one.\<close>

definition GeneratePool_new :: "int \<Rightarrow> mempool \<Rightarrow> block_pool \<times> mempool" where
  "GeneratePool_new init_size m =
     (POOL_ctor init_size (mp_default_size m) (mp_placement_new m) (mp_fresh m),
      m\<lparr>mp_alloc_size := mp_alloc_size m + of_int init_size,
        mp_fresh := mp_fresh m + nat init_size\<rparr>)"

definition GeneratePool_refill :: "block_pool \<Rightarrow> mempool \<Rightarrow> block_pool \<times> mempool" where
  "GeneratePool_refill p m =
     (POOL_Generate (mp_default_size m) (mp_fresh m) p,
      m\<lparr>mp_alloc_size := mp_alloc_size m + of_int (mp_default_size m),
        mp_fresh := mp_fresh m + nat (mp_default_size m)\<rparr>)"

text \<open>The part both calls start with: the calling thread's data, made on its first call.\<close>

definition MemoryPoolTls_tls :: "tid \<Rightarrow> mempool \<Rightarrow> thread_data \<times> mempool" where
  "MemoryPoolTls_tls t m =
     (case mp_td m t of
        Some td \<Rightarrow> (td, m)
      | None \<Rightarrow>
          let (p, m1) = GeneratePool_new (mp_default_size m) m;
              (c, m2) = GeneratePool_new 0 m1;
              td = \<lparr>td_pool = p, td_chunk = c\<rparr>
          in (td, m2\<lparr>mp_td := (mp_td m2)(t \<mapsto> td)\<rparr>))"

definition MemoryPoolTls_Alloc :: "tid \<Rightarrow> mempool \<Rightarrow> (addr \<times> mempool) run" where
  "MemoryPoolTls_Alloc t m0 =
     (let (td, m) = MemoryPoolTls_tls t m0 in
      if bp_size (td_chunk td) = 0 then
        let (p, m1) =
          (if bp_size (td_pool td) = 0 then
             (case mp_chunk_pool m of
                chunk_top # rest \<Rightarrow>
                  ((td_pool td)\<lparr>bp_top := chunk_top, bp_size := mp_default_size m\<rparr>,
                   m\<lparr>mp_chunk_pool := rest\<rparr>)
              | [] \<Rightarrow> GeneratePool_refill (td_pool td) m)
           else (td_pool td, m))
        in (case POOL_Alloc p of None \<Rightarrow> None
            | Some (ret, p') \<Rightarrow>
                Some (ret, m1\<lparr>mp_td := (mp_td m1)(t \<mapsto> td\<lparr>td_pool := p'\<rparr>),
                              mp_use_size := mp_use_size m1 + 1\<rparr>))
      else
        (case POOL_Alloc (td_chunk td) of None \<Rightarrow> None
         | Some (ret, c') \<Rightarrow>
             Some (ret, m\<lparr>mp_td := (mp_td m)(t \<mapsto> td\<lparr>td_chunk := c'\<rparr>),
                          mp_use_size := mp_use_size m + 1\<rparr>)))"

definition MemoryPoolTls_Free :: "tid \<Rightarrow> addr \<Rightarrow> mempool \<Rightarrow> (bool \<times> mempool) run" where
  "MemoryPoolTls_Free t data m0 =
     (if data = 0 then Some (False, m0)
      else
        let (td, m) = MemoryPoolTls_tls t m0;
            n = mp_default_size m
        in if bp_size (td_pool td) = n then
             let (c, m1) =
               (if bp_size (td_chunk td) = n
                then (POOL_Clear (td_chunk td), m\<lparr>mp_chunk_pool := bp_top (td_chunk td) # mp_chunk_pool m\<rparr>)
                else (td_chunk td, m))
             in Some (True, m1\<lparr>mp_td := (mp_td m1)(t \<mapsto> td\<lparr>td_chunk := POOL_Free data c\<rparr>),
                               mp_use_size := mp_use_size m1 - 1\<rparr>)
           else
             Some (True, m\<lparr>mp_td := (mp_td m)(t \<mapsto> td\<lparr>td_pool := POOL_Free data (td_pool td)\<rparr>),
                           mp_use_size := mp_use_size m - 1\<rparr>))"

definition MemoryPoolTls_GetUseSize :: "mempool \<Rightarrow> u32" where
  "MemoryPoolTls_GetUseSize m = mp_use_size m"

definition MemoryPoolTls_GetAllocSize :: "mempool \<Rightarrow> u32" where
  "MemoryPoolTls_GetAllocSize m = mp_alloc_size m"

subsection \<open>Invariant\<close>

definition tls_blocks :: "mempool \<Rightarrow> tid \<Rightarrow> addr list" where
  "tls_blocks m t = (case mp_td m t of None \<Rightarrow> []
     | Some td \<Rightarrow> bp_top (td_pool td) @ bp_top (td_chunk td))"

definition chunk_blocks :: "mempool \<Rightarrow> addr list" where
  "chunk_blocks m = concat (mp_chunk_pool m)"

definition bp_ok :: "int \<Rightarrow> block_pool \<Rightarrow> bool" where
  "bp_ok n p \<longleftrightarrow> bp_size p = int (length (bp_top p)) \<and> bp_size p \<le> n"

definition td_ok :: "int \<Rightarrow> thread_data \<Rightarrow> bool" where
  "td_ok n td \<longleftrightarrow> bp_ok n (td_pool td) \<and> bp_ok n (td_chunk td)"

text \<open>
  Every block made is in exactly one place: out (\<open>L\<close>), on one stack of one thread, or in one
  shared unit; the sizes tell the truth; the counters count.
\<close>

definition mp_inv :: "mempool \<Rightarrow> addr set \<Rightarrow> bool" where
  "mp_inv m L \<longleftrightarrow>
     0 < mp_default_size m \<and> 0 < mp_fresh m \<and> finite L \<and>
     (\<forall>t td. mp_td m t = Some td \<longrightarrow> td_ok (mp_default_size m) td) \<and>
     (\<forall>c \<in> set (mp_chunk_pool m). int (length c) = mp_default_size m) \<and>
     (\<forall>t. distinct (tls_blocks m t)) \<and>
     (\<forall>t u. t \<noteq> u \<longrightarrow> set (tls_blocks m t) \<inter> set (tls_blocks m u) = {}) \<and>
     distinct (chunk_blocks m) \<and>
     (\<forall>t. set (tls_blocks m t) \<inter> set (chunk_blocks m) = {}) \<and>
     (\<forall>t. set (tls_blocks m t) \<inter> L = {}) \<and> set (chunk_blocks m) \<inter> L = {} \<and>
     L \<union> set (chunk_blocks m) \<union> (\<Union>t. set (tls_blocks m t)) = {1..<mp_fresh m} \<and>
     mp_use_size m = of_nat (card L) \<and> mp_alloc_size m = of_nat (mp_fresh m - 1)"

lemma POOL_push_new: "POOL_push_new n f st = rev [f..<f + n] @ st"
  by (induction n arbitrary: f st) (auto simp: upt_rec)

lemma POOL_ctor:
  assumes "0 \<le> n"
  shows "bp_top (POOL_ctor n d pn f) = rev [f..<f + nat n]" and "bp_size (POOL_ctor n d pn f) = n"
  by (simp_all add: POOL_ctor_def POOL_Generate_def POOL_push_new)

lemma mp_inv_ctor: "0 < n \<Longrightarrow> mp_inv (MemoryPoolTls_ctor n pn) {}"
  by (simp add: mp_inv_def MemoryPoolTls_ctor_def tls_blocks_def chunk_blocks_def)

lemma mp_inv_facts:
  assumes "mp_inv m L"
  shows "0 < mp_default_size m" and "finite L"
    and "\<And>t td. mp_td m t = Some td \<Longrightarrow> td_ok (mp_default_size m) td"
    and "\<And>c. c \<in> set (mp_chunk_pool m) \<Longrightarrow> int (length c) = mp_default_size m"
    and "distinct (tls_blocks m t @ chunk_blocks m)"
    and "L \<inter> set (tls_blocks m t @ chunk_blocks m) = {}"
    and "L \<union> set (tls_blocks m t @ chunk_blocks m) \<subseteq> {1..<mp_fresh m}"
    and "mp_use_size m = of_nat (card L)"
    and "mp_alloc_size m = of_nat (mp_fresh m - 1)" and "0 < mp_fresh m"
proof -
  show "L \<union> set (tls_blocks m t @ chunk_blocks m) \<subseteq> {1..<mp_fresh m}"
    using assms unfolding mp_inv_def set_append by blast
qed (use assms in \<open>unfold mp_inv_def, auto\<close>)

text \<open>
  One call moves blocks between the caller's stacks, the shared units, the set that is out, and
  the fresh blocks; what belongs to the other threads is not touched. So it is enough to check
  the caller's part.
\<close>

lemma mp_local:
  fixes m m' :: mempool
  assumes inv: "mp_inv m L"
    and td': "mp_td m' = (mp_td m)(t \<mapsto> td')" and n: "mp_default_size m' = mp_default_size m"
    and ok: "td_ok (mp_default_size m) td'"
    and units: "\<forall>c \<in> set (mp_chunk_pool m'). int (length c) = mp_default_size m"
    and f: "mp_fresh m \<le> mp_fresh m'"
    and dist: "distinct (bp_top (td_pool td') @ bp_top (td_chunk td') @ chunk_blocks m')"
    and out: "L' \<inter> set (bp_top (td_pool td') @ bp_top (td_chunk td') @ chunk_blocks m') = {}"
    and same: "L' \<union> set (bp_top (td_pool td') @ bp_top (td_chunk td') @ chunk_blocks m')
      = L \<union> set (tls_blocks m t) \<union> set (chunk_blocks m) \<union> {mp_fresh m..<mp_fresh m'}"
    and cnt: "mp_use_size m' = of_nat (card L')" "mp_alloc_size m' = of_nat (mp_fresh m' - 1)"
    and fin: "finite L'"
  shows "mp_inv m' L'"
proof -
  let ?B = "set (bp_top (td_pool td') @ bp_top (td_chunk td') @ chunk_blocks m')"
  have me: "tls_blocks m' t = bp_top (td_pool td') @ bp_top (td_chunk td')"
    and others: "\<And>u. u \<noteq> t \<Longrightarrow> tls_blocks m' u = tls_blocks m u"
    using td' by (simp_all add: tls_blocks_def)
  have total: "L \<union> set (chunk_blocks m) \<union> (\<Union>t. set (tls_blocks m t)) = {1..<mp_fresh m}"
    using inv by (simp add: mp_inv_def)
  have old: "set (tls_blocks m u) \<inter> (L' \<union> ?B) = {}" if "u \<noteq> t" for u
  proof -
    have "set (tls_blocks m u) \<inter> (L \<union> set (tls_blocks m t) \<union> set (chunk_blocks m)) = {}"
      using inv that unfolding mp_inv_def by blast
    moreover have "set (tls_blocks m u) \<inter> {mp_fresh m..<mp_fresh m'} = {}"
    proof -
      have "set (tls_blocks m u) \<subseteq> {1..<mp_fresh m}" using total by blast
      then show ?thesis by auto
    qed
    ultimately show ?thesis unfolding same by blast
  qed
  let ?R = "\<Union>u \<in> - {t}. set (tls_blocks m u)"
  have R: "(\<Union>t. set (tls_blocks m t)) = set (tls_blocks m t) \<union> ?R" by blast
  have "(\<Union>t. set (tls_blocks m' t)) = set (tls_blocks m' t) \<union> (\<Union>u \<in> - {t}. set (tls_blocks m' u))"
    by blast
  also have "(\<Union>u \<in> - {t}. set (tls_blocks m' u)) = ?R" using others by simp
  finally have R': "(\<Union>t. set (tls_blocks m' t)) = set (tls_blocks m' t) \<union> ?R" .
  have "L' \<union> set (chunk_blocks m') \<union> (\<Union>t. set (tls_blocks m' t)) = (L' \<union> ?B) \<union> ?R"
    unfolding R' me set_append by blast
  also have "\<dots> = (L \<union> set (chunk_blocks m) \<union> (\<Union>t. set (tls_blocks m t))) \<union> {mp_fresh m..<mp_fresh m'}"
    unfolding same R by blast
  also have "\<dots> = {1..<mp_fresh m'}"
    unfolding total using f inv by (auto simp: mp_inv_def)
  finally have "L' \<union> set (chunk_blocks m') \<union> (\<Union>t. set (tls_blocks m' t)) = {1..<mp_fresh m'}" .
  moreover have "\<forall>u v. u \<noteq> v \<longrightarrow> set (tls_blocks m' u) \<inter> set (tls_blocks m' v) = {}"
  proof (intro allI impI)
    fix u v :: tid assume "u \<noteq> v"
    then show "set (tls_blocks m' u) \<inter> set (tls_blocks m' v) = {}"
      using old[of u] old[of v] others inv me by (cases "u = t"; cases "v = t") (auto simp: mp_inv_def)
  qed
  moreover have "\<forall>u. distinct (tls_blocks m' u) \<and> set (tls_blocks m' u) \<inter> set (chunk_blocks m') = {}
      \<and> set (tls_blocks m' u) \<inter> L' = {}"
  proof
    fix u show "distinct (tls_blocks m' u) \<and> set (tls_blocks m' u) \<inter> set (chunk_blocks m') = {}
      \<and> set (tls_blocks m' u) \<inter> L' = {}"
    proof (cases "u = t")
      case True then show ?thesis using dist out me by auto
    next
      case False then show ?thesis using old[of u] others inv by (auto simp: mp_inv_def)
    qed
  qed
  moreover have "\<forall>u td. mp_td m' u = Some td \<longrightarrow> td_ok (mp_default_size m) td"
    using inv ok td' by (auto simp: mp_inv_def)
  ultimately show ?thesis
    using inv n units f dist out cnt fin by (auto simp: mp_inv_def)
qed

text \<open>The first call of a thread.\<close>

lemma MemoryPoolTls_tls:
  assumes inv: "mp_inv m L"
  obtains td m' where "MemoryPoolTls_tls t m = (td, m')" "mp_inv m' L" "mp_td m' t = Some td"
    "mp_default_size m' = mp_default_size m" "td_ok (mp_default_size m) td"
proof (cases "mp_td m t")
  case (Some td)
  then have "MemoryPoolTls_tls t m = (td, m)" by (simp add: MemoryPoolTls_tls_def)
  moreover have "td_ok (mp_default_size m) td" using mp_inv_facts(3)[OF inv] Some by blast
  ultimately show ?thesis using that inv Some by blast
next
  case None
  let ?n = "mp_default_size m"
  define p where "p = POOL_ctor ?n ?n (mp_placement_new m) (mp_fresh m)"
  define c where "c = POOL_ctor 0 ?n (mp_placement_new m) (mp_fresh m + nat ?n)"
  define td where "td = \<lparr>td_pool = p, td_chunk = c\<rparr>"
  define m' where "m' = m\<lparr>mp_td := (mp_td m)(t \<mapsto> td), mp_alloc_size := mp_alloc_size m + of_int ?n,
    mp_fresh := mp_fresh m + nat ?n\<rparr>"
  note I = mp_inv_facts[OF inv]
  have n: "0 < ?n" by (rule I(1))
  have run: "MemoryPoolTls_tls t m = (td, m')"
    using None by (simp add: MemoryPoolTls_tls_def GeneratePool_new_def Let_def td_def p_def c_def m'_def)
  have p: "bp_top p = rev [mp_fresh m..<mp_fresh m + nat ?n]" "bp_size p = ?n"
    and c: "bp_top c = []" "bp_size c = 0"
    using n by (simp_all add: POOL_ctor p_def c_def)
  have ok: "td_ok ?n td" using n p c by (simp add: td_ok_def bp_ok_def td_def)
  have below: "L \<inter> {mp_fresh m..<f'} = {}" "set (chunk_blocks m) \<inter> {mp_fresh m..<f'} = {}" for f'
    using I(7)[of t] by fastforce+
  have new: "bp_top (td_pool td) @ bp_top (td_chunk td) @ chunk_blocks m' =
      rev [mp_fresh m..<mp_fresh m + nat ?n] @ chunk_blocks m"
    by (simp add: td_def p c m'_def chunk_blocks_def)
  have "mp_inv m' L"
  proof (rule mp_local[OF inv, where t = t and td' = td])
    show "distinct (bp_top (td_pool td) @ bp_top (td_chunk td) @ chunk_blocks m')"
      unfolding new using I(5)[of t] below(2) by auto
    show "L \<inter> set (bp_top (td_pool td) @ bp_top (td_chunk td) @ chunk_blocks m') = {}"
      unfolding new using I(6)[of t] below(1) by auto
    show "L \<union> set (bp_top (td_pool td) @ bp_top (td_chunk td) @ chunk_blocks m')
      = L \<union> set (tls_blocks m t) \<union> set (chunk_blocks m) \<union> {mp_fresh m..<mp_fresh m'}"
      unfolding new using None by (auto simp: m'_def tls_blocks_def)
    show "mp_alloc_size m' = of_nat (mp_fresh m' - 1)"
    proof -
      have "mp_fresh m' = mp_fresh m + nat ?n" "mp_alloc_size m' = mp_alloc_size m + of_int ?n"
        by (simp_all add: m'_def)
      moreover have "mp_fresh m + nat ?n - 1 = (mp_fresh m - 1) + nat ?n" using I(10) by arith
      ultimately show ?thesis using I(9) n by (simp only: of_nat_add) simp
    qed
  qed (use I(2,4,8) ok in \<open>auto simp: m'_def\<close>)
  with that[OF run] ok show ?thesis by (simp add: m'_def)
qed

subsection \<open>Allocating and freeing keep the invariant\<close>

text \<open>One block \<open>a\<close> leaves the free blocks of the calling thread.\<close>

lemma mp_take:
  assumes inv: "mp_inv m L"
    and m': "mp_td m' = (mp_td m)(t \<mapsto> td')" "mp_default_size m' = mp_default_size m"
      "mp_use_size m' = mp_use_size m + 1" "mp_alloc_size m' = of_nat (mp_fresh m' - 1)"
      "mp_fresh m \<le> mp_fresh m'" "set (mp_chunk_pool m') \<subseteq> set (mp_chunk_pool m)"
    and td': "td_ok (mp_default_size m) td'"
    and B: "set (a # bp_top (td_pool td') @ bp_top (td_chunk td') @ chunk_blocks m')
        = set (tls_blocks m t @ chunk_blocks m) \<union> {mp_fresh m..<mp_fresh m'}"
    and dist: "distinct (a # bp_top (td_pool td') @ bp_top (td_chunk td') @ chunk_blocks m')"
  shows "a \<noteq> 0 \<and> a \<notin> L \<and> mp_inv m' (insert a L)"
proof (intro conjI)
  note I = mp_inv_facts[OF inv]
  let ?B = "bp_top (td_pool td') @ bp_top (td_chunk td') @ chunk_blocks m'"
  have new: "L \<inter> {mp_fresh m..<mp_fresh m'} = {}" using I(7)[of t] by fastforce
  have a: "a \<in> set (tls_blocks m t @ chunk_blocks m) \<union> {mp_fresh m..<mp_fresh m'}"
    using B by (metis list.set_intros(1))
  show aL: "a \<notin> L" using a new I(6)[of t] by blast
  show "a \<noteq> 0" using a I(7)[of t] I(10) by fastforce
  have "L \<inter> set (a # ?B) = {}" unfolding B using I(6)[of t] new by blast
  moreover have "a \<notin> set ?B" using dist by (simp only: distinct.simps not_False_eq_True)
  ultimately have out: "insert a L \<inter> set ?B = {}" by (simp only: list.set) blast
  have "insert a L \<union> set ?B = L \<union> set (a # ?B)" by (simp only: list.set) blast
  also have "\<dots> = L \<union> set (tls_blocks m t) \<union> set (chunk_blocks m) \<union> {mp_fresh m..<mp_fresh m'}"
    unfolding B set_append by blast
  finally have same: "insert a L \<union> set ?B = \<dots>" .
  have "mp_use_size m' = of_nat (card (insert a L))" using aL I(2,8) m'(3) by simp
  moreover have "distinct ?B" using dist by (simp only: distinct.simps)
  ultimately show "mp_inv m' (insert a L)"
    using mp_local[OF inv m'(1,2) td' _ m'(5) _ out same _ m'(4)] m'(6) I(2,4) by blast
qed

lemma td_ok_lists:
  assumes "td_ok n td"
  shows "bp_size (td_pool td) = int (length (bp_top (td_pool td)))"
    and "bp_size (td_chunk td) = int (length (bp_top (td_chunk td)))"
    and "length (bp_top (td_pool td)) \<le> nat n" and "length (bp_top (td_chunk td)) \<le> nat n"
  using assms by (auto simp: td_ok_def bp_ok_def)

lemma MemoryPoolTls_Alloc:
  assumes inv0: "mp_inv m0 L"
  shows "\<exists>a m'. MemoryPoolTls_Alloc t m0 = Some (a, m') \<and> a \<noteq> 0 \<and> a \<notin> L \<and> mp_inv m' (insert a L)"
proof -
  obtain td m where tls: "MemoryPoolTls_tls t m0 = (td, m)" and inv: "mp_inv m L"
    and td: "mp_td m t = Some td" and ok: "td_ok (mp_default_size m) td"
    using MemoryPoolTls_tls[OF inv0, of t] by metis
  note I = mp_inv_facts[OF inv]
  note S = td_ok_lists[OF ok]
  let ?n = "mp_default_size m"
  have blocks: "tls_blocks m t = bp_top (td_pool td) @ bp_top (td_chunk td)"
    using td by (simp add: tls_blocks_def)
  show ?thesis
  proof (cases "bp_top (td_chunk td)")
    case (Cons a rest)
    define td' where "td' = td\<lparr>td_chunk := (td_chunk td)\<lparr>bp_top := rest, bp_size := bp_size (td_chunk td) - 1\<rparr>\<rparr>"
    define m' where "m' = m\<lparr>mp_td := (mp_td m)(t \<mapsto> td'), mp_use_size := mp_use_size m + 1\<rparr>"
    have "td_ok ?n td'" using ok Cons by (auto simp: td'_def td_ok_def bp_ok_def)
    then have "a \<noteq> 0 \<and> a \<notin> L \<and> mp_inv m' (insert a L)"
      by (rule mp_take[OF inv, where t = t, rotated 6])
        (use I(5)[of t] I(9) Cons in \<open>auto simp: td'_def m'_def blocks chunk_blocks_def\<close>)
    moreover have "MemoryPoolTls_Alloc t m0 = Some (a, m')"
      using tls S(2) Cons by (simp add: MemoryPoolTls_Alloc_def POOL_Alloc_def td'_def m'_def)
    ultimately show ?thesis by blast
  next
    case Nil
    note chunk0 = Nil
    show ?thesis
    proof (cases "bp_top (td_pool td)")
      case (Cons a rest)
      define td' where "td' = td\<lparr>td_pool := (td_pool td)\<lparr>bp_top := rest, bp_size := bp_size (td_pool td) - 1\<rparr>\<rparr>"
      define m' where "m' = m\<lparr>mp_td := (mp_td m)(t \<mapsto> td'), mp_use_size := mp_use_size m + 1\<rparr>"
      have "td_ok ?n td'" using ok Cons by (auto simp: td'_def td_ok_def bp_ok_def)
      then have "a \<noteq> 0 \<and> a \<notin> L \<and> mp_inv m' (insert a L)"
        by (rule mp_take[OF inv, where t = t, rotated 6])
          (use I(5)[of t] I(9) Cons chunk0 in \<open>auto simp: td'_def m'_def blocks chunk_blocks_def\<close>)
      moreover have "MemoryPoolTls_Alloc t m0 = Some (a, m')"
        using tls S(1,2) Cons chunk0 by (simp add: MemoryPoolTls_Alloc_def POOL_Alloc_def td'_def m'_def)
      ultimately show ?thesis by blast
    next
      case Nil
      note pool0 = Nil
      show ?thesis
      proof (cases "mp_chunk_pool m")
        case (Cons u us)
        have lu: "int (length u) = ?n" using I(4) Cons by simp
        then obtain a rest where u: "u = a # rest" using I(1) by (cases u) auto
        define td' where "td' = td\<lparr>td_pool := (td_pool td)\<lparr>bp_top := rest, bp_size := ?n - 1\<rparr>\<rparr>"
        define m' where "m' = m\<lparr>mp_td := (mp_td m)(t \<mapsto> td'), mp_chunk_pool := us,
            mp_use_size := mp_use_size m + 1\<rparr>"
        have "td_ok ?n td'" using ok lu u by (auto simp: td'_def td_ok_def bp_ok_def)
        then have "a \<noteq> 0 \<and> a \<notin> L \<and> mp_inv m' (insert a L)"
          by (rule mp_take[OF inv, where t = t, rotated 6])
            (use I(5)[of t] I(9) Cons chunk0 pool0 u in \<open>auto simp: td'_def m'_def blocks chunk_blocks_def\<close>)
        moreover have "MemoryPoolTls_Alloc t m0 = Some (a, m')"
          using tls S(1,2) Cons chunk0 pool0 u
          by (simp add: MemoryPoolTls_Alloc_def POOL_Alloc_def td'_def m'_def)
        ultimately show ?thesis by blast
      next
        case Nil
        let ?f = "mp_fresh m + nat ?n"
        obtain k where k: "nat ?n = Suc k" using I(1) by (cases "nat ?n") auto
        define a where "a = mp_fresh m + k"
        define td' where "td' = td\<lparr>td_pool := (td_pool td)\<lparr>bp_top := rev [mp_fresh m..<mp_fresh m + k],
          bp_size := ?n - 1\<rparr>\<rparr>"
        define m' where "m' = m\<lparr>mp_td := (mp_td m)(t \<mapsto> td'), mp_fresh := ?f,
            mp_use_size := mp_use_size m + 1, mp_alloc_size := mp_alloc_size m + of_int ?n\<rparr>"
        have al: "mp_alloc_size m + of_int ?n = of_nat (?f - 1)"
        proof -
          have "?f - 1 = (mp_fresh m - 1) + nat ?n" using I(10) by arith
          with I(1,9) show ?thesis by (simp only: of_nat_add) simp
        qed
        have "td_ok ?n td'" using ok k by (auto simp: td'_def td_ok_def bp_ok_def)
        then have "a \<noteq> 0 \<and> a \<notin> L \<and> mp_inv m' (insert a L)"
        proof (rule mp_take[OF inv, where t = t, rotated 6])
          show "mp_alloc_size m' = of_nat (mp_fresh m' - 1)" unfolding al [symmetric] by (simp add: m'_def al)
        qed (use Nil chunk0 pool0 k in \<open>auto simp: td'_def m'_def blocks chunk_blocks_def a_def\<close>)
        moreover have "POOL_push_new (nat ?n) (mp_fresh m) [] = a # rev [mp_fresh m..<mp_fresh m + k]"
          by (simp add: POOL_push_new k a_def)
        then have "MemoryPoolTls_Alloc t m0 = Some (a, m')"
          using tls S(1,2) Nil chunk0 pool0
          by (simp add: MemoryPoolTls_Alloc_def POOL_Alloc_def td'_def m'_def GeneratePool_refill_def
              POOL_Generate_def)
        ultimately show ?thesis by blast
      qed
    qed
  qed
qed

text \<open>One block \<open>a\<close> comes back to the calling thread.\<close>

lemma mp_give:
  assumes inv: "mp_inv m L" and aL: "a \<in> L"
    and m': "mp_td m' = (mp_td m)(t \<mapsto> td')" "mp_default_size m' = mp_default_size m"
      "mp_use_size m' = mp_use_size m - 1" "mp_alloc_size m' = mp_alloc_size m"
      "mp_fresh m' = mp_fresh m" "\<forall>c \<in> set (mp_chunk_pool m'). int (length c) = mp_default_size m"
    and td': "td_ok (mp_default_size m) td'"
    and B: "set (bp_top (td_pool td') @ bp_top (td_chunk td') @ chunk_blocks m')
        = insert a (set (tls_blocks m t @ chunk_blocks m))"
    and dist: "distinct (bp_top (td_pool td') @ bp_top (td_chunk td') @ chunk_blocks m')"
  shows "mp_inv m' (L - {a})"
proof (rule mp_local[OF inv m'(1,2) td' m'(6) _ dist])
  note I = mp_inv_facts[OF inv]
  show "(L - {a}) \<inter> set (bp_top (td_pool td') @ bp_top (td_chunk td') @ chunk_blocks m') = {}"
    unfolding B using I(6)[of t] by blast
  show "(L - {a}) \<union> set (bp_top (td_pool td') @ bp_top (td_chunk td') @ chunk_blocks m')
      = L \<union> set (tls_blocks m t) \<union> set (chunk_blocks m) \<union> {mp_fresh m..<mp_fresh m'}"
    unfolding B using aL m'(5) by auto
  have "0 < card L" using aL I(2) by (auto simp: card_gt_0_iff)
  then have "card L = Suc (card (L - {a}))" using aL I(2) by simp
  then show "mp_use_size m' = of_nat (card (L - {a}))" using m'(3) I(8) by simp
  show "mp_alloc_size m' = of_nat (mp_fresh m' - 1)" using m'(4,5) I(9) by simp
qed (use mp_inv_facts(2)[OF inv] m' in auto)

lemma MemoryPoolTls_Free:
  assumes inv0: "mp_inv m0 L" and aL: "a \<in> L"
  shows "\<exists>m'. MemoryPoolTls_Free t a m0 = Some (True, m') \<and> mp_inv m' (L - {a})"
proof -
  obtain td m where tls: "MemoryPoolTls_tls t m0 = (td, m)" and inv: "mp_inv m L"
    and td: "mp_td m t = Some td" and ok: "td_ok (mp_default_size m) td"
    using MemoryPoolTls_tls[OF inv0, of t] by metis
  note I = mp_inv_facts[OF inv]
  note S = td_ok_lists[OF ok]
  let ?n = "mp_default_size m"
  have blocks: "tls_blocks m t = bp_top (td_pool td) @ bp_top (td_chunk td)"
    using td by (simp add: tls_blocks_def)
  have a0: "a \<noteq> 0" using aL I(7)[of t] by fastforce
  have fresh: "a \<notin> set (tls_blocks m t @ chunk_blocks m)" using aL I(6)[of t] by blast
  show ?thesis
  proof (cases "bp_size (td_pool td) = ?n")
    case False
    define td' where "td' = td\<lparr>td_pool := POOL_Free a (td_pool td)\<rparr>"
    define m' where "m' = m\<lparr>mp_td := (mp_td m)(t \<mapsto> td'), mp_use_size := mp_use_size m - 1\<rparr>"
    have "td_ok ?n td'" using ok False by (auto simp: td'_def td_ok_def bp_ok_def POOL_Free_def)
    then have "mp_inv m' (L - {a})"
      by (rule mp_give[OF inv aL, where t = t, rotated 6])
        (use I(4) I(5)[of t] fresh in \<open>auto simp: td'_def m'_def blocks chunk_blocks_def POOL_Free_def\<close>)
    moreover have "MemoryPoolTls_Free t a m0 = Some (True, m')"
      using tls False a0 by (simp add: MemoryPoolTls_Free_def td'_def m'_def)
    ultimately show ?thesis by blast
  next
    case full1: True
    show ?thesis
    proof (cases "bp_size (td_chunk td) = ?n")
      case False
      define td' where "td' = td\<lparr>td_chunk := POOL_Free a (td_chunk td)\<rparr>"
      define m' where "m' = m\<lparr>mp_td := (mp_td m)(t \<mapsto> td'), mp_use_size := mp_use_size m - 1\<rparr>"
      have "td_ok ?n td'" using ok False by (auto simp: td'_def td_ok_def bp_ok_def POOL_Free_def)
      then have "mp_inv m' (L - {a})"
        by (rule mp_give[OF inv aL, where t = t, rotated 6])
          (use I(4) I(5)[of t] fresh in \<open>auto simp: td'_def m'_def blocks chunk_blocks_def POOL_Free_def\<close>)
      moreover have "MemoryPoolTls_Free t a m0 = Some (True, m')"
        using tls full1 False a0 by (simp add: MemoryPoolTls_Free_def td'_def m'_def)
      ultimately show ?thesis by blast
    next
      case full2: True
      define td' where "td' = td\<lparr>td_chunk := POOL_Free a (POOL_Clear (td_chunk td))\<rparr>"
      define m' where "m' = m\<lparr>mp_td := (mp_td m)(t \<mapsto> td'),
          mp_chunk_pool := bp_top (td_chunk td) # mp_chunk_pool m, mp_use_size := mp_use_size m - 1\<rparr>"
      have "td_ok ?n td'"
        using ok I(1) by (auto simp: td'_def td_ok_def bp_ok_def POOL_Free_def POOL_Clear_def)
      then have "mp_inv m' (L - {a})"
        by (rule mp_give[OF inv aL, where t = t, rotated 6])
          (use I(4) I(5)[of t] S(2) full2 fresh in
            \<open>auto simp: td'_def m'_def blocks chunk_blocks_def POOL_Free_def POOL_Clear_def\<close>)
      moreover have "MemoryPoolTls_Free t a m0 = Some (True, m')"
        using tls full1 full2 a0 by (simp add: MemoryPoolTls_Free_def td'_def m'_def)
      ultimately show ?thesis by blast
    qed
  qed
qed

interpretation tls: object_pool mp_inv MemoryPoolTls_Alloc MemoryPoolTls_Free
  by unfold_locales (use MemoryPoolTls_Alloc MemoryPoolTls_Free in blast)+

lemma mp_use_size_counts: "mp_inv m L \<Longrightarrow> MemoryPoolTls_GetUseSize m = of_nat (card L)"
  by (simp add: MemoryPoolTls_GetUseSize_def mp_inv_def)

subsection \<open>Properties\<close>

text \<open>
  C4. From a new pool, any interleaving of the calls of any number of threads, in which only
  objects that are out are returned, runs without failing: no object is handed out twice at a
  time (that is the failure of \<open>pool_run\<close>), and \<open>GetUseSize\<close> counts the objects that are out.
\<close>

theorem tls_pool_never_shares:
  assumes "0 < n" and "pool_client MemoryPoolTls_Alloc MemoryPoolTls_Free ops (MemoryPoolTls_ctor n pn) {}"
  shows "\<exists>m L. pool_run MemoryPoolTls_Alloc MemoryPoolTls_Free ops (MemoryPoolTls_ctor n pn) {} = Some (m, L) \<and>
    MemoryPoolTls_GetUseSize m = of_nat (card L)"
  using tls.run_ok[OF mp_inv_ctor[OF assms(1)] assms(2)] mp_use_size_counts by blast

theorem tls_pool_never_shares_witness:
  "\<exists>m L. pool_run MemoryPoolTls_Alloc MemoryPoolTls_Free [Alloc 1, Alloc 2, Alloc 1, Free 2 2, Alloc 2]
     (MemoryPoolTls_ctor 2 False) {} = Some (m, L) \<and> MemoryPoolTls_GetUseSize m = of_nat (card L)"
proof (rule tls_pool_never_shares)
  show "pool_client MemoryPoolTls_Alloc MemoryPoolTls_Free [Alloc 1, Alloc 2, Alloc 1, Free 2 2, Alloc 2]
     (MemoryPoolTls_ctor 2 False) {}"
    by code_simp
qed simp

end
