(* ===== verification/Bytes.thy ===== *)
theory Bytes
  imports Prelude
begin

text \<open>
  The byte images of integers, as \<^verbatim>\<open>memcpy\<close> of a variable reads and writes them on x64
  (least significant byte first), and of \<^verbatim>\<open>wchar_t\<close> arrays.
\<close>

unbundle bit_operations_syntax

text \<open>The \<open>n\<close> low bytes of a word; and the word made of bytes.\<close>

definition le_bytes :: "nat \<Rightarrow> 'a::len word \<Rightarrow> bytes" where
  "le_bytes n w = map (\<lambda>i. ucast (drop_bit (8 * i) w)) [0..<n]"

fun le_word :: "bytes \<Rightarrow> 'a::len word" where
  "le_word [] = 0"
| "le_word (b # bs) = ucast b OR push_bit 8 (le_word bs)"

lemma length_le_bytes [simp]: "length (le_bytes n w) = n"
  by (simp add: le_bytes_def)

lemma bit_le_word:
  "bit (le_word bs :: 'a::len word) i \<longleftrightarrow> i < LENGTH('a) \<and> i div 8 < length bs \<and> bit (bs ! (i div 8)) (i mod 8)"
proof (induction bs arbitrary: i)
  case Nil
  then show ?case by simp
next
  case (Cons b bs)
  show ?case
  proof (cases "i < 8")
    case True
    then show ?thesis
      by (auto simp: bit_or_iff bit_unsigned_iff bit_push_bit_iff dest: bit_imp_le_length)
  next
    case False
    then have d: "i div 8 = Suc ((i - 8) div 8)" "(i - 8) mod 8 = i mod 8"
      by (simp_all add: le_div_geq le_mod_geq)
    have "\<not> bit b i" using False bit_imp_le_length[of b i] by auto
    with False d Cons.IH[of "i - 8"] show ?thesis
      by (auto simp: bit_or_iff bit_unsigned_iff bit_push_bit_iff)
  qed
qed

lemma le_word_bytes:
  assumes "LENGTH('a) \<le> 8 * n"
  shows "le_word (le_bytes n (w :: 'a::len word)) = w"
proof (rule bit_word_eqI)
  fix i assume i: "i < LENGTH('a)"
  then have "i div 8 < n" using assms by auto
  moreover have "8 * (i div 8) + i mod 8 = i" by simp
  ultimately show "bit (le_word (le_bytes n w) :: 'a word) i \<longleftrightarrow> bit w i"
    using i by (simp add: bit_le_word le_bytes_def bit_unsigned_iff bit_drop_bit_eq)
qed

lemma le_bytes_word:
  assumes "8 * length bs \<le> LENGTH('a)"
  shows "le_bytes (length bs) (le_word bs :: 'a::len word) = bs"
proof (rule nth_equalityI)
  fix i assume "i < length (le_bytes (length bs) (le_word bs :: 'a word))"
  then have i: "i < length bs" by simp
  show "le_bytes (length bs) (le_word bs :: 'a word) ! i = bs ! i"
  proof (rule bit_word_eqI)
    fix k assume k: "k < LENGTH(8)"
    then have "8 * i + k < LENGTH('a)" "(8 * i + k) div 8 = i" "(8 * i + k) mod 8 = k"
      using i assms by auto
    then show "bit (le_bytes (length bs) (le_word bs :: 'a word) ! i) k \<longleftrightarrow> bit (bs ! i) k"
      using i k by (simp add: le_bytes_def bit_unsigned_iff bit_drop_bit_eq bit_le_word)
  qed
qed simp

text \<open>A \<^verbatim>\<open>wchar_t\<close> (16 bits on Windows) array as bytes, and bytes read as such an array.\<close>

definition wbytes :: "u16 list \<Rightarrow> bytes" where
  "wbytes ws = concat (map (le_bytes 2) ws)"

fun unwbytes :: "bytes \<Rightarrow> u16 list" where
  "unwbytes (a # b # bs) = le_word [a, b] # unwbytes bs"
| "unwbytes _ = []"

lemma length_wbytes [simp]: "length (wbytes ws) = 2 * length ws"
  by (induction ws) (simp_all add: wbytes_def)

lemma wbytes_append: "wbytes (xs @ ys) = wbytes xs @ wbytes ys"
  by (simp add: wbytes_def)

lemma unwbytes_wbytes [simp]: "unwbytes (wbytes ws) = ws"
proof (induction ws)
  case Nil
  then show ?case by (simp add: wbytes_def)
next
  case (Cons w ws)
  obtain a b where ab: "le_bytes 2 w = [a, b]"
    by (simp add: le_bytes_def numeral_2_eq_2)
  moreover have "le_word [a, b] = w"
    using le_word_bytes[of 2 w] ab by simp
  ultimately show ?case using Cons by (simp add: wbytes_def)
qed

lemma wbytes_unwbytes: "even (length bs) \<Longrightarrow> wbytes (unwbytes bs) = bs"
proof (induction bs rule: unwbytes.induct)
  case (1 a b bs)
  have "le_bytes 2 (le_word [a, b] :: u16) = [a, b]"
    using le_bytes_word[of "[a, b]", where 'a = 16] by (simp only: list.size numeral_2_eq_2) simp
  with 1 show ?case by (simp add: wbytes_def)
qed (simp_all add: wbytes_def)

text \<open>A C string in an array: up to the first zero.\<close>

definition c_str :: "u16 list \<Rightarrow> u16 list" where
  "c_str ws = takeWhile (\<lambda>w. w \<noteq> 0) ws"

lemma c_str_nonzero: "0 \<notin> set (c_str ws)"
  by (auto simp: c_str_def dest: set_takeWhileD)

lemma c_str_append_zero [simp]: "0 \<notin> set ws \<Longrightarrow> c_str (ws @ 0 # rest) = ws"
  by (induction ws) (auto simp: c_str_def)

lemma c_str_idem [simp]: "0 \<notin> set ws \<Longrightarrow> c_str ws = ws"
  by (auto simp: c_str_def takeWhile_eq_all_conv)

lemma c_str_append: "0 \<in> set ws \<Longrightarrow> c_str (ws @ rest) = c_str ws"
  by (auto simp: c_str_def)

lemma length_c_str: "0 \<in> set ws \<Longrightarrow> length (c_str ws) < length ws"
  unfolding c_str_def by (induction ws) auto

end
