(* ===== verification/Packet.thy ===== *)
theory Packet
  imports Bytes
begin

text \<open>
  \<^verbatim>\<open>CPacket.h\<close>/\<^verbatim>\<open>CPacket.cpp\<close> and \<^verbatim>\<open>NetProtocol.h\<close>: the serialisation buffer, its header and
  the byte-wise cipher of the client connections.

  \<open>pk_hidden\<close> is the allocated block; the payload buffer starts behind room for the larger of the
  two headers, so the header of a message is written directly before its payload. Sizes and
  positions are \<^verbatim>\<open>int\<close>s of the code; \<open>pk_inv\<close> bounds them far below \<open>2 ^ 31\<close>.
\<close>

unbundle bit_operations_syntax

subsection \<open>Headers\<close>

text \<open>\<^verbatim>\<open>NetPacketHeader\<close>, packed: code, length (two bytes), random key, check sum;
  \<^verbatim>\<open>LanPacketHeader\<close>: length (two bytes).\<close>

record NetPacketHeader =
  h_code :: u8
  h_len :: u16
  h_rand_key :: u8
  h_check_sum :: u8

definition net_header_size :: nat where "net_header_size = 5"

definition lan_header_size :: nat where "lan_header_size = 2"

definition net_header_of :: "bytes \<Rightarrow> NetPacketHeader" where
  "net_header_of bs = \<lparr>h_code = bs ! 0, h_len = le_word [bs ! 1, bs ! 2],
     h_rand_key = bs ! 3, h_check_sum = bs ! 4\<rparr>"

definition lan_header_len :: "bytes \<Rightarrow> u16" where
  "lan_header_len bs = le_word [bs ! 0, bs ! 1]"

subsection \<open>The packet\<close>

record packet =
  pk_hidden :: bytes
  pk_buffer_size :: int
  pk_data_size :: int
  pk_write_pos :: int
  pk_read_pos :: int
  pk_ref_cnt :: int

definition eBUFFER_DEFAULT :: int where "eBUFFER_DEFAULT = 2000"

definition CPacket_Clear :: "packet \<Rightarrow> packet" where
  "CPacket_Clear p = p\<lparr>pk_data_size := 0, pk_write_pos := 0, pk_read_pos := 0, pk_ref_cnt := 1\<rparr>"

text \<open>The constructor; \<open>mem\<close> is the block \<^verbatim>\<open>new char[size + sizeof(NetPacketHeader)]\<close> gives.\<close>

definition CPacket_ctor :: "int \<Rightarrow> bytes \<Rightarrow> packet" where
  "CPacket_ctor n mem = CPacket_Clear
     \<lparr>pk_hidden = mem, pk_buffer_size = n, pk_data_size = 0, pk_write_pos = 0, pk_read_pos = 0,
      pk_ref_cnt = 0\<rparr>"

text \<open>The copy constructor: a new block, then the payload buffer and the positions of \<open>src\<close>.\<close>

definition CPacket_copy :: "packet \<Rightarrow> bytes \<Rightarrow> packet" where
  "CPacket_copy src mem =
     (let p = CPacket_ctor (pk_buffer_size src) mem in
      p\<lparr>pk_buffer_size := pk_buffer_size src, pk_data_size := pk_data_size src,
        pk_hidden := splice net_header_size
          (take (nat (pk_buffer_size src)) (drop net_header_size (pk_hidden src))) (pk_hidden p),
        pk_write_pos := pk_write_pos src, pk_read_pos := pk_read_pos src\<rparr>)"

definition CPacket_GetBufferSize :: "packet \<Rightarrow> int" where
  "CPacket_GetBufferSize p = pk_buffer_size p"

definition CPacket_GetDataSize :: "packet \<Rightarrow> int" where
  "CPacket_GetDataSize p = pk_data_size p"

definition CPacket_MoveWritePos :: "int \<Rightarrow> packet \<Rightarrow> packet \<times> int" where
  "CPacket_MoveWritePos n p =
     (if n \<le> 0 then (p, 0)
      else
        let n = (if pk_write_pos p + n \<ge> pk_buffer_size p then pk_buffer_size p - pk_write_pos p - 1
                 else n)
        in (p\<lparr>pk_write_pos := pk_write_pos p + n, pk_data_size := pk_data_size p + n\<rparr>, n))"

definition CPacket_MoveReadPos :: "int \<Rightarrow> packet \<Rightarrow> packet \<times> int" where
  "CPacket_MoveReadPos n p =
     (if n \<le> 0 then (p, 0)
      else
        let n = (if pk_read_pos p + n > pk_write_pos p then pk_write_pos p - pk_read_pos p else n)
        in (p\<lparr>pk_read_pos := pk_read_pos p + n, pk_data_size := pk_data_size p - n\<rparr>, n))"

text \<open>\<open>GetData(dest, size)\<close> and \<open>PutData(src, size)\<close>: all or nothing. \<open>GetData\<close> also yields the
  bytes copied to \<open>dest\<close>; when it returns 0 for a positive size, \<open>dest\<close> is left as it was.\<close>

definition CPacket_GetData :: "nat \<Rightarrow> packet \<Rightarrow> packet \<times> nat \<times> bytes" where
  "CPacket_GetData n p =
     (if int n > pk_data_size p then (p, 0, [])
      else (p\<lparr>pk_read_pos := pk_read_pos p + int n, pk_data_size := pk_data_size p - int n\<rparr>, n,
            take n (drop (net_header_size + nat (pk_read_pos p)) (pk_hidden p))))"

definition CPacket_PutData :: "bytes \<Rightarrow> packet \<Rightarrow> packet \<times> nat" where
  "CPacket_PutData src p =
     (if pk_buffer_size p \<le> pk_write_pos p + int (length src) then (p, 0)
      else (p\<lparr>pk_hidden := splice (net_header_size + nat (pk_write_pos p)) src (pk_hidden p),
              pk_write_pos := pk_write_pos p + int (length src),
              pk_data_size := pk_data_size p + int (length src)\<rparr>, length src))"

text \<open>
  The eleven \<^verbatim>\<open>operator<<\<close> differ in the type of the value only; each puts the value's bytes.
  The eleven \<^verbatim>\<open>operator>>\<close> get as many bytes as the type has into the variable \<open>v\<close>, which keeps
  its value when there are not enough. (\<^verbatim>\<open>float\<close> and \<^verbatim>\<open>double\<close> are their bit patterns.)
\<close>

definition CPacket_put :: "'a::len word \<Rightarrow> packet \<Rightarrow> packet" where
  "CPacket_put v p = fst (CPacket_PutData (le_bytes (LENGTH('a) div 8) v) p)"

definition CPacket_get :: "'a::len word \<Rightarrow> packet \<Rightarrow> packet \<times> 'a word" where
  "CPacket_get v p =
     (case CPacket_GetData (LENGTH('a) div 8) p of
        (p', n, bs) \<Rightarrow> (p', if n = 0 then v else le_word bs))"

subsection \<open>Headers in place\<close>

text \<open>The pointer getters write the length field and return the offset of the header.\<close>

definition CPacket_GetBufferPtrLan :: "packet \<Rightarrow> packet \<times> nat" where
  "CPacket_GetBufferPtrLan p =
     (p\<lparr>pk_hidden := splice (net_header_size - lan_header_size)
          (le_bytes 2 (of_int (pk_data_size p) :: u16)) (pk_hidden p)\<rparr>,
      net_header_size - lan_header_size)"

definition CPacket_GetDataSizeLan :: "packet \<Rightarrow> int" where
  "CPacket_GetDataSizeLan p = pk_data_size p + int lan_header_size"

definition CPacket_GetBufferPtrNet :: "packet \<Rightarrow> packet \<times> nat" where
  "CPacket_GetBufferPtrNet p =
     (p\<lparr>pk_hidden := splice 1 (le_bytes 2 (of_int (pk_data_size p) :: u16)) (pk_hidden p)\<rparr>, 0)"

definition CPacket_GetDataSizeNet :: "packet \<Rightarrow> int" where
  "CPacket_GetDataSizeNet p = pk_data_size p + int net_header_size"

subsection \<open>The cipher\<close>

text \<open>The sum of the first \<open>n\<close> payload bytes, in an \<^verbatim>\<open>unsigned char\<close>.\<close>

fun checksum_loop :: "nat \<Rightarrow> nat \<Rightarrow> u8 \<Rightarrow> bytes \<Rightarrow> u8" where
  "checksum_loop 0 i acc buf = acc"
| "checksum_loop (Suc n) i acc buf = checksum_loop n (Suc i) (acc + buf ! i) buf"

text \<open>
  The loop of \<open>Encode\<close>: \<open>n\<close> bytes from index \<open>i\<close> of \<open>buf\<close>, which starts at the check sum. The
  code computes in \<^verbatim>\<open>int\<close> and stores the low byte, which is arithmetic on bytes.
\<close>

fun encode_loop :: "u8 \<Rightarrow> u8 \<Rightarrow> nat \<Rightarrow> nat \<Rightarrow> u8 \<Rightarrow> u8 \<Rightarrow> bytes \<Rightarrow> bytes" where
  "encode_loop r_key packet_key 0 i p e buf = buf"
| "encode_loop r_key packet_key (Suc n) i p e buf =
     (let p = buf ! i XOR (p + r_key + of_nat i + 1);
          e = p XOR (e + packet_key + of_nat i + 1)
      in encode_loop r_key packet_key n (Suc i) p e (buf[i := e]))"

text \<open>\<open>Encode\<close>; \<open>r_key\<close> is the low byte of what \<^verbatim>\<open>rand()\<close> returns, \<open>code\<close> and \<open>key\<close> the
  class's \<open>packet_code\<close> and \<open>packet_key\<close>.\<close>

definition CPacket_Encode :: "u8 \<Rightarrow> u8 \<Rightarrow> u8 \<Rightarrow> packet \<Rightarrow> packet" where
  "CPacket_Encode code key r_key p =
     (let sum = checksum_loop (nat (pk_data_size p)) 0 0 (drop net_header_size (pk_hidden p));
          h = (pk_hidden p)[4 := sum];
          h = take 4 h @ encode_loop r_key key (nat (pk_data_size p + 1)) 0 0 0 (drop 4 h);
          h = h[0 := code];
          h = splice 1 (le_bytes 2 (of_int (pk_data_size p) :: u16)) h;
          h = h[3 := r_key]
      in p\<lparr>pk_hidden := h\<rparr>)"

fun decode_loop :: "u8 \<Rightarrow> u8 \<Rightarrow> nat \<Rightarrow> nat \<Rightarrow> u8 \<Rightarrow> u8 \<Rightarrow> bytes \<Rightarrow> bytes" where
  "decode_loop r_key packet_key 0 i old_p e buf = buf"
| "decode_loop r_key packet_key (Suc n) i old_p e buf =
     (let p = buf ! i XOR (e + packet_key + of_nat i + 1);
          e = buf ! i;
          d = p XOR (old_p + r_key + of_nat i + 1)
      in decode_loop r_key packet_key n (Suc i) p e (buf[i := d]))"

definition CPacket_Decode :: "u8 \<Rightarrow> packet \<Rightarrow> packet \<times> bool" where
  "CPacket_Decode key p =
     (let r_key = pk_hidden p ! 3;
          h = take 4 (pk_hidden p) @
              decode_loop r_key key (nat (pk_data_size p + 1)) 0 0 0 (drop 4 (pk_hidden p));
          sum = checksum_loop (nat (pk_data_size p)) 0 0 (drop net_header_size h)
      in (p\<lparr>pk_hidden := h\<rparr>, sum = h ! 4))"

subsection \<open>Reference count\<close>

definition CPacket_AddRef :: "packet \<Rightarrow> packet" where
  "CPacket_AddRef p = p\<lparr>pk_ref_cnt := pk_ref_cnt p + 1\<rparr>"

text \<open>\<open>SubRef\<close> also tells whether the packet goes back to the pool.\<close>

definition CPacket_SubRef :: "packet \<Rightarrow> packet \<times> bool" where
  "CPacket_SubRef p =
     (let temp_cnt = pk_ref_cnt p - 1 in (p\<lparr>pk_ref_cnt := temp_cnt\<rparr>, temp_cnt = 0))"

subsection \<open>Invariant and contents\<close>

definition pk_inv :: "packet \<Rightarrow> bool" where
  "pk_inv p \<longleftrightarrow> length (pk_hidden p) = nat (pk_buffer_size p) + net_header_size \<and>
     pk_buffer_size p < 2 ^ 16 \<and> 0 \<le> pk_read_pos p \<and> pk_read_pos p \<le> pk_write_pos p \<and>
     pk_write_pos p < pk_buffer_size p \<and> pk_data_size p = pk_write_pos p - pk_read_pos p"

definition pk_data :: "packet \<Rightarrow> bytes" where
  "pk_data p = take (nat (pk_data_size p)) (drop (net_header_size + nat (pk_read_pos p)) (pk_hidden p))"

text \<open>What goes over a client connection, and over the monitor connection.\<close>

definition net_wire :: "packet \<Rightarrow> bytes" where
  "net_wire p = take (nat (CPacket_GetDataSizeNet p)) (pk_hidden (fst (CPacket_GetBufferPtrNet p)))"

definition lan_wire :: "packet \<Rightarrow> bytes" where
  "lan_wire p = take (nat (CPacket_GetDataSizeLan p))
     (drop (snd (CPacket_GetBufferPtrLan p)) (pk_hidden (fst (CPacket_GetBufferPtrLan p))))"

subsection \<open>Putting and getting data\<close>

definition pk_room :: "packet \<Rightarrow> nat" where
  "pk_room p = nat (pk_buffer_size p - pk_write_pos p - 1)"

lemma pk_inv_facts:
  assumes "pk_inv p"
  shows "length (pk_hidden p) = nat (pk_buffer_size p) + 5"
    and "0 \<le> pk_read_pos p" and "pk_read_pos p \<le> pk_write_pos p"
    and "pk_write_pos p < pk_buffer_size p" and "pk_data_size p = pk_write_pos p - pk_read_pos p"
    and "0 \<le> pk_data_size p" and "pk_data_size p < 2 ^ 16"
  using assms by (auto simp: pk_inv_def net_header_size_def)

lemma length_pk_data [simp]: "pk_inv p \<Longrightarrow> length (pk_data p) = nat (pk_data_size p)"
  using pk_inv_facts[of p] by (auto simp: pk_data_def net_header_size_def nat_diff_distrib)

lemma pk_ctor:
  assumes "0 < n" "n < 2 ^ 16" "length mem = nat n + 5"
  shows "pk_inv (CPacket_ctor n mem)" and "pk_data (CPacket_ctor n mem) = []"
    and "pk_room (CPacket_ctor n mem) = nat (n - 1)"
  using assms by (simp_all add: pk_inv_def pk_data_def pk_room_def CPacket_ctor_def CPacket_Clear_def
      net_header_size_def)

lemma pk_Clear:
  assumes "pk_inv p"
  shows "pk_inv (CPacket_Clear p)" and "pk_data (CPacket_Clear p) = []"
    and "pk_ref_cnt (CPacket_Clear p) = 1" and "pk_buffer_size (CPacket_Clear p) = pk_buffer_size p"
    and "pk_room (CPacket_Clear p) = nat (pk_buffer_size p - 1)"
    and "pk_read_pos (CPacket_Clear p) = 0" and "pk_hidden (CPacket_Clear p) = pk_hidden p"
  using assms by (auto simp: pk_inv_def pk_data_def pk_room_def CPacket_Clear_def)

lemma pk_PutData_fits:
  assumes p: "pk_inv p" and n: "length src \<le> pk_room p"
  defines "p' \<equiv> fst (CPacket_PutData src p)"
  shows "snd (CPacket_PutData src p) = length src" and "pk_inv p'" and "pk_data p' = pk_data p @ src"
    and "pk_room p' = pk_room p - length src" and "pk_buffer_size p' = pk_buffer_size p"
    and "pk_read_pos p' = pk_read_pos p" and "pk_ref_cnt p' = pk_ref_cnt p"
proof -
  note I = pk_inv_facts[OF p]
  have fits: "\<not> pk_buffer_size p \<le> pk_write_pos p + int (length src)"
    using n I(4) by (auto simp: pk_room_def)
  have p': "p' = p\<lparr>pk_hidden := splice (5 + nat (pk_write_pos p)) src (pk_hidden p),
      pk_write_pos := pk_write_pos p + int (length src), pk_data_size := pk_data_size p + int (length src)\<rparr>"
    using fits by (simp add: p'_def CPacket_PutData_def net_header_size_def)
  have len: "5 + nat (pk_write_pos p) + length src \<le> length (pk_hidden p)"
    using fits I by (auto simp: nat_less_iff)
  show "snd (CPacket_PutData src p) = length src"
    using fits by (simp add: CPacket_PutData_def)
  show "pk_inv p'"
    using p fits len by (auto simp: p' pk_inv_def net_header_size_def)
  have d: "nat (pk_data_size p + int (length src)) = nat (pk_data_size p) + length src"
    and w: "5 + nat (pk_write_pos p) = 5 + nat (pk_read_pos p) + nat (pk_data_size p)"
    using I by auto
  have "take (nat (pk_data_size p) + length src)
      (drop (5 + nat (pk_read_pos p)) (splice (5 + nat (pk_write_pos p)) src (pk_hidden p)))
    = take (nat (pk_data_size p)) (drop (5 + nat (pk_read_pos p)) (pk_hidden p)) @ src"
    using len unfolding w
    by (auto intro!: nth_equalityI simp: nth_splice nth_append)
  then show "pk_data p' = pk_data p @ src"
    by (simp add: p' pk_data_def d net_header_size_def)
  show "pk_room p' = pk_room p - length src"
    using n fits by (simp add: p' pk_room_def nat_diff_distrib')
qed (simp_all add: p'_def CPacket_PutData_def)

lemma pk_PutData_full:
  assumes "pk_inv p" and "pk_room p < length src"
  shows "CPacket_PutData src p = (p, 0)"
  using assms pk_inv_facts[OF assms(1)] by (auto simp: CPacket_PutData_def pk_room_def)

lemma pk_GetData_has:
  assumes p: "pk_inv p" and n: "n \<le> length (pk_data p)"
  obtains p' where "CPacket_GetData n p = (p', n, take n (pk_data p))" "pk_inv p'"
    "pk_data p' = drop n (pk_data p)" "pk_buffer_size p' = pk_buffer_size p" "pk_hidden p' = pk_hidden p"
    "pk_write_pos p' = pk_write_pos p" "pk_ref_cnt p' = pk_ref_cnt p"
proof
  note I = pk_inv_facts[OF p]
  define p' where "p' = p\<lparr>pk_read_pos := pk_read_pos p + int n, pk_data_size := pk_data_size p - int n\<rparr>"
  have n': "int n \<le> pk_data_size p" using n p I(6) by simp
  show "CPacket_GetData n p = (p', n, take n (pk_data p))"
    using n' by (simp add: CPacket_GetData_def p'_def pk_data_def min_def nat_le_iff le_nat_iff)
  show "pk_inv p'" using p n' by (auto simp: pk_inv_def p'_def)
  have "nat (pk_data_size p - int n) = nat (pk_data_size p) - n"
    "nat (pk_read_pos p + int n) = nat (pk_read_pos p) + n"
    using I(2) by auto
  then show "pk_data p' = drop n (pk_data p)"
    by (simp add: p'_def pk_data_def drop_take add.commute add.left_commute)
qed simp_all

lemma pk_GetData_short:
  assumes "pk_inv p" and "length (pk_data p) < n"
  shows "CPacket_GetData n p = (p, 0, [])"
  using assms pk_inv_facts[OF assms(1)] by (auto simp: CPacket_GetData_def)

lemma pk_put:
  fixes v :: "'a::len word"
  assumes p: "pk_inv p" and n: "LENGTH('a) div 8 \<le> pk_room p"
  defines "p' \<equiv> CPacket_put v p"
  shows "pk_inv p'" and "pk_data p' = pk_data p @ le_bytes (LENGTH('a) div 8) v"
    and "pk_room p' = pk_room p - LENGTH('a) div 8" and "pk_buffer_size p' = pk_buffer_size p"
    and "pk_read_pos p' = pk_read_pos p" and "pk_ref_cnt p' = pk_ref_cnt p"
  using pk_PutData_fits[OF p, of "le_bytes (LENGTH('a) div 8) v"] n
  by (simp_all add: p'_def CPacket_put_def)

lemma pk_get:
  fixes v w :: "'a::len word"
  assumes p: "pk_inv p" and d: "pk_data p = le_bytes (LENGTH('a) div 8) w @ rest"
    and n: "8 dvd LENGTH('a)"
  obtains p' where "CPacket_get v p = (p', w)" "pk_inv p'" "pk_data p' = rest"
    "pk_buffer_size p' = pk_buffer_size p" "pk_ref_cnt p' = pk_ref_cnt p"
proof -
  have pos: "0 < LENGTH('a) div 8" and n8: "LENGTH('a) \<le> 8 * (LENGTH('a) div 8)"
    using n len_gt_0[where 'a = 'a] by (auto elim!: dvdE simp del: len_gt_0)
  obtain p' where "CPacket_GetData (LENGTH('a) div 8) p = (p', LENGTH('a) div 8, take (LENGTH('a) div 8) (pk_data p))"
      "pk_inv p'" "pk_data p' = drop (LENGTH('a) div 8) (pk_data p)" "pk_buffer_size p' = pk_buffer_size p"
      "pk_ref_cnt p' = pk_ref_cnt p"
    by (rule pk_GetData_has[OF p, of "LENGTH('a) div 8"]) (use d in auto)
  with d pos le_word_bytes[OF n8, of w] that[of p'] show ?thesis
    by (simp add: CPacket_get_def)
qed

text \<open>Too few bytes left: the variable keeps its value and the packet is unchanged.\<close>

lemma pk_get_short:
  fixes v :: "'a::len word"
  assumes "pk_inv p" and "length (pk_data p) < LENGTH('a) div 8"
  shows "CPacket_get v p = (p, v)"
  using pk_GetData_short[OF assms] by (simp add: CPacket_get_def)

subsection \<open>The cipher inverts\<close>

text \<open>What the two loops do to the bytes they walk over, as functions on lists.\<close>

fun enc_stream :: "u8 \<Rightarrow> u8 \<Rightarrow> nat \<Rightarrow> u8 \<Rightarrow> u8 \<Rightarrow> bytes \<Rightarrow> bytes" where
  "enc_stream r k i p e [] = []"
| "enc_stream r k i p e (b # bs) =
     (let p' = b XOR (p + r + of_nat i + 1); e' = p' XOR (e + k + of_nat i + 1)
      in e' # enc_stream r k (Suc i) p' e' bs)"

fun dec_stream :: "u8 \<Rightarrow> u8 \<Rightarrow> nat \<Rightarrow> u8 \<Rightarrow> u8 \<Rightarrow> bytes \<Rightarrow> bytes" where
  "dec_stream r k i q e [] = []"
| "dec_stream r k i q e (b # bs) =
     (let p = b XOR (e + k + of_nat i + 1)
      in (p XOR (q + r + of_nat i + 1)) # dec_stream r k (Suc i) p b bs)"

lemma xor_cancel: "((a :: u8) XOR b) XOR b = a"
  by (simp add: xor.assoc)

lemma length_enc_stream [simp]: "length (enc_stream r k i p e bs) = length bs"
  by (induction bs arbitrary: i p e) (simp_all add: Let_def)

lemma length_dec_stream [simp]: "length (dec_stream r k i q e bs) = length bs"
  by (induction bs arbitrary: i q e) (simp_all add: Let_def)

lemma dec_enc_stream: "dec_stream r k i p e (enc_stream r k i p e bs) = bs"
  by (induction bs arbitrary: i p e) (simp_all add: Let_def xor_cancel)

lemma enc_dec_stream: "enc_stream r k i p e (dec_stream r k i p e bs) = bs"
  by (induction bs arbitrary: i p e) (simp_all add: Let_def xor_cancel)

lemma update_split:
  assumes "i < length buf"
  shows "take i (buf[i := x]) = take i buf" and "drop (Suc i) (buf[i := x]) = drop (Suc i) buf"
    and "take (Suc i) (buf[i := x]) = take i buf @ [x]"
  using assms by (simp_all add: take_Suc_conv_app_nth)

lemma encode_loop_stream:
  "i + n \<le> length buf \<Longrightarrow>
   encode_loop r k n i p e buf
     = take i buf @ enc_stream r k i p e (take n (drop i buf)) @ drop (i + n) buf"
proof (induction r k n i p e buf rule: encode_loop.induct)
  case (1 r k i p e buf)
  then show ?case by simp
next
  case (2 r k n i p e buf)
  define p' where "p' = buf ! i XOR (p + r + of_nat i + 1)"
  define e' where "e' = p' XOR (e + k + of_nat i + 1)"
  have i: "i < length buf" using "2.prems" by simp
  then have d: "drop i buf = buf ! i # drop (Suc i) buf" by (simp add: Cons_nth_drop_Suc)
  have "encode_loop r k (Suc n) i p e buf = encode_loop r k n (Suc i) p' e' (buf[i := e'])"
    by (simp add: Let_def p'_def e'_def)
  also have "\<dots> = take (Suc i) (buf[i := e']) @
      enc_stream r k (Suc i) p' e' (take n (drop (Suc i) (buf[i := e']))) @ drop (Suc i + n) (buf[i := e'])"
    using "2.IH"[OF p'_def e'_def] "2.prems" by simp
  also have "\<dots> = take i buf @ enc_stream r k i p e (take (Suc n) (drop i buf)) @ drop (i + Suc n) buf"
    using i by (simp add: update_split d Let_def p'_def e'_def)
  finally show ?case .
qed

lemma decode_loop_stream:
  "i + n \<le> length buf \<Longrightarrow>
   decode_loop r k n i q e buf
     = take i buf @ dec_stream r k i q e (take n (drop i buf)) @ drop (i + n) buf"
proof (induction r k n i q e buf rule: decode_loop.induct)
  case (1 r k i q e buf)
  then show ?case by simp
next
  case (2 r k n i q e buf)
  define p where "p = buf ! i XOR (e + k + of_nat i + 1)"
  define d where "d = p XOR (q + r + of_nat i + 1)"
  have i: "i < length buf" using "2.prems" by simp
  then have dr: "drop i buf = buf ! i # drop (Suc i) buf" by (simp add: Cons_nth_drop_Suc)
  have "decode_loop r k (Suc n) i q e buf = decode_loop r k n (Suc i) p (buf ! i) (buf[i := d])"
    by (simp add: Let_def p_def d_def)
  also have "\<dots> = take (Suc i) (buf[i := d]) @
      dec_stream r k (Suc i) p (buf ! i) (take n (drop (Suc i) (buf[i := d]))) @ drop (Suc i + n) (buf[i := d])"
    using "2.IH"[OF p_def refl d_def] "2.prems" by simp
  also have "\<dots> = take i buf @ dec_stream r k i q e (take (Suc n) (drop i buf)) @ drop (i + Suc n) buf"
    using i by (simp add: update_split dr Let_def p_def d_def)
  finally show ?case .
qed

lemma checksum_loop_sum:
  "i + n \<le> length buf \<Longrightarrow> checksum_loop n i acc buf = acc + sum_list (take n (drop i buf))"
proof (induction n i acc buf rule: checksum_loop.induct)
  case (2 n i acc buf)
  then have "drop i buf = buf ! i # drop (Suc i) buf" by (simp add: Cons_nth_drop_Suc)
  with 2 show ?case by (simp add: add.assoc)
qed simp

subsection \<open>What \<open>Encode\<close> puts on the wire, and what \<open>Decode\<close> makes of it\<close>

text \<open>A client message with payload \<open>d\<close>.\<close>

definition net_message :: "u8 \<Rightarrow> u8 \<Rightarrow> u8 \<Rightarrow> bytes \<Rightarrow> bytes" where
  "net_message code key r d =
     [code] @ le_bytes 2 (of_nat (length d) :: u16) @ [r] @ enc_stream r key 0 0 0 (sum_list d # d)"

lemma length_net_message [simp]: "length (net_message code key r d) = length d + 5"
  by (simp add: net_message_def del: enc_stream.simps)

lemma CPacket_Encode_hidden:
  assumes p: "pk_inv p" and r0: "pk_read_pos p = 0"
  shows "pk_hidden (CPacket_Encode code key r p) =
    net_message code key r (pk_data p) @ drop (5 + nat (pk_data_size p)) (pk_hidden p)"
proof -
  note I = pk_inv_facts[OF p]
  define h where "h = pk_hidden p"
  define n where "n = nat (pk_data_size p)"
  define sm where "sm = checksum_loop n 0 0 (drop net_header_size h)"
  have n: "5 + n \<le> length h" and nS: "nat (pk_data_size p + 1) = Suc n"
    using I by (auto simp: h_def n_def)
  have data: "pk_data p = take n (drop 5 h)"
    by (simp add: pk_data_def h_def n_def r0 net_header_size_def)
  have sum: "sm = sum_list (pk_data p)"
    unfolding sm_def data using n by (subst checksum_loop_sum) (auto simp: net_header_size_def)
  have d4: "drop 4 (h[4 := sm]) = sm # drop 5 h"
    using n by (simp add: drop_update_swap Cons_nth_drop_Suc [symmetric])
  have enc: "encode_loop r key (Suc n) 0 0 0 (drop 4 (h[4 := sm])) =
      enc_stream r key 0 0 0 (sm # pk_data p) @ drop (5 + n) h"
    unfolding d4 using n by (subst encode_loop_stream) (auto simp: data add.commute)
  have len: "length (pk_data p) = n" using data n by simp
  have wl: "(of_int (pk_data_size p) :: u16) = of_nat n" using I(6) by (simp add: n_def)
  have "take 4 h = [h ! 0, h ! 1, h ! 2, h ! 3]"
    using n by (intro nth_equalityI) (auto simp: less_Suc_eq eval_nat_numeral)
  then obtain b0 b1 b2 b3 where t4: "take 4 h = [b0, b1, b2, b3]"
    by blast
  define X where "X = enc_stream r key 0 0 0 (sm # pk_data p) @ drop (5 + n) h"
  have "pk_hidden (CPacket_Encode code key r p) =
      (splice 1 (le_bytes 2 (of_nat n :: u16)) ((take 4 h @ X)[0 := code]))[3 := r]"
    using enc wl n
    by (simp add: CPacket_Encode_def Let_def h_def [symmetric] n_def [symmetric] nS sm_def [symmetric] X_def)
  also have "\<dots> = [code] @ le_bytes 2 (of_nat n :: u16) @ [r] @ X"
    unfolding t4 by (simp add: splice_def le_bytes_def eval_nat_numeral)
  finally show ?thesis
    by (simp add: X_def net_message_def len sum h_def n_def)
qed

lemma CPacket_Encode_inv:
  assumes p: "pk_inv p" and r0: "pk_read_pos p = 0"
  shows "pk_inv (CPacket_Encode code key r p)"
    and "pk_data_size (CPacket_Encode code key r p) = pk_data_size p"
    and "pk_ref_cnt (CPacket_Encode code key r p) = pk_ref_cnt p"
    and "pk_read_pos (CPacket_Encode code key r p) = 0"
    and "pk_buffer_size (CPacket_Encode code key r p) = pk_buffer_size p"
proof -
  note I = pk_inv_facts[OF p]
  have "length (pk_hidden (CPacket_Encode code key r p)) = length (pk_hidden p)"
    unfolding CPacket_Encode_hidden[OF assms] using I p by (auto simp: nat_diff_distrib)
  then show "pk_inv (CPacket_Encode code key r p)"
    using p by (simp add: pk_inv_def CPacket_Encode_def Let_def)
qed (use r0 in \<open>simp_all add: CPacket_Encode_def Let_def\<close>)

lemma net_wire_Encode:
  assumes p: "pk_inv p" and r0: "pk_read_pos p = 0"
  shows "net_wire (CPacket_Encode code key r p) = net_message code key r (pk_data p)"
proof -
  note I = pk_inv_facts[OF p]
  let ?q = "CPacket_Encode code key r p"
  define n where "n = nat (pk_data_size p)"
  have len: "length (pk_data p) = n" using p by (simp add: n_def)
  have wl: "(of_int (pk_data_size p) :: u16) = of_nat n" using I(6) by (simp add: n_def)
  have h: "pk_hidden ?q = net_message code key r (pk_data p) @ drop (5 + n) (pk_hidden p)"
    unfolding n_def by (rule CPacket_Encode_hidden[OF assms])
  have sz: "nat (pk_data_size ?q + 5) = length (net_message code key r (pk_data p))"
    using I(6) by (simp add: CPacket_Encode_inv[OF assms] len n_def nat_add_distrib)
  have "splice 1 (le_bytes 2 (of_nat n :: u16)) (net_message code key r (pk_data p) @ x)
      = net_message code key r (pk_data p) @ x" for x
    by (simp add: net_message_def splice_def le_bytes_def eval_nat_numeral len)
  with sz h show ?thesis
    by (simp add: net_wire_def CPacket_GetDataSizeNet_def CPacket_GetBufferPtrNet_def
        net_header_size_def CPacket_Encode_inv[OF assms] wl)
qed

lemma CPacket_Decode_stream:
  assumes q: "pk_inv q" and r0: "pk_read_pos q = 0"
    and h: "pk_hidden q = h4 @ es @ rest" and l: "length h4 = 4" "length es = Suc (nat (pk_data_size q))"
    and ds: "dec_stream (h4 ! 3) key 0 0 0 es = c # d"
  shows "CPacket_Decode key q = (q\<lparr>pk_hidden := h4 @ c # d @ rest\<rparr>, sum_list d = c)"
    and "pk_inv (fst (CPacket_Decode key q))" and "pk_data (fst (CPacket_Decode key q)) = d"
proof -
  define n where "n = nat (pk_data_size q)"
  have nS: "nat (pk_data_size q + 1) = Suc n" using pk_inv_facts(6)[OF q] by (simp add: n_def)
  have ld: "length d = n" using arg_cong[OF ds, of length] l by (simp add: n_def)
  have dec: "decode_loop (h4 ! 3) key (Suc n) 0 0 0 (es @ rest) = c # d @ rest"
    using l ds by (subst decode_loop_stream) (simp_all add: n_def [symmetric])
  have k: "pk_hidden q ! 3 = h4 ! 3" using h l by (simp add: nth_append)
  have sum: "checksum_loop n 0 0 (d @ rest) = sum_list d"
    using ld by (subst checksum_loop_sum) auto
  have drop5: "drop 5 (h4 @ c # d @ rest) = d @ rest" using l by simp
  show dec_eq: "CPacket_Decode key q = (q\<lparr>pk_hidden := h4 @ c # d @ rest\<rparr>, sum_list d = c)"
    using l dec sum drop5 k
    by (simp add: CPacket_Decode_def Let_def h nS n_def [symmetric] net_header_size_def nth_append)
  have "length (h4 @ c # d @ rest) = length (pk_hidden q)" using l ld by (simp add: h n_def)
  then show "pk_inv (fst (CPacket_Decode key q))"
    using q by (simp add: dec_eq pk_inv_def)
  show "pk_data (fst (CPacket_Decode key q)) = d"
    using ld drop5 r0 by (simp add: dec_eq pk_data_def n_def [symmetric] net_header_size_def)
qed

text \<open>A received message decodes to its payload.\<close>

lemma CPacket_Decode_message:
  assumes q: "pk_inv q" and r0: "pk_read_pos q = 0"
    and h: "pk_hidden q = net_message code key r d @ rest" and n: "pk_data_size q = int (length d)"
  shows "CPacket_Decode key q = (q\<lparr>pk_hidden := code # le_bytes 2 (of_nat (length d) :: u16) @ r #
      sum_list d # d @ rest\<rparr>, True)"
    and "pk_inv (fst (CPacket_Decode key q))" and "pk_data (fst (CPacket_Decode key q)) = d"
proof -
  let ?h4 = "code # le_bytes 2 (of_nat (length d) :: u16) @ [r]"
  have k: "?h4 ! 3 = r" by (simp add: le_bytes_def eval_nat_numeral)
  have h': "pk_hidden q = ?h4 @ enc_stream r key 0 0 0 (sum_list d # d) @ rest"
    using h by (simp add: net_message_def)
  have ds: "dec_stream (?h4 ! 3) key 0 0 0 (enc_stream r key 0 0 0 (sum_list d # d)) = sum_list d # d"
    unfolding k by (rule dec_enc_stream)
  have l: "length ?h4 = 4" "length (enc_stream r key 0 0 0 (sum_list d # d)) = Suc (nat (pk_data_size q))"
    using n by (simp_all del: enc_stream.simps)
  note D = CPacket_Decode_stream[OF q r0 h' l ds]
  show "CPacket_Decode key q = (q\<lparr>pk_hidden := code # le_bytes 2 (of_nat (length d) :: u16) @ r #
      sum_list d # d @ rest\<rparr>, True)"
    using D(1) by simp
  show "pk_inv (fst (CPacket_Decode key q))" and "pk_data (fst (CPacket_Decode key q)) = d"
    using D(2,3) by simp_all
qed

end
