(* ===== verification/Protocol.thy ===== *)
theory Protocol
  imports Packet
begin

text \<open>
  The message formats: \<^verbatim>\<open>CommonProtocol.h\<close> (type codes), \<^verbatim>\<open>Define.h\<close> (limits),
  \<^verbatim>\<open>PacketMaker.cpp\<close> (the three answers of the chat server) and the step of the receive loop
  that turns the bytes of one message into a packet.
\<close>

unbundle bit_operations_syntax

subsection \<open>Codes and limits\<close>

datatype en_PACKET_TYPE =
    en_PACKET_CS_CHAT_SERVER
  | en_PACKET_CS_CHAT_REQ_LOGIN
  | en_PACKET_CS_CHAT_RES_LOGIN
  | en_PACKET_CS_CHAT_REQ_SECTOR_MOVE
  | en_PACKET_CS_CHAT_RES_SECTOR_MOVE
  | en_PACKET_CS_CHAT_REQ_MESSAGE
  | en_PACKET_CS_CHAT_RES_MESSAGE
  | en_PACKET_CS_CHAT_REQ_HEARTBEAT
  | en_PACKET_SS_MONITOR
  | en_PACKET_SS_MONITOR_LOGIN
  | en_PACKET_SS_MONITOR_DATA_UPDATE
  | en_PACKET_CS_MONITOR
  | en_PACKET_CS_MONITOR_TOOL_REQ_LOGIN
  | en_PACKET_CS_MONITOR_TOOL_RES_LOGIN
  | en_PACKET_CS_MONITOR_TOOL_DATA_UPDATE

fun en_PACKET_TYPE_value :: "en_PACKET_TYPE \<Rightarrow> u16" where
  "en_PACKET_TYPE_value en_PACKET_CS_CHAT_SERVER = 0"
| "en_PACKET_TYPE_value en_PACKET_CS_CHAT_REQ_LOGIN = 1"
| "en_PACKET_TYPE_value en_PACKET_CS_CHAT_RES_LOGIN = 2"
| "en_PACKET_TYPE_value en_PACKET_CS_CHAT_REQ_SECTOR_MOVE = 3"
| "en_PACKET_TYPE_value en_PACKET_CS_CHAT_RES_SECTOR_MOVE = 4"
| "en_PACKET_TYPE_value en_PACKET_CS_CHAT_REQ_MESSAGE = 5"
| "en_PACKET_TYPE_value en_PACKET_CS_CHAT_RES_MESSAGE = 6"
| "en_PACKET_TYPE_value en_PACKET_CS_CHAT_REQ_HEARTBEAT = 7"
| "en_PACKET_TYPE_value en_PACKET_SS_MONITOR = 20000"
| "en_PACKET_TYPE_value en_PACKET_SS_MONITOR_LOGIN = 20001"
| "en_PACKET_TYPE_value en_PACKET_SS_MONITOR_DATA_UPDATE = 20002"
| "en_PACKET_TYPE_value en_PACKET_CS_MONITOR = 25000"
| "en_PACKET_TYPE_value en_PACKET_CS_MONITOR_TOOL_REQ_LOGIN = 25001"
| "en_PACKET_TYPE_value en_PACKET_CS_MONITOR_TOOL_RES_LOGIN = 25002"
| "en_PACKET_TYPE_value en_PACKET_CS_MONITOR_TOOL_DATA_UPDATE = 25003"

datatype monitor_data =
    dfMONITOR_DATA_TYPE_LOGIN_SERVER_RUN
  | dfMONITOR_DATA_TYPE_LOGIN_SERVER_CPU
  | dfMONITOR_DATA_TYPE_LOGIN_SERVER_MEM
  | dfMONITOR_DATA_TYPE_LOGIN_SESSION
  | dfMONITOR_DATA_TYPE_LOGIN_AUTH_TPS
  | dfMONITOR_DATA_TYPE_LOGIN_PACKET_POOL
  | dfMONITOR_DATA_TYPE_GAME_SERVER_RUN
  | dfMONITOR_DATA_TYPE_GAME_SERVER_CPU
  | dfMONITOR_DATA_TYPE_GAME_SERVER_MEM
  | dfMONITOR_DATA_TYPE_GAME_SESSION
  | dfMONITOR_DATA_TYPE_GAME_AUTH_PLAYER
  | dfMONITOR_DATA_TYPE_GAME_GAME_PLAYER
  | dfMONITOR_DATA_TYPE_GAME_ACCEPT_TPS
  | dfMONITOR_DATA_TYPE_GAME_PACKET_RECV_TPS
  | dfMONITOR_DATA_TYPE_GAME_PACKET_SEND_TPS
  | dfMONITOR_DATA_TYPE_GAME_DB_WRITE_TPS
  | dfMONITOR_DATA_TYPE_GAME_DB_WRITE_MSG
  | dfMONITOR_DATA_TYPE_GAME_AUTH_THREAD_FPS
  | dfMONITOR_DATA_TYPE_GAME_GAME_THREAD_FPS
  | dfMONITOR_DATA_TYPE_GAME_PACKET_POOL
  | dfMONITOR_DATA_TYPE_CHAT_SERVER_RUN
  | dfMONITOR_DATA_TYPE_CHAT_SERVER_CPU
  | dfMONITOR_DATA_TYPE_CHAT_SERVER_MEM
  | dfMONITOR_DATA_TYPE_CHAT_SESSION
  | dfMONITOR_DATA_TYPE_CHAT_PLAYER
  | dfMONITOR_DATA_TYPE_CHAT_UPDATE_TPS
  | dfMONITOR_DATA_TYPE_CHAT_PACKET_POOL
  | dfMONITOR_DATA_TYPE_CHAT_UPDATEMSG_POOL
  | dfMONITOR_DATA_TYPE_MONITOR_CPU_TOTAL
  | dfMONITOR_DATA_TYPE_MONITOR_NONPAGED_MEMORY
  | dfMONITOR_DATA_TYPE_MONITOR_NETWORK_RECV
  | dfMONITOR_DATA_TYPE_MONITOR_NETWORK_SEND
  | dfMONITOR_DATA_TYPE_MONITOR_AVAILABLE_MEMORY

fun monitor_data_value :: "monitor_data \<Rightarrow> u8" where
  "monitor_data_value dfMONITOR_DATA_TYPE_LOGIN_SERVER_RUN = 1"
| "monitor_data_value dfMONITOR_DATA_TYPE_LOGIN_SERVER_CPU = 2"
| "monitor_data_value dfMONITOR_DATA_TYPE_LOGIN_SERVER_MEM = 3"
| "monitor_data_value dfMONITOR_DATA_TYPE_LOGIN_SESSION = 4"
| "monitor_data_value dfMONITOR_DATA_TYPE_LOGIN_AUTH_TPS = 5"
| "monitor_data_value dfMONITOR_DATA_TYPE_LOGIN_PACKET_POOL = 6"
| "monitor_data_value dfMONITOR_DATA_TYPE_GAME_SERVER_RUN = 10"
| "monitor_data_value dfMONITOR_DATA_TYPE_GAME_SERVER_CPU = 11"
| "monitor_data_value dfMONITOR_DATA_TYPE_GAME_SERVER_MEM = 12"
| "monitor_data_value dfMONITOR_DATA_TYPE_GAME_SESSION = 13"
| "monitor_data_value dfMONITOR_DATA_TYPE_GAME_AUTH_PLAYER = 14"
| "monitor_data_value dfMONITOR_DATA_TYPE_GAME_GAME_PLAYER = 15"
| "monitor_data_value dfMONITOR_DATA_TYPE_GAME_ACCEPT_TPS = 16"
| "monitor_data_value dfMONITOR_DATA_TYPE_GAME_PACKET_RECV_TPS = 17"
| "monitor_data_value dfMONITOR_DATA_TYPE_GAME_PACKET_SEND_TPS = 18"
| "monitor_data_value dfMONITOR_DATA_TYPE_GAME_DB_WRITE_TPS = 19"
| "monitor_data_value dfMONITOR_DATA_TYPE_GAME_DB_WRITE_MSG = 20"
| "monitor_data_value dfMONITOR_DATA_TYPE_GAME_AUTH_THREAD_FPS = 21"
| "monitor_data_value dfMONITOR_DATA_TYPE_GAME_GAME_THREAD_FPS = 22"
| "monitor_data_value dfMONITOR_DATA_TYPE_GAME_PACKET_POOL = 23"
| "monitor_data_value dfMONITOR_DATA_TYPE_CHAT_SERVER_RUN = 30"
| "monitor_data_value dfMONITOR_DATA_TYPE_CHAT_SERVER_CPU = 31"
| "monitor_data_value dfMONITOR_DATA_TYPE_CHAT_SERVER_MEM = 32"
| "monitor_data_value dfMONITOR_DATA_TYPE_CHAT_SESSION = 33"
| "monitor_data_value dfMONITOR_DATA_TYPE_CHAT_PLAYER = 34"
| "monitor_data_value dfMONITOR_DATA_TYPE_CHAT_UPDATE_TPS = 35"
| "monitor_data_value dfMONITOR_DATA_TYPE_CHAT_PACKET_POOL = 36"
| "monitor_data_value dfMONITOR_DATA_TYPE_CHAT_UPDATEMSG_POOL = 37"
| "monitor_data_value dfMONITOR_DATA_TYPE_MONITOR_CPU_TOTAL = 40"
| "monitor_data_value dfMONITOR_DATA_TYPE_MONITOR_NONPAGED_MEMORY = 41"
| "monitor_data_value dfMONITOR_DATA_TYPE_MONITOR_NETWORK_RECV = 42"
| "monitor_data_value dfMONITOR_DATA_TYPE_MONITOR_NETWORK_SEND = 43"
| "monitor_data_value dfMONITOR_DATA_TYPE_MONITOR_AVAILABLE_MEMORY = 44"

datatype monitor_login = dfMONITOR_TOOL_LOGIN_OK | dfMONITOR_TOOL_LOGIN_ERR_NOSERVER
  | dfMONITOR_TOOL_LOGIN_ERR_SESSIONKEY

fun monitor_login_value :: "monitor_login \<Rightarrow> u8" where
  "monitor_login_value dfMONITOR_TOOL_LOGIN_OK = 1"
| "monitor_login_value dfMONITOR_TOOL_LOGIN_ERR_NOSERVER = 2"
| "monitor_login_value dfMONITOR_TOOL_LOGIN_ERR_SESSIONKEY = 3"

lemma en_PACKET_TYPE_value_eq [simp]: "en_PACKET_TYPE_value a = en_PACKET_TYPE_value b \<longleftrightarrow> a = b"
  by (cases a; cases b) simp_all

lemma monitor_data_value_eq [simp]: "monitor_data_value a = monitor_data_value b \<longleftrightarrow> a = b"
  by (cases a; cases b) simp_all

definition SECTOR_MAX_X :: int where "SECTOR_MAX_X = 50"
definition SECTOR_MAX_Y :: int where "SECTOR_MAX_Y = 50"
definition MAX_ID_SIZE :: nat where "MAX_ID_SIZE = 20"
definition MAX_NICK_SIZE :: nat where "MAX_NICK_SIZE = 20"
definition MAX_SESSION_KEY_SIZE :: nat where "MAX_SESSION_KEY_SIZE = 64"
definition MAX_MESSAGE :: nat where "MAX_MESSAGE = 128"

subsection \<open>Making the answers\<close>

text \<open>
  \<open>PacketMaker\<close>. The sender's \<open>code\<close>, \<open>key\<close> and the random key \<open>r\<close> are those of
  \<open>CPacket_Encode\<close>.
\<close>

definition MakeLogin :: "u8 \<Rightarrow> u8 \<Rightarrow> u8 \<Rightarrow> packet \<Rightarrow> u8 \<Rightarrow> u64 \<Rightarrow> packet" where
  "MakeLogin code key r packet status account_no =
     (let packet = CPacket_put (en_PACKET_TYPE_value en_PACKET_CS_CHAT_RES_LOGIN) packet;
          packet = CPacket_put status packet;
          packet = CPacket_put account_no packet
      in CPacket_Encode code key r packet)"

definition MakeSectorMove :: "u8 \<Rightarrow> u8 \<Rightarrow> u8 \<Rightarrow> packet \<Rightarrow> u64 \<Rightarrow> u16 \<Rightarrow> u16 \<Rightarrow> packet" where
  "MakeSectorMove code key r packet account_no sector_x sector_y =
     (let packet = CPacket_put (en_PACKET_TYPE_value en_PACKET_CS_CHAT_RES_SECTOR_MOVE) packet;
          packet = CPacket_put account_no packet;
          packet = CPacket_put sector_x packet;
          packet = CPacket_put sector_y packet
      in CPacket_Encode code key r packet)"

text \<open>
  \<^verbatim>\<open>wcscpy_s\<close> into an array of \<open>n\<close> characters: a string that does not fit with its
  terminator ends the process; the characters behind the terminator keep what the array held
  (\<open>old\<close>, the uninitialised local).
\<close>

definition wcscpy_s :: "nat \<Rightarrow> u16 list \<Rightarrow> u16 list \<Rightarrow> u16 list run" where
  "wcscpy_s n old s =
     (if length s < n then Some (s @ 0 # drop (Suc (length s)) old) else None)"

text \<open>\<open>n\<close> bytes from the start of a string object: its characters, its terminator, and then
  whatever memory \<open>beyond\<close> holds.\<close>

definition read_wstring :: "(nat \<Rightarrow> u8) \<Rightarrow> nat \<Rightarrow> u16 list \<Rightarrow> bytes" where
  "read_wstring beyond n s = take n (wbytes (s @ [0]) @ map beyond [0..<n])"

definition MakeMessage :: "u8 \<Rightarrow> u8 \<Rightarrow> u8 \<Rightarrow> u16 list \<Rightarrow> u16 list \<Rightarrow> (nat \<Rightarrow> u8) \<Rightarrow>
    packet \<Rightarrow> u64 \<Rightarrow> u16 list \<Rightarrow> u16 list \<Rightarrow> u16 \<Rightarrow> u16 list \<Rightarrow> packet run" where
  "MakeMessage code key r old_id old_nick beyond packet account_no user_id nickname message_len message =
     (let packet = CPacket_put (en_PACKET_TYPE_value en_PACKET_CS_CHAT_RES_MESSAGE) packet;
          packet = CPacket_put account_no packet
      in case wcscpy_s MAX_ID_SIZE old_id user_id of None \<Rightarrow> None
         | Some temp_id \<Rightarrow>
           (case wcscpy_s MAX_NICK_SIZE old_nick nickname of None \<Rightarrow> None
            | Some temp_nickname \<Rightarrow>
              (let packet = fst (CPacket_PutData (wbytes temp_id) packet);
                   packet = fst (CPacket_PutData (wbytes temp_nickname) packet);
                   packet = CPacket_put message_len packet;
                   packet = fst (CPacket_PutData (read_wstring beyond (unat message_len) message) packet)
               in Some (CPacket_Encode code key r packet))))"

subsection \<open>Taking one message off the wire\<close>

text \<open>
  The steps of \<open>runIoThread\<close> on a fresh packet: take the buffer pointer, copy the \<open>bs\<close> of one
  message over it, account for \<open>len\<close> bytes of payload, decode.
\<close>

definition recv_packet :: "u8 \<Rightarrow> bytes \<Rightarrow> u16 \<Rightarrow> packet \<Rightarrow> packet \<times> bool" where
  "recv_packet key bs len packet =
     (let packet = fst (CPacket_GetBufferPtrNet packet);
          packet = packet\<lparr>pk_hidden := splice 0 bs (pk_hidden packet)\<rparr>;
          packet = fst (CPacket_MoveWritePos (uint len) packet)
      in CPacket_Decode key packet)"

text \<open>A packet as \<open>CPacket::Alloc\<close> gives it.\<close>

definition pk_fresh :: "packet \<Rightarrow> bool" where
  "pk_fresh p \<longleftrightarrow> pk_inv p \<and> pk_buffer_size p = eBUFFER_DEFAULT \<and> pk_data_size p = 0 \<and>
     pk_write_pos p = 0 \<and> pk_read_pos p = 0 \<and> pk_ref_cnt p = 1"

lemma pk_fresh_Clear: "pk_inv p \<Longrightarrow> pk_buffer_size p = eBUFFER_DEFAULT \<Longrightarrow> pk_fresh (CPacket_Clear p)"
  using pk_Clear[of p] by (simp add: pk_fresh_def CPacket_Clear_def)

lemma pk_fresh_facts:
  assumes "pk_fresh p"
  shows "pk_inv p" and "pk_data p = []" and "pk_room p = 1999" and "pk_read_pos p = 0"
    and "pk_ref_cnt p = 1" and "pk_buffer_size p = 2000"
  using assms by (simp_all add: pk_fresh_def pk_data_def pk_room_def eBUFFER_DEFAULT_def)

lemma recv_packet_filled:
  assumes f: "pk_fresh q" and n: "length bs = unat len + 5" "unat len < 2000" "0 < unat len"
  obtains q' where "recv_packet key bs len q = CPacket_Decode key q'" "pk_inv q'" "pk_read_pos q' = 0"
    "pk_hidden q' = bs @ drop (length bs) (pk_hidden q)" "pk_data_size q' = uint len"
    "pk_buffer_size q' = 2000" "pk_ref_cnt q' = 1"
proof -
  note F = pk_fresh_facts[OF f]
  have hl: "length (pk_hidden q) = 2005" using pk_inv_facts(1)[OF F(1)] F(6) by simp
  have u: "uint len < 2000" "0 < uint len" "nat (uint len) = unat len"
    unfolding uint_nat using n by (linarith, linarith, simp only: nat_int)
  define q' where "q' = q\<lparr>pk_hidden := bs @ drop (length bs) (pk_hidden q),
    pk_write_pos := uint len, pk_data_size := uint len\<rparr>"
  have sp: "splice 0 bs (splice 1 x (pk_hidden q)) = bs @ drop (length bs) (pk_hidden q)"
    if "length x = 2" for x
    unfolding splice_def[of 0] using that n hl by simp
  have eq: "recv_packet key bs len q = CPacket_Decode key q'"
    using u f by (simp add: recv_packet_def CPacket_GetBufferPtrNet_def CPacket_MoveWritePos_def
        Let_def sp[simplified] q'_def pk_fresh_def eBUFFER_DEFAULT_def)
  have "pk_inv q'"
    using f hl u n by (simp add: q'_def pk_inv_def pk_fresh_def net_header_size_def eBUFFER_DEFAULT_def)
  with eq show ?thesis
    using that F by (simp add: q'_def)
qed

text \<open>A message made by the cipher is taken off the wire as its payload.\<close>

lemma recv_packet_message:
  assumes f: "pk_fresh q" and d: "d \<noteq> []" "length d < 2000"
  obtains q' where "recv_packet key (net_message code key r d) (of_nat (length d)) q = (q', True)"
    "pk_inv q'" "pk_data q' = d" "pk_ref_cnt q' = 1" "pk_buffer_size q' = 2000"
proof -
  have u: "unat (of_nat (length d) :: u16) = length d"
    using d by (simp add: unat_of_nat take_bit_nat_eq_self)
  obtain q' where Q: "recv_packet key (net_message code key r d) (of_nat (length d)) q = CPacket_Decode key q'"
    "pk_inv q'" "pk_read_pos q' = 0" "pk_hidden q' = net_message code key r d @ drop (length d + 5) (pk_hidden q)"
    "pk_data_size q' = uint (of_nat (length d) :: u16)" "pk_buffer_size q' = 2000" "pk_ref_cnt q' = 1"
    by (rule recv_packet_filled[OF f, of "net_message code key r d" "of_nat (length d)" key])
      (use u d in \<open>simp_all only: length_net_message\<close>, auto)
  have s: "pk_data_size q' = int (length d)"
    unfolding Q(5) using u by (metis uint_nat)
  note D = CPacket_Decode_message[OF Q(2,3,4) s]
  show ?thesis
    by (rule that[of "fst (CPacket_Decode key q')"]) (use Q D in \<open>simp_all\<close>)
qed

subsection \<open>What the answers contain\<close>

definition login_payload :: "u8 \<Rightarrow> u64 \<Rightarrow> bytes" where
  "login_payload status account_no = le_bytes 2 (2 :: u16) @ le_bytes 1 status @ le_bytes 8 account_no"

definition sector_payload :: "u64 \<Rightarrow> u16 \<Rightarrow> u16 \<Rightarrow> bytes" where
  "sector_payload account_no x y = le_bytes 2 (4 :: u16) @ le_bytes 8 account_no @ le_bytes 2 x @ le_bytes 2 y"

definition message_payload :: "u64 \<Rightarrow> u16 list \<Rightarrow> u16 list \<Rightarrow> bytes \<Rightarrow> bytes" where
  "message_payload account_no wid nick msg =
     le_bytes 2 (6 :: u16) @ le_bytes 8 account_no @ wbytes wid @ wbytes nick @
     le_bytes 2 (of_nat (length msg) :: u16) @ msg"

text \<open>A packet that holds the message with payload \<open>d\<close>, ready to be sent.\<close>

definition pk_message :: "u8 \<Rightarrow> u8 \<Rightarrow> u8 \<Rightarrow> bytes \<Rightarrow> packet \<Rightarrow> bool" where
  "pk_message code key r d p \<longleftrightarrow> pk_inv p \<and> net_wire p = net_message code key r d \<and>
     pk_data_size p = int (length d) \<and> pk_buffer_size p = 2000 \<and> pk_ref_cnt p = 1 \<and> pk_read_pos p = 0"

text \<open>A packet being filled: it holds exactly \<open>d\<close> so far.\<close>

definition pk_holds :: "bytes \<Rightarrow> packet \<Rightarrow> bool" where
  "pk_holds d p \<longleftrightarrow> pk_inv p \<and> pk_read_pos p = 0 \<and> pk_data p = d \<and> pk_buffer_size p = 2000 \<and> pk_ref_cnt p = 1"

lemma pk_holds_fresh: "pk_fresh p \<Longrightarrow> pk_holds [] p"
  by (simp add: pk_holds_def pk_fresh_facts)

lemma pk_holds_room: "pk_holds d p \<Longrightarrow> pk_room p = 1999 - length d"
  using pk_inv_facts[of p] by (auto simp: pk_holds_def pk_room_def)

lemma pk_holds_PutData:
  assumes "pk_holds d p" and "length d + length src \<le> 1999"
  shows "pk_holds (d @ src) (fst (CPacket_PutData src p))"
  using assms pk_PutData_fits[of p src] pk_holds_room[OF assms(1)] by (simp add: pk_holds_def)

lemma pk_holds_put:
  fixes v :: "'a::len word"
  assumes "pk_holds d p" and "length d + LENGTH('a) div 8 \<le> 1999"
  shows "pk_holds (d @ le_bytes (LENGTH('a) div 8) v) (CPacket_put v p)"
  using pk_holds_PutData[OF assms(1), of "le_bytes (LENGTH('a) div 8) v"] assms(2)
  by (simp add: CPacket_put_def)

lemma pk_message_Encode:
  assumes h: "pk_holds d p"
  shows "pk_message code key r d (CPacket_Encode code key r p)"
proof -
  note H = h[unfolded pk_holds_def]
  have "pk_data_size p = int (length d)"
    using H pk_inv_facts(6)[of p] by auto
  then show ?thesis
    using H CPacket_Encode_inv[of p code key r]
    by (simp add: pk_message_def net_wire_Encode)
qed

lemma MakeLogin_message:
  assumes f: "pk_fresh p"
  shows "pk_message code key r (login_payload status account_no) (MakeLogin code key r p status account_no)"
proof -
  have "pk_holds (login_payload status account_no)
      (CPacket_put account_no (CPacket_put status (CPacket_put (2 :: u16) p)))"
    using pk_holds_put[OF pk_holds_put[OF pk_holds_put[OF pk_holds_fresh[OF f], of "2 :: u16"], of status], of account_no]
    by (simp add: login_payload_def)
  then show ?thesis
    by (simp add: MakeLogin_def Let_def pk_message_Encode)
qed

lemma MakeSectorMove_message:
  assumes f: "pk_fresh p"
  shows "pk_message code key r (sector_payload account_no x y) (MakeSectorMove code key r p account_no x y)"
proof -
  have "pk_holds (sector_payload account_no x y)
      (CPacket_put y (CPacket_put x (CPacket_put account_no (CPacket_put (4 :: u16) p))))"
    using pk_holds_put[OF pk_holds_put[OF pk_holds_put[OF pk_holds_put[OF pk_holds_fresh[OF f],
            of "4 :: u16"], of account_no], of x], of y]
    by (simp add: sector_payload_def)
  then show ?thesis
    by (simp add: MakeSectorMove_def Let_def pk_message_Encode)
qed

lemma length_read_wstring [simp]: "length (read_wstring beyond n s) = n"
  by (simp add: read_wstring_def)

lemma read_wstring_inside: "n \<le> 2 * length s + 2 \<Longrightarrow> read_wstring beyond n s = take n (wbytes (s @ [0]))"
  by (simp add: read_wstring_def)

lemma MakeMessage_message:
  assumes f: "pk_fresh p" and i: "length wid < MAX_ID_SIZE" "length old_id = MAX_ID_SIZE"
    and n: "length nick < MAX_NICK_SIZE" "length old_nick = MAX_NICK_SIZE" and m: "unat len \<le> 128"
  obtains p' where
    "MakeMessage code key r old_id old_nick beyond p account_no wid nick len msg = Some p'"
    "pk_message code key r (message_payload account_no
       (wid @ 0 # drop (Suc (length wid)) old_id) (nick @ 0 # drop (Suc (length nick)) old_nick)
       (read_wstring beyond (unat len) msg)) p'"
proof -
  let ?wid = "wid @ 0 # drop (Suc (length wid)) old_id"
  let ?nick = "nick @ 0 # drop (Suc (length nick)) old_nick"
  let ?msg = "read_wstring beyond (unat len) msg"
  let ?p2 = "CPacket_put account_no (CPacket_put (6 :: u16) p)"
  let ?p6 = "fst (CPacket_PutData ?msg (CPacket_put len
     (fst (CPacket_PutData (wbytes ?nick) (fst (CPacket_PutData (wbytes ?wid) ?p2))))))"
  note P2 = pk_holds_put[OF pk_holds_put[OF pk_holds_fresh[OF f], of "6 :: u16"], of account_no]
  have P2': "pk_holds (le_bytes 2 (6 :: u16) @ le_bytes 8 account_no) ?p2"
    using P2 by simp
  note P3 = pk_holds_PutData[OF P2', of "wbytes ?wid"]
  note P4 = pk_holds_PutData[OF P3, of "wbytes ?nick"]
  note P5 = pk_holds_put[OF P4, of len]
  note P6 = pk_holds_PutData[OF P5, of ?msg]
  have "pk_holds (message_payload account_no ?wid ?nick ?msg) ?p6"
    using P6 i n m by (simp add: message_payload_def MAX_ID_SIZE_def MAX_NICK_SIZE_def)
  moreover have "MakeMessage code key r old_id old_nick beyond p account_no wid nick len msg =
      Some (CPacket_Encode code key r ?p6)"
    using i n by (simp add: MakeMessage_def Let_def wcscpy_s_def)
  ultimately show ?thesis
    using that pk_message_Encode by blast
qed

subsection \<open>Properties\<close>

text \<open>
  C5. Sending and receiving: the bytes of an encoded packet, with whatever key the random
  generator chose, are accepted by the receiver that shares \<open>packet_key\<close> and decode to the
  sender's payload.
\<close>

theorem encode_decode_roundtrip:
  assumes "pk_inv p" and "pk_read_pos p = 0" and "pk_data p \<noteq> []" and "pk_buffer_size p = 2000"
    and "pk_fresh q"
  shows "\<exists>q'. recv_packet key (net_wire (CPacket_Encode code key r p)) (of_nat (length (pk_data p))) q
      = (q', True) \<and> pk_inv q' \<and> pk_data q' = pk_data p"
proof -
  have "length (pk_data p) < 2000" using pk_inv_facts[OF assms(1)] assms(1,2,4) by simp
  from recv_packet_message[OF assms(5,3) this, of key code r] show ?thesis
    unfolding net_wire_Encode[OF assms(1,2)] by metis
qed

theorem encode_decode_roundtrip_witness:
  "\<exists>q'. recv_packet 50 (net_wire (CPacket_Encode 119 50 7 (CPacket_put (5 :: u16) (CPacket_ctor 2000 (replicate 2005 0)))))
      (of_nat (length (pk_data (CPacket_put (5 :: u16) (CPacket_ctor 2000 (replicate 2005 0))))))
      (CPacket_ctor 2000 (replicate 2005 1)) = (q', True) \<and> pk_inv q' \<and>
    pk_data q' = pk_data (CPacket_put (5 :: u16) (CPacket_ctor 2000 (replicate 2005 0)))"
proof -
  have f: "pk_fresh (CPacket_ctor 2000 (replicate 2005 x))" for x
    by (simp add: pk_fresh_def pk_inv_def CPacket_ctor_def CPacket_Clear_def net_header_size_def eBUFFER_DEFAULT_def)
  have "pk_holds (le_bytes 2 (5 :: u16)) (CPacket_put (5 :: u16) (CPacket_ctor 2000 (replicate 2005 0)))"
    using pk_holds_put[OF pk_holds_fresh[OF f], of "5 :: u16"] by simp
  then show ?thesis
    by (intro encode_decode_roundtrip f) (auto simp: pk_holds_def le_bytes_def)
qed

text \<open>What a client reads of a chat message (the format in \<^verbatim>\<open>CommonProtocol.h\<close>).\<close>

definition read_res_message :: "packet \<Rightarrow> u16 \<times> u64 \<times> u16 list \<times> u16 list \<times> u16 \<times> bytes" where
  "read_res_message p =
     (let (p, ty) = CPacket_get 0 p;
          (p, account_no) = CPacket_get 0 p;
          (p, _, wid) = CPacket_GetData (2 * MAX_ID_SIZE) p;
          (p, _, nick) = CPacket_GetData (2 * MAX_NICK_SIZE) p;
          (p, len) = CPacket_get 0 p;
          (p, _, msg) = CPacket_GetData (unat len) p
      in (ty, account_no, c_str (unwbytes wid), c_str (unwbytes nick), len, msg))"

lemma pk_GetData_next:
  assumes "pk_inv p" "pk_data p = d @ rest" "length d = n"
  obtains p' where "CPacket_GetData n p = (p', n, d)" "pk_inv p'" "pk_data p' = rest"
proof -
  obtain p' where "CPacket_GetData n p = (p', n, take n (pk_data p))" "pk_inv p'" "pk_data p' = drop n (pk_data p)"
    using pk_GetData_has[OF assms(1), of n] assms(2,3) by (metis le_add1 length_append)
  with that assms show ?thesis by simp
qed

lemma read_res_message_payload:
  assumes p: "pk_inv p" and d: "pk_data p = message_payload account_no wid nick msg"
    and l: "length wid = MAX_ID_SIZE" "length nick = MAX_NICK_SIZE" "length msg < 2 ^ 16"
  shows "read_res_message p = (6, account_no, c_str wid, c_str nick, of_nat (length msg), msg)"
proof -
  note M = message_payload_def
  have u: "unat (of_nat (length msg) :: u16) = length msg"
    using l by (simp add: unat_of_nat take_bit_nat_eq_self)
  have D1: "pk_data p = le_bytes (LENGTH(16) div 8) (6 :: u16) @ le_bytes 8 account_no @ wbytes wid @
      wbytes nick @ le_bytes 2 (of_nat (length msg) :: u16) @ msg"
    using d by (simp add: M)
  obtain p1 where P1: "CPacket_get (0 :: u16) p = (p1, 6)" "pk_inv p1" "pk_data p1 = le_bytes 8 account_no @ wbytes wid @
      wbytes nick @ le_bytes 2 (of_nat (length msg) :: u16) @ msg"
    by (rule pk_get[OF p D1, of 0]) simp_all
  obtain p2 where P2: "CPacket_get (0 :: u64) p1 = (p2, account_no)" "pk_inv p2" "pk_data p2 = wbytes wid @
      wbytes nick @ le_bytes 2 (of_nat (length msg) :: u16) @ msg"
    by (rule pk_get[OF P1(2), of account_no _ 0]) (use P1(3) in \<open>simp_all\<close>)
  obtain p3 where P3: "CPacket_GetData (2 * MAX_ID_SIZE) p2 = (p3, 2 * MAX_ID_SIZE, wbytes wid)" "pk_inv p3"
      "pk_data p3 = wbytes nick @ le_bytes 2 (of_nat (length msg) :: u16) @ msg"
    by (rule pk_GetData_next[OF P2(2,3), of "2 * MAX_ID_SIZE"]) (use l in \<open>simp_all\<close>)
  obtain p4 where P4: "CPacket_GetData (2 * MAX_NICK_SIZE) p3 = (p4, 2 * MAX_NICK_SIZE, wbytes nick)" "pk_inv p4"
      "pk_data p4 = le_bytes 2 (of_nat (length msg) :: u16) @ msg"
    by (rule pk_GetData_next[OF P3(2,3), of "2 * MAX_NICK_SIZE"]) (use l in \<open>simp_all\<close>)
  have D5: "pk_data p4 = le_bytes (LENGTH(16) div 8) (of_nat (length msg) :: u16) @ msg" using P4(3) by simp
  obtain p5 where P5: "CPacket_get (0 :: u16) p4 = (p5, of_nat (length msg))" "pk_inv p5" "pk_data p5 = msg"
    by (rule pk_get[OF P4(2) D5, of 0]) simp_all
  obtain p6 where P6: "CPacket_GetData (length msg) p5 = (p6, length msg, msg)"
    by (rule pk_GetData_next[OF P5(2), of msg "[]"]) (use P5(3) in \<open>simp_all\<close>)
  show ?thesis
    unfolding read_res_message_def by (simp add: P1 P2 P3 P4 P5 P6 u)
qed

text \<open>
  C6. A chat message: what \<open>MakeMessage\<close> puts into a packet reaches a client as the sender's
  account, ID, nickname and the \<open>message_len\<close> bytes of text. The call succeeds for every ID and
  nickname that fit their fields with the terminator.
\<close>

theorem chat_message_roundtrip:
  assumes "pk_fresh p" and "pk_fresh q"
    and "length wid < MAX_ID_SIZE" and "0 \<notin> set wid" and "length old_id = MAX_ID_SIZE"
    and "length nick < MAX_NICK_SIZE" and "0 \<notin> set nick" and "length old_nick = MAX_NICK_SIZE"
    and "unat len \<le> 128" and "unat len \<le> 2 * length msg"
  shows "\<exists>p' q'. MakeMessage code key r old_id old_nick beyond p account_no wid nick len msg = Some p' \<and>
     recv_packet key (net_wire p') (of_int (pk_data_size p')) q = (q', True) \<and>
     read_res_message q' = (6, account_no, wid, nick, len, take (unat len) (wbytes msg))"
proof -
  let ?wid = "wid @ 0 # drop (Suc (length wid)) old_id"
  let ?nick = "nick @ 0 # drop (Suc (length nick)) old_nick"
  let ?d = "message_payload account_no ?wid ?nick (read_wstring beyond (unat len) msg)"
  obtain p' where P: "MakeMessage code key r old_id old_nick beyond p account_no wid nick len msg = Some p'"
      "pk_message code key r ?d p'"
    by (rule MakeMessage_message[OF assms(1,3,5,6,8,9)])
  have "length ?d < 2000" "?d \<noteq> []"
    using assms by (auto simp: message_payload_def MAX_ID_SIZE_def MAX_NICK_SIZE_def le_bytes_def)
  then obtain q' where Q: "recv_packet key (net_message code key r ?d) (of_nat (length ?d)) q = (q', True)"
      "pk_inv q'" "pk_data q' = ?d"
    using recv_packet_message[OF assms(2), of ?d key code r] by metis
  have t: "read_wstring beyond (unat len) msg = take (unat len) (wbytes msg)"
    using assms(10) by (simp add: read_wstring_inside wbytes_append)
  have "read_res_message q' = (6, account_no, c_str ?wid, c_str ?nick,
      of_nat (length (read_wstring beyond (unat len) msg)), read_wstring beyond (unat len) msg)"
    by (rule read_res_message_payload[OF Q(2,3)])
      (use assms in \<open>auto simp: MAX_ID_SIZE_def MAX_NICK_SIZE_def\<close>)
  then have "read_res_message q' = (6, account_no, wid, nick, len, take (unat len) (wbytes msg))"
    using assms(4,7) unfolding t[symmetric] by simp
  with P Q(1) show ?thesis
    by (auto simp: pk_message_def)
qed

theorem chat_message_roundtrip_witness:
  "\<exists>p' q'. MakeMessage 119 50 3 (replicate 20 9) (replicate 20 9) (\<lambda>_. 0) (CPacket_ctor 2000 (replicate 2005 0))
       42 [65, 66] [67] 4 [72, 105] = Some p' \<and>
     recv_packet 50 (net_wire p') (of_int (pk_data_size p')) (CPacket_ctor 2000 (replicate 2005 1)) = (q', True) \<and>
     read_res_message q' = (6, 42, [65, 66], [67], 4, take 4 (wbytes [72, 105]))"
proof -
  have f: "pk_fresh (CPacket_ctor 2000 (replicate 2005 x))" for x
    by (simp add: pk_fresh_def pk_inv_def CPacket_ctor_def CPacket_Clear_def net_header_size_def eBUFFER_DEFAULT_def)
  show ?thesis
    using chat_message_roundtrip[OF f f, where wid = "[65, 66]" and old_id = "replicate 20 9"
        and nick = "[67]" and old_nick = "replicate 20 9" and len = 4 and msg = "[72, 105]"
        and code = 119 and key = 50 and r = 3 and beyond = "\<lambda>_. 0" and account_no = 42]
    by (simp add: MAX_ID_SIZE_def MAX_NICK_SIZE_def)
qed

end
