(* ===== verification/Log.thy ===== *)
theory Log
  imports TlsPool
begin

text \<open>
  \<^verbatim>\<open>CLog.h\<close>/\<^verbatim>\<open>CLog.cpp\<close>: log records. A record is taken from a pool, filled by \<open>Write\<close>
  or \<open>WriteHex\<close> on the thread that reports, queued, and later written to its file by a worker.

  Text is a list of characters. What \<^verbatim>\<open>StringCchVPrintfW\<close> makes of the format and the arguments is
  the argument \<open>text\<close> of the model; the local time is the argument \<open>tm\<close>. A string that does not fit
  its array makes the formatting call fail, which ends the process. Files are a map from names to
  contents.
\<close>

subsection \<open>Formatting\<close>

text \<open>Decimal and hexadecimal digits, padding.\<close>

fun digits :: "nat \<Rightarrow> nat \<Rightarrow> nat \<Rightarrow> string" where
  "digits 0 b n = []"
| "digits (Suc fuel) b n =
     (if n < b then [''0123456789abcdef'' ! n] else digits fuel b (n div b) @ [''0123456789abcdef'' ! (n mod b)])"

definition fmt_d :: "int \<Rightarrow> string" where
  "fmt_d n = (if n < 0 then ''-'' @ digits 20 10 (nat (- n)) else digits 20 10 (nat n))"

definition fmt_pad :: "char \<Rightarrow> nat \<Rightarrow> string \<Rightarrow> string" where
  "fmt_pad c n s = replicate (n - length s) c @ s"

definition fmt_02x :: "u8 \<Rightarrow> string" where
  "fmt_02x b = fmt_pad (CHR ''0'') 2 (digits 2 16 (unat b))"

record tm =
  tm_year :: int
  tm_mon :: int
  tm_mday :: int
  tm_hour :: int
  tm_min :: int
  tm_sec :: int

subsection \<open>Records and static state\<close>

datatype en_LOG_LEVEL = enLOG_LEVEL_DEBUG | enLOG_LEVEL_ERROR | enLOG_LEVEL_SYSTEM

fun en_LOG_LEVEL_value :: "en_LOG_LEVEL \<Rightarrow> int" where
  "en_LOG_LEVEL_value enLOG_LEVEL_DEBUG = 0"
| "en_LOG_LEVEL_value enLOG_LEVEL_ERROR = 1"
| "en_LOG_LEVEL_value enLOG_LEVEL_SYSTEM = 2"

fun g_szLogLevel :: "en_LOG_LEVEL \<Rightarrow> string" where
  "g_szLogLevel enLOG_LEVEL_DEBUG = ''DEBUG''"
| "g_szLogLevel enLOG_LEVEL_ERROR = ''ERROR''"
| "g_szLogLevel enLOG_LEVEL_SYSTEM = ''SYSTEM''"

record clog =
  cl_isHex :: bool
  cl_logBuf :: string
  cl_logHex :: string
  cl_fileName :: string
  cl_logLevel :: en_LOG_LEVEL
  cl_logNo :: u64

record syslog =
  lg_dir :: string
  lg_level :: int
  lg_init :: bool
  lg_pool :: mempool
  lg_objs :: "addr \<Rightarrow> clog"
  lg_counter :: u64
  lg_files :: "string \<Rightarrow> string"

definition dfLOG_DIR_MAX :: nat where "dfLOG_DIR_MAX = 64"
definition dfLOG_BUF_MAX :: nat where "dfLOG_BUF_MAX = 1024"
definition dfLOG_FILENAME_MAX :: nat where "dfLOG_FILENAME_MAX = 128"

subsection \<open>Operations\<close>

definition SYSLOG_DIRECTORY :: "string \<Rightarrow> syslog \<Rightarrow> syslog run" where
  "SYSLOG_DIRECTORY dir s = (if length dir < dfLOG_DIR_MAX then Some (s\<lparr>lg_dir := dir\<rparr>) else None)"

text \<open>The range check reads the old \<open>level\<close>, not the new one.\<close>

definition SYSLOG_LEVEL :: "int \<Rightarrow> syslog \<Rightarrow> syslog run" where
  "SYSLOG_LEVEL logLevel s =
     (if lg_level s < 0 \<or> 2 < lg_level s then None else Some (s\<lparr>lg_level := logLevel\<rparr>))"

definition SYSLOG_Init :: "string \<Rightarrow> int \<Rightarrow> syslog \<Rightarrow> syslog run" where
  "SYSLOG_Init dir lev s =
     (case SYSLOG_DIRECTORY dir s of None \<Rightarrow> None
      | Some s \<Rightarrow> (case SYSLOG_LEVEL lev s of None \<Rightarrow> None | Some s \<Rightarrow> Some (s\<lparr>lg_init := True\<rparr>)))"

definition CLog_Alloc :: "tid \<Rightarrow> syslog \<Rightarrow> (addr \<times> syslog) run" where
  "CLog_Alloc t s =
     (case MemoryPoolTls_Alloc t (lg_pool s) of None \<Rightarrow> None
      | Some (a, pool) \<Rightarrow>
          Some (a, s\<lparr>lg_pool := pool,
                     lg_objs := (lg_objs s)(a := (lg_objs s a)\<lparr>cl_isHex := False, cl_logHex := []\<rparr>)\<rparr>))"

definition CLog_Free :: "tid \<Rightarrow> addr \<Rightarrow> syslog \<Rightarrow> syslog run" where
  "CLog_Free t a s =
     (case MemoryPoolTls_Free t a (lg_pool s) of None \<Rightarrow> None
      | Some (_, pool) \<Rightarrow> Some (s\<lparr>lg_pool := pool\<rparr>))"

definition log_file_name :: "string \<Rightarrow> tm \<Rightarrow> string \<Rightarrow> string" where
  "log_file_name dir tm szType = dir @ ''/'' @ fmt_pad (CHR '' '') 4 (fmt_d (tm_year tm + 1900)) @
     fmt_pad (CHR ''0'') 2 (fmt_d (tm_mon tm + 1)) @ ''_'' @ szType @ ''.txt''"

definition CLog_Write :: "addr \<Rightarrow> string \<Rightarrow> en_LOG_LEVEL \<Rightarrow> string \<Rightarrow> tm \<Rightarrow> syslog \<Rightarrow> (bool \<times> syslog) run" where
  "CLog_Write a szType logLevel text tm s =
     (if \<not> lg_init s then None
      else if lg_level s \<le> en_LOG_LEVEL_value logLevel then
        let name = log_file_name (lg_dir s) tm szType in
        if dfLOG_FILENAME_MAX \<le> length name then None
        else if dfLOG_BUF_MAX \<le> length text then None
        else Some (True, s\<lparr>lg_counter := lg_counter s + 1,
               lg_objs := (lg_objs s)(a := (lg_objs s a)\<lparr>cl_fileName := name, cl_logBuf := text,
                 cl_logNo := lg_counter s + 1, cl_logLevel := logLevel\<rparr>)\<rparr>)
      else Some (False, s))"

text \<open>The loop of \<open>WriteHex\<close> prints each byte at its place, with room for four characters.\<close>

fun hex_loop :: "bytes \<Rightarrow> string" where
  "hex_loop [] = []"
| "hex_loop (b # bs) = fmt_02x b @ hex_loop bs"

definition CLog_WriteHex :: "addr \<Rightarrow> string \<Rightarrow> en_LOG_LEVEL \<Rightarrow> string \<Rightarrow> bytes \<Rightarrow> tm \<Rightarrow> syslog \<Rightarrow> (bool \<times> syslog) run" where
  "CLog_WriteHex a szType logLevel szLog pByte tm s =
     (if dfLOG_BUF_MAX \<le> length pByte * 2 \<or> pByte = [] then None
      else if \<not> lg_init s then None
      else if lg_level s \<le> en_LOG_LEVEL_value logLevel then
        let name = log_file_name (lg_dir s) tm szType in
        if dfLOG_FILENAME_MAX \<le> length name then None
        else Some (True, s\<lparr>lg_counter := lg_counter s + 1,
               lg_objs := (lg_objs s)(a := (lg_objs s a)\<lparr>cl_fileName := name,
                 cl_logBuf := take (dfLOG_BUF_MAX - 1) szLog, cl_logHex := hex_loop pByte,
                 cl_logNo := lg_counter s + 1, cl_logLevel := logLevel\<rparr>)\<rparr>)
      else Some (False, s))"

text \<open>What one record adds to its file; \<open>opened\<close>: whether the file could be opened.\<close>

definition log_line :: "clog \<Rightarrow> tm \<Rightarrow> string" where
  "log_line l tm = ''['' @ fmt_pad (CHR '' '') 4 (fmt_d (tm_year tm + 1900)) @ ''-'' @
     fmt_pad (CHR ''0'') 2 (fmt_d (tm_mon tm + 1)) @ ''-'' @ fmt_pad (CHR ''0'') 2 (fmt_d (tm_mday tm)) @
     '' '' @ fmt_pad (CHR ''0'') 2 (fmt_d (tm_hour tm)) @ '':'' @ fmt_pad (CHR ''0'') 2 (fmt_d (tm_min tm)) @
     '':'' @ fmt_pad (CHR ''0'') 2 (fmt_d (tm_sec tm)) @ '' / '' @
     fmt_pad (CHR '' '') 7 (g_szLogLevel (cl_logLevel l)) @ '' / '' @
     fmt_pad (CHR ''0'') 10 (fmt_d (sint (cl_logNo l))) @ ''] '' @ cl_logBuf l @ [CHR 0x0A] @
     '' : '' @ cl_logHex l @ [CHR 0x0A]"

definition CLog_WriteFile :: "addr \<Rightarrow> bool \<Rightarrow> tm \<Rightarrow> syslog \<Rightarrow> syslog run" where
  "CLog_WriteFile a opened tm s =
     (if \<not> opened then None
      else let l = lg_objs s a; name = cl_fileName l in
        Some (s\<lparr>lg_files := (lg_files s)(name := lg_files s name @ log_line l tm)\<rparr>))"

subsection \<open>Lengths and totality\<close>

lemma length_digits: "1 \<le> f \<Longrightarrow> 1 \<le> length (digits f b n)"
  by (induction f b n rule: digits.induct) auto

lemma length_digits_le: "length (digits f b n) \<le> f"
  by (induction f b n rule: digits.induct) auto

lemma length_fmt_d: "length (fmt_d n) \<le> 21"
  using length_digits_le[of 20 10 "nat n"] length_digits_le[of 20 10 "nat (- n)"]
  by (simp add: fmt_d_def)

lemma length_fmt_pad [simp]: "length (fmt_pad c n s) = max n (length s)"
  by (simp add: fmt_pad_def)

lemma length_fmt_02x: "length (fmt_02x b) = 2"
  using length_digits_le[of 2 16 "unat b"] unfolding fmt_02x_def by simp

lemma length_hex_loop: "length (hex_loop bs) = 2 * length bs"
  by (induction bs) (simp_all add: length_fmt_02x)

lemma length_log_file_name:
  "length dir \<le> 64 \<Longrightarrow> length szType \<le> 10 \<Longrightarrow> length (log_file_name dir tm szType) < dfLOG_FILENAME_MAX"
  using length_fmt_d[of "tm_year tm + 1900"] length_fmt_d[of "tm_mon tm + 1"]
  by (auto simp: log_file_name_def dfLOG_FILENAME_MAX_def max_def)

text \<open>The static state after start-up: \<open>L\<close> are the records in use.\<close>

definition lg_inv :: "syslog \<Rightarrow> addr set \<Rightarrow> bool" where
  "lg_inv s L \<longleftrightarrow> lg_init s \<and> lg_level s = 0 \<and> length (lg_dir s) < dfLOG_DIR_MAX \<and> mp_inv (lg_pool s) L"

lemma SYSLOG_Init_ok:
  assumes "lg_level s = 0" "length dir < dfLOG_DIR_MAX" "mp_inv (lg_pool s) L"
  obtains s' where "SYSLOG_Init dir 0 s = Some s'" "lg_inv s' L"
  using assms by (simp add: SYSLOG_Init_def SYSLOG_DIRECTORY_def SYSLOG_LEVEL_def lg_inv_def)

lemma CLog_Alloc_ok:
  assumes "lg_inv s L"
  obtains a s' where "CLog_Alloc t s = Some (a, s')" "a \<notin> L" "lg_inv s' (insert a L)"
proof -
  have "mp_inv (lg_pool s) L" using assms by (simp add: lg_inv_def)
  then obtain a p where "MemoryPoolTls_Alloc t (lg_pool s) = Some (a, p)" "a \<notin> L" "mp_inv p (insert a L)"
    using tls.alloc_ok by blast
  with that assms show ?thesis by (simp add: CLog_Alloc_def lg_inv_def)
qed

lemma CLog_Free_ok:
  assumes "lg_inv s L" and "a \<in> L"
  obtains s' where "CLog_Free t a s = Some s'" "lg_inv s' (L - {a})"
proof -
  have "mp_inv (lg_pool s) L" using assms by (simp add: lg_inv_def)
  then obtain p where "MemoryPoolTls_Free t a (lg_pool s) = Some (True, p)" "mp_inv p (L - {a})"
    using tls.free_ok assms(2) by blast
  with that assms show ?thesis by (simp add: CLog_Free_def lg_inv_def)
qed

lemma CLog_Write_ok:
  assumes s: "lg_inv s L" and "length szType \<le> 10" "length text < 1024"
  obtains s' where "CLog_Write a szType lev text tm s = Some (True, s')" "lg_inv s' L"
proof -
  have "length (log_file_name (lg_dir s) tm szType) < dfLOG_FILENAME_MAX"
    using assms by (intro length_log_file_name) (auto simp: lg_inv_def dfLOG_DIR_MAX_def)
  moreover have "lg_level s \<le> en_LOG_LEVEL_value lev"
    using s by (cases lev) (auto simp: lg_inv_def)
  ultimately show ?thesis
    using that assms by (simp add: CLog_Write_def lg_inv_def dfLOG_BUF_MAX_def Let_def)
qed

lemma CLog_WriteFile_ok:
  assumes "lg_inv s L"
  obtains s' where "CLog_WriteFile a True tm s = Some s'" "lg_inv s' L"
  using assms that by (simp add: CLog_WriteFile_def lg_inv_def Let_def)

end
