(* ===== verification/TextParse.thy ===== *)
theory TextParse
  imports Prelude "HOL-Library.Monad_Syntax"
begin

text \<open>
  \<^verbatim>\<open>TextParser.h\<close>, \<^verbatim>\<open>TextParser.cpp\<close>: the reader of the configuration file. \<open>_buffer\<close> is the
  text of the file, \<open>_bufPointer\<close> an index into it. The code never checks for the end of the
  buffer: a read outside is the outcome \<open>None\<close>. So is a word that does not fit the array
  \<^verbatim>\<open>chWord\<close> with a terminator.
\<close>

definition char_at :: "string \<Rightarrow> nat \<Rightarrow> char run" where
  "char_at buf p = (if p < length buf then Some (buf ! p) else None)"

lemma char_at_Some: "char_at buf p = Some c \<longleftrightarrow> p < length buf \<and> buf ! p = c"
  by (auto simp: char_at_def)

text \<open>\<open>LoadFile\<close>: the bytes of the file, if it can be opened and read.\<close>

definition TextParser_LoadFile :: "string option \<Rightarrow> string \<Rightarrow> bool \<times> string" where
  "TextParser_LoadFile file buffer = (case file of None \<Rightarrow> (False, buffer) | Some contents \<Rightarrow> (True, contents))"

subsection \<open>Skipping\<close>

definition separators :: "char list" where
  "separators = [CHR ''{'', CHR ''.'', CHR '','', CHR 0x20, CHR 0x08, CHR 0x09, CHR 0x0A, CHR 0x0D]"

text \<open>The loop that looks for the end of a block comment: the character before and the current one.\<close>

function skip_block :: "string \<Rightarrow> nat \<Rightarrow> nat run" where
  "skip_block buf p =
     (if p = 0 \<or> length buf \<le> p then None
      else if buf ! (p - 1) \<noteq> CHR ''*'' \<or> buf ! p \<noteq> CHR ''/'' then skip_block buf (p + 1)
      else Some (p + 1))"
  by pat_completeness auto
termination by (relation "measure (\<lambda>(buf, p). length buf - p)") auto

text \<open>The loop of a line comment stops at a carriage return only.\<close>

function skip_line :: "string \<Rightarrow> nat \<Rightarrow> nat run" where
  "skip_line buf p =
     (if length buf \<le> p then None
      else if buf ! p \<noteq> CHR 0x0D then skip_line buf (p + 1)
      else Some p)"
  by pat_completeness auto
termination by (relation "measure (\<lambda>(buf, p). length buf - p)") auto

declare skip_block.simps [simp del] skip_line.simps [simp del]

lemma skip_block_gt: "skip_block buf p = Some q \<Longrightarrow> p < q \<and> q \<le> length buf"
proof (induction buf p rule: skip_block.induct)
  case (1 buf p)
  show ?case
    using 1(1) 1(2)[unfolded skip_block.simps[of buf p]] by (auto split: if_splits)
qed

lemma skip_line_ge: "skip_line buf p = Some q \<Longrightarrow> p \<le> q \<and> q < length buf \<and> buf ! q = CHR 0x0D"
proof (induction buf p rule: skip_line.induct)
  case (1 buf p)
  show ?case
    using 1(1) 1(2)[unfolded skip_line.simps[of buf p]] by (auto split: if_splits)
qed

text \<open>\<open>SkipNoneCommand\<close>: the result of the function and the new pointer.\<close>

function SkipNoneCommand :: "string \<Rightarrow> nat \<Rightarrow> (bool \<times> nat) run" where
  "SkipNoneCommand buf p =
     (if length buf \<le> p then None
      else if buf ! p = CHR ''}'' then Some (False, p)
      else if buf ! p \<in> set separators then SkipNoneCommand buf (p + 1)
      else if buf ! p = CHR ''/'' then
        (if length buf \<le> p + 1 then None
         else if buf ! (p + 1) = CHR ''*'' then
           (case skip_block buf p of None \<Rightarrow> None | Some q \<Rightarrow> SkipNoneCommand buf q)
         else if buf ! (p + 1) = CHR ''/'' then
           (case skip_line buf p of None \<Rightarrow> None | Some q \<Rightarrow> SkipNoneCommand buf q)
         else Some (True, p))
      else Some (True, p))"
  by pat_completeness auto
termination
proof (relation "measure (\<lambda>(buf, p). length buf - p)", goal_cases)
  case (3 buf p q)
  then show ?case using skip_block_gt[of buf p q] by auto
next
  case (4 buf p q)
  have "skip_line buf p = Some q" using 4 by simp
  from skip_line_ge[OF this] 4 have "p < q" by (cases "p = q") auto
  then show ?case using 4 by auto
qed auto

declare SkipNoneCommand.simps [simp del]

subsection \<open>Words\<close>

text \<open>The characters that end a word.\<close>

definition word_end :: "char \<Rightarrow> bool" where
  "word_end c \<longleftrightarrow> c = CHR '' '' \<or> c = CHR ''='' \<or> c = CHR 0x09 \<or> c = CHR 0x0A \<or> c = CHR 0x0D"

function scan_word :: "string \<Rightarrow> nat \<Rightarrow> nat run" where
  "scan_word buf p =
     (if length buf \<le> p then None else if word_end (buf ! p) then Some p else scan_word buf (p + 1))"
  by pat_completeness auto
termination by (relation "measure (\<lambda>(buf, p). length buf - p)") auto

function scan_string :: "string \<Rightarrow> nat \<Rightarrow> nat run" where
  "scan_string buf p =
     (if length buf \<le> p then None else if buf ! p = CHR 0x22 then Some p else scan_string buf (p + 1))"
  by pat_completeness auto
termination by (relation "measure (\<lambda>(buf, p). length buf - p)") auto

declare scan_word.simps [simp del] scan_string.simps [simp del]

text \<open>\<open>GetNextWord\<close> and \<open>GetStringWord\<close>: the word, if there is one, and the new pointer.\<close>

definition GetNextWord :: "string \<Rightarrow> nat \<Rightarrow> (string option \<times> nat) run" where
  "GetNextWord buf p = do {
     (ok, p) \<leftarrow> SkipNoneCommand buf p;
     if \<not> ok then Some (None, p)
     else if buf ! p = CHR ''='' then Some (Some ''='', p + 1)
     else do {
       q \<leftarrow> scan_word buf p;
       Some (Some (take (q - p) (drop p buf)), q)
     }
   }"

definition GetStringWord :: "string \<Rightarrow> nat \<Rightarrow> (string option \<times> nat) run" where
  "GetStringWord buf p = do {
     (ok, p) \<leftarrow> SkipNoneCommand buf p;
     if \<not> ok then Some (None, p)
     else if buf ! p \<noteq> CHR 0x22 then Some (None, p)
     else do {
       q \<leftarrow> scan_string buf (p + 1);
       Some (Some (take (q - (p + 1)) (drop (p + 1) buf)), q + 1)
     }
   }"

text \<open>The word as the C string in \<^verbatim>\<open>chWord\<close>.\<close>

definition chWord :: "string \<Rightarrow> string run" where
  "chWord w = (if length w < 256 then Some (takeWhile (\<lambda>c. c \<noteq> CHR 0x00) w) else None)"

subsection \<open>Values\<close>

definition digit_value :: "char \<Rightarrow> int" where
  "digit_value c = of_char c - of_char CHR ''0''"

definition is_digit :: "char \<Rightarrow> bool" where
  "is_digit c \<longleftrightarrow> 0 \<le> digit_value c \<and> digit_value c \<le> 9"

text \<open>\<^verbatim>\<open>atoi\<close> of the C library: an optional sign and digits; out of range it saturates.\<close>

definition atoi :: "string \<Rightarrow> int" where
  "atoi s =
     (let s = dropWhile (\<lambda>c. c = CHR '' '') s;
          neg = (s \<noteq> [] \<and> hd s = CHR ''-'');
          s = (if s \<noteq> [] \<and> (hd s = CHR ''-'' \<or> hd s = CHR ''+'') then tl s else s);
          n = foldl (\<lambda>n c. 10 * n + digit_value c) 0 (takeWhile is_digit s)
      in if neg then max (- n) (- (2 ^ 31)) else min n (2 ^ 31 - 1))"

lemma scan_word_ge: "scan_word buf p = Some q \<Longrightarrow> p \<le> q \<and> q < length buf \<and> word_end (buf ! q)"
proof (induction buf p rule: scan_word.induct)
  case (1 buf p)
  show ?case
    using 1(1) 1(2)[unfolded scan_word.simps[of buf p]] by (auto split: if_splits)
qed

lemma SkipNoneCommand_ge:
  "SkipNoneCommand buf p = Some (ok, q) \<Longrightarrow> p \<le> q \<and> q < length buf \<and> (ok \<longrightarrow> buf ! q \<notin> set separators)"
proof (induction buf p rule: SkipNoneCommand.induct)
  case (1 buf p)
  show ?case
    using 1(1-3) 1(4)[unfolded SkipNoneCommand.simps[of buf p]] skip_block_gt[of buf p] skip_line_ge[of buf p]
    by (fastforce split: if_splits option.splits)
qed

lemma GetNextWord_gt:
  assumes "GetNextWord buf p = Some (Some w, q)"
  shows "p < q \<and> p < length buf"
proof -
  obtain r where r: "SkipNoneCommand buf p = Some (True, r)" "p \<le> r" "r < length buf" "buf ! r \<notin> set separators"
    using assms SkipNoneCommand_ge[of buf p] by (auto simp: GetNextWord_def bind_Some_iff split: if_splits)
  show ?thesis
  proof (cases "buf ! r = CHR ''=''")
    case True
    then show ?thesis using assms r by (simp add: GetNextWord_def)
  next
    case False
    then have "scan_word buf r = Some q"
      using assms r by (auto simp: GetNextWord_def bind_Some_iff)
    from scan_word_ge[OF this] have "r \<le> q" "word_end (buf ! q)" by auto
    moreover have "\<not> word_end (buf ! r)" using False r(4) by (auto simp: word_end_def separators_def)
    ultimately show ?thesis using r by (cases "r = q") auto
  qed
qed

text \<open>The search for a key: the pointer behind the first word that is the key, if there is one.\<close>

function find_key :: "string \<Rightarrow> string \<Rightarrow> nat \<Rightarrow> nat option run" where
  "find_key buf key p =
     (case GetNextWord buf p of None \<Rightarrow> None
      | Some (None, q) \<Rightarrow> Some None
      | Some (Some w, q) \<Rightarrow>
          (case chWord w of None \<Rightarrow> None
           | Some s \<Rightarrow> if s = key then Some (Some q) else find_key buf key q))"
  by pat_completeness auto
termination
  by (relation "measure (\<lambda>(buf, key, p). length buf - p)") (auto dest!: GetNextWord_gt)

declare find_key.simps [simp del]

definition find_equals :: "string \<Rightarrow> string \<Rightarrow> nat option run" where
  "find_equals buf key = do {
     r \<leftarrow> find_key buf key 0;
     case r of None \<Rightarrow> Some None
     | Some p \<Rightarrow> do {
         (w, q) \<leftarrow> GetNextWord buf p;
         case w of None \<Rightarrow> Some None
         | Some w \<Rightarrow> do { s \<leftarrow> chWord w; Some (if s = ''='' then Some q else None) }
       }
   }"

text \<open>\<open>GetValue\<close> and \<open>GetStringValue\<close>: no value is the result \<^verbatim>\<open>false\<close>. The copy of a string into
  the caller's array of \<open>value_size\<close> characters is not checked by the code.\<close>

definition TextParser_GetValue :: "string \<Rightarrow> string \<Rightarrow> int option run" where
  "TextParser_GetValue buf key = do {
     r \<leftarrow> find_equals buf key;
     case r of None \<Rightarrow> Some None
     | Some p \<Rightarrow> do {
         (w, q) \<leftarrow> GetNextWord buf p;
         case w of None \<Rightarrow> Some None
         | Some w \<Rightarrow> do { s \<leftarrow> chWord w; Some (Some (atoi s)) }
       }
   }"

definition TextParser_GetStringValue :: "string \<Rightarrow> string \<Rightarrow> nat \<Rightarrow> string option run" where
  "TextParser_GetStringValue buf key value_size = do {
     r \<leftarrow> find_equals buf key;
     case r of None \<Rightarrow> Some None
     | Some p \<Rightarrow> do {
         (w, q) \<leftarrow> GetStringWord buf p;
         case w of None \<Rightarrow> Some None
         | Some w \<Rightarrow> if value_size < length w then None
                     else Some (Some (takeWhile (\<lambda>c. c \<noteq> CHR 0x00) w))
       }
   }"

end
