(* ===== verification/TextRound.thy ===== *)
theory TextRound
  imports TextParse Log
begin

text \<open>
  The reader of the configuration file against a writer of the same format: a file of the form
  \<open>{ key = value ... }\<close>, each entry on a line of its own that ends in carriage return and line feed.
\<close>

subsection \<open>The writer\<close>

datatype entry_value = Num int | Str string

fun print_value :: "entry_value \<Rightarrow> string" where
  "print_value (Num n) = fmt_d n"
| "print_value (Str s) = CHR 0x22 # s @ [CHR 0x22]"

fun print_entry :: "string \<times> entry_value \<Rightarrow> string" where
  "print_entry (k, v) = CHR 0x09 # k @ '' = '' @ print_value v @ [CHR 0x0D, CHR 0x0A]"

definition print_config :: "(string \<times> entry_value) list \<Rightarrow> string" where
  "print_config es = CHR ''{'' # concat (map print_entry es) @ ''}''"

text \<open>A word of the file: it starts with something that is neither skipped nor a comment, and holds
  no character that ends a word.\<close>

definition word_ok :: "string \<Rightarrow> bool" where
  "word_ok w \<longleftrightarrow> w \<noteq> [] \<and> length w < 256 \<and> hd w \<notin> set separators \<and> hd w \<noteq> CHR ''}'' \<and> hd w \<noteq> CHR ''/'' \<and>
     (\<forall>c \<in> set w. \<not> word_end c \<and> c \<noteq> CHR 0x00)"

definition string_ok :: "string \<Rightarrow> bool" where
  "string_ok s \<longleftrightarrow> CHR 0x22 \<notin> set s \<and> word_ok (CHR 0x22 # s @ [CHR 0x22])"

fun value_ok :: "entry_value \<Rightarrow> bool" where
  "value_ok (Num n) \<longleftrightarrow> - (2 ^ 31) \<le> n \<and> n < 2 ^ 31"
| "value_ok (Str s) \<longleftrightarrow> string_ok s"

subsection \<open>The reader on a piece of text\<close>

lemma drop_cons: "drop p buf = c # rest \<Longrightarrow> p < length buf \<and> buf ! p = c \<and> drop (p + 1) buf = rest"
  by (metis Suc_eq_plus1 Cons_nth_drop_Suc drop_all leI list.inject list.simps(3))

lemma Skip_seps:
  assumes "drop p buf = ws @ c # rest" and "set ws \<subseteq> set separators" and "c \<notin> set separators" and "c \<noteq> CHR ''/''"
  shows "SkipNoneCommand buf p = Some (c \<noteq> CHR ''}'', p + length ws)"
  using assms
proof (induction ws arbitrary: p)
  case Nil
  then have "p < length buf \<and> buf ! p = c" using drop_cons by fastforce
  then show ?case using Nil by (subst SkipNoneCommand.simps) auto
next
  case (Cons w ws)
  have D: "p < length buf \<and> buf ! p = w \<and> drop (p + 1) buf = ws @ c # rest"
    using Cons.prems(1) by (intro drop_cons) simp
  have "w \<in> set separators" using Cons.prems(2) by simp
  moreover from this have "w \<noteq> CHR ''}''" by (auto simp: separators_def)
  ultimately have "SkipNoneCommand buf p = SkipNoneCommand buf (p + 1)"
    using D by (subst SkipNoneCommand.simps) auto
  then show ?case using Cons.IH[of "p + 1"] D Cons.prems by simp
qed

lemma scan_word_run:
  assumes "drop p buf = w @ e # rest" and "\<forall>c \<in> set w. \<not> word_end c" and "word_end e"
  shows "scan_word buf p = Some (p + length w)"
  using assms
proof (induction w arbitrary: p)
  case Nil
  then have "p < length buf \<and> buf ! p = e" using drop_cons by fastforce
  then show ?case using Nil by (subst scan_word.simps) auto
next
  case (Cons c w)
  have D: "p < length buf \<and> buf ! p = c \<and> drop (p + 1) buf = w @ e # rest"
    using Cons.prems(1) by (intro drop_cons) simp
  then show ?case using Cons.IH[of "p + 1"] Cons.prems by (subst scan_word.simps) auto
qed

lemma scan_string_run:
  assumes "drop p buf = s @ CHR 0x22 # rest" and "CHR 0x22 \<notin> set s"
  shows "scan_string buf p = Some (p + length s)"
  using assms
proof (induction s arbitrary: p)
  case Nil
  then have "p < length buf \<and> buf ! p = CHR 0x22" using drop_cons by fastforce
  then show ?case by (subst scan_string.simps) auto
next
  case (Cons c s)
  have D: "p < length buf \<and> buf ! p = c \<and> drop (p + 1) buf = s @ CHR 0x22 # rest"
    using Cons.prems(1) by (intro drop_cons) simp
  then show ?case using Cons.IH[of "p + 1"] Cons.prems by (subst scan_string.simps) auto
qed

lemma take_diff_drop: "drop p buf = w @ rest \<Longrightarrow> take (p + length w - p) (drop p buf) = w"
  by simp

lemma drop_app: "drop p buf = ws @ rest \<Longrightarrow> drop (p + length ws) buf = rest"
  by (metis append_eq_conv_conj drop_drop add.commute)

lemma GetNextWord_word:
  assumes d: "drop p buf = ws @ w @ e # rest" and "set ws \<subseteq> set separators" and w: "word_ok w" and e: "word_end e"
  shows "GetNextWord buf p = Some (Some w, p + length ws + length w)"
proof -
  obtain c w' where cw: "w = c # w'" using w by (cases w) (auto simp: word_ok_def)
  have c: "c \<notin> set separators" "c \<noteq> CHR ''}''" "c \<noteq> CHR ''/''" "\<not> word_end c"
    using w by (auto simp: word_ok_def cw)
  have d2: "drop (p + length ws) buf = w @ e # rest" by (rule drop_app[OF d])
  have n: "buf ! (p + length ws) = c" using drop_cons[of "p + length ws" buf c] d2 by (simp add: cw)
  have "SkipNoneCommand buf p = Some (True, p + length ws)"
    using Skip_seps[of p buf ws c "w' @ e # rest"] d assms(2) c by (simp add: cw)
  moreover have "scan_word buf (p + length ws) = Some (p + length ws + length w)"
    by (rule scan_word_run[OF d2 _ e]) (use w in \<open>auto simp: word_ok_def\<close>)
  ultimately show ?thesis
    using n c d2 by (simp add: GetNextWord_def word_end_def)
qed

lemma GetNextWord_equals:
  assumes d: "drop p buf = ws @ CHR ''='' # rest" and "set ws \<subseteq> set separators"
  shows "GetNextWord buf p = Some (Some ''='', p + length ws + 1)"
proof -
  have "buf ! (p + length ws) = CHR ''=''" using drop_cons[OF drop_app[OF d]] by simp
  moreover have "SkipNoneCommand buf p = Some (True, p + length ws)"
    using Skip_seps[OF d assms(2)] by (simp add: separators_def)
  ultimately show ?thesis by (simp add: GetNextWord_def)
qed

lemma GetNextWord_end:
  assumes d: "drop p buf = ws @ CHR ''}'' # rest" and "set ws \<subseteq> set separators"
  shows "GetNextWord buf p = Some (None, p + length ws)"
  using Skip_seps[OF d assms(2)] by (simp add: GetNextWord_def separators_def)

lemma GetStringWord_string:
  assumes d: "drop p buf = ws @ CHR 0x22 # s @ CHR 0x22 # rest" and "set ws \<subseteq> set separators" and s: "CHR 0x22 \<notin> set s"
  shows "GetStringWord buf p = Some (Some s, p + length ws + 1 + length s + 1)"
proof -
  have n: "buf ! (p + length ws) = CHR 0x22" "drop (p + length ws + 1) buf = s @ CHR 0x22 # rest"
    using drop_cons[OF drop_app[OF d]] by simp_all
  have "SkipNoneCommand buf p = Some (True, p + length ws)"
    using Skip_seps[OF d assms(2)] by (simp add: separators_def)
  then show ?thesis
    using n scan_string_run[OF n(2) s] by (simp add: GetStringWord_def)
qed

subsection \<open>Numbers\<close>

lemma digits_nonempty: "0 < f \<Longrightarrow> digits f b n \<noteq> []"
  by (cases f) simp_all

lemma digit_char:
  assumes "d < 10"
  shows "digit_value (''0123456789abcdef'' ! d) = int d"
proof -
  have "d \<in> {0, 1, 2, 3, 4, 5, 6, 7, 8, 9}" using assms by auto
  then show ?thesis by (auto simp: digit_value_def)
qed

lemma digits_value:
  assumes "n < 10 ^ f"
  shows "foldl (\<lambda>n c. 10 * n + digit_value c) 0 (digits f 10 n) = int n \<and> (\<forall>c \<in> set (digits f 10 n). is_digit c)"
  using assms
proof (induction f arbitrary: n)
  case (Suc f)
  have d: "digit_value (''0123456789abcdef'' ! (n mod 10)) = int (n mod 10)" by (rule digit_char) simp
  show ?case
  proof (cases "n < 10")
    case True
    then show ?thesis using d by (simp add: is_digit_def)
  next
    case False
    have "n div 10 < 10 ^ f" using Suc.prems by (simp add: less_mult_imp_div_less)
    moreover have "10 * int (n div 10) + int (n mod 10) = int n" "n mod 10 \<le> 9" by presburger+
    ultimately show ?thesis using Suc.IH[of "n div 10"] False d
      by (simp add: is_digit_def)
  qed
qed simp

lemma is_digit_chars:
  assumes "is_digit c"
  shows "\<not> word_end c" and "c \<notin> set separators" and "c \<noteq> CHR ''}''" and "c \<noteq> CHR ''/''" and "c \<noteq> CHR 0x00"
    and "c \<noteq> CHR ''-''" and "c \<noteq> CHR ''+''" and "c \<noteq> CHR '' ''"
  using assms by (auto simp: is_digit_def digit_value_def word_end_def separators_def)

lemma digits_count: "length (digits f b n) \<le> f"
proof (induction f arbitrary: n)
  case (Suc f)
  then show ?case using Suc.IH[of "n div b"] by simp
qed simp

lemma digits_10:
  assumes "n < 10 ^ 20"
  obtains c cs where "digits 20 10 n = c # cs" "\<forall>d \<in> set (c # cs). is_digit d" "length (c # cs) \<le> 20"
    "foldl (\<lambda>n c. 10 * n + digit_value c) 0 (c # cs) = int n"
  using digits_value[OF assms] digits_nonempty[of 20 10 n] digits_count[of 20 10 n]
  by (cases "digits 20 10 n") auto

lemma takeWhile_digits: "\<forall>d \<in> set ds. is_digit d \<Longrightarrow> takeWhile is_digit ds = ds"
  by (simp add: takeWhile_eq_all_conv)

lemma atoi_fmt_d:
  assumes "- (2 ^ 31) \<le> n" and "n < 2 ^ 31"
  shows "atoi (fmt_d n) = n"
proof (cases "n < 0")
  case True
  have b: "nat (- n) < 10 ^ 20" using assms by simp
  obtain c cs where D: "digits 20 10 (nat (- n)) = c # cs" "\<forall>d \<in> set (c # cs). is_digit d"
    "foldl (\<lambda>n c. 10 * n + digit_value c) 0 (c # cs) = int (nat (- n))"
    by (rule digits_10[OF b]) (rule that)
  have T: "takeWhile is_digit cs = cs" by (rule takeWhile_digits) (use D(2) in simp)
  show ?thesis using True D assms by (simp add: atoi_def fmt_d_def Let_def T)
next
  case False
  have b: "nat n < 10 ^ 20" using assms by simp
  obtain c cs where D: "digits 20 10 (nat n) = c # cs" "\<forall>d \<in> set (c # cs). is_digit d"
    "foldl (\<lambda>n c. 10 * n + digit_value c) 0 (c # cs) = int (nat n)"
    by (rule digits_10[OF b]) (rule that)
  have T: "takeWhile is_digit cs = cs" by (rule takeWhile_digits) (use D(2) in simp)
  have "c \<noteq> CHR '' ''" "c \<noteq> CHR ''-''" "c \<noteq> CHR ''+''" using D(2) is_digit_chars[of c] by auto
  then show ?thesis using False D assms by (simp add: atoi_def fmt_d_def Let_def T)
qed

lemma word_ok_fmt_d:
  assumes "- (2 ^ 31) \<le> n" and "n < 2 ^ 31"
  shows "word_ok (fmt_d n)"
proof -
  have b: "nat \<bar>n\<bar> < 10 ^ 20" using assms by simp
  obtain c cs where D: "digits 20 10 (nat \<bar>n\<bar>) = c # cs" "\<forall>d \<in> set (c # cs). is_digit d" "length (c # cs) \<le> 20"
    by (rule digits_10[OF b]) (rule that)
  have e: "fmt_d n = (if n < 0 then ''-'' else []) @ c # cs"
    using D(1) by (auto simp: fmt_d_def)
  show ?thesis
    unfolding e word_ok_def using D(2,3) is_digit_chars by (auto simp: word_end_def separators_def)
qed

subsection \<open>Finding a key\<close>

definition seps_only :: "string \<Rightarrow> bool" where
  "seps_only ws \<longleftrightarrow> set ws \<subseteq> set separators"

text \<open>The value as \<open>GetNextWord\<close> reads it.\<close>

definition entry_ok :: "string \<times> entry_value \<Rightarrow> bool" where
  "entry_ok e \<longleftrightarrow> word_ok (fst e) \<and> value_ok (snd e)"

lemma value_word: "value_ok v \<Longrightarrow> word_ok (print_value v)"
  by (cases v) (simp_all add: word_ok_fmt_d string_ok_def)

lemma chWord_ok: "word_ok w \<Longrightarrow> chWord w = Some w"
  by (simp add: word_ok_def chWord_def takeWhile_eq_all_conv)

lemma chWord_equals: "chWord ''='' = Some ''=''"
  by (simp add: chWord_def)

text \<open>One entry that is not the key is read as three words.\<close>

lemma find_key_skip:
  assumes d: "drop p buf = ws @ print_entry (k, v) @ rest" and ws: "seps_only ws" and ok: "entry_ok (k, v)"
    and ne: "k \<noteq> key" "print_value v \<noteq> key" "key \<noteq> ''=''"
  obtains q where "find_key buf key p = find_key buf key q" "drop q buf = [CHR 0x0D, CHR 0x0A] @ rest"
proof -
  have k: "word_ok k" and v: "word_ok (print_value v)" using ok value_word by (auto simp: entry_ok_def)
  let ?p1 = "p + length (ws @ [CHR 0x09]) + length k"
  let ?p2 = "?p1 + length '' '' + 1"
  let ?p3 = "?p2 + length '' '' + length (print_value v)"
  have d1: "drop p buf = (ws @ [CHR 0x09]) @ k @ CHR '' '' # ''= '' @ print_value v @ CHR 0x0D # CHR 0x0A # rest"
    using d by simp
  have e1: "drop ?p1 buf = '' '' @ CHR ''='' # '' '' @ print_value v @ CHR 0x0D # CHR 0x0A # rest"
    using drop_app[OF drop_app[OF d1]] by simp
  have e2: "drop ?p2 buf = '' '' @ print_value v @ CHR 0x0D # CHR 0x0A # rest"
    using drop_cons[OF drop_app[OF e1]] by simp
  have e3: "drop ?p3 buf = [CHR 0x0D, CHR 0x0A] @ rest"
    using drop_app[OF drop_app[OF e2]] by simp
  have s: "set (ws @ [CHR 0x09]) \<subseteq> set separators" "set '' '' \<subseteq> set separators"
    using ws by (auto simp: seps_only_def separators_def)
  have w1: "GetNextWord buf p = Some (Some k, ?p1)"
    by (rule GetNextWord_word[OF d1 s(1) k]) (simp add: word_end_def)
  have w2: "GetNextWord buf ?p1 = Some (Some ''='', ?p2)"
    by (rule GetNextWord_equals[OF e1 s(2)])
  have w3: "GetNextWord buf ?p2 = Some (Some (print_value v), ?p3)"
    by (rule GetNextWord_word[OF e2 s(2) v]) (simp add: word_end_def)
  have "find_key buf key p = find_key buf key ?p1"
    using w1 ne(1) by (subst find_key.simps) (simp add: chWord_ok[OF k])
  also have "\<dots> = find_key buf key ?p2"
    using w2 ne(3) by (subst find_key.simps) (simp add: chWord_equals)
  also have "\<dots> = find_key buf key ?p3"
    using w3 ne(2) by (subst find_key.simps) (simp add: chWord_ok[OF v])
  finally show ?thesis using that[OF _ e3] by blast
qed

lemma find_key_here:
  assumes d: "drop p buf = ws @ print_entry (key, v) @ rest" and ws: "seps_only ws" and ok: "entry_ok (key, v)"
  obtains q where "find_key buf key p = Some (Some q)"
    "drop q buf = '' '' @ CHR ''='' # '' '' @ print_value v @ CHR 0x0D # CHR 0x0A # rest"
proof -
  have k: "word_ok key" using ok by (simp add: entry_ok_def)
  have d1: "drop p buf = (ws @ [CHR 0x09]) @ key @ CHR '' '' # ''= '' @ print_value v @ CHR 0x0D # CHR 0x0A # rest"
    using d by simp
  have s: "set (ws @ [CHR 0x09]) \<subseteq> set separators" using ws by (auto simp: seps_only_def separators_def)
  have "GetNextWord buf p = Some (Some key, p + length (ws @ [CHR 0x09]) + length key)"
    by (rule GetNextWord_word[OF d1 s k]) (simp add: word_end_def)
  then have "find_key buf key p = Some (Some (p + length (ws @ [CHR 0x09]) + length key))"
    by (subst find_key.simps) (simp add: chWord_ok[OF k])
  then show ?thesis using that drop_app[OF drop_app[OF d1]] by simp
qed

definition key_fresh :: "string \<Rightarrow> (string \<times> entry_value) list \<Rightarrow> bool" where
  "key_fresh key es \<longleftrightarrow> key \<noteq> ''='' \<and> (\<forall>(k, v) \<in> set es. k \<noteq> key \<and> print_value v \<noteq> key)"

lemma find_key_entries:
  assumes "drop p buf = ws @ concat (map print_entry es) @ rest" and "seps_only ws"
    and "\<forall>e \<in> set es. entry_ok e" and "key_fresh key es"
  obtains q ws' where "find_key buf key p = find_key buf key q" "drop q buf = ws' @ rest" "seps_only ws'"
  using assms
proof (induction es arbitrary: p ws thesis)
  case (Cons e es)
  obtain k v where e: "e = (k, v)" by (cases e)
  have d: "drop p buf = ws @ print_entry (k, v) @ concat (map print_entry es) @ rest" using Cons.prems(2) by (simp add: e)
  obtain q where q: "find_key buf key p = find_key buf key q"
      "drop q buf = [CHR 0x0D, CHR 0x0A] @ concat (map print_entry es) @ rest"
    by (rule find_key_skip[OF d Cons.prems(3)]) (use Cons.prems(4,5) e in \<open>auto simp: key_fresh_def\<close>)
  have s: "seps_only [CHR 0x0D, CHR 0x0A]" by (simp add: seps_only_def separators_def)
  obtain q' ws' where "find_key buf key q = find_key buf key q'" "drop q' buf = ws' @ rest" "seps_only ws'"
    by (rule Cons.IH[OF _ q(2) s]) (use Cons.prems(4,5) in \<open>auto simp: key_fresh_def\<close>)
  then show ?case using Cons.prems(1) q(1) by simp
qed simp

text \<open>A key of the file, at the position behind its equals sign.\<close>

lemma find_equals_entry:
  assumes ok: "\<forall>e \<in> set (es1 @ (key, v) # es2). entry_ok e" and fresh: "key_fresh key es1"
  obtains q rest where "find_equals (print_config (es1 @ (key, v) # es2)) key = Some (Some q)"
    "drop q (print_config (es1 @ (key, v) # es2)) = '' '' @ print_value v @ CHR 0x0D # rest"
proof -
  let ?buf = "print_config (es1 @ (key, v) # es2)"
  have d: "drop 0 ?buf = ''{'' @ concat (map print_entry es1) @ print_entry (key, v) @ concat (map print_entry es2) @ ''}''"
    by (simp add: print_config_def)
  have s: "seps_only ''{''" by (simp add: seps_only_def separators_def)
  obtain q ws where q: "find_key ?buf key 0 = find_key ?buf key q"
      "drop q ?buf = ws @ print_entry (key, v) @ concat (map print_entry es2) @ ''}''" "seps_only ws"
    by (rule find_key_entries[OF d s _ fresh]) (use ok in auto)
  obtain r where r: "find_key ?buf key q = Some (Some r)"
      "drop r ?buf = '' '' @ CHR ''='' # '' '' @ print_value v @ CHR 0x0D # CHR 0x0A # concat (map print_entry es2) @ ''}''"
    by (rule find_key_here[OF q(2,3)]) (use ok in auto)
  have w: "GetNextWord ?buf r = Some (Some ''='', r + length '' '' + 1)"
    by (rule GetNextWord_equals[OF r(2)]) (simp add: separators_def)
  show ?thesis
  proof (rule that[of "r + length '' '' + 1" "CHR 0x0A # concat (map print_entry es2) @ ''}''"])
    show "find_equals ?buf key = Some (Some (r + length '' '' + 1))"
      using q(1) r(1) w by (simp add: find_equals_def chWord_equals)
    show "drop (r + length '' '' + 1) ?buf = '' '' @ print_value v @ CHR 0x0D # CHR 0x0A # concat (map print_entry es2) @ ''}''"
      using drop_cons[OF drop_app[OF r(2)]] by simp
  qed
qed

lemma find_equals_missing:
  assumes ok: "\<forall>e \<in> set es. entry_ok e" and fresh: "key_fresh key es"
  shows "find_equals (print_config es) key = Some None"
proof -
  let ?buf = "print_config es"
  have d: "drop 0 ?buf = ''{'' @ concat (map print_entry es) @ ''}''" by (simp add: print_config_def)
  have s: "seps_only ''{''" by (simp add: seps_only_def separators_def)
  obtain q ws where q: "find_key ?buf key 0 = find_key ?buf key q" "drop q ?buf = ws @ ''}''" "seps_only ws"
    by (rule find_key_entries[OF d s ok fresh]) (rule that)
  have "GetNextWord ?buf q = Some (None, q + length ws)"
    using GetNextWord_end[of q ?buf ws "[]"] q(2,3) by (simp add: seps_only_def)
  then have "find_key ?buf key q = Some None" by (subst find_key.simps) simp
  then show ?thesis using q(1) by (simp add: find_equals_def)
qed

lemma GetValue_entry:
  assumes ok: "\<forall>e \<in> set (es1 @ (key, Num n) # es2). entry_ok e" and fresh: "key_fresh key es1"
  shows "TextParser_GetValue (print_config (es1 @ (key, Num n) # es2)) key = Some (Some n)"
proof -
  obtain q rest where q: "find_equals (print_config (es1 @ (key, Num n) # es2)) key = Some (Some q)"
      "drop q (print_config (es1 @ (key, Num n) # es2)) = '' '' @ fmt_d n @ CHR 0x0D # rest"
    using find_equals_entry[OF ok fresh] by (metis print_value.simps(1))
  have n: "- (2 ^ 31) \<le> n" "n < 2 ^ 31" using ok by (auto simp: entry_ok_def)
  have "GetNextWord (print_config (es1 @ (key, Num n) # es2)) q = Some (Some (fmt_d n), q + length '' '' + length (fmt_d n))"
    by (rule GetNextWord_word[OF q(2) _ word_ok_fmt_d[OF n]]) (simp_all add: separators_def word_end_def)
  then show ?thesis
    using q(1) by (simp add: TextParser_GetValue_def chWord_ok[OF word_ok_fmt_d[OF n]] atoi_fmt_d[OF n])
qed

lemma GetStringValue_entry:
  assumes ok: "\<forall>e \<in> set (es1 @ (key, Str s) # es2). entry_ok e" and fresh: "key_fresh key es1"
    and len: "length s \<le> n"
  shows "TextParser_GetStringValue (print_config (es1 @ (key, Str s) # es2)) key n = Some (Some s)"
proof -
  let ?buf = "print_config (es1 @ (key, Str s) # es2)"
  obtain q rest where q: "find_equals ?buf key = Some (Some q)"
      "drop q ?buf = '' '' @ CHR 0x22 # s @ CHR 0x22 # CHR 0x0D # rest"
    using find_equals_entry[OF ok fresh] by (metis (no_types, lifting) append_Cons append_Nil append_assoc print_value.simps(2))
  have s: "string_ok s" using ok by (auto simp: entry_ok_def)
  have "GetStringWord ?buf q = Some (Some s, q + length '' '' + 1 + length s + 1)"
    by (rule GetStringWord_string[OF q(2)]) (use s in \<open>simp_all add: string_ok_def separators_def\<close>)
  moreover have "takeWhile (\<lambda>c. c \<noteq> CHR 0x00) s = s"
    using s by (auto simp: string_ok_def word_ok_def takeWhile_eq_all_conv)
  ultimately show ?thesis
    using q(1) len by (simp add: TextParser_GetStringValue_def)
qed

subsection \<open>Round trip\<close>

lemma map_of_split:
  assumes "map_of es key = Some v"
  obtains es1 es2 where "es = es1 @ (key, v) # es2" "\<forall>(k, v) \<in> set es1. k \<noteq> key"
  using assms
proof (induction es arbitrary: thesis)
  case (Cons e es)
  show ?case
  proof (cases "fst e = key")
    case True
    then show ?thesis using Cons.prems(1)[of "[]" es] Cons.prems(2) by (cases e) auto
  next
    case False
    then have m: "map_of es key = Some v" using Cons.prems(2) by (cases e) (simp split: if_splits)
    show ?thesis
    proof (rule Cons.IH[OF _ m])
      fix es1 es2 assume E: "es = es1 @ (key, v) # es2" "\<forall>(k, v) \<in> set es1. k \<noteq> key"
      show thesis
      proof (rule Cons.prems(1))
        show "e # es = (e # es1) @ (key, v) # es2" using E(1) by simp
        show "\<forall>(k, v) \<in> set (e # es1). k \<noteq> key" using E(2) False by (cases e) simp
      qed
    qed
  qed
qed simp

lemma equals_no_word: "\<not> word_ok ''=''"
  by (simp add: word_ok_def word_end_def)

lemma key_fresh_word:
  assumes "word_ok key" and "\<forall>(k, v) \<in> set es. k \<noteq> key \<and> print_value v \<noteq> key"
  shows "key_fresh key es"
proof -
  have "key \<noteq> ''=''" using assms(1) equals_no_word by metis
  with assms(2) show ?thesis unfolding key_fresh_def by (rule conjI[rotated])
qed

lemma config_lookup:
  assumes ok: "\<forall>e \<in> set es. entry_ok e" and w: "word_ok key" and ne: "\<forall>(k, v) \<in> set es. print_value v \<noteq> key"
  shows "map_of es key = Some (Num n) \<Longrightarrow> TextParser_GetValue (print_config es) key = Some (Some n)"
    and "map_of es key = Some (Str s) \<Longrightarrow> length s \<le> m \<Longrightarrow> TextParser_GetStringValue (print_config es) key m = Some (Some s)"
    and "map_of es key = None \<Longrightarrow> TextParser_GetValue (print_config es) key = Some None"
    and "map_of es key = None \<Longrightarrow> TextParser_GetStringValue (print_config es) key m = Some None"
proof -
  show "TextParser_GetValue (print_config es) key = Some (Some n)" if "map_of es key = Some (Num n)"
  proof (rule map_of_split[OF that])
    fix es1 es2 assume E: "es = es1 @ (key, Num n) # es2" "\<forall>(k, v) \<in> set es1. k \<noteq> key"
    have "key_fresh key es1" by (rule key_fresh_word[OF w]) (use E ne in auto)
    then show ?thesis using GetValue_entry[of es1 key n es2] ok E(1) by simp
  qed
  show "TextParser_GetStringValue (print_config es) key m = Some (Some s)" if "map_of es key = Some (Str s)" "length s \<le> m"
  proof (rule map_of_split[OF that(1)])
    fix es1 es2 assume E: "es = es1 @ (key, Str s) # es2" "\<forall>(k, v) \<in> set es1. k \<noteq> key"
    have "key_fresh key es1" by (rule key_fresh_word[OF w]) (use E ne in auto)
    then show ?thesis using GetStringValue_entry[of es1 key s es2] ok E(1) that(2) by simp
  qed
  assume none: "map_of es key = None"
  have "\<forall>(k, v) \<in> set es. k \<noteq> key" using none by (force simp: map_of_eq_None_iff)
  then have "key_fresh key es" using key_fresh_word[OF w, of es] ne by auto
  from find_equals_missing[OF ok this]
  show "TextParser_GetValue (print_config es) key = Some None" "TextParser_GetStringValue (print_config es) key m = Some None"
    by (simp_all add: TextParser_GetValue_def TextParser_GetStringValue_def)
qed

text \<open>
  C22. For every configuration that is written entry by entry (keys and values are single words, lines end
  in carriage return and line feed), \<open>GetValue\<close> returns the number written for a key,
  \<open>GetStringValue\<close> the text written for it, the first one if the key occurs twice, and both report a
  key that is not there. No read leaves the buffer.
\<close>

theorem config_roundtrip:
  assumes "\<forall>e \<in> set es. entry_ok e" and "word_ok key" and "\<forall>(k, v) \<in> set es. print_value v \<noteq> key"
  shows "(\<forall>n. map_of es key = Some (Num n) \<longrightarrow> TextParser_GetValue (print_config es) key = Some (Some n)) \<and>
    (\<forall>s. map_of es key = Some (Str s) \<and> length s \<le> m \<longrightarrow>
      TextParser_GetStringValue (print_config es) key m = Some (Some s)) \<and>
    (map_of es key = None \<longrightarrow> TextParser_GetValue (print_config es) key = Some None \<and>
      TextParser_GetStringValue (print_config es) key m = Some None)"
  using config_lookup[OF assms] by auto

theorem config_roundtrip_witness:
  "TextParser_GetValue (print_config [(''IP'', Str ''1.2''), (''N'', Num (- 7)), (''N'', Num 8)]) ''N'' = Some (Some (- 7)) \<and>
   TextParser_GetStringValue (print_config [(''IP'', Str ''1.2''), (''N'', Num (- 7)), (''N'', Num 8)]) ''IP'' 16 = Some (Some ''1.2'')"
proof -
  define es where "es = [(''IP'', Str ''1.2''), (''N'', Num (- 7)), (''N'', Num 8)]"
  have e: "\<forall>e \<in> set es. entry_ok e" unfolding es_def by code_simp
  have n: "word_ok ''N''" "\<forall>(k, v) \<in> set es. print_value v \<noteq> ''N''" unfolding es_def by code_simp+
  have i: "word_ok ''IP''" "\<forall>(k, v) \<in> set es. print_value v \<noteq> ''IP''" unfolding es_def by code_simp+
  have m: "map_of es ''N'' = Some (Num (- 7))" "map_of es ''IP'' = Some (Str ''1.2'') \<and> length ''1.2'' \<le> (16 :: nat)"
    by (simp_all add: es_def)
  show ?thesis
    unfolding es_def [symmetric] using config_roundtrip[OF e n, of 16] config_roundtrip[OF e i, of 16] m by blast
qed

end
