(* ===== verification/NetState.thy ===== *)
theory NetState
  imports Log Protocol Ring "HOL-Library.Monad_Syntax" "HOL-Library.Multiset"
begin

text \<open>
  The state of the network library (\<^verbatim>\<open>session.h\<close>, \<^verbatim>\<open>CNetServer.h\<close>) and its primitive
  operations: sessions, packets and their reference counts, log records, posts to the completion
  port.

  The operating system is part of the state: \<open>n_posts\<close> is the queue behind
  \<^verbatim>\<open>PostQueuedCompletionStatus\<close>, \<open>n_recv_io\<close> and \<open>n_send_io\<close> are the sessions with a receive or a
  send in progress, \<open>n_open\<close> the client sockets that are open. Everything else the system decides
  (results of \<^verbatim>\<open>WSARecv\<close> and \<^verbatim>\<open>WSASend\<close>, the tick count, random numbers, the local time,
  the contents of uninitialised variables) is read from the sequence \<open>n_env\<close>, one element per
  question, so a statement about all sequences is a statement about all behaviours.

  Other classes extend the record, as \<^verbatim>\<open>ChatServer\<close> extends \<^verbatim>\<open>CNetServer\<close>. The \<^verbatim>\<open>io_count\<close>
  and the flags of a session are small: they are \<^verbatim>\<open>int\<close> and \<^verbatim>\<open>bool\<close> here, and the invariant of
  the library bounds the count.
\<close>

unbundle bit_operations_syntax

subsection \<open>Sessions\<close>

record session =
  s_sock :: u64
  s_session_id :: u32
  s_session_index :: u16
  s_recvPacket :: u32
  s_last_recv_time :: u64
  s_sendPacket :: u32
  s_io_count :: int
  s_release_flag :: bool
  s_disconnect :: bool
  s_send_post_flag :: bool
  s_send_q :: "addr list"
  s_send_buffer :: ring
  s_recv_buffer :: ring
  s_ip :: string
  s_port :: u16

definition MAX_SENDQ :: nat where "MAX_SENDQ = 200"

definition INVALID_SOCKET :: u64 where "INVALID_SOCKET = -1"

text \<open>The constructor. The members it leaves alone (index, tick, counters, address) are
  indeterminate in the code and are 0 here until the session is accepted.\<close>

definition Session_ctor :: "bytes \<Rightarrow> bytes \<Rightarrow> session" where
  "Session_ctor send_mem recv_mem =
     \<lparr>s_sock = 0, s_session_id = 0, s_session_index = 0, s_recvPacket = 0, s_last_recv_time = 0,
      s_sendPacket = 0, s_io_count = 0, s_release_flag = True, s_disconnect = True,
      s_send_post_flag = False, s_send_q = [], s_send_buffer = RingBuffer_ctor 4000 send_mem,
      s_recv_buffer = RingBuffer_ctor 2000 recv_mem, s_ip = [], s_port = 0\<rparr>"

text \<open>The eight bytes from \<open>session_id\<close> on: the id, and above it the index (the two bytes behind
  the index are cleared when the session is accepted).\<close>

definition Session_GetSessionID :: "session \<Rightarrow> u64" where
  "Session_GetSessionID s = push_bit 32 (ucast (s_session_index s)) OR ucast (s_session_id s)"

definition ID_MASK :: u64 where "ID_MASK = 0xFFFFFFFF"

definition sid_index :: "u64 \<Rightarrow> u16" where "sid_index session_id = ucast (drop_bit 32 session_id)"

definition sid_id :: "u64 \<Rightarrow> u32" where "sid_id session_id = ucast (session_id AND ID_MASK)"

lemma sid_index_GetSessionID [simp]: "sid_index (Session_GetSessionID s) = s_session_index s"
  by (rule bit_word_eqI)
    (auto simp: sid_index_def Session_GetSessionID_def bit_unsigned_iff bit_drop_bit_eq bit_or_iff
      bit_push_bit_iff dest: bit_imp_le_length)

lemma sid_id_GetSessionID [simp]: "sid_id (Session_GetSessionID s) = s_session_id s"
proof (rule bit_word_eqI)
  have m: "bit ID_MASK k \<longleftrightarrow> k < 32" for k
    unfolding ID_MASK_def using bit_mask_iff[of 32 k, where 'a = "64 word"]
    by (auto simp: mask_eq_exp_minus_1)
  fix k assume "k < LENGTH(32)"
  then show "bit (sid_id (Session_GetSessionID s)) k \<longleftrightarrow> bit (s_session_id s) k"
    by (auto simp: sid_id_def Session_GetSessionID_def bit_unsigned_iff bit_or_iff bit_and_iff
        bit_push_bit_iff m)
qed

subsection \<open>The server\<close>

datatype ePost = SEND_PEND | RELEASE_PEND | CANCEL_IO | LOG_PEND | CUSTOM_EVENT_PEND

text \<open>A post: for a session, without one, or the exit request of \<open>Stop\<close>.\<close>

datatype post = Post nat ePost | Post_null ePost | Post_exit

datatype io_result = Io_ok | Io_pending | Io_error u32

definition WSAECONNRESET :: u32 where "WSAECONNRESET = 10054"

record environment =
  e_io :: io_result
  e_tick :: u64
  e_tm :: tm
  e_opened :: bool
  e_rand :: u8
  e_word :: u64
  e_mem :: "nat \<Rightarrow> u8"
  e_wmem :: "nat \<Rightarrow> u16"
  e_tail :: "u16 list"
  e_nick_tail :: "u16 list"

record net =
  n_isRunning :: bool
  n_maxSession :: nat
  n_maxUser :: u32
  n_packetKey :: u8
  n_packetCode :: u8
  n_sessID :: u32
  n_sessions :: "session list"
  n_empty :: "u16 list"
  n_logQueue :: "addr list"
  n_totalAccept :: u64
  n_sessionCnt :: u32
  n_syncRecv :: u32
  n_syncSend :: u32
  n_recvByte :: u32
  n_sendByte :: u32
  n_sendPacket :: u32
  n_recvPacket :: u32
  n_semiTimeOut :: u32
  n_AbortedByLocal :: u32
  n_preAccept :: u64
  n_acceptErr :: u32
  n_pool :: mempool
  n_packets :: "addr \<Rightarrow> packet"
  n_syslog :: syslog
  n_posts :: "post list"
  n_recv_io :: "nat set"
  n_send_io :: "nat set"
  n_open :: "u64 set"
  n_tid :: tid
  n_env :: "nat \<Rightarrow> environment"
  n_time :: nat

definition ask :: "'a net_scheme \<Rightarrow> environment \<times> 'a net_scheme" where
  "ask st = (n_env st (n_time st), st\<lparr>n_time := n_time st + 1\<rparr>)"

abbreviation sess :: "'a net_scheme \<Rightarrow> nat \<Rightarrow> session" where
  "sess st i \<equiv> n_sessions st ! i"

definition upd_sess :: "nat \<Rightarrow> (session \<Rightarrow> session) \<Rightarrow> 'a net_scheme \<Rightarrow> 'a net_scheme" where
  "upd_sess i f st = st\<lparr>n_sessions := (n_sessions st)[i := f (sess st i)]\<rparr>"

definition post :: "post \<Rightarrow> 'a net_scheme \<Rightarrow> 'a net_scheme" where
  "post p st = st\<lparr>n_posts := n_posts st @ [p]\<rparr>"

definition io_inc :: "nat \<Rightarrow> 'a net_scheme \<Rightarrow> 'a net_scheme" where
  "io_inc i st = upd_sess i (\<lambda>s. s\<lparr>s_io_count := s_io_count s + 1\<rparr>) st"

subsection \<open>Packets\<close>

definition Packet_Alloc :: "'a net_scheme \<Rightarrow> (addr \<times> 'a net_scheme) run" where
  "Packet_Alloc st = do {
     (a, pool) \<leftarrow> MemoryPoolTls_Alloc (n_tid st) (n_pool st);
     Some (a, st\<lparr>n_packets := (n_packets st)(a := CPacket_Clear (n_packets st a)), n_pool := pool\<rparr>)
   }"

definition Packet_AddRef :: "addr \<Rightarrow> 'a net_scheme \<Rightarrow> 'a net_scheme" where
  "Packet_AddRef a st = st\<lparr>n_packets := (n_packets st)(a := CPacket_AddRef (n_packets st a))\<rparr>"

definition Packet_SubRef :: "addr \<Rightarrow> 'a net_scheme \<Rightarrow> 'a net_scheme run" where
  "Packet_SubRef a st =
     (let (p, last) = CPacket_SubRef (n_packets st a);
          st = st\<lparr>n_packets := (n_packets st)(a := p)\<rparr>
      in if last then do {
           (_, pool) \<leftarrow> MemoryPoolTls_Free (n_tid st) a (n_pool st);
           Some (st\<lparr>n_pool := pool\<rparr>)
         } else Some st)"

definition Packet_Free :: "addr \<Rightarrow> 'a net_scheme \<Rightarrow> 'a net_scheme run" where
  "Packet_Free a st = Packet_SubRef a st"

subsection \<open>Logging\<close>

definition CNetServer_Log :: "string \<Rightarrow> en_LOG_LEVEL \<Rightarrow> string \<Rightarrow> 'a net_scheme \<Rightarrow> 'a net_scheme run" where
  "CNetServer_Log szType logLevel text st = do {
     (log, lg) \<leftarrow> CLog_Alloc (n_tid st) (n_syslog st);
     let (e, st) = ask st;
     (ret, lg) \<leftarrow> CLog_Write log szType logLevel text (e_tm e) lg;
     let st = st\<lparr>n_syslog := lg\<rparr>;
     Some (if ret then post (Post_null LOG_PEND) (st\<lparr>n_logQueue := n_logQueue st @ [log]\<rparr>) else st)
   }"

definition CNetServer_LogHex :: "string \<Rightarrow> en_LOG_LEVEL \<Rightarrow> string \<Rightarrow> bytes \<Rightarrow> 'a net_scheme \<Rightarrow> 'a net_scheme run" where
  "CNetServer_LogHex szType logLevel szLog pByte st = do {
     (log, lg) \<leftarrow> CLog_Alloc (n_tid st) (n_syslog st);
     let (e, st) = ask st;
     (ret, lg) \<leftarrow> CLog_WriteHex log szType logLevel szLog pByte (e_tm e) lg;
     let st = st\<lparr>n_syslog := lg\<rparr>;
     Some (if ret then post (Post_null LOG_PEND) (st\<lparr>n_logQueue := n_logQueue st @ [log]\<rparr>) else st)
   }"

text \<open>\<open>writeLog\<close>: take the oldest record, write it, return it. The code waits for a record; there is
  one for each post of \<^verbatim>\<open>LOG_PEND\<close>.\<close>

definition CNetServer_writeLog :: "'a net_scheme \<Rightarrow> 'a net_scheme run" where
  "CNetServer_writeLog st =
     (case n_logQueue st of [] \<Rightarrow> None
      | log # rest \<Rightarrow> do {
          let (e, st) = ask (st\<lparr>n_logQueue := rest\<rparr>);
          lg \<leftarrow> CLog_WriteFile log (e_opened e) (e_tm e) (n_syslog st);
          lg \<leftarrow> CLog_Free (n_tid st) log lg;
          Some (st\<lparr>n_syslog := lg\<rparr>)
        })"

end
