(* ===== verification/Users.thy ===== *)
theory Users
  imports NetState "HOL-Library.Product_Lexorder"
begin

text \<open>
  \<^verbatim>\<open>User.h\<close>, \<^verbatim>\<open>User.cpp\<close>, \<^verbatim>\<open>Sector.h\<close>, \<^verbatim>\<open>Sector.cpp\<close> and the members of
  \<^verbatim>\<open>ChatServer\<close>: users, the map of sectors, the locks. The members are the record \<open>chat\<close>, which
  is the extension of the network library's record, so a \<^verbatim>\<open>ChatServer\<close> is a \<open>chat net_scheme\<close>.

  User objects live in a heap \<open>c_users\<close>, indexed by their address. A sector is a doubly linked list:
  its nodes carry an identity, which is what the iterator in a user refers to; erasing through an
  iterator that is not in the list is undefined and ends the process here.

  The locks a step holds are in \<open>c_held\<close>. They never block inside a step of the model; \<open>c_order\<close>
  records whether every acquisition so far came after the held ones in the order user map, user,
  account map, sectors by row and column. A lock of a user that the map does not hold cannot be
  waited for by anyone and is exempt.
\<close>

subsection \<open>Users\<close>

record user =
  mb_login :: bool
  mb_inSector :: bool
  m_SSID :: u64
  m_accountNo :: u64
  m_ID :: "u16 list"
  m_nickname :: "u16 list"
  m_sectorX :: int
  m_sectorY :: int
  m_sectorIter :: nat
  m_lastRecvTime :: u64
  m_oldRecvTime :: u64

text \<open>The constructor; what it leaves uninitialised (session, position, iterator, times) is set
  before it is read and is 0 here.\<close>

definition User_ctor :: user where
  "User_ctor = \<lparr>mb_login = False, mb_inSector = False, m_SSID = 0, m_accountNo = -1, m_ID = [],
     m_nickname = [], m_sectorX = 0, m_sectorY = 0, m_sectorIter = 0, m_lastRecvTime = 0, m_oldRecvTime = 0\<rparr>"

definition User_UpdateRecvTime :: "u64 \<Rightarrow> user \<Rightarrow> user" where
  "User_UpdateRecvTime tick u = u\<lparr>m_oldRecvTime := m_lastRecvTime u, m_lastRecvTime := tick\<rparr>"

text \<open>\<open>InitUser\<close> does not touch the account number of the last user of the object.\<close>

definition User_InitUser :: "u64 \<Rightarrow> u64 \<Rightarrow> user \<Rightarrow> user" where
  "User_InitUser SSID tick u =
     (User_UpdateRecvTime tick (u\<lparr>m_SSID := SSID, m_sectorX := -1, m_sectorY := -1\<rparr>))
       \<lparr>mb_login := False, mb_inSector := False\<rparr>"

text \<open>\<open>MoveSector\<close> asserts that the position is not negative.\<close>

definition User_MoveSector :: "int \<Rightarrow> int \<Rightarrow> user \<Rightarrow> user run" where
  "User_MoveSector sectorX sectorY u =
     (if sectorX < 0 \<or> sectorY < 0 then None else Some (u\<lparr>m_sectorX := sectorX, m_sectorY := sectorY\<rparr>))"

text \<open>A string from a character array: up to the terminator, which is looked for behind the array
  when it has none; \<open>tail\<close> is what lies there.\<close>

definition wstring_of :: "u16 list \<Rightarrow> u16 list \<Rightarrow> u16 list" where
  "wstring_of arr tail = c_str (arr @ tail)"

subsection \<open>The members of the server\<close>

datatype lock = L_userMap | L_user addr | L_accountMap | L_sector int int

record chat =
  c_userPool :: mempool
  c_users :: "addr \<Rightarrow> user"
  c_userMap :: "u64 \<rightharpoonup> addr"
  c_accountMap :: "u64 \<rightharpoonup> u64"
  c_sectors :: "int \<Rightarrow> int \<Rightarrow> (nat \<times> addr) list"
  c_nodes :: nat
  c_connectCnt :: u32
  c_loginCnt :: u32
  c_duplicateLogin :: u32
  c_messageTps :: u32
  c_collectMsgTPS :: u32
  c_held :: "lock list"
  c_order :: bool

type_synonym chat_server = "chat net_scheme"

abbreviation chat :: "chat_server \<Rightarrow> chat" where
  "chat st \<equiv> net.more st"

definition upd_chat :: "(chat \<Rightarrow> chat) \<Rightarrow> chat_server \<Rightarrow> chat_server" where
  "upd_chat f st = net.more_update f st"

definition upd_user :: "addr \<Rightarrow> (user \<Rightarrow> user) \<Rightarrow> chat \<Rightarrow> chat" where
  "upd_user a f c = c\<lparr>c_users := (c_users c)(a := f (c_users c a))\<rparr>"

subsection \<open>Locks\<close>

fun lock_rank :: "lock \<Rightarrow> nat \<times> int \<times> int" where
  "lock_rank L_userMap = (0, 0, 0)"
| "lock_rank (L_user _) = (1, 0, 0)"
| "lock_rank L_accountMap = (2, 0, 0)"
| "lock_rank (L_sector y x) = (3, y, x)"

text \<open>A user object that cannot be reached through the user map.\<close>

fun private_lock :: "chat \<Rightarrow> lock \<Rightarrow> bool" where
  "private_lock c (L_user a) \<longleftrightarrow> c_userMap c (m_SSID (c_users c a)) \<noteq> Some a"
| "private_lock c _ \<longleftrightarrow> False"

definition acquire :: "lock \<Rightarrow> chat \<Rightarrow> chat" where
  "acquire l c = c\<lparr>c_held := l # c_held c,
     c_order := (c_order c \<and> (\<forall>h \<in> set (c_held c). lock_rank h < lock_rank l \<or> private_lock c h))\<rparr>"

definition unlock :: "lock \<Rightarrow> chat \<Rightarrow> chat" where
  "unlock l c = c\<lparr>c_held := remove1 l (c_held c)\<rparr>"

subsection \<open>Sectors\<close>

text \<open>Positions are pairs \<open>(x, y)\<close>. The rows and columns around a sector, without those outside
  the map.\<close>

definition GetSectorAround_row :: "int \<Rightarrow> int \<Rightarrow> (int \<times> int) list" where
  "GetSectorAround_row sector_x temp_y =
     concat (map (\<lambda>cnt_x. let temp_x = sector_x + cnt_x in
       if temp_x < 0 \<or> SECTOR_MAX_X \<le> temp_x then [] else [(temp_x, temp_y)]) [0, 1, 2])"

definition GetSectorAround :: "int \<Rightarrow> int \<Rightarrow> (int \<times> int) list" where
  "GetSectorAround sector_x sector_y =
     (let sector_x = sector_x - 1; sector_y = sector_y - 1
      in concat (map (\<lambda>cnt_y. let temp_y = sector_y + cnt_y in
           if temp_y < 0 \<or> SECTOR_MAX_Y \<le> temp_y then [] else GetSectorAround_row sector_x temp_y) [0, 1, 2]))"

fun LockSectors :: "(int \<times> int) list \<Rightarrow> chat \<Rightarrow> chat" where
  "LockSectors [] c = c"
| "LockSectors ((x, y) # ps) c = LockSectors ps (acquire (L_sector y x) c)"

fun UnlockSectors :: "(int \<times> int) list \<Rightarrow> chat \<Rightarrow> chat" where
  "UnlockSectors [] c = c"
| "UnlockSectors ((x, y) # ps) c = UnlockSectors ps (unlock (L_sector y x) c)"

definition LockSectorAround :: "(int \<times> int) list \<Rightarrow> chat \<Rightarrow> chat" where
  "LockSectorAround sector_around c = LockSectors sector_around c"

definition UnlockSectorAround :: "(int \<times> int) list \<Rightarrow> chat \<Rightarrow> chat" where
  "UnlockSectorAround sector_around c = UnlockSectors sector_around c"

definition upd_sector :: "int \<Rightarrow> int \<Rightarrow> ((nat \<times> addr) list \<Rightarrow> (nat \<times> addr) list) \<Rightarrow> chat \<Rightarrow> chat" where
  "upd_sector y x f c = c\<lparr>c_sectors := (c_sectors c)(y := (c_sectors c y)(x := f (c_sectors c y x)))\<rparr>"

definition Sector_AddUser :: "addr \<Rightarrow> chat \<Rightarrow> chat run" where
  "Sector_AddUser user c =
     (let u = c_users c user; sector_y = m_sectorY u; sector_x = m_sectorX u
      in if mb_inSector u then None
         else
           let iter = c_nodes c;
               c = upd_sector sector_y sector_x (\<lambda>sector. sector @ [(iter, user)]) (c\<lparr>c_nodes := iter + 1\<rparr>);
               c = upd_user user (\<lambda>u. u\<lparr>m_sectorIter := iter\<rparr>) c
           in Some (upd_user user (\<lambda>u. u\<lparr>mb_inSector := True\<rparr>) c))"

definition Sector_RemoveUser :: "addr \<Rightarrow> chat \<Rightarrow> chat run" where
  "Sector_RemoveUser user c =
     (let u = c_users c user
      in if \<not> mb_inSector u then Some c
         else
           let sector_y = m_sectorY u; sector_x = m_sectorX u; iter = m_sectorIter u
           in if iter \<notin> fst ` set (c_sectors c sector_y sector_x) then None
              else
                let c = upd_sector sector_y sector_x (\<lambda>sector. filter (\<lambda>node. fst node \<noteq> iter) sector) c
                in Some (upd_user user (\<lambda>u. u\<lparr>mb_inSector := False\<rparr>) c))"

end
