(* ===== verification/Net.thy ===== *)
theory Net
  imports NetState
begin

text \<open>
  \<^verbatim>\<open>CNetServer.cpp\<close>: reference counting of sessions, sending, receiving, accepting, releasing,
  the dispatch of completions and the time-out scan. Each definition is the function of the same
  name, on the state record; a member that only the thread running the step touches is an argument.

  A step of the model is what one thread does between taking a completion (or a connection, or a
  session to check) and being ready for the next one. The interleaving inside such steps that the
  reference count has to survive is the subject of the theory \<^verbatim>\<open>SessionRef\<close>.
\<close>

unbundle bit_operations_syntax

subsection \<open>Reference count and disconnection\<close>

definition CNetServer_releasePend :: "nat \<Rightarrow> 'a net_scheme \<Rightarrow> 'a net_scheme" where
  "CNetServer_releasePend i st =
     (if s_io_count (sess st i) = 0 \<and> \<not> s_release_flag (sess st i)
      then post (Post i RELEASE_PEND) (io_inc i (upd_sess i (\<lambda>s. s\<lparr>s_release_flag := True\<rparr>) st))
      else st)"

definition CNetServer_updateIOCount :: "nat \<Rightarrow> 'a net_scheme \<Rightarrow> (int \<times> 'a net_scheme) run" where
  "CNetServer_updateIOCount i st =
     (let temp = s_io_count (sess st i) - 1;
          st = upd_sess i (\<lambda>s. s\<lparr>s_io_count := temp\<rparr>) st
      in if temp = 0 then Some (temp, CNetServer_releasePend i st)
         else if temp < 0 then None
         else Some (temp, st))"

definition CNetServer_disconnect :: "nat \<Rightarrow> 'a net_scheme \<Rightarrow> 'a net_scheme" where
  "CNetServer_disconnect i st =
     (if \<not> s_disconnect (sess st i)
      then post (Post i CANCEL_IO) (io_inc i (upd_sess i (\<lambda>s. s\<lparr>s_disconnect := True\<rparr>) st))
      else st)"

definition CNetServer_DisconnectSession :: "u64 \<Rightarrow> 'a net_scheme \<Rightarrow> 'a net_scheme run" where
  "CNetServer_DisconnectSession session_id st =
     (let idx = sid_index session_id; i = unat idx; sid = sid_id session_id
      in if n_maxSession st \<le> i then None
         else do {
           let st = io_inc i st;
           let st = (if \<not> s_release_flag (sess st i) \<and> s_session_id (sess st i) = sid
                     then CNetServer_disconnect i st else st);
           (_, st) \<leftarrow> CNetServer_updateIOCount i st;
           Some st
         })"

subsection \<open>Sending\<close>

definition CNetServer_sendPend :: "nat \<Rightarrow> 'a net_scheme \<Rightarrow> 'a net_scheme" where
  "CNetServer_sendPend i st =
     (if s_disconnect (sess st i) then st
      else if \<not> s_send_post_flag (sess st i)
      then post (Post i SEND_PEND) (io_inc i (upd_sess i (\<lambda>s. s\<lparr>s_send_post_flag := True\<rparr>) st))
      else st)"

text \<open>\<^verbatim>\<open>LockFreeQueue\<close> with a fixed set of nodes refuses an element when all are in use.\<close>

definition send_q_Enqueue :: "addr \<Rightarrow> addr list \<Rightarrow> addr list option" where
  "send_q_Enqueue p q = (if length q < MAX_SENDQ then Some (q @ [p]) else None)"

definition CNetServer_SendPacket :: "u64 \<Rightarrow> addr \<Rightarrow> 'a net_scheme \<Rightarrow> (bool \<times> 'a net_scheme) run" where
  "CNetServer_SendPacket session_id packet st =
     (let idx = sid_index session_id; i = unat idx; sid = sid_id session_id
      in if n_maxSession st \<le> i then None
         else do {
           let st = io_inc i st;
           (ret, st) \<leftarrow>
             (if \<not> s_release_flag (sess st i) \<and> \<not> s_disconnect (sess st i) \<and> s_session_id (sess st i) = sid
              then
                let st = Packet_AddRef packet st
                in case send_q_Enqueue packet (s_send_q (sess st i)) of
                     Some q \<Rightarrow> Some (True, CNetServer_sendPend i (upd_sess i (\<lambda>s. s\<lparr>s_send_q := q\<rparr>) st))
                   | None \<Rightarrow> do {
                       st \<leftarrow> Packet_SubRef packet st;
                       st \<leftarrow> CNetServer_Log ''SYS'' enLOG_LEVEL_ERROR
                               (''Full Send Q '' @ fmt_d (sint (Session_GetSessionID (sess st i)))) st;
                       Some (False, CNetServer_disconnect i st)
                     }
              else Some (False, st));
           (_, st) \<leftarrow> CNetServer_updateIOCount i st;
           Some (ret, st)
         })"

text \<open>
  The packing loop of \<open>sendPost\<close>: while the queue has a front packet and its bytes fit into the
  send ring, dequeue it and give up its reference. The list argument is the queue of the session.
\<close>

fun sendPost_pack :: "nat \<Rightarrow> addr list \<Rightarrow> 'a net_scheme \<Rightarrow> 'a net_scheme run" where
  "sendPost_pack i [] st = Some st"
| "sendPost_pack i (packet # q) st =
     (let (p, off) = CPacket_GetBufferPtrNet (n_packets st packet);
          (rb, r) = RingBuffer_Enqueue (s_send_buffer (sess st i)) (drop off (pk_hidden p))
                      (of_int (CPacket_GetDataSizeNet p));
          st = st\<lparr>n_packets := (n_packets st)(packet := p)\<rparr>;
          st = upd_sess i (\<lambda>s. s\<lparr>s_send_buffer := rb\<rparr>) st
      in if r \<noteq> 0 then do {
           st \<leftarrow> Packet_SubRef packet (upd_sess i (\<lambda>s. s\<lparr>s_send_q := q\<rparr>) st);
           sendPost_pack i q (upd_sess i (\<lambda>s. s\<lparr>s_sendPacket := s_sendPacket s + 1\<rparr>) st)
         } else Some st)"

text \<open>What follows a \<^verbatim>\<open>WSASend\<close>: the request is in progress unless the call failed.\<close>

definition sendPost_result :: "nat \<Rightarrow> 'a net_scheme \<Rightarrow> 'a net_scheme run" where
  "sendPost_result i st = do {
     let st = io_inc i st;
     let (e, st) = ask st;
     case e_io e of
       Io_error error_code \<Rightarrow> do {
         st \<leftarrow> (if error_code \<noteq> WSAECONNRESET
               then CNetServer_Log ''SYS'' enLOG_LEVEL_ERROR (''Send Failed ['' @ fmt_d (sint error_code) @
                      ''] session : '' @ fmt_d (sint (Session_GetSessionID (sess st i)))) st
               else Some st);
         (_, st) \<leftarrow> CNetServer_updateIOCount i st;
         Some (CNetServer_disconnect i st)
       }
     | Io_pending \<Rightarrow> Some (st\<lparr>n_send_io := insert i (n_send_io st)\<rparr>)
     | Io_ok \<Rightarrow> Some (st\<lparr>n_send_io := insert i (n_send_io st), n_syncSend := n_syncSend st + 1\<rparr>)
   }"

definition CNetServer_sendPost :: "nat \<Rightarrow> 'a net_scheme \<Rightarrow> 'a net_scheme run" where
  "CNetServer_sendPost i st =
     (if \<not> s_disconnect (sess st i) \<and> \<not> s_send_post_flag (sess st i) then
        let st = upd_sess i (\<lambda>s. s\<lparr>s_send_post_flag := True\<rparr>) st
        in if s_send_q (sess st i) = []
           then Some (CNetServer_sendPend i (upd_sess i (\<lambda>s. s\<lparr>s_send_post_flag := False\<rparr>) st))
           else do {
             st \<leftarrow> sendPost_pack i (s_send_q (sess st i)) st;
             sendPost_result i st
           }
      else Some st)"

definition CNetServer_trySend :: "nat \<Rightarrow> 'a net_scheme \<Rightarrow> 'a net_scheme run" where
  "CNetServer_trySend i st =
     (let st = upd_sess i (\<lambda>s. s\<lparr>s_send_post_flag := False\<rparr>) st
      in if s_send_q (sess st i) \<noteq> [] then CNetServer_sendPost i st else Some st)"

subsection \<open>Receiving\<close>

definition CNetServer_recvPost :: "nat \<Rightarrow> 'a net_scheme \<Rightarrow> (bool \<times> 'a net_scheme) run" where
  "CNetServer_recvPost i st =
     (if \<not> s_disconnect (sess st i) then do {
        let st = io_inc i st;
        let (e, st) = ask st;
        case e_io e of
          Io_error error_code \<Rightarrow> do {
            st \<leftarrow> (if error_code \<noteq> WSAECONNRESET
                  then CNetServer_Log ''SYS'' enLOG_LEVEL_ERROR (''Recv Failed ['' @ fmt_d (sint error_code) @
                         ''] session : '' @ fmt_d (sint (Session_GetSessionID (sess st i)))) st
                  else Some st);
            (_, st) \<leftarrow> CNetServer_updateIOCount i st;
            Some (False, CNetServer_disconnect i st)
          }
        | Io_pending \<Rightarrow> Some (True, st\<lparr>n_recv_io := insert i (n_recv_io st)\<rparr>)
        | Io_ok \<Rightarrow> Some (True, st\<lparr>n_recv_io := insert i (n_recv_io st), n_syncSend := n_syncSend st + 1\<rparr>)
      } else Some (False, st))"

subsection \<open>What the derived class supplies\<close>

record 's callbacks =
  OnConnectionRequest :: "string \<Rightarrow> u16 \<Rightarrow> 's \<Rightarrow> bool"
  OnClientJoin :: "u64 \<Rightarrow> 's \<Rightarrow> 's run"
  OnClientLeave :: "u64 \<Rightarrow> 's \<Rightarrow> 's run"
  OnClientTimeout :: "u64 \<Rightarrow> 's \<Rightarrow> 's run"
  OnRecv :: "u64 \<Rightarrow> addr \<Rightarrow> 's \<Rightarrow> 's run"
  OnSend :: "u64 \<Rightarrow> u32 \<Rightarrow> 's \<Rightarrow> 's run"
  OnError :: "int \<Rightarrow> string \<Rightarrow> 's \<Rightarrow> 's run"

subsection \<open>Release\<close>

text \<open>The loop that empties the send queue.\<close>

fun release_drain :: "nat \<Rightarrow> addr list \<Rightarrow> 'a net_scheme \<Rightarrow> 'a net_scheme run" where
  "release_drain i [] st = Some st"
| "release_drain i (packet # q) st = do {
     st \<leftarrow> Packet_SubRef packet (upd_sess i (\<lambda>s. s\<lparr>s_send_q := q\<rparr>) st);
     release_drain i q st
   }"

definition CNetServer_release :: "'a net_scheme callbacks \<Rightarrow> nat \<Rightarrow> 'a net_scheme \<Rightarrow> 'a net_scheme run" where
  "CNetServer_release cb i st =
     (if \<not> s_disconnect (sess st i) then None
      else do {
        st \<leftarrow> OnClientLeave cb (Session_GetSessionID (sess st i)) st;
        let st = upd_sess i (\<lambda>s. s\<lparr>s_session_id := 0\<rparr>) st;
        st \<leftarrow> release_drain i (s_send_q (sess st i)) st;
        let st = st\<lparr>n_open := n_open st - {s_sock (sess st i)}\<rparr>;
        let st = upd_sess i (\<lambda>s. s\<lparr>s_sock := INVALID_SOCKET\<rparr>) st;
        let st = st\<lparr>n_empty := s_session_index (sess st i) # n_empty st\<rparr>;
        Some (st\<lparr>n_sessionCnt := n_sessionCnt st - 1\<rparr>)
      })"

subsection \<open>Completions\<close>

text \<open>One whole message of \<open>len\<close> payload bytes at the front of the receive ring: take it out, decode
  it, and report the failure or hand the packet to \<open>OnRecv\<close>.\<close>

definition recv_dispatch :: "'a net_scheme callbacks \<Rightarrow> nat \<Rightarrow> addr \<Rightarrow> bool \<Rightarrow> 'a net_scheme \<Rightarrow> 'a net_scheme run" where
  "recv_dispatch cb i packet ok st =
     (if \<not> ok then do {
        st \<leftarrow> CNetServer_Log ''SYS'' enLOG_LEVEL_ERROR ''Packet Error Decode failed.'' st;
        Some (CNetServer_disconnect i st)
      } else
        let st = upd_sess i (\<lambda>s. s\<lparr>s_recvPacket := s_recvPacket s + 1\<rparr>) st
        in OnRecv cb (Session_GetSessionID (sess st i)) packet st)"

definition recv_message :: "'a net_scheme callbacks \<Rightarrow> nat \<Rightarrow> u16 \<Rightarrow> 'a net_scheme \<Rightarrow> 'a net_scheme run" where
  "recv_message cb i len st = do {
     (packet, st) \<leftarrow> Packet_Alloc st;
     let (rb, _, bs) = RingBuffer_Dequeue (s_recv_buffer (sess st i)) (ucast len + 5);
     let st = upd_sess i (\<lambda>s. s\<lparr>s_recv_buffer := rb\<rparr>) st;
     let (p, ok) = recv_packet (n_packetKey st) bs len (n_packets st packet);
     let st = st\<lparr>n_packets := (n_packets st)(packet := p)\<rparr>;
     st \<leftarrow> recv_dispatch cb i packet ok st;
     Packet_Free packet st
   }"

text \<open>
  The receive loop: as long as the ring holds a complete message, handle it. Each pass takes at
  least six bytes out of the ring, so \<open>fuel\<close> larger than the ring is enough; without fuel the
  result is \<open>None\<close>, and the invariant proof shows that this does not happen.
\<close>

fun recv_loop :: "'a net_scheme callbacks \<Rightarrow> nat \<Rightarrow> nat \<Rightarrow> 'a net_scheme \<Rightarrow> 'a net_scheme run" where
  "recv_loop cb 0 i st = None"
| "recv_loop cb (Suc fuel) i st =
     (let rb = s_recv_buffer (sess st i); (n, hb) = RingBuffer_Peek rb (of_nat net_header_size)
      in if n \<noteq> of_nat net_header_size then Some st
         else
           let len = h_len (net_header_of hb)
           in if len = 0 \<or> sint (RingBuffer_GetBufferSize rb) < uint len then do {
                st \<leftarrow> CNetServer_Log ''SYS'' enLOG_LEVEL_DEBUG
                        (''Packet Error header indicates length ['' @ fmt_d (uint len) @ '']'') st;
                Some (CNetServer_disconnect i st)
              }
              else if (ucast len :: u64) + 5 > scast (RingBuffer_GetFillSize rb) then Some st
              else do {
                st \<leftarrow> recv_message cb i len st;
                recv_loop cb fuel i st
              })"

definition recv_complete :: "'a net_scheme callbacks \<Rightarrow> nat \<Rightarrow> u32 \<Rightarrow> 'a net_scheme \<Rightarrow> 'a net_scheme run" where
  "recv_complete cb i cbTransferred st = do {
     let st = st\<lparr>n_recvByte := n_recvByte st + cbTransferred\<rparr>;
     let (e, st) = ask st;
     let st = upd_sess i (\<lambda>s. s\<lparr>s_recv_buffer := RingBuffer_MoveRear (s_recv_buffer s) cbTransferred,
                                 s_last_recv_time := e_tick e\<rparr>) st;
     st \<leftarrow> recv_loop cb (Suc (unat (RingBuffer_GetFillSize (s_recv_buffer (sess st i))))) i st;
     let st = st\<lparr>n_recvPacket := n_recvPacket st + s_recvPacket (sess st i)\<rparr>;
     let st = upd_sess i (\<lambda>s. s\<lparr>s_recvPacket := 0\<rparr>) st;
     (_, st) \<leftarrow> CNetServer_recvPost i st;
     Some st
   }"

definition send_complete :: "'a net_scheme callbacks \<Rightarrow> nat \<Rightarrow> u32 \<Rightarrow> 'a net_scheme \<Rightarrow> 'a net_scheme run" where
  "send_complete cb i cbTransferred st = do {
     let st = st\<lparr>n_sendByte := n_sendByte st + cbTransferred,
                 n_sendPacket := n_sendPacket st + s_sendPacket (sess st i)\<rparr>;
     let st = upd_sess i (\<lambda>s. s\<lparr>s_sendPacket := 0\<rparr>) st;
     st \<leftarrow> OnSend cb (Session_GetSessionID (sess st i)) cbTransferred st;
     let st = upd_sess i (\<lambda>s. s\<lparr>s_send_buffer := RingBuffer_MoveFront (s_send_buffer s) cbTransferred\<rparr>) st;
     CNetServer_trySend i st
   }"

text \<open>What \<^verbatim>\<open>GetQueuedCompletionStatus\<close> delivers: an error code if the operation failed, the
  byte count, the session (or none), and which operation it was.\<close>

datatype overlapped = Ov_null | Ov_post ePost | Ov_recv | Ov_send | Ov_other

record completion =
  c_error :: "u32 option"
  c_bytes :: u32
  c_session :: "nat option"
  c_overlapped :: overlapped

definition ERROR_NETNAME_DELETED :: u32 where "ERROR_NETNAME_DELETED = 64"
definition ERROR_OPERATION_ABORTED :: u32 where "ERROR_OPERATION_ABORTED = 995"

text \<open>The report of a failed operation; \<open>log_sid\<close> is the id of its session. (In \<open>runIoThread_body\<close>
  a report for no session would read the id through a null pointer.)\<close>

definition gqcs_failed :: "u32 \<Rightarrow> u64 \<Rightarrow> 'a net_scheme \<Rightarrow> 'a net_scheme run" where
  "gqcs_failed error_code log_sid st =
     (if error_code = ERROR_NETNAME_DELETED \<or> error_code = ERROR_OPERATION_ABORTED then Some st
      else
        let (cnt, st) =
          (if error_code = 121 then (n_semiTimeOut st + 1, st\<lparr>n_semiTimeOut := n_semiTimeOut st + 1\<rparr>)
           else if error_code = 1236 then (n_AbortedByLocal st + 1, st\<lparr>n_AbortedByLocal := n_AbortedByLocal st + 1\<rparr>)
           else (0, st))
        in CNetServer_Log ''SYS'' enLOG_LEVEL_ERROR
             (''GQCS return 0 ['' @ fmt_d (sint error_code) @ ''] session id : '' @ fmt_d (sint log_sid) @
              '' Count '' @ fmt_d (sint cnt)) st)"

text \<open>The body for a session: a post or a failed operation, or the end of a receive or a send.\<close>

definition session_completion :: "'a net_scheme callbacks \<Rightarrow> u32 \<Rightarrow> nat \<Rightarrow> overlapped \<Rightarrow> 'a net_scheme \<Rightarrow> 'a net_scheme run" where
  "session_completion cb cbTransferred i ov st =
     (if cbTransferred = 0 \<or> s_disconnect (sess st i) then
        (case ov of
           Ov_post SEND_PEND \<Rightarrow> CNetServer_trySend i st
         | Ov_post RELEASE_PEND \<Rightarrow> CNetServer_release cb i st
         | Ov_post CANCEL_IO \<Rightarrow> Some st
         | Ov_post CUSTOM_EVENT_PEND \<Rightarrow> Some st
         | _ \<Rightarrow> Some (CNetServer_disconnect i st))
      else
        (case ov of
           Ov_recv \<Rightarrow> recv_complete cb i cbTransferred st
         | Ov_send \<Rightarrow> send_complete cb i cbTransferred st
         | _ \<Rightarrow> None))"

text \<open>One pass of \<open>runIoThread\<close>; the second component tells whether the thread goes on.\<close>

definition runIoThread_body :: "'a net_scheme callbacks \<Rightarrow> completion \<Rightarrow> 'a net_scheme \<Rightarrow> ('a net_scheme \<times> bool) run" where
  "runIoThread_body cb c st =
     (if c_overlapped c = Ov_null then Some (st, False)
      else do {
        st \<leftarrow> (case c_error c of None \<Rightarrow> Some st
              | Some error_code \<Rightarrow>
                  (case c_session c of
                     None \<Rightarrow> if error_code = ERROR_NETNAME_DELETED \<or> error_code = ERROR_OPERATION_ABORTED
                             then Some st else None
                   | Some i \<Rightarrow> gqcs_failed error_code (Session_GetSessionID (sess st i)) st));
        case c_session c of
          None \<Rightarrow> do {
            st \<leftarrow> (if c_overlapped c = Ov_post LOG_PEND then CNetServer_writeLog st
                  else CNetServer_Log ''SYS'' enLOG_LEVEL_ERROR ''fault Post Queue '' st);
            Some (st, True)
          }
        | Some i \<Rightarrow> do {
            st \<leftarrow> session_completion cb (c_bytes c) i (c_overlapped c) st;
            (_, st) \<leftarrow> CNetServer_updateIOCount i st;
            Some (st, True)
          }
      })"

subsection \<open>Accepting\<close>

text \<open>One pass of the accept loop; \<open>None\<close> as socket is a failed \<^verbatim>\<open>accept\<close>.\<close>

definition accept_init :: "nat \<Rightarrow> u64 \<Rightarrow> string \<Rightarrow> u16 \<Rightarrow> u64 \<Rightarrow> u32 \<Rightarrow> session \<Rightarrow> session" where
  "accept_init index clientSock ip port tick sid s =
     s\<lparr>s_session_id := sid, s_session_index := of_nat index, s_sock := clientSock, s_ip := ip, s_port := port,
       s_send_post_flag := False, s_disconnect := False, s_recvPacket := 0, s_sendPacket := 0,
       s_last_recv_time := tick, s_recv_buffer := RingBuffer_ClearBuffer (s_recv_buffer s),
       s_send_buffer := RingBuffer_ClearBuffer (s_send_buffer s), s_release_flag := False\<rparr>"

text \<open>The counter skips 0, the id of a session without a client.\<close>

definition next_sessID :: "u32 \<Rightarrow> u32" where
  "next_sessID sid = (if sid + 1 = 0 then sid + 2 else sid + 1)"

definition runAcceptThread_body ::
  "'a net_scheme callbacks \<Rightarrow> u64 option \<Rightarrow> string \<Rightarrow> u16 \<Rightarrow> 'a net_scheme \<Rightarrow> 'a net_scheme run" where
  "runAcceptThread_body cb sock ip port st =
     (case sock of
        None \<Rightarrow> Some (st\<lparr>n_acceptErr := n_acceptErr st + 1\<rparr>)
      | Some clientSock \<Rightarrow>
          let st = st\<lparr>n_totalAccept := n_totalAccept st + 1\<rparr>
          in if OnConnectionRequest cb ip port st then
               (case n_empty st of
                  [] \<Rightarrow> Some st
                | index # rest \<Rightarrow> do {
                    let i = unat index;
                    let st = io_inc i (st\<lparr>n_empty := rest\<rparr>);
                    let sid = n_sessID st;
                    let (e, st) = ask (st\<lparr>n_sessID := next_sessID sid\<rparr>);
                    let st = upd_sess i (accept_init i clientSock ip port (e_tick e) sid) st;
                    let st = st\<lparr>n_open := insert clientSock (n_open st), n_sessionCnt := n_sessionCnt st + 1\<rparr>;
                    st \<leftarrow> OnClientJoin cb (Session_GetSessionID (sess st i)) st;
                    (_, st) \<leftarrow> CNetServer_recvPost i st;
                    (_, st) \<leftarrow> CNetServer_updateIOCount i st;
                    Some st
                  })
             else Some st)"

subsection \<open>Time-outs\<close>

text \<open>The check of session \<open>i\<close> in \<open>runTimeoutThread\<close>, and one scan over all sessions.\<close>

definition timeout_check :: "'a net_scheme callbacks \<Rightarrow> nat \<Rightarrow> 'a net_scheme \<Rightarrow> 'a net_scheme run" where
  "timeout_check cb i st = do {
     let (e, st) = ask st;
     let now_tick = e_tick e;
     let st = io_inc i st;
     st \<leftarrow>
       (if \<not> s_release_flag (sess st i) \<and> \<not> s_disconnect (sess st i) then
          let last_tick = s_last_recv_time (sess st i)
          in if 40000 \<le> sint (now_tick - last_tick) then do {
               let sid = Session_GetSessionID (sess st i);
               st \<leftarrow> OnClientTimeout cb sid st;
               CNetServer_Log ''SYS'' enLOG_LEVEL_DEBUG (''Timeout session '' @ fmt_d (sint sid) @ '' tick '' @
                 fmt_d (sint now_tick) @ '' '' @ fmt_d (sint last_tick)) st
             } else Some st
        else Some st);
     (_, st) \<leftarrow> CNetServer_updateIOCount i st;
     Some st
   }"

fun timeout_scan :: "'a net_scheme callbacks \<Rightarrow> nat list \<Rightarrow> 'a net_scheme \<Rightarrow> 'a net_scheme run" where
  "timeout_scan cb [] st = Some st"
| "timeout_scan cb (i # is) st = do { st \<leftarrow> timeout_check cb i st; timeout_scan cb is st }"

definition runTimeoutThread_body :: "'a net_scheme callbacks \<Rightarrow> 'a net_scheme \<Rightarrow> 'a net_scheme run" where
  "runTimeoutThread_body cb st = timeout_scan cb [0..<n_maxSession st] st"

subsection \<open>Start and stop\<close>

text \<open>The loop that pushes the free indices, highest first.\<close>

fun push_indices :: "nat \<Rightarrow> u16 list \<Rightarrow> u16 list" where
  "push_indices 0 stack = stack"
| "push_indices (Suc n) stack = push_indices n (of_nat n # stack)"

text \<open>
  \<open>Start\<close>: \<open>mem i\<close> are the blocks of the two rings of session \<open>i\<close>, \<open>handles\<close> tells whether the
  system made the completion port and the threads. The address must fit its array of 16 characters
  with a terminator. A negative number of sessions makes the array allocation throw. The port, the
  worker counts and the Nagle flag are passed to the system only.
\<close>

definition CNetServer_Start ::
  "'a net_scheme callbacks \<Rightarrow> string \<Rightarrow> int \<Rightarrow> u8 \<Rightarrow> u8 \<Rightarrow> bool \<Rightarrow> (nat \<Rightarrow> bytes \<times> bytes) \<Rightarrow>
   'a net_scheme \<Rightarrow> (bool \<times> 'a net_scheme) run" where
  "CNetServer_Start cb ip maxSession packetKey packetCode handles mem st =
     (if n_isRunning st then do {
        st \<leftarrow> OnError cb 90 ''Duplicate Start Request'' st;
        Some (False, st)
      } else do {
        lg \<leftarrow> SYSLOG_Init ''Log'' (en_LOG_LEVEL_value enLOG_LEVEL_DEBUG) (n_syslog st);
        let st = st\<lparr>n_syslog := lg, n_maxSession := nat maxSession, n_packetKey := packetKey,
                    n_packetCode := packetCode, n_isRunning := True\<rparr>;
        if 16 \<le> length ip \<or> \<not> handles \<or> maxSession < 0 then None
        else Some (True, st\<lparr>n_sessions := map (\<lambda>i. Session_ctor (fst (mem i)) (snd (mem i))) [0..<nat maxSession],
                           n_empty := push_indices (nat maxSession) []\<rparr>)
      })"

text \<open>\<open>Stop\<close> up to the wait for the sessions to be released: the disconnect loop.\<close>

fun stop_loop :: "nat list \<Rightarrow> 'a net_scheme \<Rightarrow> 'a net_scheme run" where
  "stop_loop [] st = Some st"
| "stop_loop (i # is) st = do {
     st \<leftarrow> (if \<not> s_release_flag (sess st i)
           then CNetServer_DisconnectSession (Session_GetSessionID (sess st i)) st else Some st);
     stop_loop is st
   }"

definition CNetServer_Stop :: "'a net_scheme callbacks \<Rightarrow> 'a net_scheme \<Rightarrow> 'a net_scheme run" where
  "CNetServer_Stop cb st =
     (if \<not> n_isRunning st then OnError cb 98 ''Not Running Yet'' st
      else stop_loop [0..<n_maxSession st] (st\<lparr>n_isRunning := False\<rparr>))"

text \<open>The rest of \<open>Stop\<close>, once \<^verbatim>\<open>m_sessionCnt\<close> is zero: an exit request for each worker.\<close>

definition CNetServer_Stop_exit :: "nat \<Rightarrow> 'a net_scheme \<Rightarrow> 'a net_scheme" where
  "CNetServer_Stop_exit workers st =
     (if n_sessionCnt st \<noteq> 0 then st else st\<lparr>n_posts := n_posts st @ replicate workers Post_exit\<rparr>)"

definition CNetServer_GetSessionCount :: "'a net_scheme \<Rightarrow> u32" where
  "CNetServer_GetSessionCount st = n_sessionCnt st"

text \<open>The counters that \<open>Show\<close> reports and resets: accepts since the last report, bytes and packets
  received and sent.\<close>

definition CNetServer_Show :: "'a net_scheme \<Rightarrow> (u64 \<times> u32 \<times> u32 \<times> u32 \<times> u32 \<times> u32) \<times> 'a net_scheme" where
  "CNetServer_Show st =
     ((n_totalAccept st, ucast (n_totalAccept st - n_preAccept st), n_recvByte st, n_sendByte st,
       n_recvPacket st, n_sendPacket st),
      st\<lparr>n_preAccept := n_totalAccept st, n_recvByte := 0, n_sendByte := 0, n_recvPacket := 0,
         n_sendPacket := 0\<rparr>)"

end
