(* ===== verification/Chat.thy ===== *)
theory Chat
  imports Users Net
begin

text \<open>
  \<^verbatim>\<open>ChatServer.cpp\<close> and \<^verbatim>\<open>ProcPacket.cpp\<close>: the callbacks of the chat server and the handlers of
  the client's packets. A local variable that a short packet leaves uninitialised takes its value
  from the environment.
\<close>

subsection \<open>Users\<close>

text \<open>\<open>AcquireUser\<close> returns with the user's lock held; an unknown session ends the process.\<close>

definition ChatServer_AcquireUser :: "u64 \<Rightarrow> chat_server \<Rightarrow> (addr \<times> chat_server) run" where
  "ChatServer_AcquireUser s_id st = do {
     let st = upd_chat (acquire L_userMap) st;
     user \<leftarrow> c_userMap (chat st) s_id;
     let st = upd_chat (acquire (L_user user)) st;
     Some (user, upd_chat (unlock L_userMap) st)
   }"

definition ChatServer_ReleaseUser :: "addr \<Rightarrow> chat_server \<Rightarrow> chat_server" where
  "ChatServer_ReleaseUser user st = upd_chat (unlock (L_user user)) st"

definition ChatServer_CreateUser :: "u64 \<Rightarrow> chat_server \<Rightarrow> chat_server run" where
  "ChatServer_CreateUser s_id st = do {
     (user, pool) \<leftarrow> MemoryPoolTls_Alloc (n_tid st) (c_userPool (chat st));
     let st = upd_chat (\<lambda>c. c\<lparr>c_userPool := pool\<rparr>) st;
     let st = upd_chat (acquire (L_user user)) st;
     let (e, st) = ask st;
     let st = upd_chat (upd_user user (User_InitUser s_id (e_tick e))) st;
     let st = upd_chat (acquire L_userMap) st;
     if c_userMap (chat st) s_id \<noteq> None then None
     else do {
       let st = upd_chat (\<lambda>c. c\<lparr>c_userMap := (c_userMap c)(s_id \<mapsto> user)\<rparr>) st;
       let st = upd_chat (unlock L_userMap) st;
       let st = upd_chat (unlock (L_user user)) st;
       Some (upd_chat (\<lambda>c. c\<lparr>c_connectCnt := c_connectCnt c + 1\<rparr>) st)
     }
   }"

text \<open>The part of \<open>DeleteUser\<close> that takes the user off the map, then out of its sector.\<close>

definition DeleteUser_unmap :: "u64 \<Rightarrow> chat \<Rightarrow> (addr \<times> chat) run" where
  "DeleteUser_unmap s_id c = do {
     let c = acquire L_userMap c;
     user \<leftarrow> c_userMap c s_id;
     let c = acquire (L_user user) c;
     let c = c\<lparr>c_userMap := (c_userMap c)(s_id := None)\<rparr>;
     let c = unlock L_userMap c;
     if m_SSID (c_users c user) \<noteq> s_id then None else Some (user, c)
   }"

definition DeleteUser_leave_sector :: "addr \<Rightarrow> chat \<Rightarrow> chat run" where
  "DeleteUser_leave_sector user c =
     (let sectorY = m_sectorY (c_users c user); sectorX = m_sectorX (c_users c user)
      in if mb_inSector (c_users c user) then do {
           let c = acquire (L_sector sectorY sectorX) c;
           c \<leftarrow> Sector_RemoveUser user c;
           let c = unlock (L_sector sectorY sectorX) c;
           Some (upd_user user (\<lambda>u. u\<lparr>mb_inSector := False\<rparr>) c)
         } else Some c)"

definition DeleteUser_logout :: "addr \<Rightarrow> chat \<Rightarrow> chat" where
  "DeleteUser_logout user c =
     (if mb_login (c_users c user) then
        let c = acquire L_accountMap c;
            c = c\<lparr>c_accountMap := (c_accountMap c)(m_accountNo (c_users c user) := None)\<rparr>;
            c = unlock L_accountMap c;
            c = c\<lparr>c_loginCnt := c_loginCnt c - 1\<rparr>
        in upd_user user (\<lambda>u. u\<lparr>mb_login := False\<rparr>) c
      else c\<lparr>c_connectCnt := c_connectCnt c - 1\<rparr>)"

definition ChatServer_DeleteUser :: "u64 \<Rightarrow> chat_server \<Rightarrow> chat_server run" where
  "ChatServer_DeleteUser s_id st = do {
     (user, c) \<leftarrow> DeleteUser_unmap s_id (chat st);
     c \<leftarrow> DeleteUser_leave_sector user c;
     let c = unlock (L_user user) c;
     let c = DeleteUser_logout user c;
     (_, pool) \<leftarrow> MemoryPoolTls_Free (n_tid st) user (c_userPool c);
     Some (upd_chat (\<lambda>_. c\<lparr>c_userPool := pool\<rparr>) st)
   }"

subsection \<open>Sending\<close>

definition ChatServer_SendMessageUni :: "addr \<Rightarrow> addr \<Rightarrow> chat_server \<Rightarrow> chat_server run" where
  "ChatServer_SendMessageUni packet user st =
     map_option snd (CNetServer_SendPacket (m_SSID (c_users (chat st) user)) packet st)"

text \<open>The loop over the list of a sector.\<close>

fun SendMessageSector_loop :: "addr \<Rightarrow> (nat \<times> addr) list \<Rightarrow> chat_server \<Rightarrow> chat_server run" where
  "SendMessageSector_loop packet [] st = Some st"
| "SendMessageSector_loop packet ((_, target_user) # iter) st = do {
     st \<leftarrow> ChatServer_SendMessageUni packet target_user st;
     SendMessageSector_loop packet iter st
   }"

definition ChatServer_SendMessageSector :: "addr \<Rightarrow> int \<Rightarrow> int \<Rightarrow> chat_server \<Rightarrow> chat_server run" where
  "ChatServer_SendMessageSector packet sector_x sector_y st =
     SendMessageSector_loop packet (c_sectors (chat st) sector_y sector_x) st"

fun SendMessageAround_loop :: "addr \<Rightarrow> (int \<times> int) list \<Rightarrow> chat_server \<Rightarrow> chat_server run" where
  "SendMessageAround_loop packet [] st = Some st"
| "SendMessageAround_loop packet ((x, y) # around) st = do {
     st \<leftarrow> ChatServer_SendMessageSector packet x y st;
     SendMessageAround_loop packet around st
   }"

definition ChatServer_SendMessageAround :: "addr \<Rightarrow> addr \<Rightarrow> chat_server \<Rightarrow> chat_server run" where
  "ChatServer_SendMessageAround packet user st = do {
     let u = c_users (chat st) user;
     let sect_around = GetSectorAround (m_sectorX u) (m_sectorY u);
     let st = upd_chat (LockSectorAround sect_around) st;
     st \<leftarrow> SendMessageAround_loop packet sect_around st;
     Some (upd_chat (UnlockSectorAround sect_around) st)
   }"

text \<open>Allocate a packet, fill it, send it and give it up; every answer is sent this way.\<close>

definition send_new :: "(environment \<Rightarrow> packet \<Rightarrow> packet run) \<Rightarrow> (addr \<Rightarrow> chat_server \<Rightarrow> chat_server run) \<Rightarrow>
    chat_server \<Rightarrow> chat_server run" where
  "send_new fill send st = do {
     (send_packet, st) \<leftarrow> Packet_Alloc st;
     let (e, st) = ask st;
     p \<leftarrow> fill e (n_packets st send_packet);
     let st = st\<lparr>n_packets := (n_packets st)(send_packet := p)\<rparr>;
     st \<leftarrow> send send_packet st;
     Packet_Free send_packet st
   }"

subsection \<open>Login\<close>

text \<open>An array of \<open>k\<close> characters read from the packet; a short packet leaves it as it was.\<close>

definition get_wchars :: "nat \<Rightarrow> u16 list \<Rightarrow> packet \<Rightarrow> packet \<times> u16 list" where
  "get_wchars k arr p = (case CPacket_GetData (2 * k) p of (p, n, bs) \<Rightarrow> (p, if n = 0 then arr else unwbytes bs))"

definition ProcLogin_read :: "environment \<Rightarrow> packet \<Rightarrow> packet \<times> u64 \<times> u16 list \<times> u16 list" where
  "ProcLogin_read e p =
     (let (p, account_no) = CPacket_get (e_word e) p;
          (p, id_arr) = get_wchars MAX_ID_SIZE (map (e_wmem e) [0..<MAX_ID_SIZE]) p;
          (p, nick_arr) = get_wchars MAX_NICK_SIZE (map (e_wmem e) [MAX_ID_SIZE..<MAX_ID_SIZE + MAX_NICK_SIZE]) p;
          (p, _, session_key) = CPacket_GetData 64 p
      in (p, account_no, wstring_of id_arr (e_tail e), wstring_of nick_arr (e_nick_tail e)))"

definition ProcLogin_answer :: "u8 \<Rightarrow> u64 \<Rightarrow> addr \<Rightarrow> chat_server \<Rightarrow> chat_server run" where
  "ProcLogin_answer status account_no user st =
     send_new (\<lambda>e p. Some (MakeLogin (n_packetCode st) (n_packetKey st) (e_rand e) p status account_no))
       (\<lambda>send_packet. ChatServer_SendMessageUni send_packet user) st"

text \<open>The user becomes a logged-in user.\<close>

definition ProcLogin_set :: "u64 \<Rightarrow> u16 list \<Rightarrow> u16 list \<Rightarrow> addr \<Rightarrow> chat \<Rightarrow> chat" where
  "ProcLogin_set account_no wid nick user c =
     (let c = c\<lparr>c_connectCnt := c_connectCnt c - 1, c_loginCnt := c_loginCnt c + 1\<rparr>
      in upd_user user (\<lambda>u. u\<lparr>mb_login := True, m_accountNo := account_no, m_ID := wid, m_nickname := nick\<rparr>) c)"

definition ProcLogin :: "addr \<Rightarrow> addr \<Rightarrow> chat_server \<Rightarrow> (bool \<times> chat_server) run" where
  "ProcLogin user packet st = do {
     let sessionID = m_SSID (c_users (chat st) user);
     let (e, st) = ask st;
     let (p, account_no, wid, nick) = ProcLogin_read e (n_packets st packet);
     let st = st\<lparr>n_packets := (n_packets st)(packet := p)\<rparr>;
     if mb_login (c_users (chat st) user) then do {
       st \<leftarrow> ProcLogin_answer 0 account_no user st;
       Some (False, st)
     } else do {
       let st = upd_chat (acquire L_accountMap) st;
       if c_accountMap (chat st) account_no \<noteq> None then None
       else do {
         let st = upd_chat (\<lambda>c. c\<lparr>c_accountMap := (c_accountMap c)(account_no \<mapsto> sessionID)\<rparr>) st;
         let st = upd_chat (unlock L_accountMap) st;
         let st = upd_chat (ProcLogin_set account_no wid nick user) st;
         st \<leftarrow> ProcLogin_answer 1 account_no user st;
         Some (True, st)
       }
     }
   }"

subsection \<open>Moving\<close>

text \<open>The sectors to lock, in the order of the locks.\<close>

definition move_sectors :: "user \<Rightarrow> int \<Rightarrow> int \<Rightarrow> (int \<times> int) list" where
  "move_sectors u sector_x sector_y =
     sort_key (\<lambda>(x, y). (y, x))
       ((sector_x, sector_y) #
        (if mb_inSector u \<and> (sector_x \<noteq> m_sectorX u \<or> sector_y \<noteq> m_sectorY u)
         then [(m_sectorX u, m_sectorY u)] else []))"

definition ProcSectorMove_move :: "addr \<Rightarrow> int \<Rightarrow> int \<Rightarrow> chat \<Rightarrow> chat run" where
  "ProcSectorMove_move user sector_x sector_y c = do {
     let lock_sector = move_sectors (c_users c user) sector_x sector_y;
     let c = LockSectors lock_sector c;
     c \<leftarrow> Sector_RemoveUser user c;
     u \<leftarrow> User_MoveSector sector_x sector_y (c_users c user);
     c \<leftarrow> Sector_AddUser user (upd_user user (\<lambda>_. u) c);
     Some (UnlockSectors lock_sector c)
   }"

definition ProcSectorMove_read :: "environment \<Rightarrow> packet \<Rightarrow> packet \<times> u64 \<times> int \<times> int" where
  "ProcSectorMove_read e p =
     (let (p, account_no) = CPacket_get (e_word e) p;
          (p, sector_x) = CPacket_get (e_wmem e 0) p;
          (p, sector_y) = CPacket_get (e_wmem e 1) p
      in (p, account_no, sint sector_x, sint sector_y))"

definition ProcSectorMove :: "addr \<Rightarrow> addr \<Rightarrow> chat_server \<Rightarrow> (bool \<times> chat_server) run" where
  "ProcSectorMove user packet st = do {
     let (e, st) = ask st;
     let (p, account_no, sector_x, sector_y) = ProcSectorMove_read e (n_packets st packet);
     let st = st\<lparr>n_packets := (n_packets st)(packet := p)\<rparr>;
     if account_no \<noteq> m_accountNo (c_users (chat st) user) then Some (False, st)
     else if sector_x < 0 \<or> SECTOR_MAX_X \<le> sector_x \<or> sector_y < 0 \<or> SECTOR_MAX_Y \<le> sector_y
     then Some (False, st)
     else do {
       c \<leftarrow> ProcSectorMove_move user sector_x sector_y (chat st);
       let st = upd_chat (\<lambda>_. c) st;
       let u = c_users (chat st) user;
       st \<leftarrow> send_new (\<lambda>e p. Some (MakeSectorMove (n_packetCode st) (n_packetKey st) (e_rand e) p account_no
                 (of_int (m_sectorX u)) (of_int (m_sectorY u))))
               (\<lambda>send_packet. ChatServer_SendMessageUni send_packet user) st;
       Some (True, st)
     }
   }"

subsection \<open>Talking\<close>

definition ProcMessage_read :: "environment \<Rightarrow> packet \<Rightarrow> packet \<times> u64 \<times> u16" where
  "ProcMessage_read e p =
     (let (p, account_no) = CPacket_get (e_word e) p;
          (p, message_len) = CPacket_get (e_wmem e 0) p
      in (p, account_no, message_len))"

text \<open>The text: \<open>message_len\<close> bytes, a terminator in place of the character at half that length.\<close>

definition ProcMessage_text :: "u16 \<Rightarrow> packet \<Rightarrow> packet \<times> u16 list" where
  "ProcMessage_text message_len p =
     (let (p, _, bs) = CPacket_GetData (unat message_len) p
      in (p, c_str (take (unat message_len div 2) (unwbytes bs))))"

definition ProcMessage :: "addr \<Rightarrow> addr \<Rightarrow> chat_server \<Rightarrow> (bool \<times> chat_server) run" where
  "ProcMessage user packet st = do {
     let (e, st) = ask st;
     let (p, account_no, message_len) = ProcMessage_read e (n_packets st packet);
     let st = st\<lparr>n_packets := (n_packets st)(packet := p)\<rparr>;
     let u = c_users (chat st) user;
     if m_accountNo u \<noteq> account_no then Some (False, st)
     else if CPacket_GetDataSize p \<noteq> uint message_len \<or> message_len = 0 \<or> MAX_MESSAGE < unat message_len
     then Some (False, st)
     else do {
       let (p, ws_message) = ProcMessage_text message_len p;
       let st = st\<lparr>n_packets := (n_packets st)(packet := p)\<rparr>;
       st \<leftarrow> send_new (\<lambda>e p. MakeMessage (n_packetCode st) (n_packetKey st) (e_rand e)
                 (map (e_wmem e) [0..<MAX_ID_SIZE])
                 (map (e_wmem e) [MAX_ID_SIZE..<MAX_ID_SIZE + MAX_NICK_SIZE]) (e_mem e) p account_no
                 (m_ID u) (m_nickname u) message_len ws_message)
               (\<lambda>send_packet. ChatServer_SendMessageAround send_packet user) st;
       Some (True, st)
     }
   }"

subsection \<open>Callbacks\<close>

definition ChatServer_OnConnectionRequest :: "string \<Rightarrow> u16 \<Rightarrow> chat_server \<Rightarrow> bool" where
  "ChatServer_OnConnectionRequest ip port st \<longleftrightarrow> \<not> c_loginCnt (chat st) > n_maxUser st"

definition messageTps_inc :: "chat_server \<Rightarrow> chat_server" where
  "messageTps_inc st = upd_chat (\<lambda>c. c\<lparr>c_messageTps := c_messageTps c + 1\<rparr>) st"

definition ChatServer_OnClientJoin :: "u64 \<Rightarrow> chat_server \<Rightarrow> chat_server run" where
  "ChatServer_OnClientJoin session_id st = map_option messageTps_inc (ChatServer_CreateUser session_id st)"

definition ChatServer_OnClientLeave :: "u64 \<Rightarrow> chat_server \<Rightarrow> chat_server run" where
  "ChatServer_OnClientLeave session_id st = map_option messageTps_inc (ChatServer_DeleteUser session_id st)"

definition ChatServer_OnClientTimeout :: "u64 \<Rightarrow> chat_server \<Rightarrow> chat_server run" where
  "ChatServer_OnClientTimeout session_id st = CNetServer_DisconnectSession session_id st"

definition OnRecv_dispatch :: "u16 \<Rightarrow> addr \<Rightarrow> addr \<Rightarrow> chat_server \<Rightarrow> (bool \<times> chat_server) run" where
  "OnRecv_dispatch packet_type user packet st =
     (if packet_type = en_PACKET_TYPE_value en_PACKET_CS_CHAT_REQ_LOGIN then ProcLogin user packet st
      else if packet_type = en_PACKET_TYPE_value en_PACKET_CS_CHAT_REQ_SECTOR_MOVE then ProcSectorMove user packet st
      else if packet_type = en_PACKET_TYPE_value en_PACKET_CS_CHAT_REQ_MESSAGE then ProcMessage user packet st
      else if packet_type = en_PACKET_TYPE_value en_PACKET_CS_CHAT_REQ_HEARTBEAT then Some (True, st)
      else Some (False, st))"

text \<open>\<open>OnRecv\<close> up to the switch: the type of the packet, and the user, locked.\<close>

definition OnRecv_begin :: "u64 \<Rightarrow> addr \<Rightarrow> chat_server \<Rightarrow> (u16 \<times> addr \<times> chat_server) run" where
  "OnRecv_begin session_id packet st = do {
     let (e, st) = ask st;
     let (p, packet_type) = CPacket_get (e_wmem e 0) (n_packets st packet);
     let st = st\<lparr>n_packets := (n_packets st)(packet := p)\<rparr>;
     (user, st) \<leftarrow> ChatServer_AcquireUser session_id st;
     let (e, st) = ask st;
     Some (packet_type, user, upd_chat (upd_user user (User_UpdateRecvTime (e_tick e))) st)
   }"

definition ChatServer_OnRecv :: "u64 \<Rightarrow> addr \<Rightarrow> chat_server \<Rightarrow> chat_server run" where
  "ChatServer_OnRecv session_id packet st = do {
     (packet_type, user, st) \<leftarrow> OnRecv_begin session_id packet st;
     (result_proc, st) \<leftarrow> OnRecv_dispatch packet_type user packet st;
     let st = ChatServer_ReleaseUser user st;
     st \<leftarrow> (if \<not> result_proc then CNetServer_DisconnectSession session_id st else Some st);
     Some (messageTps_inc st)
   }"

definition ChatServer_OnSend :: "u64 \<Rightarrow> u32 \<Rightarrow> chat_server \<Rightarrow> chat_server run" where
  "ChatServer_OnSend session_id send_size st = Some st"

definition ChatServer_OnError :: "int \<Rightarrow> string \<Rightarrow> chat_server \<Rightarrow> chat_server run" where
  "ChatServer_OnError errorcode msg st =
     CNetServer_Log ''SYS'' enLOG_LEVEL_ERROR (''OnError : '' @ fmt_d errorcode @ '' '' @ msg) st"

definition chat_callbacks :: "chat_server callbacks" where
  "chat_callbacks = \<lparr>OnConnectionRequest = ChatServer_OnConnectionRequest, OnClientJoin = ChatServer_OnClientJoin,
     OnClientLeave = ChatServer_OnClientLeave, OnClientTimeout = ChatServer_OnClientTimeout,
     OnRecv = ChatServer_OnRecv, OnSend = ChatServer_OnSend, OnError = ChatServer_OnError\<rparr>"

subsection \<open>Counters\<close>

text \<open>\<open>Collect\<close>: the message count of the last second; the CPU and PDH counters are the system's.\<close>

definition ChatServer_Collect :: "chat_server \<Rightarrow> chat_server" where
  "ChatServer_Collect st = upd_chat (\<lambda>c. c\<lparr>c_collectMsgTPS := c_messageTps c, c_messageTps := 0\<rparr>) st"

text \<open>The state \<open>ChatServer::Start\<close> sets up before it starts the network library.\<close>

definition ChatServer_init :: "chat_server \<Rightarrow> chat_server" where
  "ChatServer_init st = upd_chat (\<lambda>c. c\<lparr>c_connectCnt := 0, c_loginCnt := 0, c_duplicateLogin := 0,
     c_messageTps := 0, c_collectMsgTPS := 0\<rparr>) (st\<lparr>n_maxUser := 15000\<rparr>)"

end
