(* ===== verification/NetInv.thy ===== *)
theory NetInv
  imports Net
begin

text \<open>
  The invariant of the network library and the proof that its operations keep it.

  A \<open>ctx\<close> describes the step that is running: the references it holds to sessions
  (\<open>x_pins\<close>) and packets (\<open>x_held\<close>), the session whose receive it is processing (\<open>x_recv\<close>; also
  a session being accepted), the session whose send flag it owns (\<open>x_snd\<close>), the session it is releasing (\<open>x_rel\<close>) and the log posts it has taken
  (\<open>x_log\<close>). Between steps the context is empty.
\<close>

record ctx =
  x_pins :: "nat \<Rightarrow> nat"
  x_held :: "addr multiset"
  x_recv :: "nat option"
  x_snd :: "nat option"
  x_rel :: "nat option"
  x_log :: nat

definition no_ctx :: ctx where
  "no_ctx = \<lparr>x_pins = (\<lambda>_. 0), x_held = {#}, x_recv = None, x_snd = None, x_rel = None, x_log = 0\<rparr>"

subsection \<open>One session\<close>

text \<open>What the rest of the state says about a session: is its index free, how many posts of each
  kind name it, is a receive or a send in progress, and what the running step holds of it.\<close>

record view =
  v_free :: bool
  v_sendp :: nat
  v_cancel :: nat
  v_rel :: nat
  v_rio :: bool
  v_sio :: bool
  v_pins :: nat
  v_recv :: bool
  v_snd :: bool
  v_relc :: bool

definition view :: "ctx \<Rightarrow> 'a net_scheme \<Rightarrow> nat \<Rightarrow> view" where
  "view c st i = \<lparr>v_free = (of_nat i \<in> set (n_empty st)),
     v_sendp = count_list (n_posts st) (Post i SEND_PEND),
     v_cancel = count_list (n_posts st) (Post i CANCEL_IO),
     v_rel = count_list (n_posts st) (Post i RELEASE_PEND),
     v_rio = (i \<in> n_recv_io st), v_sio = (i \<in> n_send_io st),
     v_pins = x_pins c i, v_recv = (x_recv c = Some i), v_snd = (x_snd c = Some i),
     v_relc = (x_rel c = Some i)\<rparr>"

definition bufs_ok :: "session \<Rightarrow> bool" where
  "bufs_ok s \<longleftrightarrow> rb_inv (s_send_buffer s) \<and> rb_capacity (s_send_buffer s) = 4000 \<and>
     rb_inv (s_recv_buffer s) \<and> rb_capacity (s_recv_buffer s) = 2000 \<and> length (s_send_q s) \<le> MAX_SENDQ"

text \<open>
  The count of references is the number of operations in progress, posts and references of running
  code. At most one send or send request exists, at most one cancel post. A session that is marked
  released has been disconnected, has nothing in progress, and exactly one release post or release
  step, unless its index is already free. A session that is not disconnected has a receive in
  progress or being processed.
\<close>

definition slot_ok :: "nat \<Rightarrow> view \<Rightarrow> session \<Rightarrow> bool" where
  "slot_ok i v s \<longleftrightarrow> bufs_ok s \<and>
     s_io_count s = int (v_sendp v + v_cancel v + v_rel v + of_bool (v_rio v) + of_bool (v_sio v) + v_pins v) \<and>
     v_sendp v + of_bool (v_sio v) + of_bool (v_snd v) \<le> (of_bool (s_send_post_flag s) :: nat) \<and>
     v_cancel v \<le> of_bool (s_disconnect s) \<and>
     (\<not> s_release_flag s \<longrightarrow> v_rel v = 0 \<and> \<not> v_free v \<and> \<not> v_relc v \<and> 0 < s_io_count s) \<and>
     (s_release_flag s \<longrightarrow> s_disconnect s \<and> \<not> v_rio v \<and> \<not> v_sio v \<and> v_sendp v = 0 \<and> v_cancel v = 0) \<and>
     (s_release_flag s \<and> \<not> v_free v \<longrightarrow> v_rel v + of_bool (v_relc v) = 1) \<and>
     (v_free v \<longrightarrow> v_rel v = 0 \<and> \<not> v_relc v \<and> s_send_q s = []) \<and>
     (\<not> v_free v \<longrightarrow> s_session_index s = of_nat i) \<and>
     (\<not> s_disconnect s \<longrightarrow> v_rio v \<or> v_recv v) \<and>
     (v_recv v \<longrightarrow> \<not> s_release_flag s \<and> \<not> v_rio v \<and> 0 < v_pins v) \<and>
     (v_snd v \<longrightarrow> \<not> s_release_flag s \<and> 0 < v_pins v)"

subsection \<open>Packets, log records, structure\<close>

definition queued :: "session list \<Rightarrow> addr multiset" where
  "queued ss = mset (concat (map s_send_q ss))"

definition pk_ok :: "mempool \<Rightarrow> (addr \<Rightarrow> packet) \<Rightarrow> addr multiset \<Rightarrow> bool" where
  "pk_ok pool packets refs \<longleftrightarrow> mp_inv pool (set_mset refs) \<and>
     (\<forall>a. pk_inv (packets a) \<and> pk_buffer_size (packets a) = eBUFFER_DEFAULT) \<and>
     (\<forall>a \<in># refs. pk_ref_cnt (packets a) = int (count refs a))"

definition log_ok :: "syslog \<Rightarrow> addr list \<Rightarrow> nat \<Rightarrow> bool" where
  "log_ok lg q n \<longleftrightarrow> lg_inv lg (set q) \<and> distinct q \<and> n = length q"

definition struct_ok :: "nat \<Rightarrow> nat \<Rightarrow> u16 list \<Rightarrow> u32 \<Rightarrow> nat set \<Rightarrow> nat set \<Rightarrow> post list \<Rightarrow> bool" where
  "struct_ok n len emp cnt rio sio posts \<longleftrightarrow> len = n \<and> n \<le> 2 ^ 16 \<and> distinct emp \<and>
     (\<forall>x \<in> set emp. unat x < n) \<and> cnt = of_nat (n - length emp) \<and> rio \<subseteq> {..<n} \<and> sio \<subseteq> {..<n} \<and>
     (\<forall>i k. Post i k \<in> set posts \<longrightarrow> i < n \<and> k \<in> {SEND_PEND, CANCEL_IO, RELEASE_PEND})"

definition net_inv :: "ctx \<Rightarrow> 'a net_scheme \<Rightarrow> bool" where
  "net_inv c st \<longleftrightarrow>
     (\<forall>i < n_maxSession st. slot_ok i (view c st i) (sess st i)) \<and>
     struct_ok (n_maxSession st) (length (n_sessions st)) (n_empty st) (n_sessionCnt st)
       (n_recv_io st) (n_send_io st) (n_posts st) \<and>
     pk_ok (n_pool st) (n_packets st) (queued (n_sessions st) + x_held c) \<and>
     log_ok (n_syslog st) (n_logQueue st) (count_list (n_posts st) (Post_null LOG_PEND) + x_log c) \<and>
     n_sessID st \<noteq> 0"

text \<open>What the callbacks and the library's own operations leave alone.\<close>

definition ident :: "session \<Rightarrow> u32 \<times> u16 \<times> u64 \<times> ring" where
  "ident s = (s_session_id s, s_session_index s, s_sock s, s_recv_buffer s)"

definition net_frame :: "'a net_scheme \<Rightarrow> 'a net_scheme \<Rightarrow> bool" where
  "net_frame st st' \<longleftrightarrow> n_maxSession st' = n_maxSession st \<and> n_env st' = n_env st \<and>
     n_packetKey st' = n_packetKey st \<and> n_packetCode st' = n_packetCode st \<and> n_tid st' = n_tid st \<and>
     n_empty st' = n_empty st \<and> n_maxUser st' = n_maxUser st \<and>
     map ident (n_sessions st') = map ident (n_sessions st)"

definition lib_frame :: "'a net_scheme \<Rightarrow> 'a net_scheme \<Rightarrow> bool" where
  "lib_frame st st' \<longleftrightarrow> net_frame st st' \<and> net.more st' = net.more st"

lemma net_frame_refl [simp, intro]: "net_frame st st"
  by (simp add: net_frame_def)

lemma lib_frame_refl [simp, intro]: "lib_frame st st"
  by (simp add: lib_frame_def)

lemma net_frame_trans: "net_frame st st' \<Longrightarrow> net_frame st' st'' \<Longrightarrow> net_frame st st''"
  by (simp add: net_frame_def)

lemma lib_frame_trans: "lib_frame st st' \<Longrightarrow> lib_frame st' st'' \<Longrightarrow> lib_frame st st''"
  by (auto simp: lib_frame_def elim: net_frame_trans)

lemma lib_frame_net: "lib_frame st st' \<Longrightarrow> net_frame st st'"
  by (simp add: lib_frame_def)

lemma net_frame_sess:
  assumes "net_frame st st'" and "i < length (n_sessions st)"
  shows "s_session_id (sess st' i) = s_session_id (sess st i)"
    and "s_session_index (sess st' i) = s_session_index (sess st i)"
    and "s_sock (sess st' i) = s_sock (sess st i)"
    and "s_recv_buffer (sess st' i) = s_recv_buffer (sess st i)"
proof -
  have "length (n_sessions st') = length (n_sessions st)"
    using assms(1) unfolding net_frame_def by (metis length_map)
  moreover have "map ident (n_sessions st') ! i = map ident (n_sessions st) ! i"
    using assms(1) by (simp add: net_frame_def)
  ultimately have "ident (sess st' i) = ident (sess st i)"
    using assms(2) by simp
  then show "s_session_id (sess st' i) = s_session_id (sess st i)"
    and "s_session_index (sess st' i) = s_session_index (sess st i)"
    and "s_sock (sess st' i) = s_sock (sess st i)"
    and "s_recv_buffer (sess st' i) = s_recv_buffer (sess st i)"
    by (simp_all add: ident_def)
qed

subsection \<open>Reading the state after an update\<close>

lemma sess_upd [simp]:
  "i < length (n_sessions st) \<Longrightarrow> sess (upd_sess i f st) j = (if j = i then f (sess st i) else sess st j)"
  by (auto simp: upd_sess_def)

lemma upd_sess_simps [simp]:
  "length (n_sessions (upd_sess i f st)) = length (n_sessions st)"
  "n_maxSession (upd_sess i f st) = n_maxSession st" "n_maxUser (upd_sess i f st) = n_maxUser st"
  "n_empty (upd_sess i f st) = n_empty st" "n_sessionCnt (upd_sess i f st) = n_sessionCnt st"
  "n_recv_io (upd_sess i f st) = n_recv_io st" "n_send_io (upd_sess i f st) = n_send_io st"
  "n_posts (upd_sess i f st) = n_posts st" "n_pool (upd_sess i f st) = n_pool st"
  "n_packets (upd_sess i f st) = n_packets st" "n_syslog (upd_sess i f st) = n_syslog st"
  "n_logQueue (upd_sess i f st) = n_logQueue st" "n_env (upd_sess i f st) = n_env st"
  "n_time (upd_sess i f st) = n_time st" "n_sessID (upd_sess i f st) = n_sessID st"
  "n_packetKey (upd_sess i f st) = n_packetKey st" "n_packetCode (upd_sess i f st) = n_packetCode st"
  "n_tid (upd_sess i f st) = n_tid st" "n_isRunning (upd_sess i f st) = n_isRunning st"
  "net.more (upd_sess i f st) = net.more st" "n_open (upd_sess i f st) = n_open st"
  by (simp_all add: upd_sess_def)

lemma post_simps [simp]:
  "n_sessions (post p st) = n_sessions st" "n_posts (post p st) = n_posts st @ [p]"
  "n_maxSession (post p st) = n_maxSession st" "n_maxUser (post p st) = n_maxUser st"
  "n_empty (post p st) = n_empty st" "n_sessionCnt (post p st) = n_sessionCnt st"
  "n_recv_io (post p st) = n_recv_io st" "n_send_io (post p st) = n_send_io st"
  "n_pool (post p st) = n_pool st" "n_packets (post p st) = n_packets st"
  "n_syslog (post p st) = n_syslog st" "n_logQueue (post p st) = n_logQueue st"
  "n_env (post p st) = n_env st" "n_time (post p st) = n_time st" "n_sessID (post p st) = n_sessID st"
  "n_packetKey (post p st) = n_packetKey st" "n_packetCode (post p st) = n_packetCode st"
  "n_tid (post p st) = n_tid st" "n_isRunning (post p st) = n_isRunning st"
  "net.more (post p st) = net.more st" "n_open (post p st) = n_open st"
  by (simp_all add: post_def)

lemma queued_upd:
  assumes "i < length ss"
  shows "queued (ss[i := s]) + mset (s_send_q (ss ! i)) = queued ss + mset (s_send_q s)"
  using assms
proof (induction ss arbitrary: i)
  case (Cons t ss)
  show ?case
  proof (cases i)
    case (Suc k)
    then have "queued (ss[k := s]) + mset (s_send_q (ss ! k)) = queued ss + mset (s_send_q s)"
      using Cons by simp
    then show ?thesis using Suc by (simp add: queued_def)
  qed (simp add: queued_def ac_simps)
qed simp

lemma queued_upd_same [simp]:
  assumes "i < length (n_sessions st)" and "s_send_q (f (sess st i)) = s_send_q (sess st i)"
  shows "queued (n_sessions (upd_sess i f st)) = queued (n_sessions st)"
  using queued_upd[OF assms(1), of "f (sess st i)"] assms(2) by (simp add: upd_sess_def)

lemma net_invD:
  assumes "net_inv c st"
  shows "i < n_maxSession st \<Longrightarrow> slot_ok i (view c st i) (sess st i)"
    and "struct_ok (n_maxSession st) (length (n_sessions st)) (n_empty st) (n_sessionCnt st)
       (n_recv_io st) (n_send_io st) (n_posts st)"
    and "length (n_sessions st) = n_maxSession st"
    and "pk_ok (n_pool st) (n_packets st) (queued (n_sessions st) + x_held c)"
    and "log_ok (n_syslog st) (n_logQueue st) (count_list (n_posts st) (Post_null LOG_PEND) + x_log c)"
    and "n_sessID st \<noteq> 0"
    and "n_maxSession st \<le> 2 ^ 16"
  using assms by (auto simp: net_inv_def struct_ok_def)

text \<open>An update that concerns one session, and leaves packets and log records to be checked.\<close>

lemma net_inv_slot:
  assumes inv: "net_inv c st" and i: "i < n_maxSession st"
    and same: "\<And>j. j \<noteq> i \<Longrightarrow> j < n_maxSession st \<Longrightarrow> view c' st' j = view c st j \<and> sess st' j = sess st j"
    and slot: "slot_ok i (view c st i) (sess st i) \<Longrightarrow> slot_ok i (view c' st' i) (sess st' i)"
    and str: "struct_ok (n_maxSession st) (length (n_sessions st)) (n_empty st) (n_sessionCnt st)
       (n_recv_io st) (n_send_io st) (n_posts st) \<Longrightarrow>
      struct_ok (n_maxSession st') (length (n_sessions st')) (n_empty st') (n_sessionCnt st')
       (n_recv_io st') (n_send_io st') (n_posts st')"
    and pk: "pk_ok (n_pool st) (n_packets st) (queued (n_sessions st) + x_held c) \<Longrightarrow>
      pk_ok (n_pool st') (n_packets st') (queued (n_sessions st') + x_held c')"
    and lg: "log_ok (n_syslog st) (n_logQueue st) (count_list (n_posts st) (Post_null LOG_PEND) + x_log c) \<Longrightarrow>
      log_ok (n_syslog st') (n_logQueue st') (count_list (n_posts st') (Post_null LOG_PEND) + x_log c')"
    and env: "n_env st' = n_env st" "n_sessID st' \<noteq> 0" "n_maxSession st' = n_maxSession st"
  shows "net_inv c' st'"
proof -
  have "slot_ok j (view c' st' j) (sess st' j)" if "j < n_maxSession st'" for j
    using that inv i same[of j] slot env(3) by (cases "j = i") (auto simp: net_inv_def)
  with inv str pk lg env show ?thesis by (simp add: net_inv_def)
qed

subsection \<open>References and posts\<close>

definition pin :: "nat \<Rightarrow> ctx \<Rightarrow> ctx" where
  "pin i c = c\<lparr>x_pins := (x_pins c)(i := x_pins c i + 1)\<rparr>"

definition unpin :: "nat \<Rightarrow> ctx \<Rightarrow> ctx" where
  "unpin i c = c\<lparr>x_pins := (x_pins c)(i := x_pins c i - 1)\<rparr>"

lemma pin_simps [simp]:
  "x_pins (pin i c) j = (if j = i then x_pins c i + 1 else x_pins c j)"
  "x_held (pin i c) = x_held c" "x_recv (pin i c) = x_recv c" "x_snd (pin i c) = x_snd c" "x_rel (pin i c) = x_rel c"
  "x_log (pin i c) = x_log c"
  "x_pins (unpin i c) j = (if j = i then x_pins c i - 1 else x_pins c j)"
  "x_held (unpin i c) = x_held c" "x_recv (unpin i c) = x_recv c" "x_snd (unpin i c) = x_snd c" "x_rel (unpin i c) = x_rel c"
  "x_log (unpin i c) = x_log c" "unpin i (pin i c) = c"
  by (simp_all add: pin_def unpin_def)

lemma view_simps [simp]:
  "v_free (view c st i) = (of_nat i \<in> set (n_empty st))"
  "v_sendp (view c st i) = count_list (n_posts st) (Post i SEND_PEND)"
  "v_cancel (view c st i) = count_list (n_posts st) (Post i CANCEL_IO)"
  "v_rel (view c st i) = count_list (n_posts st) (Post i RELEASE_PEND)"
  "v_rio (view c st i) = (i \<in> n_recv_io st)" "v_sio (view c st i) = (i \<in> n_send_io st)"
  "v_pins (view c st i) = x_pins c i" "v_recv (view c st i) = (x_recv c = Some i)"
  "v_relc (view c st i) = (x_rel c = Some i)" "v_snd (view c st i) = (x_snd c = Some i)"
  by (simp_all add: view_def)

lemma view_eq_iff:
  "view c' st' j = view c st j \<longleftrightarrow>
     (of_nat j \<in> set (n_empty st')) = (of_nat j \<in> set (n_empty st)) \<and>
     count_list (n_posts st') (Post j SEND_PEND) = count_list (n_posts st) (Post j SEND_PEND) \<and>
     count_list (n_posts st') (Post j CANCEL_IO) = count_list (n_posts st) (Post j CANCEL_IO) \<and>
     count_list (n_posts st') (Post j RELEASE_PEND) = count_list (n_posts st) (Post j RELEASE_PEND) \<and>
     (j \<in> n_recv_io st') = (j \<in> n_recv_io st) \<and> (j \<in> n_send_io st') = (j \<in> n_send_io st) \<and>
     x_pins c' j = x_pins c j \<and> (x_recv c' = Some j) = (x_recv c = Some j) \<and>
     (x_snd c' = Some j) = (x_snd c = Some j) \<and> (x_rel c' = Some j) = (x_rel c = Some j)"
  by (simp add: view_def)

lemma struct_ok_post:
  "i < n \<Longrightarrow> k \<in> {SEND_PEND, CANCEL_IO, RELEASE_PEND} \<Longrightarrow> struct_ok n len emp cnt rio sio posts \<Longrightarrow>
   struct_ok n len emp cnt rio sio (posts @ [Post i k])"
  by (auto simp: struct_ok_def)

lemma struct_ok_post_null:
  "struct_ok n len emp cnt rio sio posts \<Longrightarrow> struct_ok n len emp cnt rio sio (posts @ [Post_null k])"
  by (auto simp: struct_ok_def)

lemma lib_frame_upd:
  assumes "i < length (n_sessions st)" and "ident (f (sess st i)) = ident (sess st i)"
  shows "lib_frame st (upd_sess i f st)"
proof -
  have "map ident ((n_sessions st)[i := f (sess st i)]) = map ident (n_sessions st)"
    using assms by (simp add: map_update list_update_same_conv)
  then show ?thesis by (simp add: lib_frame_def net_frame_def upd_sess_def)
qed

lemma lib_frame_post: "lib_frame st (post p st)"
  by (simp add: lib_frame_def net_frame_def)

lemma lib_frame_io_inc: "i < length (n_sessions st) \<Longrightarrow> lib_frame st (io_inc i st)"
  by (simp add: io_inc_def lib_frame_upd ident_def)

lemma io_inc_simps [simp]:
  "length (n_sessions (io_inc i st)) = length (n_sessions st)"
  "n_maxSession (io_inc i st) = n_maxSession st" "n_empty (io_inc i st) = n_empty st"
  "n_posts (io_inc i st) = n_posts st" "n_recv_io (io_inc i st) = n_recv_io st"
  "n_send_io (io_inc i st) = n_send_io st"
  by (simp_all add: io_inc_def)

lemma sess_io_inc [simp]:
  "i < length (n_sessions st) \<Longrightarrow> sess (io_inc i st) j =
     (if j = i then (sess st i)\<lparr>s_io_count := s_io_count (sess st i) + 1\<rparr> else sess st j)"
  by (simp add: io_inc_def)

lemma bufs_ok_upd [simp]:
  "bufs_ok (s\<lparr>s_io_count := a\<rparr>) = bufs_ok s" "bufs_ok (s\<lparr>s_release_flag := b\<rparr>) = bufs_ok s"
  "bufs_ok (s\<lparr>s_disconnect := b\<rparr>) = bufs_ok s" "bufs_ok (s\<lparr>s_send_post_flag := b\<rparr>) = bufs_ok s"
  "bufs_ok (s\<lparr>s_sendPacket := w\<rparr>) = bufs_ok s" "bufs_ok (s\<lparr>s_recvPacket := w\<rparr>) = bufs_ok s"
  "bufs_ok (s\<lparr>s_session_id := w\<rparr>) = bufs_ok s" "bufs_ok (s\<lparr>s_sock := q\<rparr>) = bufs_ok s"
  "bufs_ok (s\<lparr>s_last_recv_time := q\<rparr>) = bufs_ok s"
  by (simp_all add: bufs_ok_def)

lemma io_inc_inv:
  assumes inv: "net_inv c st" and i: "i < n_maxSession st"
  shows "net_inv (pin i c) (io_inc i st)"
proof (rule net_inv_slot[OF inv i])
  note len = net_invD(3)[OF inv]
  show "view (pin i c) (io_inc i st) j = view c st j \<and> sess (io_inc i st) j = sess st j" if "j \<noteq> i" for j
    using that i len by (simp add: view_eq_iff)
  show "slot_ok i (view c st i) (sess st i) \<Longrightarrow> slot_ok i (view (pin i c) (io_inc i st) i) (sess (io_inc i st) i)"
    using i len by (auto simp: slot_ok_def)
qed (use inv i net_invD(3)[OF inv] in \<open>auto simp: io_inc_def net_inv_def\<close>)

lemma disconnect_inv:
  assumes inv: "net_inv c st" and i: "i < n_maxSession st"
  shows "net_inv c (CNetServer_disconnect i st)" and "lib_frame st (CNetServer_disconnect i st)"
    and "s_disconnect (sess (CNetServer_disconnect i st) i)"
    and "s_release_flag (sess (CNetServer_disconnect i st) i) = s_release_flag (sess st i)"
proof -
  note len = net_invD(3)[OF inv]
  let ?st = "post (Post i CANCEL_IO) (io_inc i (upd_sess i (\<lambda>s. s\<lparr>s_disconnect := True\<rparr>) st))"
  show "net_inv c (CNetServer_disconnect i st)"
  proof (cases "s_disconnect (sess st i)")
    case False
    have "net_inv c ?st"
    proof (rule net_inv_slot[OF inv i])
      show "view c ?st j = view c st j \<and> sess ?st j = sess st j" if "j \<noteq> i" for j
        using that i len by (simp add: view_eq_iff)
      show "slot_ok i (view c st i) (sess st i) \<Longrightarrow> slot_ok i (view c ?st i) (sess ?st i)"
        using i len False by (auto simp: slot_ok_def)
    qed (use inv i len in \<open>auto simp: io_inc_def net_inv_def intro!: struct_ok_post\<close>)
    with False show ?thesis by (simp add: CNetServer_disconnect_def)
  qed (simp add: CNetServer_disconnect_def inv)
  have "lib_frame st ?st"
    using i len by (auto intro!: lib_frame_trans[OF lib_frame_upd lib_frame_trans[OF lib_frame_io_inc lib_frame_post]]
        simp: ident_def)
  then show "lib_frame st (CNetServer_disconnect i st)"
    by (simp add: CNetServer_disconnect_def)
  show "s_disconnect (sess (CNetServer_disconnect i st) i)"
    "s_release_flag (sess (CNetServer_disconnect i st) i) = s_release_flag (sess st i)"
    using i len by (simp_all add: CNetServer_disconnect_def)
qed

lemma sendPend_inv:
  assumes inv: "net_inv c st" and i: "i < n_maxSession st" and rf: "\<not> s_release_flag (sess st i)"
  shows "net_inv c (CNetServer_sendPend i st)" and "lib_frame st (CNetServer_sendPend i st)"
proof -
  note len = net_invD(3)[OF inv]
  let ?st = "post (Post i SEND_PEND) (io_inc i (upd_sess i (\<lambda>s. s\<lparr>s_send_post_flag := True\<rparr>) st))"
  show "net_inv c (CNetServer_sendPend i st)"
  proof (cases "s_disconnect (sess st i) \<or> s_send_post_flag (sess st i)")
    case False
    have "net_inv c ?st"
    proof (rule net_inv_slot[OF inv i])
      show "view c ?st j = view c st j \<and> sess ?st j = sess st j" if "j \<noteq> i" for j
        using that i len by (simp add: view_eq_iff)
      show "slot_ok i (view c st i) (sess st i) \<Longrightarrow> slot_ok i (view c ?st i) (sess ?st i)"
        using i len False rf by (auto simp: slot_ok_def)
    qed (use inv i len in \<open>auto simp: io_inc_def net_inv_def intro!: struct_ok_post\<close>)
    with False show ?thesis by (simp add: CNetServer_sendPend_def)
  qed (auto simp: CNetServer_sendPend_def inv)
  have "lib_frame st ?st"
    using i len by (auto intro!: lib_frame_trans[OF lib_frame_upd lib_frame_trans[OF lib_frame_io_inc lib_frame_post]]
        simp: ident_def)
  then show "lib_frame st (CNetServer_sendPend i st)"
    by (simp add: CNetServer_sendPend_def)
qed

end
