(* ===== verification/NetRes.thy ===== *)
theory NetRes
  imports NetInv
begin

text \<open>
  The packet pool and the log as their users see them: what taking, sharing and giving back a
  packet and taking a log record do to \<open>pk_ok\<close> and \<open>lg_inv\<close>. The server and the client to the monitor
  server share both.
\<close>

lemma pk_inv_ref_cnt:
  "pk_inv p \<Longrightarrow> pk_inv (p\<lparr>pk_ref_cnt := n\<rparr>)"
  by (simp add: pk_inv_def)

lemma Packet_Alloc_pk:
  assumes P: "pk_ok (n_pool st) (n_packets st) R"
  obtains a pool where
    "Packet_Alloc st = Some (a, st\<lparr>n_packets := (n_packets st)(a := CPacket_Clear (n_packets st a)), n_pool := pool\<rparr>)"
    "a \<notin># R" "pk_fresh (CPacket_Clear (n_packets st a))"
    "pk_ok pool ((n_packets st)(a := CPacket_Clear (n_packets st a))) (add_mset a R)"
proof -
  have "mp_inv (n_pool st) (set_mset R)" using P by (simp add: pk_ok_def)
  then obtain a pool where A: "MemoryPoolTls_Alloc (n_tid st) (n_pool st) = Some (a, pool)" "a \<notin># R"
      "mp_inv pool (insert a (set_mset R))"
    using tls.alloc_ok by blast
  have a: "pk_inv (n_packets st a)" "pk_buffer_size (n_packets st a) = eBUFFER_DEFAULT"
    using P by (auto simp: pk_ok_def)
  have f: "pk_fresh (CPacket_Clear (n_packets st a))" by (rule pk_fresh_Clear[OF a])
  have "count R a = 0" using A(2) by (meson count_eq_zero_iff)
  then have "pk_ok pool ((n_packets st)(a := CPacket_Clear (n_packets st a))) (add_mset a R)"
    using P A f by (auto simp: pk_ok_def pk_fresh_def)
  with A f show ?thesis by (intro that) (simp_all add: Packet_Alloc_def)
qed

lemma pk_ok_AddRef:
  assumes "pk_ok pool packets R" and "a \<in># R"
  shows "pk_ok pool (packets(a := CPacket_AddRef (packets a))) (add_mset a R)"
  using assms by (auto simp: pk_ok_def CPacket_AddRef_def pk_inv_ref_cnt insert_absorb)

lemma set_mset_diff_one: "count R a = 1 \<Longrightarrow> set_mset (R - {#a#}) = set_mset R - {a}"
  by (rule set_eqI) (auto simp: count_greater_zero_iff [symmetric] simp del: count_greater_zero_iff split: if_splits)

lemma set_mset_diff_more: "1 < count R a \<Longrightarrow> set_mset (R - {#a#}) = set_mset R"
  by (rule set_eqI) (auto simp: count_greater_zero_iff [symmetric] simp del: count_greater_zero_iff split: if_splits)

lemma refs_drop:
  assumes "\<forall>b \<in># R. pk_ref_cnt (pks b) = int (count R b)" and "a \<in># R"
  shows "\<forall>b \<in># R - {#a#}. pk_ref_cnt ((pks(a := (pks a)\<lparr>pk_ref_cnt := pk_ref_cnt (pks a) - 1\<rparr>)) b)
    = int (count (R - {#a#}) b)"
proof
  fix b assume "b \<in># R - {#a#}"
  then have "b \<in># R" by (rule in_diffD)
  then have "pk_ref_cnt (pks b) = int (count R b)" using assms(1) by blast
  moreover have "0 < count R a" using assms(2) by simp
  ultimately show "pk_ref_cnt ((pks(a := (pks a)\<lparr>pk_ref_cnt := pk_ref_cnt (pks a) - 1\<rparr>)) b)
    = int (count (R - {#a#}) b)"
    by (cases "b = a") (simp_all add: of_nat_diff Suc_leI del: count_greater_zero_iff)
qed

text \<open>Giving up a reference; the last one gives the packet back to the pool.\<close>

lemma Packet_SubRef_pk:
  assumes P: "pk_ok (n_pool st) (n_packets st) R" and a: "a \<in># R"
  obtains pool where
    "Packet_SubRef a st = Some (st\<lparr>n_packets := (n_packets st)(a := (n_packets st a)\<lparr>pk_ref_cnt := pk_ref_cnt (n_packets st a) - 1\<rparr>),
       n_pool := pool\<rparr>)"
    "pk_ok pool ((n_packets st)(a := (n_packets st a)\<lparr>pk_ref_cnt := pk_ref_cnt (n_packets st a) - 1\<rparr>)) (R - {#a#})"
proof -
  let ?pks = "(n_packets st)(a := (n_packets st a)\<lparr>pk_ref_cnt := pk_ref_cnt (n_packets st a) - 1\<rparr>)"
  have cnt: "pk_ref_cnt (n_packets st a) = int (count R a)" and pos: "0 < count R a"
    using P a by (auto simp: pk_ok_def)
  have refs: "\<forall>b \<in># R - {#a#}. pk_ref_cnt (?pks b) = int (count (R - {#a#}) b)"
    by (rule refs_drop) (use P a in \<open>auto simp: pk_ok_def\<close>)
  show ?thesis
  proof (cases "count R a = 1")
    case True
    note set = set_mset_diff_one[OF True]
    have "mp_inv (n_pool st) (set_mset R)" using P by (simp add: pk_ok_def)
    then obtain pool where F: "MemoryPoolTls_Free (n_tid st) a (n_pool st) = Some (True, pool)"
        "mp_inv pool (set_mset R - {a})"
      using tls.free_ok[of "n_pool st" "set_mset R" a "n_tid st"] a by auto
    have "pk_ok pool ?pks (R - {#a#})"
      using P F(2) refs set by (auto simp: pk_ok_def pk_inv_ref_cnt)
    moreover have "Packet_SubRef a st = Some (st\<lparr>n_packets := ?pks, n_pool := pool\<rparr>)"
      using cnt True F(1) by (simp add: Packet_SubRef_def CPacket_SubRef_def Let_def)
    ultimately show ?thesis using that by blast
  next
    case False
    note set = set_mset_diff_more[of R a]
    have "pk_ok (n_pool st) ?pks (R - {#a#})"
      using P refs set False pos by (auto simp: pk_ok_def pk_inv_ref_cnt)
    moreover have "Packet_SubRef a st = Some (st\<lparr>n_packets := ?pks, n_pool := n_pool st\<rparr>)"
      using cnt False pos by (simp add: Packet_SubRef_def CPacket_SubRef_def Let_def)
    ultimately show ?thesis using that by blast
  qed
qed

text \<open>Changing a packet without its size and its count.\<close>

lemma pk_ok_upd:
  assumes "pk_ok pool packets R" and "pk_inv p" and "pk_buffer_size p = eBUFFER_DEFAULT"
    and "pk_ref_cnt p = pk_ref_cnt (packets a)"
  shows "pk_ok pool (packets(a := p)) R"
  using assms by (auto simp: pk_ok_def)

text \<open>The length of the texts that are logged.\<close>

lemma log_text: "length p \<le> 100 \<Longrightarrow> length q \<le> 100 \<Longrightarrow> length (p @ fmt_d n @ q) < 1024"
  and log_text2: "length p \<le> 100 \<Longrightarrow> length q \<le> 100 \<Longrightarrow> length (p @ fmt_d n @ q @ fmt_d m) < 1024"
  and log_text1: "length p \<le> 100 \<Longrightarrow> length (p @ fmt_d n) < 1024"
  and log_text3: "length p \<le> 100 \<Longrightarrow> length q \<le> 100 \<Longrightarrow> length r \<le> 100 \<Longrightarrow>
    length (p @ fmt_d n @ q @ fmt_d m @ r @ fmt_d k) < 1024"
  using length_fmt_d[of n] length_fmt_d[of m] length_fmt_d[of k] by simp_all

text \<open>A log record: taken and written, and handed to the file.\<close>

lemma log_written:
  assumes "lg_inv lg L" and "length szType \<le> 10" and "length msg < 1024"
  obtains a lg1 lg2 where "CLog_Alloc t lg = Some (a, lg1)" "a \<notin> L"
    "CLog_Write a szType lev msg tm lg1 = Some (True, lg2)" "lg_inv lg2 (insert a L)"
proof -
  obtain a lg1 where A: "CLog_Alloc t lg = Some (a, lg1)" "a \<notin> L" "lg_inv lg1 (insert a L)"
    by (rule CLog_Alloc_ok[OF assms(1)])
  from CLog_Write_ok[OF A(3) assms(2,3)] obtain lg2 where
    "CLog_Write a szType lev msg tm lg1 = Some (True, lg2)" "lg_inv lg2 (insert a L)" by metis
  with A that show ?thesis by blast
qed

lemma log_filed:
  assumes "lg_inv lg L" and "a \<in> L"
  obtains lg1 lg2 where "CLog_WriteFile a True tm lg = Some lg1" "CLog_Free t a lg1 = Some lg2" "lg_inv lg2 (L - {a})"
  using CLog_WriteFile_ok[OF assms(1)] CLog_Free_ok[OF _ assms(2)] by metis

text \<open>What the system writes into the free space of a receive ring before \<open>MoveRear\<close>.\<close>

lemma rb_written:
  assumes r: "rb_inv rb" and d: "length d \<le> seg_total (recv_segments rb)"
  shows "rb_inv (rb\<lparr>rb_buf := seg_write (recv_segments rb) d (rb_buf rb)\<rparr>)"
proof -
  have total: "seg_total (recv_segments rb) = rb_capacity rb - length (rb_list rb)"
    by (rule recv_segments_total[OF r])
  have "length (seg_write (recv_segments rb) d (rb_buf rb)) = length (rb_buf rb)"
    unfolding recv_segments_write[OF r d[unfolded total]]
    by (rule length_ring_put) (use d total r in \<open>auto simp: rb_inv_def rb_capacity_def\<close>)
  then show ?thesis using r by (simp add: rb_inv_def)
qed

text \<open>Taking a post from the port.\<close>

lemma count_list_take_post:
  assumes "k < length ps"
  shows "count_list ps x = count_list (take k ps @ drop (Suc k) ps) x + (if ps ! k = x then 1 else 0)"
proof -
  have "ps = take k ps @ ps ! k # drop (Suc k) ps" using assms by (simp add: id_take_nth_drop)
  then have "count_list ps x = count_list (take k ps @ ps ! k # drop (Suc k) ps) x" by simp
  then show ?thesis by simp
qed

end
