(* ===== verification/NetLemmas.thy ===== *)
theory NetLemmas
  imports NetRes
begin

text \<open>
  The operations of the network library keep its invariant and do not fail: dropping a session
  reference, logging, packet references, sending and posting receives.
\<close>

subsection \<open>Dropping a reference\<close>

text \<open>A session whose receive is finished, one way or the other.\<close>

definition recv_done :: "ctx \<Rightarrow> ctx" where
  "recv_done c = c\<lparr>x_recv := None\<rparr>"

lemma recv_done_simps [simp]:
  "x_pins (recv_done c) = x_pins c" "x_held (recv_done c) = x_held c" "x_recv (recv_done c) = None"
  "x_snd (recv_done c) = x_snd c"
  "x_rel (recv_done c) = x_rel c" "x_log (recv_done c) = x_log c"
  by (simp_all add: recv_done_def)

lemma recv_done_inv:
  assumes inv: "net_inv c st" and i: "i < n_maxSession st" and r: "x_recv c = Some i"
    and d: "s_disconnect (sess st i) \<or> i \<in> n_recv_io st"
  shows "net_inv (recv_done c) st"
proof (rule net_inv_slot[OF inv i])
  show "view (recv_done c) st j = view c st j \<and> sess st j = sess st j" if "j \<noteq> i" for j
    using that r by (simp add: view_eq_iff)
  show "slot_ok i (view c st i) (sess st i) \<Longrightarrow> slot_ok i (view (recv_done c) st i) (sess st i)"
    using d by (auto simp: slot_ok_def)
qed (use inv in \<open>auto simp: net_inv_def\<close>)

lemma updateIOCount_inv:
  assumes inv: "net_inv c st" and i: "i < n_maxSession st" and p: "0 < x_pins c i"
    and r: "x_recv c = Some i \<or> x_snd c = Some i \<Longrightarrow> 1 < x_pins c i"
  shows "wpx C (CNetServer_updateIOCount i st) (\<lambda>(t, st'). net_inv (unpin i c) st' \<and> lib_frame st st')"
proof -
  note len = net_invD(3)[OF inv]
  note S = net_invD(1)[OF inv i]
  define t where "t = s_io_count (sess st i) - 1"
  have t0: "0 \<le> t" using S p by (auto simp: t_def slot_ok_def)
  define st1 where "st1 = upd_sess i (\<lambda>s. s\<lparr>s_io_count := t\<rparr>) st"
  have fr1: "lib_frame st st1"
    using i len by (simp add: st1_def lib_frame_upd ident_def)
  have same1: "view (unpin i c) st1 j = view c st j \<and> sess st1 j = sess st j" if "j \<noteq> i" for j
    using that i len by (simp add: view_eq_iff st1_def)
  show ?thesis
  proof (cases "t = 0 \<and> \<not> s_release_flag (sess st i)")
    case True
    let ?st = "post (Post i RELEASE_PEND) (io_inc i (upd_sess i (\<lambda>s. s\<lparr>s_release_flag := True\<rparr>) st1))"
    have "net_inv (unpin i c) ?st"
    proof (rule net_inv_slot[OF inv i])
      show "view (unpin i c) ?st j = view c st j \<and> sess ?st j = sess st j" if "j \<noteq> i" for j
        using that i len same1[OF that] by (simp add: view_eq_iff st1_def)
      have z: "v_sendp (view c st i) = 0 \<and> v_cancel (view c st i) = 0 \<and> v_rel (view c st i) = 0 \<and>
          i \<notin> n_recv_io st \<and> i \<notin> n_send_io st \<and> x_pins c i = 1"
        using S p True by (auto simp: slot_ok_def t_def of_bool_def split: if_splits)
      have no: "x_recv c \<noteq> Some i" "x_snd c \<noteq> Some i" using r z by auto
      then have d: "s_disconnect (sess st i)" using S z no by (auto simp: slot_ok_def)
      show "slot_ok i (view c st i) (sess st i) \<Longrightarrow> slot_ok i (view (unpin i c) ?st i) (sess ?st i)"
        using i len True z d no by (auto simp: slot_ok_def st1_def t_def)
    qed (use inv i len in \<open>auto simp: st1_def io_inc_def net_inv_def intro!: struct_ok_post\<close>)
    moreover have "lib_frame st ?st"
      using i len by (auto intro!: lib_frame_trans[OF fr1] lib_frame_trans[OF lib_frame_upd
            lib_frame_trans[OF lib_frame_io_inc lib_frame_post]] simp: ident_def st1_def)
    ultimately show ?thesis
      using True i len by (simp add: CNetServer_updateIOCount_def CNetServer_releasePend_def Let_def
          t_def [symmetric] st1_def)
  next
    case False
    have "net_inv (unpin i c) st1"
    proof (rule net_inv_slot[OF inv i])
      show "view (unpin i c) st1 j = view c st j \<and> sess st1 j = sess st j" if "j \<noteq> i" for j
        by (rule same1[OF that])
      show "slot_ok i (view c st i) (sess st i) \<Longrightarrow> slot_ok i (view (unpin i c) st1 i) (sess st1 i)"
      proof (cases "s_release_flag (sess st i)")
        case rf: True
        obtain k where k: "x_pins c i = Suc k" using p by (cases "x_pins c i") auto
        then show "slot_ok i (view c st i) (sess st i) \<Longrightarrow> slot_ok i (view (unpin i c) st1 i) (sess st1 i)"
          using i len r rf by (simp add: slot_ok_def st1_def t_def)
      next
        case rf: False
        obtain k where k: "x_pins c i = Suc k" using p by (cases "x_pins c i") auto
        then show "slot_ok i (view c st i) (sess st i) \<Longrightarrow> slot_ok i (view (unpin i c) st1 i) (sess st1 i)"
          using i len r rf t0 False by (auto simp: slot_ok_def st1_def t_def)
      qed
    qed (use inv i len in \<open>auto simp: st1_def net_inv_def\<close>)
    moreover have "CNetServer_releasePend i st1 = st1" if "t = 0"
      using that False i len by (simp add: CNetServer_releasePend_def st1_def)
    then have "CNetServer_updateIOCount i st = Some (t, st1)"
      unfolding CNetServer_updateIOCount_def Let_def t_def [symmetric] st1_def [symmetric]
      using t0 by auto
    ultimately show ?thesis
      using fr1 by simp
  qed
qed

subsection \<open>Logging\<close>

lemma net_inv_views:
  assumes inv: "net_inv c st" and v: "\<And>j. view c' st' j = view c st j"
    and s: "n_sessions st' = n_sessions st" "n_maxSession st' = n_maxSession st"
    and str: "struct_ok (n_maxSession st) (length (n_sessions st)) (n_empty st') (n_sessionCnt st')
       (n_recv_io st') (n_send_io st') (n_posts st')"
    and pk: "pk_ok (n_pool st') (n_packets st') (queued (n_sessions st) + x_held c')"
    and lg: "log_ok (n_syslog st') (n_logQueue st') (count_list (n_posts st') (Post_null LOG_PEND) + x_log c')"
    and env: "n_env st' = n_env st" "n_sessID st' = n_sessID st"
  shows "net_inv c' st'"
  using assms by (simp add: net_inv_def)

lemma net_inv_env:
  assumes "net_inv c st" and "n_env st' = n_env st" and "n_sessID st' = n_sessID st"
    and "n_maxSession st' = n_maxSession st" and "n_sessions st' = n_sessions st"
    and "n_empty st' = n_empty st" and "n_sessionCnt st' = n_sessionCnt st"
    and "n_recv_io st' = n_recv_io st" and "n_send_io st' = n_send_io st" and "n_posts st' = n_posts st"
    and "n_pool st' = n_pool st" and "n_packets st' = n_packets st" and "n_syslog st' = n_syslog st"
    and "n_logQueue st' = n_logQueue st"
  shows "net_inv c st'"
  using assms by (simp add: net_inv_def view_def)

lemma ask_inv:
  assumes "net_inv c st"
  shows "net_inv c (snd (ask st))" and "lib_frame st (snd (ask st))"
  using assms by (auto intro!: net_inv_env[OF assms] simp: ask_def lib_frame_def net_frame_def)

lemma ask_simps [simp]:
  "n_sessions (snd (ask st)) = n_sessions st" "n_maxSession (snd (ask st)) = n_maxSession st"
  "n_recv_io (snd (ask st)) = n_recv_io st" "n_send_io (snd (ask st)) = n_send_io st"
  "fst (ask st) = n_env st (n_time st)" "n_posts (snd (ask st)) = n_posts st"
  "n_packets (snd (ask st)) = n_packets st" "n_pool (snd (ask st)) = n_pool st"
  "net.more (snd (ask st)) = net.more st" "n_empty (snd (ask st)) = n_empty st"
  "n_env (snd (ask st)) = n_env st" "n_tid (snd (ask st)) = n_tid st"
  by (simp_all add: ask_def)

lemma Log_inv:
  assumes inv: "net_inv c st" and ty: "length szType \<le> 10" and tx: "length msg < 1024"
  shows "wpx C (CNetServer_Log szType lev msg st)
    (\<lambda>st'. net_inv c st' \<and> lib_frame st st' \<and> n_sessions st' = n_sessions st \<and> n_recv_io st' = n_recv_io st \<and>
       n_send_io st' = n_send_io st)"
proof -
  note L = net_invD(5)[OF inv]
  have "lg_inv (n_syslog st) (set (n_logQueue st))" using L by (simp add: log_ok_def)
  then obtain a lg1 lg2 where A: "CLog_Alloc (n_tid st) (n_syslog st) = Some (a, lg1)" "a \<notin> set (n_logQueue st)"
      and B: "CLog_Write a szType lev msg (e_tm (n_env st (n_time st))) lg1 = Some (True, lg2)"
      "lg_inv lg2 (insert a (set (n_logQueue st)))"
    by (rule log_written[OF _ ty tx])
  define st' where "st' = post (Post_null LOG_PEND)
     (st\<lparr>n_time := n_time st + 1, n_syslog := lg2, n_logQueue := n_logQueue st @ [a]\<rparr>)"
  have run: "CNetServer_Log szType lev msg st = Some st'"
    using A(1) B(1) by (simp add: CNetServer_Log_def ask_def st'_def)
  have "net_inv c st'"
  proof (rule net_inv_views[OF inv])
    show "view c st' j = view c st j" for j by (simp add: view_eq_iff st'_def)
    show "log_ok (n_syslog st') (n_logQueue st') (count_list (n_posts st') (Post_null LOG_PEND) + x_log c)"
      using L A(2) B(2) by (simp add: st'_def log_ok_def)
  qed (use net_invD(2,4)[OF inv] in \<open>simp_all add: st'_def struct_ok_post_null\<close>)
  then show ?thesis
    by (simp add: run) (simp add: st'_def lib_frame_def net_frame_def)
qed

subsection \<open>Packets\<close>

text \<open>The running step takes hold of a packet, or gives it up.\<close>

definition hold :: "addr \<Rightarrow> ctx \<Rightarrow> ctx" where
  "hold a c = c\<lparr>x_held := add_mset a (x_held c)\<rparr>"

definition unhold :: "addr \<Rightarrow> ctx \<Rightarrow> ctx" where
  "unhold a c = c\<lparr>x_held := x_held c - {#a#}\<rparr>"

lemma hold_simps [simp]:
  "x_pins (hold a c) = x_pins c" "x_held (hold a c) = add_mset a (x_held c)" "x_recv (hold a c) = x_recv c"
  "x_snd (hold a c) = x_snd c" "x_snd (unhold a c) = x_snd c" "x_rel (hold a c) = x_rel c" "x_log (hold a c) = x_log c"
  "x_pins (unhold a c) = x_pins c" "x_held (unhold a c) = x_held c - {#a#}" "x_recv (unhold a c) = x_recv c"
  "x_rel (unhold a c) = x_rel c" "x_log (unhold a c) = x_log c" "unhold a (hold a c) = c"
  by (simp_all add: hold_def unhold_def)

lemma net_inv_pk:
  assumes inv: "net_inv c st" and pk: "pk_ok pool packets (queued (n_sessions st) + x_held c')"
    and c': "x_pins c' = x_pins c" "x_recv c' = x_recv c" "x_snd c' = x_snd c" "x_rel c' = x_rel c" "x_log c' = x_log c"
  shows "net_inv c' (st\<lparr>n_packets := packets, n_pool := pool\<rparr>)"
proof (rule net_inv_views[OF inv])
  show "view c' (st\<lparr>n_packets := packets, n_pool := pool\<rparr>) j = view c st j" for j
    using c' by (simp add: view_eq_iff)
qed (use net_invD(2,5)[OF inv] pk c' in simp_all)

lemma Packet_Alloc_inv:
  assumes inv: "net_inv c st"
  shows "wpx C (Packet_Alloc st)
    (\<lambda>(a, st'). net_inv (hold a c) st' \<and> lib_frame st st' \<and> n_sessions st' = n_sessions st \<and>
       n_recv_io st' = n_recv_io st \<and> n_send_io st' = n_send_io st \<and> pk_fresh (n_packets st' a) \<and>
       a \<notin># queued (n_sessions st) + x_held c)"
proof -
  note P = net_invD(4)[OF inv]
  obtain a pool where A:
      "Packet_Alloc st = Some (a, st\<lparr>n_packets := (n_packets st)(a := CPacket_Clear (n_packets st a)), n_pool := pool\<rparr>)"
      "a \<notin># queued (n_sessions st) + x_held c" "pk_fresh (CPacket_Clear (n_packets st a))"
      "pk_ok pool ((n_packets st)(a := CPacket_Clear (n_packets st a))) (add_mset a (queued (n_sessions st) + x_held c))"
    by (rule Packet_Alloc_pk[OF P])
  have "net_inv (hold a c) (st\<lparr>n_packets := (n_packets st)(a := CPacket_Clear (n_packets st a)), n_pool := pool\<rparr>)"
    by (rule net_inv_pk[OF inv]) (use A(4) in simp_all)
  with A show ?thesis
    by (simp add: lib_frame_def net_frame_def)
qed

lemma Packet_AddRef_inv:
  assumes inv: "net_inv c st" and a: "a \<in># x_held c"
  shows "net_inv (hold a c) (Packet_AddRef a st)" and "lib_frame st (Packet_AddRef a st)"
proof -
  note P = net_invD(4)[OF inv]
  have "pk_ok (n_pool st) ((n_packets st)(a := CPacket_AddRef (n_packets st a)))
      (queued (n_sessions st) + x_held (hold a c))"
    using pk_ok_AddRef[OF P, of a] a by simp
  from net_inv_pk[OF inv this]
  show "net_inv (hold a c) (Packet_AddRef a st)" by (simp add: Packet_AddRef_def)
  show "lib_frame st (Packet_AddRef a st)"
    by (simp add: Packet_AddRef_def lib_frame_def net_frame_def)
qed

lemma Packet_SubRef_inv:
  assumes inv: "net_inv c st" and a: "a \<in># x_held c"
  shows "wpx C (Packet_SubRef a st)
    (\<lambda>st'. net_inv (unhold a c) st' \<and> lib_frame st st' \<and> n_sessions st' = n_sessions st \<and>
       n_recv_io st' = n_recv_io st \<and> n_send_io st' = n_send_io st \<and>
       (\<forall>b. b \<noteq> a \<longrightarrow> n_packets st' b = n_packets st b))"
proof -
  note P = net_invD(4)[OF inv]
  let ?pks = "(n_packets st)(a := (n_packets st a)\<lparr>pk_ref_cnt := pk_ref_cnt (n_packets st a) - 1\<rparr>)"
  have R: "queued (n_sessions st) + (x_held c - {#a#}) = queued (n_sessions st) + x_held c - {#a#}"
    by (rule diff_union_single_conv[OF a, symmetric])
  have "a \<in># queued (n_sessions st) + x_held c" using a by simp
  then obtain pool where S: "Packet_SubRef a st = Some (st\<lparr>n_packets := ?pks, n_pool := pool\<rparr>)"
      "pk_ok pool ?pks (queued (n_sessions st) + x_held c - {#a#})"
    by (rule Packet_SubRef_pk[OF P])
  have "net_inv (unhold a c) (st\<lparr>n_packets := ?pks, n_pool := pool\<rparr>)"
    by (rule net_inv_pk[OF inv]) (use S(2) R in simp_all)
  then show ?thesis using S(1) by (simp add: lib_frame_def net_frame_def)
qed

subsection \<open>Sending\<close>

lemma pinned:
  assumes "net_inv c st" "i < n_maxSession st" "x_recv c = Some i \<or> x_snd c = Some i"
  shows "0 < x_pins c i"
  using net_invD(1)[OF assms(1,2)] assms(3) by (auto simp: slot_ok_def)

text \<open>Dropping a reference that the operation took itself.\<close>

lemma updateIOCount_back:
  assumes inv: "net_inv (pin i c) st" and i: "i < n_maxSession st"
    and r: "x_recv c = Some i \<or> x_snd c = Some i \<Longrightarrow> 0 < x_pins c i"
  shows "wpx C (CNetServer_updateIOCount i st) (\<lambda>(t, st'). net_inv c st' \<and> lib_frame st st')"
  using updateIOCount_inv[OF inv i, of C] r by simp

text \<open>A held reference goes into the send queue, and the front of the queue comes out.\<close>

lemma enqueue_inv:
  assumes inv: "net_inv c st" and i: "i < n_maxSession st" and a: "a \<in># x_held c"
    and rf: "\<not> s_release_flag (sess st i)" and q: "send_q_Enqueue a (s_send_q (sess st i)) = Some q"
  shows "net_inv (unhold a c) (upd_sess i (\<lambda>s. s\<lparr>s_send_q := q\<rparr>) st)"
proof (rule net_inv_slot[OF inv i])
  note len = net_invD(3)[OF inv]
  let ?st = "upd_sess i (\<lambda>s. s\<lparr>s_send_q := q\<rparr>) st"
  have q': "q = s_send_q (sess st i) @ [a]" "length q \<le> MAX_SENDQ"
    using q by (auto simp: send_q_Enqueue_def split: if_splits)
  show "view (unhold a c) ?st j = view c st j \<and> sess ?st j = sess st j" if "j \<noteq> i" for j
    using that i len by (simp add: view_eq_iff)
  show "slot_ok i (view c st i) (sess st i) \<Longrightarrow> slot_ok i (view (unhold a c) ?st i) (sess ?st i)"
    using i len rf q' by (auto simp: slot_ok_def bufs_ok_def)
  have "queued (n_sessions ?st) = add_mset a (queued (n_sessions st))"
    using queued_upd[of i "n_sessions st" "(sess st i)\<lparr>s_send_q := q\<rparr>"] i len q'
    by (simp add: upd_sess_def)
  then have "queued (n_sessions ?st) + x_held (unhold a c) = queued (n_sessions st) + x_held c"
    using a by simp
  then show "pk_ok (n_pool st) (n_packets st) (queued (n_sessions st) + x_held c) \<Longrightarrow>
      pk_ok (n_pool ?st) (n_packets ?st) (queued (n_sessions ?st) + x_held (unhold a c))"
    by simp
qed (use inv i net_invD(3)[OF inv] in \<open>auto simp: net_inv_def\<close>)

lemma dequeue_inv:
  assumes inv: "net_inv c st" and i: "i < n_maxSession st" and q: "s_send_q (sess st i) = a # q"
  shows "net_inv (hold a c) (upd_sess i (\<lambda>s. s\<lparr>s_send_q := q\<rparr>) st)"
proof (rule net_inv_slot[OF inv i])
  note len = net_invD(3)[OF inv]
  let ?st = "upd_sess i (\<lambda>s. s\<lparr>s_send_q := q\<rparr>) st"
  show "view (hold a c) ?st j = view c st j \<and> sess ?st j = sess st j" if "j \<noteq> i" for j
    using that i len by (simp add: view_eq_iff)
  show "slot_ok i (view c st i) (sess st i) \<Longrightarrow> slot_ok i (view (hold a c) ?st i) (sess ?st i)"
    using i len q by (auto simp: slot_ok_def bufs_ok_def)
  have "add_mset a (queued (n_sessions ?st)) = queued (n_sessions st)"
    using queued_upd[of i "n_sessions st" "(sess st i)\<lparr>s_send_q := q\<rparr>"] i len q
    by (simp add: upd_sess_def)
  then have "queued (n_sessions ?st) + x_held (hold a c) = queued (n_sessions st) + x_held c"
    by (metis hold_simps(2) union_mset_add_mset_left union_mset_add_mset_right)
  then show "pk_ok (n_pool st) (n_packets st) (queued (n_sessions st) + x_held c) \<Longrightarrow>
      pk_ok (n_pool ?st) (n_packets ?st) (queued (n_sessions ?st) + x_held (hold a c))"
    by (simp only: upd_sess_simps)
qed (use inv i net_invD(3)[OF inv] in \<open>auto simp: net_inv_def\<close>)

lemma lib_frame_sess: "n_sessions st' = n_sessions st \<Longrightarrow> n_maxSession st' = n_maxSession st \<Longrightarrow>
   lib_frame st st' \<Longrightarrow> sess st' i = sess st i"
  by simp

lemma lib_frame_max: "lib_frame st st' \<Longrightarrow> n_maxSession st' = n_maxSession st"
  by (simp add: lib_frame_def net_frame_def)

lemma SendPacket_inv:
  assumes inv: "net_inv c st" and p: "packet \<in># x_held c"
    and idx: "unat (sid_index session_id) < n_maxSession st"
  shows "wpx C (CNetServer_SendPacket session_id packet st) (\<lambda>(ret, st'). net_inv c st' \<and> lib_frame st st')"
proof -
  define i where "i = unat (sid_index session_id)"
  have i: "i < n_maxSession st" using idx by (simp add: i_def)
  note len = net_invD(3)[OF inv]
  let ?st1 = "io_inc i st"
  have inv1: "net_inv (pin i c) ?st1" by (rule io_inc_inv[OF inv i])
  have fr1: "lib_frame st ?st1" using i len by (simp add: lib_frame_io_inc)
  have drop_io: "wpx C (CNetServer_updateIOCount i st2) (\<lambda>(t, st'). net_inv c st' \<and> lib_frame st st')"
    if "net_inv (pin i c) st2" "lib_frame st st2" for st2
  proof (rule wpx_mono[OF updateIOCount_back[OF that(1)]])
    show "i < n_maxSession st2" using that(2) i by (simp add: lib_frame_max)
    show "0 < x_pins c i" if "x_recv c = Some i \<or> x_snd c = Some i" by (rule pinned[OF inv i that])
  qed (use that(2) in \<open>auto elim: lib_frame_trans\<close>)
  define ok where "ok = (\<not> s_release_flag (sess ?st1 i) \<and> \<not> s_disconnect (sess ?st1 i) \<and>
      s_session_id (sess ?st1 i) = sid_id session_id)"
  show ?thesis
  proof (cases ok)
    case False
    then show ?thesis
      using i drop_io[OF inv1 fr1] unfolding ok_def
      by (auto simp: CNetServer_SendPacket_def Let_def i_def [symmetric] split_def)
  next
    case True
    let ?st2 = "Packet_AddRef packet ?st1"
    have inv2: "net_inv (hold packet (pin i c)) ?st2" and fr2: "lib_frame st ?st2"
      using Packet_AddRef_inv[OF inv1, of packet] p lib_frame_trans[OF fr1] by auto
    have s2: "sess ?st2 i = sess ?st1 i" by (simp add: Packet_AddRef_def)
    have i2: "i < n_maxSession ?st2" using fr2 i by (simp add: lib_frame_max)
    show ?thesis
    proof (cases "send_q_Enqueue packet (s_send_q (sess ?st2 i))")
      case (Some q)
      let ?st3 = "upd_sess i (\<lambda>s. s\<lparr>s_send_q := q\<rparr>) ?st2"
      have inv3: "net_inv (pin i c) ?st3"
        using enqueue_inv[OF inv2 i2 _ _ Some] True s2 by (simp add: ok_def)
      have l2: "i < length (n_sessions ?st2)" using i2 net_invD(3)[OF inv2] by simp
      have fr3: "lib_frame st ?st3"
        using l2 by (intro lib_frame_trans[OF fr2] lib_frame_upd) (simp_all add: ident_def)
      have rf3: "\<not> s_release_flag (sess ?st3 i)" using l2 True s2 by (simp add: ok_def)
      have i3: "i < n_maxSession ?st3" using i2 by simp
      note S = sendPend_inv[OF inv3 i3 rf3]
      show ?thesis
        using True Some i drop_io[OF S(1) lib_frame_trans[OF fr3 S(2)]] unfolding ok_def
        by (simp add: CNetServer_SendPacket_def Let_def i_def [symmetric] split_def)
    next
      case None
      have "wpx C (Packet_SubRef packet ?st2)
         (\<lambda>st3. wpx C (CNetServer_Log ''SYS'' enLOG_LEVEL_ERROR
             (''Full Send Q '' @ fmt_d (sint (Session_GetSessionID (sess st3 i)))) st3)
           (\<lambda>st4. wpx C (CNetServer_updateIOCount i (CNetServer_disconnect i st4))
              (\<lambda>(t, st'). net_inv c st' \<and> lib_frame st st')))"
      proof (rule wpx_mono[OF Packet_SubRef_inv[OF inv2]])
        fix st3 assume A3: "net_inv (unhold packet (hold packet (pin i c))) st3 \<and> lib_frame ?st2 st3 \<and>
           n_sessions st3 = n_sessions ?st2 \<and> n_recv_io st3 = n_recv_io ?st2 \<and> n_send_io st3 = n_send_io ?st2 \<and>
           (\<forall>b. b \<noteq> packet \<longrightarrow> n_packets st3 b = n_packets ?st2 b)"
        then have inv3: "net_inv (pin i c) st3" and fr3: "lib_frame st st3"
          using lib_frame_trans[OF fr2] by auto
        show "wpx C (CNetServer_Log ''SYS'' enLOG_LEVEL_ERROR
             (''Full Send Q '' @ fmt_d (sint (Session_GetSessionID (sess st3 i)))) st3)
           (\<lambda>st4. wpx C (CNetServer_updateIOCount i (CNetServer_disconnect i st4))
              (\<lambda>(t, st'). net_inv c st' \<and> lib_frame st st'))"
        proof (rule wpx_mono[OF Log_inv[OF inv3]])
          fix st4 assume "net_inv (pin i c) st4 \<and> lib_frame st3 st4 \<and> n_sessions st4 = n_sessions st3 \<and>
             n_recv_io st4 = n_recv_io st3 \<and> n_send_io st4 = n_send_io st3"
          then have inv4: "net_inv (pin i c) st4" and fr4: "lib_frame st st4"
            using lib_frame_trans[OF fr3] by auto
          have i4: "i < n_maxSession st4" using fr4 i by (simp add: lib_frame_max)
          note D = disconnect_inv[OF inv4 i4]
          show "wpx C (CNetServer_updateIOCount i (CNetServer_disconnect i st4))
              (\<lambda>(t, st'). net_inv c st' \<and> lib_frame st st')"
            by (rule drop_io[OF D(1) lib_frame_trans[OF fr4 D(2)]])
        qed (simp, rule log_text1, simp)
      qed simp
      then show ?thesis
        using True None i unfolding ok_def
        by (simp add: CNetServer_SendPacket_def Let_def i_def [symmetric] split_def)
    qed
  qed
qed

lemma DisconnectSession_inv:
  assumes inv: "net_inv c st" and idx: "unat (sid_index session_id) < n_maxSession st"
  shows "wpx C (CNetServer_DisconnectSession session_id st) (\<lambda>st'. net_inv c st' \<and> lib_frame st st')"
proof -
  define i where "i = unat (sid_index session_id)"
  have i: "i < n_maxSession st" using idx by (simp add: i_def)
  let ?st1 = "io_inc i st"
  have inv1: "net_inv (pin i c) ?st1" by (rule io_inc_inv[OF inv i])
  have fr1: "lib_frame st ?st1" using i net_invD(3)[OF inv] by (simp add: lib_frame_io_inc)
  define st2 where "st2 = (if \<not> s_release_flag (sess ?st1 i) \<and> s_session_id (sess ?st1 i) = sid_id session_id
      then CNetServer_disconnect i ?st1 else ?st1)"
  have inv2: "net_inv (pin i c) st2" and fr2: "lib_frame st st2"
    using inv1 fr1 disconnect_inv[OF inv1] i lib_frame_trans[OF fr1] by (auto simp: st2_def)
  have "wpx C (CNetServer_updateIOCount i st2) (\<lambda>(t, st'). net_inv c st' \<and> lib_frame st st')"
  proof (rule wpx_mono[OF updateIOCount_back[OF inv2]])
    show "i < n_maxSession st2" using fr2 i by (simp add: lib_frame_max)
    show "0 < x_pins c i" if "x_recv c = Some i \<or> x_snd c = Some i" by (rule pinned[OF inv i that])
  qed (use fr2 in \<open>auto elim: lib_frame_trans\<close>)
  moreover have "CNetServer_DisconnectSession session_id st =
      Option.bind (CNetServer_updateIOCount i st2) (\<lambda>(t, st). Some st)"
    using i unfolding CNetServer_DisconnectSession_def Let_def i_def [symmetric] st2_def by simp
  ultimately show ?thesis by (simp add: split_def)
qed

lemma view_upd_sess [simp]: "view c (upd_sess i f st) j = view c st j"
  by (simp add: view_def)

text \<open>Updates of one session that the reference count does not see.\<close>

lemma sess_field_inv:
  assumes inv: "net_inv c st" and i: "i < n_maxSession st"
    and q: "s_send_q (f (sess st i)) = s_send_q (sess st i)"
    and slot: "slot_ok i (view c st i) (sess st i) \<Longrightarrow> slot_ok i (view c st i) (f (sess st i))"
  shows "net_inv c (upd_sess i f st)"
proof (rule net_inv_slot[OF inv i])
  note len = net_invD(3)[OF inv]
  show "view c (upd_sess i f st) j = view c st j \<and> sess (upd_sess i f st) j = sess st j" if "j \<noteq> i" for j
    using that i len by (simp add: view_eq_iff)
  show "slot_ok i (view c st i) (sess st i) \<Longrightarrow> slot_ok i (view c (upd_sess i f st) i) (sess (upd_sess i f st) i)"
    using i len slot by simp
qed (use inv i q net_invD(3)[OF inv] in \<open>auto simp: net_inv_def\<close>)

lemma slot_ok_fields [simp]:
  "slot_ok i v (s\<lparr>s_sendPacket := w\<rparr>) = slot_ok i v s" "slot_ok i v (s\<lparr>s_recvPacket := w\<rparr>) = slot_ok i v s"
  "slot_ok i v (s\<lparr>s_last_recv_time := q\<rparr>) = slot_ok i v s" "slot_ok i v (s\<lparr>s_session_id := w\<rparr>) = slot_ok i v s"
  "slot_ok i v (s\<lparr>s_sock := q\<rparr>) = slot_ok i v s"
  by (simp_all add: slot_ok_def)

lemma net_inv_packets:
  assumes inv: "net_inv c st" and p: "pk_inv p" "pk_buffer_size p = eBUFFER_DEFAULT"
    "pk_ref_cnt p = pk_ref_cnt (n_packets st a)"
  shows "net_inv c (st\<lparr>n_packets := (n_packets st)(a := p)\<rparr>)"
proof -
  have "net_inv c (st\<lparr>n_packets := (n_packets st)(a := p), n_pool := n_pool st\<rparr>)"
    by (rule net_inv_pk[OF inv]) (use net_invD(4)[OF inv] p in \<open>auto simp: pk_ok_def\<close>)
  then show ?thesis by simp
qed

text \<open>The header pointer writes the length field only.\<close>

lemma GetBufferPtrNet_inv:
  assumes "pk_inv p"
  shows "pk_inv (fst (CPacket_GetBufferPtrNet p))"
    and "pk_buffer_size (fst (CPacket_GetBufferPtrNet p)) = pk_buffer_size p"
    and "pk_ref_cnt (fst (CPacket_GetBufferPtrNet p)) = pk_ref_cnt p"
    and "pk_data_size (fst (CPacket_GetBufferPtrNet p)) = pk_data_size p"
    and "snd (CPacket_GetBufferPtrNet p) = 0"
proof -
  have "length (pk_hidden p) = nat (pk_buffer_size p) + 5" by (rule pk_inv_facts[OF assms])
  then have "length (splice 1 (le_bytes 2 (of_int (pk_data_size p) :: u16)) (pk_hidden p)) = length (pk_hidden p)"
    by simp
  with assms show "pk_inv (fst (CPacket_GetBufferPtrNet p))"
    unfolding CPacket_GetBufferPtrNet_def pk_inv_def by simp
qed (simp_all add: CPacket_GetBufferPtrNet_def)

text \<open>What packing leaves alone besides the frame.\<close>

definition same_io :: "nat \<Rightarrow> 'a net_scheme \<Rightarrow> 'a net_scheme \<Rightarrow> bool" where
  "same_io i st st' \<longleftrightarrow> n_recv_io st' = n_recv_io st \<and> n_send_io st' = n_send_io st \<and>
     s_disconnect (sess st' i) = s_disconnect (sess st i) \<and>
     s_release_flag (sess st' i) = s_release_flag (sess st i) \<and>
     s_send_post_flag (sess st' i) = s_send_post_flag (sess st i)"

lemma same_io_trans: "same_io i st st' \<Longrightarrow> same_io i st' st'' \<Longrightarrow> same_io i st st''"
  by (simp add: same_io_def)

lemma send_buffer_inv:
  assumes "net_inv c st" and "i < n_maxSession st" and "rb_inv rb" and "rb_capacity rb = 4000"
  shows "net_inv c (upd_sess i (\<lambda>s. s\<lparr>s_send_buffer := rb\<rparr>) st)"
  by (rule sess_field_inv[OF assms(1,2)]) (use assms(3,4) in \<open>auto simp: slot_ok_def bufs_ok_def\<close>)

lemma net_bufs:
  assumes "net_inv c st" and "i < n_maxSession st"
  shows "rb_inv (s_send_buffer (sess st i))" and "rb_capacity (s_send_buffer (sess st i)) = 4000"
    and "rb_inv (s_recv_buffer (sess st i))" and "rb_capacity (s_recv_buffer (sess st i)) = 2000"
  using net_invD(1)[OF assms] by (auto simp: slot_ok_def bufs_ok_def)

text \<open>The bytes of a packet fit the send ring or are refused; either way the ring is intact.\<close>

lemma Enqueue_packet:
  assumes rb: "rb_inv rb" "rb_capacity rb = 4000" and p: "pk_inv p" "pk_buffer_size p = eBUFFER_DEFAULT"
  obtains (fits) rb' where "RingBuffer_Enqueue rb (pk_hidden p) (of_int (CPacket_GetDataSizeNet p)) =
        (rb', of_int (CPacket_GetDataSizeNet p))"
      "rb_inv rb'" "rb_capacity rb' = 4000" "(of_int (CPacket_GetDataSizeNet p) :: u32) \<noteq> 0"
      "rb_list rb' = rb_list rb @ take (nat (CPacket_GetDataSizeNet p)) (pk_hidden p)"
  | (full) "RingBuffer_Enqueue rb (pk_hidden p) (of_int (CPacket_GetDataSizeNet p)) = (rb, 0)"
      "4000 < length (rb_list rb) + nat (CPacket_GetDataSizeNet p)"
proof -
  note I = pk_inv_facts[OF p(1)]
  define n where "n = nat (CPacket_GetDataSizeNet p)"
  have n: "n = nat (pk_data_size p) + 5" "n < 2005" "n \<le> length (pk_hidden p)"
    using I p(2) by (simp_all add: n_def CPacket_GetDataSizeNet_def net_header_size_def eBUFFER_DEFAULT_def nat_add_distrib)
  have w: "(of_int (CPacket_GetDataSizeNet p) :: u32) = of_nat n"
    using I by (simp add: n_def CPacket_GetDataSizeNet_def net_header_size_def)
  have u: "unat (of_nat n :: u32) = n" using n by (intro unat_of_nat_int) simp
  have nz: "(of_nat n :: u32) \<noteq> 0" using u n(1) by (metis add_is_0 unat_0 zero_neq_numeral)
  show ?thesis
  proof (cases "n \<le> rb_capacity rb - length (rb_list rb)")
    case True
    obtain rb' where "RingBuffer_Enqueue rb (pk_hidden p) (of_nat n) = (rb', of_nat n)" "rb_inv rb'"
        "rb_list rb' = rb_list rb @ take n (pk_hidden p)" "rb_capacity rb' = rb_capacity rb"
      by (rule rb_Enqueue_ok[OF rb(1), of "of_nat n" "pk_hidden p"]) (use u n True in simp_all)
    with fits[of rb'] rb(2) nz show ?thesis unfolding w n_def [symmetric] by simp
  next
    case False
    have "RingBuffer_Enqueue rb (pk_hidden p) (of_nat n) = (rb, 0)"
      using rb_Enqueue_fail[OF rb(1), of "of_nat n" "pk_hidden p"] u n False by simp
    with full False rb(2) show ?thesis unfolding w n_def [symmetric] by simp
  qed
qed

lemma sendPost_pack_inv:
  assumes "net_inv c st" and "i < n_maxSession st" and "s_send_q (sess st i) = q"
  shows "wpx C (sendPost_pack i q st) (\<lambda>st'. net_inv c st' \<and> lib_frame st st' \<and> same_io i st st')"
  using assms
proof (induction q arbitrary: st)
  case Nil
  then show ?case by (simp add: same_io_def)
next
  case (Cons a q)
  note inv = Cons.prems(1) and i = Cons.prems(2) and q = Cons.prems(3)
  note len = net_invD(3)[OF inv]
  let ?p = "fst (CPacket_GetBufferPtrNet (n_packets st a))"
  have pa: "pk_inv (n_packets st a)" "pk_buffer_size (n_packets st a) = eBUFFER_DEFAULT"
    using net_invD(4)[OF inv] by (auto simp: pk_ok_def)
  note G = GetBufferPtrNet_inv[OF pa(1)]
  let ?st1 = "st\<lparr>n_packets := (n_packets st)(a := ?p)\<rparr>"
  have inv1: "net_inv c ?st1"
    by (rule net_inv_packets[OF inv]) (use G pa in simp_all)
  have fr1: "lib_frame st ?st1" by (simp add: lib_frame_def net_frame_def)
  obtain rb r where E: "RingBuffer_Enqueue (s_send_buffer (sess st i)) (pk_hidden ?p)
      (of_int (CPacket_GetDataSizeNet ?p)) = (rb, r)" "rb_inv rb" "rb_capacity rb = 4000"
    by (rule Enqueue_packet[OF net_bufs(1,2)[OF inv i] G(1)]) (use G pa net_bufs(1,2)[OF inv i] in auto)
  let ?st2 = "upd_sess i (\<lambda>s. s\<lparr>s_send_buffer := rb\<rparr>) ?st1"
  have inv2: "net_inv c ?st2" by (rule send_buffer_inv[OF inv1 _ E(2,3)]) (use i in simp)
  have fr2: "lib_frame st ?st2"
    using i len by (intro lib_frame_trans[OF fr1] lib_frame_upd) (simp_all add: ident_def)
  have si2: "same_io i st ?st2" using i len by (simp add: same_io_def)
  show ?case
  proof (cases "r = 0")
    case True
    then show ?thesis
      using inv2 fr2 si2 E(1) G(5) by (simp add: Let_def split_def)
  next
    case False
    let ?st3 = "upd_sess i (\<lambda>s. s\<lparr>s_send_q := q\<rparr>) ?st2"
    have inv3: "net_inv (hold a c) ?st3"
      by (rule dequeue_inv[OF inv2]) (use i len q in simp_all)
    have fr3: "lib_frame st ?st3"
      using i len by (intro lib_frame_trans[OF fr2] lib_frame_upd) (simp_all add: ident_def)
    have "wpx C (Packet_SubRef a ?st3) (\<lambda>st4. wpx C (sendPost_pack i q
        (upd_sess i (\<lambda>s. s\<lparr>s_sendPacket := s_sendPacket s + 1\<rparr>) st4))
        (\<lambda>st'. net_inv c st' \<and> lib_frame st st' \<and> same_io i st st'))"
    proof (rule wpx_mono[OF Packet_SubRef_inv[OF inv3]])
      fix st4 assume A: "net_inv (unhold a (hold a c)) st4 \<and> lib_frame ?st3 st4 \<and>
         n_sessions st4 = n_sessions ?st3 \<and> n_recv_io st4 = n_recv_io ?st3 \<and> n_send_io st4 = n_send_io ?st3 \<and>
         (\<forall>b. b \<noteq> a \<longrightarrow> n_packets st4 b = n_packets ?st3 b)"
      let ?st5 = "upd_sess i (\<lambda>s. s\<lparr>s_sendPacket := s_sendPacket s + 1\<rparr>) st4"
      have inv4: "net_inv c st4" and fr4: "lib_frame st st4" using A lib_frame_trans[OF fr3] by auto
      have i4: "i < n_maxSession st4" using fr4 i by (simp add: lib_frame_max)
      note len4 = net_invD(3)[OF inv4]
      have inv5: "net_inv c ?st5" by (rule sess_field_inv[OF inv4 i4]) simp_all
      have fr5: "lib_frame st ?st5"
        using i4 len4 by (intro lib_frame_trans[OF fr4] lib_frame_upd) (simp_all add: ident_def)
      have q5: "s_send_q (sess ?st5 i) = q" and si5: "same_io i st ?st5"
        using A i len i4 len4 by (simp_all add: same_io_def)
      have i5: "i < n_maxSession ?st5" using i4 by simp
      show "wpx C (sendPost_pack i q ?st5) (\<lambda>st'. net_inv c st' \<and> lib_frame st st' \<and> same_io i st st')"
        by (rule wpx_mono[OF Cons.IH[OF inv5 i5 q5]]) (use fr5 si5 in \<open>auto elim: lib_frame_trans same_io_trans\<close>)
    qed simp
    then show ?thesis
      using False E(1) G(5) by (simp add: Let_def split_def)
  qed
qed

text \<open>Taking and giving up the ownership of the send flag.\<close>

definition own_send :: "nat \<Rightarrow> ctx \<Rightarrow> ctx" where
  "own_send i c = c\<lparr>x_snd := Some i\<rparr>"

definition send_done :: "ctx \<Rightarrow> ctx" where
  "send_done c = c\<lparr>x_snd := None\<rparr>"

lemma send_done_simps [simp]:
  "x_pins (send_done c) = x_pins c" "x_held (send_done c) = x_held c" "x_recv (send_done c) = x_recv c"
  "x_snd (send_done c) = None" "x_rel (send_done c) = x_rel c" "x_log (send_done c) = x_log c"
  "x_pins (own_send i c) = x_pins c" "x_held (own_send i c) = x_held c" "x_recv (own_send i c) = x_recv c"
  "x_snd (own_send i c) = Some i" "x_rel (own_send i c) = x_rel c" "x_log (own_send i c) = x_log c"
  by (simp_all add: send_done_def own_send_def)

lemma send_done_own: "x_snd c = None \<Longrightarrow> send_done (own_send i c) = c"
  by (simp add: send_done_def own_send_def)

lemma send_done_inv:
  assumes inv: "net_inv c st" and i: "i < n_maxSession st" and s: "x_snd c = Some i"
  shows "net_inv (send_done c) st"
proof (rule net_inv_slot[OF inv i])
  show "view (send_done c) st j = view c st j \<and> sess st j = sess st j" if "j \<noteq> i" for j
    using that s by (simp add: view_eq_iff)
  show "slot_ok i (view c st i) (sess st i) \<Longrightarrow> slot_ok i (view (send_done c) st i) (sess st i)"
    by (auto simp: slot_ok_def)
qed (use inv in \<open>auto simp: net_inv_def\<close>)

lemma send_started_inv:
  assumes inv: "net_inv (pin i c) st" and i: "i < n_maxSession st" and s: "x_snd c = Some i" "0 < x_pins c i"
  shows "net_inv (send_done c) (st\<lparr>n_send_io := insert i (n_send_io st)\<rparr>)"
proof (rule net_inv_slot[OF inv i])
  let ?st = "st\<lparr>n_send_io := insert i (n_send_io st)\<rparr>"
  show "view (send_done c) ?st j = view (pin i c) st j \<and> sess ?st j = sess st j" if "j \<noteq> i" for j
    using that s by (simp add: view_eq_iff)
  show "slot_ok i (view (pin i c) st i) (sess st i) \<Longrightarrow> slot_ok i (view (send_done c) ?st i) (sess ?st i)"
    using s by (auto simp: slot_ok_def of_bool_def split: if_splits)
qed (use inv i in \<open>auto simp: net_inv_def struct_ok_def\<close>)

lemma recv_started_inv:
  assumes inv: "net_inv (pin i c) st" and i: "i < n_maxSession st" and r: "x_recv c = Some i"
    and d: "\<not> s_disconnect (sess st i)" "0 < x_pins c i"
  shows "net_inv (recv_done c) (st\<lparr>n_recv_io := insert i (n_recv_io st)\<rparr>)"
proof (rule net_inv_slot[OF inv i])
  let ?st = "st\<lparr>n_recv_io := insert i (n_recv_io st)\<rparr>"
  show "view (recv_done c) ?st j = view (pin i c) st j \<and> sess ?st j = sess st j" if "j \<noteq> i" for j
    using that r by (simp add: view_eq_iff)
  show "slot_ok i (view (pin i c) st i) (sess st i) \<Longrightarrow> slot_ok i (view (recv_done c) ?st i) (sess ?st i)"
    using r d by (auto simp: slot_ok_def of_bool_def split: if_splits)
qed (use inv i in \<open>auto simp: net_inv_def struct_ok_def\<close>)

text \<open>The error branch that \<open>recvPost\<close> and \<open>sendPost\<close> share.\<close>

lemma io_failed_inv:
  assumes inv: "net_inv (pin i c) st" and i: "i < n_maxSession st"
    and p: "x_recv c = Some i \<or> x_snd c = Some i \<Longrightarrow> 0 < x_pins c i"
    and tx: "length pre \<le> 100" "length mid \<le> 100" and fr: "lib_frame st0 st"
  shows "wpx C (if b then CNetServer_Log ''SYS'' lev (pre @ fmt_d n @ mid @ fmt_d m) st else Some st)
    (\<lambda>st. wpx C (CNetServer_updateIOCount i st)
      (\<lambda>r. net_inv c (CNetServer_disconnect i (snd r)) \<and> lib_frame st0 (CNetServer_disconnect i (snd r)) \<and>
           s_disconnect (sess (CNetServer_disconnect i (snd r)) i)))"
proof (rule wpx_mono[where P = "\<lambda>st'. net_inv (pin i c) st' \<and> lib_frame st0 st'"])
  have "wpx C (CNetServer_Log ''SYS'' lev (pre @ fmt_d n @ mid @ fmt_d m) st)
      (\<lambda>st'. net_inv (pin i c) st' \<and> lib_frame st0 st')"
    by (rule wpx_mono[OF Log_inv[OF inv _ log_text2[OF tx]]]) (use lib_frame_trans[OF fr] in auto)
  then show "wpx C (if b then CNetServer_Log ''SYS'' lev (pre @ fmt_d n @ mid @ fmt_d m) st else Some st)
      (\<lambda>st'. net_inv (pin i c) st' \<and> lib_frame st0 st')"
    using inv fr by simp
next
  fix st1 assume A: "net_inv (pin i c) st1 \<and> lib_frame st0 st1"
  have i1: "i < n_maxSession st1"
    using lib_frame_max[OF conjunct2[OF A]] lib_frame_max[OF fr] i by simp
  show "wpx C (CNetServer_updateIOCount i st1)
      (\<lambda>r. net_inv c (CNetServer_disconnect i (snd r)) \<and> lib_frame st0 (CNetServer_disconnect i (snd r)) \<and>
           s_disconnect (sess (CNetServer_disconnect i (snd r)) i))"
  proof (rule wpx_mono[OF updateIOCount_back[OF conjunct1[OF A] i1 p]])
    fix r assume B: "case r of (t, st') \<Rightarrow> net_inv c st' \<and> lib_frame st1 st'"
    then have inv2: "net_inv c (snd r)" and fr2: "lib_frame st0 (snd r)" and i2: "i < n_maxSession (snd r)"
      using A lib_frame_trans[of st0 st1] i1 by (auto simp: split_def lib_frame_max)
    show "net_inv c (CNetServer_disconnect i (snd r)) \<and> lib_frame st0 (CNetServer_disconnect i (snd r)) \<and>
        s_disconnect (sess (CNetServer_disconnect i (snd r)) i)"
      using disconnect_inv[OF inv2 i2] lib_frame_trans[OF fr2] by auto
  qed
qed

lemma sendPost_result_inv:
  assumes inv: "net_inv c st" and i: "i < n_maxSession st" and s: "x_snd c = Some i"
  shows "wpx C (sendPost_result i st) (\<lambda>st'. net_inv (send_done c) st' \<and> lib_frame st st')"
proof -
  let ?st1 = "snd (ask (io_inc i st))"
  have l: "i < length (n_sessions st)" using i net_invD(3)[OF inv] by simp
  have inv1: "net_inv (pin i c) ?st1" by (rule ask_inv[OF io_inc_inv[OF inv i]])
  have fr1: "lib_frame st ?st1"
    by (rule lib_frame_trans[OF lib_frame_io_inc[OF l] ask_inv(2)[OF io_inc_inv[OF inv i]]])
  have i1: "i < n_maxSession ?st1" using i by simp
  have p: "0 < x_pins c i" by (rule pinned[OF inv i]) (use s in simp)
  note started = send_started_inv[OF inv1 i1 s p]
  show ?thesis
  proof (cases "e_io (n_env (io_inc i st) (n_time (io_inc i st)))")
    case (Io_error e)
    have "wpx C (if e \<noteq> WSAECONNRESET then CNetServer_Log ''SYS'' enLOG_LEVEL_ERROR (''Send Failed ['' @
          fmt_d (sint e) @ ''] session : '' @ fmt_d (sint (Session_GetSessionID (sess ?st1 i)))) ?st1 else Some ?st1)
      (\<lambda>st. wpx C (CNetServer_updateIOCount i st)
        (\<lambda>r. net_inv c (CNetServer_disconnect i (snd r)) \<and> lib_frame ?st1 (CNetServer_disconnect i (snd r)) \<and>
           s_disconnect (sess (CNetServer_disconnect i (snd r)) i)))"
      by (rule io_failed_inv[OF inv1 i1 p]) simp_all
    then have "wpx C (if e \<noteq> WSAECONNRESET then CNetServer_Log ''SYS'' enLOG_LEVEL_ERROR (''Send Failed ['' @
          fmt_d (sint e) @ ''] session : '' @ fmt_d (sint (Session_GetSessionID (sess ?st1 i)))) ?st1 else Some ?st1)
      (\<lambda>st2. wpx C (CNetServer_updateIOCount i st2)
        (\<lambda>r. net_inv (send_done c) (CNetServer_disconnect i (snd r)) \<and> lib_frame st (CNetServer_disconnect i (snd r))))"
      by (elim wpx_mono) (use lib_frame_trans[OF fr1] i1 s in \<open>auto intro!: send_done_inv simp: lib_frame_max\<close>)
    with Io_error show ?thesis
      by (simp add: sendPost_result_def Let_def split_def)
  next
    case Io_ok
    have "net_inv (send_done c) (?st1\<lparr>n_send_io := insert i (n_send_io ?st1), n_syncSend := n_syncSend ?st1 + 1\<rparr>)"
      by (rule net_inv_env[OF started]) simp_all
    with Io_ok fr1 show ?thesis
      by (simp add: sendPost_result_def Let_def split_def lib_frame_def net_frame_def)
  next
    case Io_pending
    with started fr1 show ?thesis
      by (simp add: sendPost_result_def Let_def split_def lib_frame_def net_frame_def)
  qed
qed

lemma recvPost_inv:
  assumes inv: "net_inv c st" and i: "i < n_maxSession st" and s: "x_recv c = Some i"
  shows "wpx C (CNetServer_recvPost i st) (\<lambda>(b, st'). net_inv (recv_done c) st' \<and> lib_frame st st')"
proof (cases "s_disconnect (sess st i)")
  case True
  then show ?thesis using recv_done_inv[OF inv i s] by (simp add: CNetServer_recvPost_def)
next
  case False
  let ?st1 = "snd (ask (io_inc i st))"
  have l: "i < length (n_sessions st)" using i net_invD(3)[OF inv] by simp
  have inv1: "net_inv (pin i c) ?st1" by (rule ask_inv[OF io_inc_inv[OF inv i]])
  have fr1: "lib_frame st ?st1"
    by (rule lib_frame_trans[OF lib_frame_io_inc[OF l] ask_inv(2)[OF io_inc_inv[OF inv i]]])
  have i1: "i < n_maxSession ?st1" using i by simp
  have p: "0 < x_pins c i" by (rule pinned[OF inv i]) (use s in simp)
  have started: "net_inv (recv_done c) (?st1\<lparr>n_recv_io := insert i (n_recv_io ?st1)\<rparr>)"
    by (rule recv_started_inv[OF inv1 i1 s]) (use False l p in simp_all)
  show ?thesis
  proof (cases "e_io (n_env (io_inc i st) (n_time (io_inc i st)))")
    case (Io_error e)
    have "wpx C (if e \<noteq> WSAECONNRESET then CNetServer_Log ''SYS'' enLOG_LEVEL_ERROR (''Recv Failed ['' @
          fmt_d (sint e) @ ''] session : '' @ fmt_d (sint (Session_GetSessionID (sess ?st1 i)))) ?st1 else Some ?st1)
      (\<lambda>st. wpx C (CNetServer_updateIOCount i st)
        (\<lambda>r. net_inv c (CNetServer_disconnect i (snd r)) \<and> lib_frame ?st1 (CNetServer_disconnect i (snd r)) \<and>
           s_disconnect (sess (CNetServer_disconnect i (snd r)) i)))"
      by (rule io_failed_inv[OF inv1 i1 p]) simp_all
    then have "wpx C (if e \<noteq> WSAECONNRESET then CNetServer_Log ''SYS'' enLOG_LEVEL_ERROR (''Recv Failed ['' @
          fmt_d (sint e) @ ''] session : '' @ fmt_d (sint (Session_GetSessionID (sess ?st1 i)))) ?st1 else Some ?st1)
      (\<lambda>st2. wpx C (CNetServer_updateIOCount i st2)
        (\<lambda>r. net_inv (recv_done c) (CNetServer_disconnect i (snd r)) \<and> lib_frame st (CNetServer_disconnect i (snd r))))"
      by (elim wpx_mono) (use lib_frame_trans[OF fr1] i1 s in \<open>auto intro!: recv_done_inv simp: lib_frame_max\<close>)
    with Io_error False show ?thesis
      by (simp add: CNetServer_recvPost_def Let_def split_def)
  next
    case Io_ok
    have "net_inv (recv_done c) (?st1\<lparr>n_recv_io := insert i (n_recv_io ?st1), n_syncSend := n_syncSend ?st1 + 1\<rparr>)"
      by (rule net_inv_env[OF started]) simp_all
    with Io_ok fr1 False show ?thesis
      by (simp add: CNetServer_recvPost_def Let_def split_def lib_frame_def net_frame_def)
  next
    case Io_pending
    with started fr1 False show ?thesis
      by (simp add: CNetServer_recvPost_def Let_def split_def lib_frame_def net_frame_def)
  qed
qed

end
