(* ===== verification/NetSafe.thy ===== *)
theory NetSafe
  imports NetLemmas
begin

text \<open>
  The handlers of the network library keep its invariant, whatever the system answers and whatever
  a well-behaved derived class does in its callbacks; no step of the library ends the process.
\<close>

subsection \<open>The send flag\<close>

lemma own_send_inv:
  assumes inv: "net_inv c st" and i: "i < n_maxSession st" and s: "x_snd c = None"
    and f: "\<not> s_send_post_flag (sess st i)" "\<not> s_release_flag (sess st i)" "0 < x_pins c i"
  shows "net_inv (own_send i c) (upd_sess i (\<lambda>s. s\<lparr>s_send_post_flag := True\<rparr>) st)"
proof (rule net_inv_slot[OF inv i])
  note len = net_invD(3)[OF inv]
  let ?st = "upd_sess i (\<lambda>s. s\<lparr>s_send_post_flag := True\<rparr>) st"
  show "view (own_send i c) ?st j = view c st j \<and> sess ?st j = sess st j" if "j \<noteq> i" for j
    using that s i len by (simp add: view_eq_iff)
  show "slot_ok i (view c st i) (sess st i) \<Longrightarrow> slot_ok i (view (own_send i c) ?st i) (sess ?st i)"
    using f i len by (auto simp: slot_ok_def)
qed (use inv i net_invD(3)[OF inv] in \<open>auto simp: net_inv_def\<close>)

lemma flag_reset_inv:
  assumes inv: "net_inv c st" and i: "i < n_maxSession st" and s: "x_snd c = Some i"
  shows "net_inv (send_done c) (upd_sess i (\<lambda>s. s\<lparr>s_send_post_flag := False\<rparr>) st)"
proof (rule net_inv_slot[OF inv i])
  note len = net_invD(3)[OF inv]
  let ?st = "upd_sess i (\<lambda>s. s\<lparr>s_send_post_flag := False\<rparr>) st"
  show "view (send_done c) ?st j = view c st j \<and> sess ?st j = sess st j" if "j \<noteq> i" for j
    using that s i len by (simp add: view_eq_iff)
  show "slot_ok i (view c st i) (sess st i) \<Longrightarrow> slot_ok i (view (send_done c) ?st i) (sess ?st i)"
    using s i len by (auto simp: slot_ok_def of_bool_def split: if_splits)
qed (use inv i net_invD(3)[OF inv] in \<open>auto simp: net_inv_def\<close>)

lemma sendPost_inv:
  assumes inv: "net_inv c st" and i: "i < n_maxSession st" and s: "x_snd c = None"
    and f: "\<not> s_release_flag (sess st i)" "0 < x_pins c i"
  shows "wpx C (CNetServer_sendPost i st) (\<lambda>st'. net_inv c st' \<and> lib_frame st st')"
proof (cases "s_disconnect (sess st i) \<or> s_send_post_flag (sess st i)")
  case True
  then show ?thesis using inv by (auto simp: CNetServer_sendPost_def)
next
  case False
  note len = net_invD(3)[OF inv]
  let ?st1 = "upd_sess i (\<lambda>s. s\<lparr>s_send_post_flag := True\<rparr>) st"
  have inv1: "net_inv (own_send i c) ?st1" by (rule own_send_inv[OF inv i s]) (use False f in auto)
  have i1: "i < n_maxSession ?st1" using i by simp
  have fr1: "lib_frame st ?st1" using i len by (simp add: lib_frame_upd ident_def)
  show ?thesis
  proof (cases "s_send_q (sess st i) = []")
    case True
    let ?st2 = "upd_sess i (\<lambda>s. s\<lparr>s_send_post_flag := False\<rparr>) ?st1"
    have inv2: "net_inv c ?st2"
      using flag_reset_inv[OF inv1 i1] s by (simp add: send_done_own)
    have fr2: "lib_frame st ?st2"
      using i len by (intro lib_frame_trans[OF fr1] lib_frame_upd) (simp_all add: ident_def)
    have "net_inv c (CNetServer_sendPend i ?st2) \<and> lib_frame ?st2 (CNetServer_sendPend i ?st2)"
      using sendPend_inv[OF inv2] i len f by simp
    then show ?thesis
      using False True i len lib_frame_trans[OF fr2] by (simp add: CNetServer_sendPost_def Let_def)
  next
    case q: False
    have "wpx C (sendPost_pack i (s_send_q (sess ?st1 i)) ?st1)
       (\<lambda>st2. wpx C (sendPost_result i st2) (\<lambda>st'. net_inv c st' \<and> lib_frame st st'))"
    proof (rule wpx_mono[OF sendPost_pack_inv[OF inv1 i1 refl]])
      fix st2 assume A: "net_inv (own_send i c) st2 \<and> lib_frame ?st1 st2 \<and> same_io i ?st1 st2"
      have i2: "i < n_maxSession st2" using A i lib_frame_max[of ?st1 st2] by simp
      show "wpx C (sendPost_result i st2) (\<lambda>st'. net_inv c st' \<and> lib_frame st st')"
      proof (rule wpx_mono[OF sendPost_result_inv[OF conjunct1[OF A] i2]])
        fix st' assume B: "net_inv (send_done (own_send i c)) st' \<and> lib_frame st2 st'"
        then have "lib_frame ?st1 st'" using A lib_frame_trans by blast
        with B show "net_inv c st' \<and> lib_frame st st'"
          using lib_frame_trans[OF fr1] by (auto simp: send_done_own[OF s])
      qed simp
    qed
    then show ?thesis
      using False q i len by (simp add: CNetServer_sendPost_def Let_def)
  qed
qed

lemma trySend_inv:
  assumes inv: "net_inv c st" and i: "i < n_maxSession st" and s: "x_snd c = Some i"
  shows "wpx C (CNetServer_trySend i st) (\<lambda>st'. net_inv (send_done c) st' \<and> lib_frame st st')"
proof -
  note len = net_invD(3)[OF inv]
  let ?st1 = "upd_sess i (\<lambda>s. s\<lparr>s_send_post_flag := False\<rparr>) st"
  have inv1: "net_inv (send_done c) ?st1" by (rule flag_reset_inv[OF inv i s])
  have fr1: "lib_frame st ?st1" using i len by (simp add: lib_frame_upd ident_def)
  have rf: "\<not> s_release_flag (sess st i)" "0 < x_pins c i"
    using net_invD(1)[OF inv i] s by (auto simp: slot_ok_def)
  have "wpx C (CNetServer_sendPost i ?st1) (\<lambda>st'. net_inv (send_done c) st' \<and> lib_frame ?st1 st')"
    by (rule sendPost_inv[OF inv1]) (use i len rf in simp_all)
  then have "wpx C (CNetServer_sendPost i ?st1) (\<lambda>st'. net_inv (send_done c) st' \<and> lib_frame st st')"
    by (rule wpx_mono) (use lib_frame_trans[OF fr1] in auto)
  then show ?thesis
    using inv1 fr1 by (simp add: CNetServer_trySend_def Let_def)
qed

subsection \<open>A message taken from the receive ring\<close>

lemma length_decode_loop: "length (decode_loop r k n i q e buf) = length buf"
  by (induction r k n i q e buf rule: decode_loop.induct) (simp_all add: Let_def)

lemma Decode_inv:
  assumes "pk_inv p"
  shows "pk_inv (fst (CPacket_Decode key p))"
    and "pk_buffer_size (fst (CPacket_Decode key p)) = pk_buffer_size p"
    and "pk_ref_cnt (fst (CPacket_Decode key p)) = pk_ref_cnt p"
proof -
  have "5 \<le> length (pk_hidden p)" using pk_inv_facts(1)[OF assms] by simp
  then have "length (take 4 (pk_hidden p) @ decode_loop (pk_hidden p ! 3) key n 0 0 0 (drop 4 (pk_hidden p)))
      = length (pk_hidden p)" for n
    by (simp only: length_append length_decode_loop length_take length_drop)
  with assms show "pk_inv (fst (CPacket_Decode key p))"
    unfolding CPacket_Decode_def Let_def pk_inv_def by simp
qed (simp_all add: CPacket_Decode_def Let_def)

text \<open>What the test at the head of the receive loop finds.\<close>

lemma recv_head:
  assumes rb: "rb_inv rb" "rb_capacity rb = 2000"
  obtains (short) "RingBuffer_Peek rb (of_nat net_header_size) = (0, [])" "length (rb_list rb) < 5"
  | (bad) hb where "RingBuffer_Peek rb (of_nat net_header_size) = (of_nat net_header_size, hb)"
      "h_len (net_header_of hb) = 0 \<or> sint (RingBuffer_GetBufferSize rb) < uint (h_len (net_header_of hb))"
  | (more) hb where "RingBuffer_Peek rb (of_nat net_header_size) = (of_nat net_header_size, hb)"
      "\<not> (h_len (net_header_of hb) = 0 \<or> sint (RingBuffer_GetBufferSize rb) < uint (h_len (net_header_of hb)))"
      "(ucast (h_len (net_header_of hb)) :: u64) + 5 > scast (RingBuffer_GetFillSize rb)"
  | (whole) hb rb' where "RingBuffer_Peek rb (of_nat net_header_size) = (of_nat net_header_size, hb)"
      "\<not> (h_len (net_header_of hb) = 0 \<or> sint (RingBuffer_GetBufferSize rb) < uint (h_len (net_header_of hb)))"
      "\<not> (ucast (h_len (net_header_of hb)) :: u64) + 5 > scast (RingBuffer_GetFillSize rb)"
      "hb = take 5 (rb_list rb)" "0 < unat (h_len (net_header_of hb))"
      "unat (h_len (net_header_of hb)) + 5 \<le> length (rb_list rb)"
      "RingBuffer_Dequeue rb (ucast (h_len (net_header_of hb)) + 5) =
        (rb', ucast (h_len (net_header_of hb)) + 5, take (unat (h_len (net_header_of hb)) + 5) (rb_list rb))"
      "rb_inv rb'" "rb_capacity rb' = 2000"
      "rb_list rb' = drop (unat (h_len (net_header_of hb)) + 5) (rb_list rb)"
proof (cases "length (rb_list rb) < 5")
  case True
  have "RingBuffer_Peek rb (of_nat net_header_size) = (0, [])"
    by (rule rb_Peek_fail[OF rb(1)]) (use True in \<open>simp_all add: net_header_size_def\<close>)
  then show ?thesis using True by (rule short)
next
  case False
  define hb where "hb = take 5 (rb_list rb)"
  have peek: "RingBuffer_Peek rb (of_nat net_header_size) = (of_nat net_header_size, hb)"
    using rb_Peek_ok[OF rb(1), of "of_nat net_header_size"] False by (simp add: net_header_size_def hb_def)
  define len where "len = h_len (net_header_of hb)"
  have fill: "unat (RingBuffer_GetFillSize rb) = length (rb_list rb)" "length (rb_list rb) \<le> 2000"
    using rb_sizes[OF rb(1)] rb(2) by simp_all
  show ?thesis
  proof (cases "len = 0 \<or> sint (RingBuffer_GetBufferSize rb) < uint len")
    case True
    then show ?thesis using bad[OF peek] by (simp add: len_def)
  next
    case ok: False
    show ?thesis
    proof (cases "(ucast len :: u64) + 5 > scast (RingBuffer_GetFillSize rb)")
      case True
      then show ?thesis using more[OF peek] ok by (simp add: len_def)
    next
      case enough: False
      have b16: "unat len < 2 ^ 16" using unsigned_less[of len] by simp
      have l64: "unat ((ucast len :: u64) + 5) = unat len + 5"
        using b16 by (subst unat_add_small) (simp_all add: unat_ucast_u16_u64)
      have f64: "unat (scast (RingBuffer_GetFillSize rb) :: u64) = length (rb_list rb)"
        using fill by (subst unat_scast_u32_u64) simp_all
      have le: "unat len + 5 \<le> length (rb_list rb)"
        using enough l64 f64 by (simp add: word_less_nat_alt not_less)
      have l32: "unat ((ucast len :: u32) + 5) = unat len + 5"
        using b16 by (subst unat_add_small) (simp_all add: unat_ucast_u16_u32)
      obtain rb' where D: "RingBuffer_Dequeue rb (ucast len + 5) = (rb', ucast len + 5, take (unat len + 5) (rb_list rb))"
          "rb_inv rb'" "rb_list rb' = drop (unat len + 5) (rb_list rb)" "rb_capacity rb' = rb_capacity rb"
        by (rule rb_Dequeue_ok[OF rb(1), of "ucast len + 5"]) (use l32 le in simp_all)
      have "0 < unat len" using ok by (simp add: unat_gt_0)
      then show ?thesis
        using whole[OF peek _ _ hb_def _ _ D(1)[unfolded len_def]] ok enough le D(2-4) rb(2)
        by (simp add: len_def)
    qed
  qed
qed

subsection \<open>Releasing a session and taking a free one\<close>

lemma release_drain_inv:
  assumes "net_inv c st" and "i < n_maxSession st" and "s_send_q (sess st i) = q"
  shows "wpx C (release_drain i q st) (\<lambda>st'. net_inv c st' \<and> lib_frame st st' \<and> s_send_q (sess st' i) = [] \<and>
    s_release_flag (sess st' i) = s_release_flag (sess st i))"
  using assms
proof (induction q arbitrary: st)
  case Nil
  then show ?case by simp
next
  case (Cons a q)
  note inv = Cons.prems(1) and i = Cons.prems(2) and q = Cons.prems(3)
  note len = net_invD(3)[OF inv]
  let ?st1 = "upd_sess i (\<lambda>s. s\<lparr>s_send_q := q\<rparr>) st"
  have inv1: "net_inv (hold a c) ?st1" by (rule dequeue_inv[OF inv i q])
  have fr1: "lib_frame st ?st1" using i len by (simp add: lib_frame_upd ident_def)
  show ?case
    unfolding release_drain.simps wpx_bind
  proof (rule wpx_mono[OF Packet_SubRef_inv[OF inv1]])
    fix st2 assume A: "net_inv (unhold a (hold a c)) st2 \<and> lib_frame ?st1 st2 \<and> n_sessions st2 = n_sessions ?st1 \<and>
       n_recv_io st2 = n_recv_io ?st1 \<and> n_send_io st2 = n_send_io ?st1 \<and>
       (\<forall>b. b \<noteq> a \<longrightarrow> n_packets st2 b = n_packets ?st1 b)"
    have inv2: "net_inv c st2" and fr2: "lib_frame st st2" using A lib_frame_trans[OF fr1] by auto
    have i2: "i < n_maxSession st2" using lib_frame_max[OF fr2] i by simp
    have q2: "s_send_q (sess st2 i) = q" "s_release_flag (sess st2 i) = s_release_flag (sess st i)"
      using A i len by simp_all
    show "wpx C (release_drain i q st2) (\<lambda>st'. net_inv c st' \<and> lib_frame st st' \<and> s_send_q (sess st' i) = [] \<and>
        s_release_flag (sess st' i) = s_release_flag (sess st i))"
      by (rule wpx_mono[OF Cons.IH[OF inv2 i2 q2(1)]]) (use q2(2) lib_frame_trans[OF fr2] in auto)
  qed simp
qed

definition rel_done :: "ctx \<Rightarrow> ctx" where
  "rel_done c = c\<lparr>x_rel := None\<rparr>"

lemma rel_done_simps [simp]:
  "x_pins (rel_done c) = x_pins c" "x_held (rel_done c) = x_held c" "x_recv (rel_done c) = x_recv c"
  "x_snd (rel_done c) = x_snd c" "x_rel (rel_done c) = None" "x_log (rel_done c) = x_log c"
  by (simp_all add: rel_done_def)

lemma unat_of_nat_u16: "i < 2 ^ 16 \<Longrightarrow> unat (of_nat i :: u16) = i"
  by (simp add: unat_of_nat take_bit_nat_eq_self)

lemma of_nat_u16_eq: "i < 2 ^ 16 \<Longrightarrow> j < 2 ^ 16 \<Longrightarrow> (of_nat i :: u16) = of_nat j \<longleftrightarrow> i = j"
  by (metis unat_of_nat_u16)

lemma free_index_room:
  assumes "distinct (emp :: u16 list)" and "\<forall>x \<in> set emp. unat x < n" and "i < n" and "n \<le> 2 ^ 16"
    and "of_nat i \<notin> set emp"
  shows "length emp < n"
proof -
  have "length emp = card (unat ` set emp)"
  proof -
    have "card (unat ` set emp) = card (set emp)" by (rule card_image) (simp add: inj_on_def word_unat_eq_iff)
    then show ?thesis using distinct_card[OF assms(1)] by simp
  qed
  also have "\<dots> < card {..<n}"
  proof (rule psubset_card_mono)
    have "i \<notin> unat ` set emp"
    proof
      assume "i \<in> unat ` set emp"
      then obtain x where "x \<in> set emp" "i = unat x" by blast
      then show False using assms(5) by simp
    qed
    then show "unat ` set emp \<subset> {..<n}" using assms(2,3) by auto
  qed simp
  finally show ?thesis by simp
qed

lemma push_index_inv:
  assumes inv: "net_inv c st" and i: "i < n_maxSession st" and r: "x_rel c = Some i"
    and q: "s_send_q (sess st i) = []"
  shows "net_inv (rel_done c) (st\<lparr>n_empty := s_session_index (sess st i) # n_empty st,
      n_sessionCnt := n_sessionCnt st - 1\<rparr>)"
proof (rule net_inv_slot[OF inv i])
  let ?st = "st\<lparr>n_empty := s_session_index (sess st i) # n_empty st, n_sessionCnt := n_sessionCnt st - 1\<rparr>"
  note S = net_invD(1)[OF inv i]
  have idx: "s_session_index (sess st i) = of_nat i" and nf: "of_nat i \<notin> set (n_empty st)"
    using S r by (auto simp: slot_ok_def)
  have b: "n_maxSession st \<le> 2 ^ 16" by (rule net_invD(7)[OF inv])
  show "view (rel_done c) ?st j = view c st j \<and> sess ?st j = sess st j"
    if "j \<noteq> i" "j < n_maxSession st" for j
  proof -
    have "(of_nat j :: u16) \<noteq> of_nat i" using that i b of_nat_u16_eq[of j i] by simp
    then show ?thesis using that r idx by (simp add: view_eq_iff)
  qed
  show "struct_ok (n_maxSession st) (length (n_sessions st)) (n_empty st) (n_sessionCnt st)
       (n_recv_io st) (n_send_io st) (n_posts st) \<Longrightarrow>
      struct_ok (n_maxSession ?st) (length (n_sessions ?st)) (n_empty ?st) (n_sessionCnt ?st)
       (n_recv_io ?st) (n_send_io ?st) (n_posts ?st)"
  proof -
    assume so: "struct_ok (n_maxSession st) (length (n_sessions st)) (n_empty st) (n_sessionCnt st)
       (n_recv_io st) (n_send_io st) (n_posts st)"
    have room: "length (n_empty st) < n_maxSession st"
      by (rule free_index_room[OF _ _ i b nf]) (use so in \<open>auto simp: struct_ok_def\<close>)
    then have "(of_nat (n_maxSession st - length (n_empty st)) :: u32) - 1
        = of_nat (n_maxSession st - Suc (length (n_empty st)))"
      by (simp add: of_nat_diff)
    then show ?thesis
      using so nf i b unfolding idx by (simp add: struct_ok_def unat_of_nat_u16)
  qed
  show "slot_ok i (view c st i) (sess st i) \<Longrightarrow> slot_ok i (view (rel_done c) ?st i) (sess ?st i)"
    using r idx q by (auto simp: slot_ok_def)
qed (use inv i in \<open>auto simp: net_inv_def struct_ok_def\<close>)

text \<open>A free index becomes the session of a new connection.\<close>

definition recv_own :: "nat \<Rightarrow> ctx \<Rightarrow> ctx" where
  "recv_own i c = c\<lparr>x_recv := Some i\<rparr>"

lemma recv_own_simps [simp]:
  "x_pins (recv_own i c) = x_pins c" "x_held (recv_own i c) = x_held c" "x_recv (recv_own i c) = Some i"
  "x_snd (recv_own i c) = x_snd c" "x_rel (recv_own i c) = x_rel c" "x_log (recv_own i c) = x_log c"
  by (simp_all add: recv_own_def)

lemma recv_done_own: "x_recv c = None \<Longrightarrow> recv_done (recv_own i c) = c"
  by (simp add: recv_done_def recv_own_def)

lemma pop_index_inv:
  assumes inv: "net_inv c st" and e: "n_empty st = index # rest" and r: "x_recv c = None"
    and s: "n_sessions st' = (n_sessions st)[unat index := accept_init (unat index) sock ip port tick sid
      ((sess st (unat index))\<lparr>s_io_count := s_io_count (sess st (unat index)) + 1\<rparr>)]"
    and f: "n_maxSession st' = n_maxSession st" "n_empty st' = rest" "n_sessionCnt st' = n_sessionCnt st + 1"
      "n_recv_io st' = n_recv_io st" "n_send_io st' = n_send_io st" "n_posts st' = n_posts st"
      "n_pool st' = n_pool st" "n_packets st' = n_packets st" "n_syslog st' = n_syslog st"
      "n_logQueue st' = n_logQueue st" "n_env st' = n_env st" "n_sessID st' \<noteq> 0"
  shows "net_inv (recv_own (unat index) (pin (unat index) c)) st'" and "unat index < n_maxSession st"
proof -
  let ?i = "unat index"
  note so = net_invD(2)[OF inv]
  show i: "?i < n_maxSession st" using so e by (auto simp: struct_ok_def)
  have l: "?i < length (n_sessions st)" using i net_invD(3)[OF inv] by simp
  have b: "n_maxSession st \<le> 2 ^ 16" by (rule net_invD(7)[OF inv])
  have d: "distinct (index # rest)" using so e by (simp add: struct_ok_def)
  note S = net_invD(1)[OF inv i]
  have fr: "of_nat ?i \<in> set (n_empty st)" using e by simp
  have nf: "of_nat ?i \<notin> set rest" using d by simp
  show "net_inv (recv_own ?i (pin ?i c)) st'"
  proof (rule net_inv_slot[OF inv i])
    show "view (recv_own ?i (pin ?i c)) st' j = view c st j \<and> sess st' j = sess st j"
      if "j \<noteq> ?i" "j < n_maxSession st" for j
    proof -
      have "(of_nat j :: u16) \<noteq> index" using that b unat_of_nat_u16[of j] by auto
      then show ?thesis using that r e f l s by (simp add: view_eq_iff)
    qed
    show "slot_ok ?i (view c st ?i) (sess st ?i) \<Longrightarrow>
        slot_ok ?i (view (recv_own ?i (pin ?i c)) st' ?i) (sess st' ?i)"
      using fr nf r f l s rb_ClearBuffer
      by (auto simp: slot_ok_def accept_init_def bufs_ok_def)
    have "length rest < n_maxSession st"
      by (rule free_index_room[OF _ _ i b nf]) (use so e in \<open>auto simp: struct_ok_def\<close>)
    then have "(of_nat (n_maxSession st - Suc (length rest)) :: u32) + 1 = of_nat (n_maxSession st - length rest)"
      by (simp add: of_nat_diff)
    then show "struct_ok (n_maxSession st) (length (n_sessions st)) (n_empty st) (n_sessionCnt st)
       (n_recv_io st) (n_send_io st) (n_posts st) \<Longrightarrow>
      struct_ok (n_maxSession st') (length (n_sessions st')) (n_empty st') (n_sessionCnt st')
       (n_recv_io st') (n_send_io st') (n_posts st')"
      using e f s by (auto simp: struct_ok_def)
    have "queued (n_sessions st') = queued (n_sessions st)"
      using queued_upd[OF l, of "sess st' ?i"] s l by (simp add: accept_init_def)
    then show "pk_ok (n_pool st) (n_packets st) (queued (n_sessions st) + x_held c) \<Longrightarrow>
        pk_ok (n_pool st') (n_packets st') (queued (n_sessions st') + x_held (recv_own ?i (pin ?i c)))"
      using f by simp
  qed (use f in simp_all)
qed

subsection \<open>The contract of the derived class\<close>

text \<open>
  The sessions whose index is in use, with the ids the derived class knows them by. A derived class
  has an invariant \<open>dinv\<close> of its own fields with respect to the sessions it has been told of.
\<close>

definition sessions_of :: "'a net_scheme \<Rightarrow> nat \<rightharpoonup> u64" where
  "sessions_of st i =
     (if i < n_maxSession st \<and> of_nat i \<notin> set (n_empty st) then Some (Session_GetSessionID (sess st i)) else None)"

lemma sessions_of_frame:
  assumes "net_frame st st'" and "length (n_sessions st) = n_maxSession st"
  shows "sessions_of st' = sessions_of st"
proof
  fix i
  have *: "n_maxSession st' = n_maxSession st" "n_empty st' = n_empty st"
    using assms(1) by (auto simp: net_frame_def)
  show "sessions_of st' i = sessions_of st i"
    using * net_frame_sess[OF assms(1), of i] assms(2)
    by (simp add: sessions_of_def Session_GetSessionID_def)
qed

locale derived_class =
  fixes cb :: "'a net_scheme callbacks"
    and dinv :: "(nat \<rightharpoonup> u64) \<Rightarrow> 'a \<Rightarrow> bool"
    and C :: bool
  assumes join: "net_inv c st \<Longrightarrow> dinv m (net.more st) \<Longrightarrow> m i = None \<Longrightarrow>
      sessions_of st = m(i \<mapsto> sid) \<Longrightarrow>
      wpx C (OnClientJoin cb sid st) (\<lambda>st'. net_inv c st' \<and> net_frame st st' \<and> dinv (m(i \<mapsto> sid)) (net.more st'))"
    and leave: "net_inv c st \<Longrightarrow> dinv m (net.more st) \<Longrightarrow> m i = Some sid \<Longrightarrow> sessions_of st = m \<Longrightarrow>
      wpx C (OnClientLeave cb sid st) (\<lambda>st'. net_inv c st' \<and> net_frame st st' \<and> dinv (m(i := None)) (net.more st'))"
    and timeout: "net_inv c st \<Longrightarrow> dinv m (net.more st) \<Longrightarrow> m i = Some sid \<Longrightarrow> sessions_of st = m \<Longrightarrow>
      wpx C (OnClientTimeout cb sid st) (\<lambda>st'. net_inv c st' \<and> net_frame st st' \<and> dinv m (net.more st'))"
    and recv: "net_inv c st \<Longrightarrow> dinv m (net.more st) \<Longrightarrow> m i = Some sid \<Longrightarrow> sessions_of st = m \<Longrightarrow>
      packet \<in># x_held c \<Longrightarrow>
      wpx C (OnRecv cb sid packet st) (\<lambda>st'. net_inv c st' \<and> net_frame st st' \<and> dinv m (net.more st'))"
    and send: "net_inv c st \<Longrightarrow> dinv m (net.more st) \<Longrightarrow> m i = Some sid \<Longrightarrow> sessions_of st = m \<Longrightarrow>
      wpx C (OnSend cb sid n st) (\<lambda>st'. net_inv c st' \<and> net_frame st st' \<and> dinv m (net.more st') \<and>
        (\<forall>j. s_send_buffer (sess st' j) = s_send_buffer (sess st j)))"
begin

text \<open>The invariant of the whole server, in a running step and between steps.\<close>

definition srv_inv :: "ctx \<Rightarrow> 'a net_scheme \<Rightarrow> bool" where
  "srv_inv c st \<longleftrightarrow> net_inv c st \<and> dinv (sessions_of st) (net.more st)"

lemma srv_inv_lib:
  assumes "srv_inv c st" and "net_inv c' st'" and "lib_frame st st'"
  shows "srv_inv c' st'"
  using assms sessions_of_frame[of st st'] net_invD(3)[of c st] by (auto simp: srv_inv_def lib_frame_def)

lemma srv_inv_cb:
  assumes "srv_inv c st" and "net_inv c' st'" and "net_frame st st'" and "dinv (sessions_of st) (net.more st')"
  shows "srv_inv c' st'"
  using assms sessions_of_frame[of st st'] net_invD(3)[of c st] by (auto simp: srv_inv_def)

lemma srv_net: "srv_inv c st \<Longrightarrow> net_inv c st"
  by (simp add: srv_inv_def)

lemma srv_upd:
  assumes "srv_inv c st" and "net_inv c' st'" and "net.more st' = net.more st"
    and "sessions_of st' = sessions_of st"
  shows "srv_inv c' st'"
  using assms by (simp add: srv_inv_def)

lemma active_session:
  assumes inv: "net_inv c st" and i: "i < n_maxSession st" and rf: "\<not> s_release_flag (sess st i)"
  shows "sessions_of st i = Some (Session_GetSessionID (sess st i))"
  using net_invD(1)[OF inv i] rf i by (auto simp: sessions_of_def slot_ok_def)

lemma sessions_of_upd:
  assumes "i < length (n_sessions st)"
    and "s_session_id (f (sess st i)) = s_session_id (sess st i)"
    and "s_session_index (f (sess st i)) = s_session_index (sess st i)"
  shows "sessions_of (upd_sess i f st) = sessions_of st"
  using assms by (auto simp: sessions_of_def Session_GetSessionID_def)

lemma srv_Log:
  assumes "srv_inv c st" and "length ty \<le> 10" and "length msg < 1024"
  shows "wpx C (CNetServer_Log ty lev msg st) (\<lambda>st'. srv_inv c st' \<and> lib_frame st st' \<and> n_sessions st' = n_sessions st)"
  by (rule wpx_mono[OF Log_inv[OF srv_net[OF assms(1)] assms(2,3)]]) (auto intro: srv_inv_lib[OF assms(1)])

lemma srv_disconnect:
  assumes "srv_inv c st" and "i < n_maxSession st"
  shows "srv_inv c (CNetServer_disconnect i st)" and "lib_frame st (CNetServer_disconnect i st)"
    and "s_disconnect (sess (CNetServer_disconnect i st) i)"
  using disconnect_inv[OF srv_net[OF assms(1)] assms(2)] srv_inv_lib[OF assms(1)] by auto

text \<open>Log and then disconnect, the answer to anything unexpected.\<close>

lemma srv_Log_disconnect:
  assumes "srv_inv c st" and "i < n_maxSession st" and "length ty \<le> 10" and "length msg < 1024"
  shows "wpx C (CNetServer_Log ty lev msg st \<bind> (\<lambda>st. Some (CNetServer_disconnect i st)))
    (\<lambda>st'. srv_inv c st' \<and> lib_frame st st' \<and> s_disconnect (sess st' i))"
  unfolding wpx_bind
proof (rule wpx_mono[OF srv_Log[OF assms(1,3,4)]])
  fix st1 assume A: "srv_inv c st1 \<and> lib_frame st st1 \<and> n_sessions st1 = n_sessions st"
  have i1: "i < n_maxSession st1" using A assms(2) lib_frame_max[of st st1] by simp
  note D = srv_disconnect[OF conjunct1[OF A] i1]
  have "lib_frame st (CNetServer_disconnect i st1)" using A D(2) lib_frame_trans by blast
  with D(1,3) show "wpx C (Some (CNetServer_disconnect i st1))
      (\<lambda>st'. srv_inv c st' \<and> lib_frame st st' \<and> s_disconnect (sess st' i))" by simp
qed

lemma recv_dispatch_inv:
  assumes srv: "srv_inv c st" and i: "i < n_maxSession st" and rf: "\<not> s_release_flag (sess st i)"
    and a: "a \<in># x_held c"
  shows "wpx C (recv_dispatch cb i a ok st) (\<lambda>st'. srv_inv c st' \<and> net_frame st st')"
proof (cases ok)
  case False
  have "wpx C (CNetServer_Log ''SYS'' enLOG_LEVEL_ERROR ''Packet Error Decode failed.'' st \<bind>
      (\<lambda>st. Some (CNetServer_disconnect i st))) (\<lambda>st'. srv_inv c st' \<and> net_frame st st')"
    by (rule wpx_mono[OF srv_Log_disconnect[OF srv i]]) (auto simp: lib_frame_net)
  with False show ?thesis by (simp add: recv_dispatch_def)
next
  case True
  let ?st = "upd_sess i (\<lambda>s. s\<lparr>s_recvPacket := s_recvPacket s + 1\<rparr>) st"
  have l: "i < length (n_sessions st)" using i net_invD(3)[OF srv_net[OF srv]] by simp
  have inv: "net_inv c ?st" by (rule sess_field_inv[OF srv_net[OF srv] i]) simp_all
  have fr: "lib_frame st ?st" by (rule lib_frame_upd) (use l in \<open>simp_all add: ident_def\<close>)
  have srv': "srv_inv c ?st" by (rule srv_inv_lib[OF srv inv fr])
  have act: "sessions_of ?st i = Some (Session_GetSessionID (sess ?st i))"
    by (rule active_session[OF inv]) (use i l rf in simp_all)
  have d: "dinv (sessions_of ?st) (net.more ?st)" using srv' by (simp add: srv_inv_def)
  have "wpx C (OnRecv cb (Session_GetSessionID (sess ?st i)) a ?st) (\<lambda>st'. srv_inv c st' \<and> net_frame st st')"
    by (rule wpx_mono[OF recv[OF inv d act refl a]])
      (auto intro: srv_inv_cb[OF srv'] net_frame_trans[OF lib_frame_net[OF fr]])
  with True show ?thesis by (simp add: recv_dispatch_def Let_def)
qed

text \<open>Handling one whole message.\<close>

lemma recv_message_inv:
  assumes srv: "srv_inv c st" and i: "i < n_maxSession st" and r: "x_recv c = Some i"
    and D: "RingBuffer_Dequeue (s_recv_buffer (sess st i)) (ucast len + 5) = (rb, n, bs)" "rb_inv rb" "rb_capacity rb = 2000"
    and bs: "length bs = unat len + 5" "0 < unat len" "unat len + 5 \<le> 2000"
  shows "wpx C (recv_message cb i len st)
    (\<lambda>st'. srv_inv c st' \<and> n_maxSession st' = n_maxSession st \<and> s_recv_buffer (sess st' i) = rb)"
proof -
  note inv = srv_net[OF srv]
  have rf: "\<not> s_release_flag (sess st i)" using net_invD(1)[OF inv i] r by (auto simp: slot_ok_def)
  have l: "i < length (n_sessions st)" using i net_invD(3)[OF inv] by simp
  show ?thesis
    unfolding recv_message_def wpx_bind
  proof (rule wpx_mono[OF Packet_Alloc_inv[OF inv]])
    fix ra
    assume A0: "case ra of (a, st') \<Rightarrow> net_inv (hold a c) st' \<and> lib_frame st st' \<and> n_sessions st' = n_sessions st \<and>
       n_recv_io st' = n_recv_io st \<and> n_send_io st' = n_send_io st \<and> pk_fresh (n_packets st' a) \<and>
       a \<notin># queued (n_sessions st) + x_held c"
    obtain a st1 where ra: "ra = (a, st1)" by (cases ra)
    note A = A0[unfolded ra prod.case]
    have srv1: "srv_inv (hold a c) st1" and i1: "i < n_maxSession st1" and l1: "i < length (n_sessions st1)"
      using A srv_inv_lib[OF srv] i lib_frame_max[of st st1] l by auto
    have D1: "RingBuffer_Dequeue (s_recv_buffer (sess st1 i)) (ucast len + 5) = (rb, n, bs)" using D(1) A by simp
    define st2 where "st2 = upd_sess i (\<lambda>s. s\<lparr>s_recv_buffer := rb\<rparr>) st1"
    have inv2: "net_inv (hold a c) st2" unfolding st2_def
      by (rule sess_field_inv[OF srv_net[OF srv1] i1]) (use D in \<open>auto simp: slot_ok_def bufs_ok_def\<close>)
    have srv2: "srv_inv (hold a c) st2"
      by (rule srv_upd[OF srv1 inv2]) (use l1 in \<open>simp_all add: st2_def sessions_of_upd\<close>)
    define r where "r = recv_packet (n_packetKey st2) bs len (n_packets st2 a)"
    have pk2: "pk_fresh (n_packets st2 a)" using A by (simp add: st2_def)
    obtain q' where q': "r = CPacket_Decode (n_packetKey st2) q'" "pk_inv q'" "pk_buffer_size q' = 2000" "pk_ref_cnt q' = 1"
      unfolding r_def by (rule recv_packet_filled[OF pk2, of bs len]) (use bs in auto)
    have p: "pk_inv (fst r)" "pk_buffer_size (fst r) = eBUFFER_DEFAULT" "pk_ref_cnt (fst r) = pk_ref_cnt (n_packets st2 a)"
      using Decode_inv[OF q'(2), of "n_packetKey st2"] q' pk2 by (simp_all add: pk_fresh_def eBUFFER_DEFAULT_def)
    define st3 where "st3 = st2\<lparr>n_packets := (n_packets st2)(a := fst r)\<rparr>"
    have inv3: "net_inv (hold a c) st3" unfolding st3_def by (rule net_inv_packets[OF inv2 p])
    have fr3: "lib_frame st2 st3" by (simp add: st3_def lib_frame_def net_frame_def)
    have srv3: "srv_inv (hold a c) st3" by (rule srv_inv_lib[OF srv2 inv3 fr3])
    have max3: "n_maxSession st3 = n_maxSession st" using A lib_frame_max[of st st1] by (simp add: st3_def st2_def)
    have l3: "i < length (n_sessions st3)" using l1 by (simp add: st3_def st2_def)
    have rb3: "s_recv_buffer (sess st3 i) = rb" using l1 by (simp add: st3_def st2_def)
    have rf3: "\<not> s_release_flag (sess st3 i)" using l1 rf A by (simp add: st3_def st2_def)
    have frame: "n_maxSession st' = n_maxSession st \<and> s_recv_buffer (sess st' i) = rb" if "net_frame st3 st'" for st'
      using net_frame_sess(4)[OF that l3] that rb3 max3 by (auto simp: net_frame_def)
    have "wpx C (recv_dispatch cb i a (snd r) st3) (\<lambda>st4. wpx C (Packet_Free a st4)
        (\<lambda>st'. srv_inv c st' \<and> n_maxSession st' = n_maxSession st \<and> s_recv_buffer (sess st' i) = rb))"
    proof (rule wpx_mono[OF recv_dispatch_inv[OF srv3]])
      fix st4 assume B: "srv_inv (hold a c) st4 \<and> net_frame st3 st4"
      show "wpx C (Packet_Free a st4)
        (\<lambda>st'. srv_inv c st' \<and> n_maxSession st' = n_maxSession st \<and> s_recv_buffer (sess st' i) = rb)"
        unfolding Packet_Free_def
      proof (rule wpx_mono[OF Packet_SubRef_inv[OF srv_net[OF conjunct1[OF B]]]])
        fix st' assume E: "net_inv (unhold a (hold a c)) st' \<and> lib_frame st4 st' \<and> n_sessions st' = n_sessions st4 \<and>
           n_recv_io st' = n_recv_io st4 \<and> n_send_io st' = n_send_io st4 \<and>
           (\<forall>b. b \<noteq> a \<longrightarrow> n_packets st' b = n_packets st4 b)"
        have "net_frame st3 st'" using B E net_frame_trans lib_frame_net by blast
        moreover have "srv_inv c st'" by (rule srv_inv_lib[OF conjunct1[OF B]]) (use E in auto)
        ultimately show "srv_inv c st' \<and> n_maxSession st' = n_maxSession st \<and> s_recv_buffer (sess st' i) = rb"
          using frame by blast
      qed simp
    qed (use max3 i rf3 in simp_all)
    moreover have "recv_packet (n_packetKey st1) bs len (n_packets st1 a) = r"
      "st2\<lparr>n_packets := (n_packets st1)(a := fst r)\<rparr> = st3"
      by (simp_all add: r_def st3_def) (simp_all add: st2_def)
    ultimately show "wpx C (case ra of (packet, st) \<Rightarrow>
        let (rb, _, bs) = RingBuffer_Dequeue (s_recv_buffer (sess st i)) (ucast len + 5);
            st = upd_sess i (\<lambda>s. s\<lparr>s_recv_buffer := rb\<rparr>) st;
            (p, ok) = recv_packet (n_packetKey st) bs len (n_packets st packet);
            st = st\<lparr>n_packets := (n_packets st)(packet := p)\<rparr>
        in recv_dispatch cb i packet ok st \<bind> Packet_Free packet)
      (\<lambda>st'. srv_inv c st' \<and> n_maxSession st' = n_maxSession st \<and> s_recv_buffer (sess st' i) = rb)"
      by (simp add: ra D1 st2_def [symmetric] split_def Let_def)
  qed
qed

lemma recv_loop_inv:
  assumes "srv_inv c st" and "i < n_maxSession st" and "x_recv c = Some i"
    and "length (rb_list (s_recv_buffer (sess st i))) < fuel"
  shows "wpx C (recv_loop cb fuel i st) (\<lambda>st'. srv_inv c st' \<and> n_maxSession st' = n_maxSession st)"
  using assms
proof (induction fuel arbitrary: st)
  case 0
  then show ?case by simp
next
  case (Suc fuel)
  note srv = Suc.prems(1) and i = Suc.prems(2) and r = Suc.prems(3) and fuel = Suc.prems(4)
  let ?rb = "s_recv_buffer (sess st i)"
  note B = net_bufs(3,4)[OF srv_net[OF srv] i]
  have n0: "(0 :: u32) \<noteq> of_nat net_header_size" by (simp add: net_header_size_def)
  from B show ?case
  proof (cases rule: recv_head)
    case short
    with srv n0 show ?thesis by (simp add: Let_def)
  next
    case (bad hb)
    have "wpx C (CNetServer_Log ''SYS'' enLOG_LEVEL_DEBUG (''Packet Error header indicates length ['' @
          fmt_d (uint (h_len (net_header_of hb))) @ '']'') st \<bind> (\<lambda>st. Some (CNetServer_disconnect i st)))
        (\<lambda>st'. srv_inv c st' \<and> n_maxSession st' = n_maxSession st)"
      by (rule wpx_mono[OF srv_Log_disconnect[OF srv i _ log_text]]) (simp_all add: lib_frame_max)
    with bad show ?thesis by (simp add: Let_def)
  next
    case (more hb)
    with srv show ?thesis by (simp add: Let_def)
  next
    case (whole hb rb')
    let ?len = "h_len (net_header_of hb)"
    have le: "length (rb_list ?rb) \<le> 2000" using rb_sizes(4)[OF B(1)] B(2) by simp
    have "wpx C (recv_message cb i ?len st) (\<lambda>st1. wpx C (recv_loop cb fuel i st1)
        (\<lambda>st'. srv_inv c st' \<and> n_maxSession st' = n_maxSession st))"
    proof (rule wpx_mono[OF recv_message_inv[OF srv i r whole(7,8,9)]])
      fix st1 assume A: "srv_inv c st1 \<and> n_maxSession st1 = n_maxSession st \<and> s_recv_buffer (sess st1 i) = rb'"
      have "wpx C (recv_loop cb fuel i st1) (\<lambda>st'. srv_inv c st' \<and> n_maxSession st' = n_maxSession st1)"
        by (rule Suc.IH) (use A i r fuel whole(6,10) in auto)
      then show "wpx C (recv_loop cb fuel i st1) (\<lambda>st'. srv_inv c st' \<and> n_maxSession st' = n_maxSession st)"
        using A by simp
    qed (use whole(5,6) le in simp_all)
    with whole(1-3) show ?thesis by (simp add: Let_def)
  qed
qed

lemma srv_fields:
  assumes "srv_inv c st" and "net_inv c st'" and "n_sessions st' = n_sessions st"
    and "n_maxSession st' = n_maxSession st" and "n_empty st' = n_empty st" and "net.more st' = net.more st"
  shows "srv_inv c st'"
proof -
  have "sessions_of st' = sessions_of st"
    by (rule ext) (simp only: sessions_of_def assms(3-5))
  with assms show ?thesis by (simp add: srv_inv_def)
qed

lemma srv_field_upd:
  assumes srv: "srv_inv c st" and i: "i < n_maxSession st"
    and q: "s_send_q (f (sess st i)) = s_send_q (sess st i)"
    and slot: "slot_ok i (view c st i) (sess st i) \<Longrightarrow> slot_ok i (view c st i) (f (sess st i))"
    and ids: "s_session_id (f (sess st i)) = s_session_id (sess st i)"
      "s_session_index (f (sess st i)) = s_session_index (sess st i)"
  shows "srv_inv c (upd_sess i f st)"
proof -
  have "net_inv c (upd_sess i f st)"
    using sess_field_inv[of c st i f, OF srv_net[OF srv] i q] slot by blast
  moreover have "sessions_of (upd_sess i f st) = sessions_of st"
    using ids i net_invD(3)[OF srv_net[OF srv]] by (intro sessions_of_upd) simp_all
  ultimately show ?thesis by (intro srv_upd[OF srv]) simp_all
qed

text \<open>The end of a receive: \<open>d\<close> are the bytes that arrived, already in the ring's segments.\<close>

lemma srv_recvPost:
  assumes srv: "srv_inv c st" and i: "i < n_maxSession st" and r: "x_recv c = Some i"
  shows "wpx C (CNetServer_recvPost i st) (\<lambda>rs. srv_inv (recv_done c) (snd rs) \<and> lib_frame st (snd rs))"
  by (rule wpx_mono[OF recvPost_inv[OF srv_net[OF srv] i r]]) (auto intro: srv_inv_lib[OF srv])

lemma recv_complete_inv:
  assumes srv: "srv_inv c st" and i: "i < n_maxSession st" and r: "x_recv c = Some i"
    and rear: "rb_inv (RingBuffer_MoveRear (s_recv_buffer (sess st i)) n)"
      "rb_capacity (RingBuffer_MoveRear (s_recv_buffer (sess st i)) n) = 2000"
  shows "wpx C (recv_complete cb i n st) (\<lambda>st'. srv_inv (recv_done c) st' \<and> n_maxSession st' = n_maxSession st)"
proof -
  define st1 where "st1 = snd (ask (st\<lparr>n_recvByte := n_recvByte st + n\<rparr>))"
  define e where "e = n_env st (n_time st)"
  have srv1: "srv_inv c st1"
    by (rule srv_fields[OF srv]) (auto intro!: net_inv_env[OF srv_net[OF srv]] simp: st1_def ask_def)
  have s1: "n_sessions st1 = n_sessions st" "n_maxSession st1 = n_maxSession st" by (simp_all add: st1_def)
  have l: "i < length (n_sessions st)" using i net_invD(3)[OF srv_net[OF srv]] by simp
  define st2 where "st2 = upd_sess i (\<lambda>s. s\<lparr>s_recv_buffer := RingBuffer_MoveRear (s_recv_buffer s) n,
      s_last_recv_time := e_tick e\<rparr>) st1"
  have srv2: "srv_inv c st2" unfolding st2_def
    by (rule srv_field_upd[OF srv1]) (use i s1 rear in \<open>auto simp: slot_ok_def bufs_ok_def\<close>)
  have i2: "i < n_maxSession st2" using i s1 by (simp add: st2_def)
  have b2: "rb_inv (s_recv_buffer (sess st2 i))" using net_bufs(3)[OF srv_net[OF srv2] i2] .
  let ?fuel = "Suc (unat (RingBuffer_GetFillSize (s_recv_buffer (sess st2 i))))"
  have "wpx C (recv_loop cb ?fuel i st2) (\<lambda>st3. wpx C (CNetServer_recvPost i
        (upd_sess i (\<lambda>s. s\<lparr>s_recvPacket := 0\<rparr>) (st3\<lparr>n_recvPacket := n_recvPacket st3 + s_recvPacket (sess st3 i)\<rparr>)))
      (\<lambda>rs. srv_inv (recv_done c) (snd rs) \<and> n_maxSession (snd rs) = n_maxSession st))"
  proof (rule wpx_mono[OF recv_loop_inv[OF srv2 i2 r]])
    show "length (rb_list (s_recv_buffer (sess st2 i))) < ?fuel" using rb_sizes(1)[OF b2] by simp
    fix st3 assume A: "srv_inv c st3 \<and> n_maxSession st3 = n_maxSession st2"
    have i3: "i < n_maxSession st3" using A i2 by simp
    let ?st4 = "st3\<lparr>n_recvPacket := n_recvPacket st3 + s_recvPacket (sess st3 i)\<rparr>"
    have srv4: "srv_inv c ?st4"
      by (rule srv_fields[OF conjunct1[OF A]]) (auto intro!: net_inv_env[OF srv_net[OF conjunct1[OF A]]])
    let ?st5 = "upd_sess i (\<lambda>s. s\<lparr>s_recvPacket := 0\<rparr>) ?st4"
    have srv5: "srv_inv c ?st5" by (rule srv_field_upd[OF srv4]) (use i3 in simp_all)
    show "wpx C (CNetServer_recvPost i ?st5) (\<lambda>rs. srv_inv (recv_done c) (snd rs) \<and> n_maxSession (snd rs) = n_maxSession st)"
      by (rule wpx_mono[OF srv_recvPost[OF srv5 _ r]])
        (use A i3 s1 in \<open>auto simp: lib_frame_def net_frame_def st2_def\<close>)
  qed
  then show ?thesis
    by (simp add: recv_complete_def Let_def split_def st1_def [symmetric] e_def [symmetric] st2_def [symmetric]
        del: recv_loop.simps)
qed

end

end
