(* ===== verification/ChatInv.thy ===== *)
theory ChatInv
  imports Chat NetSafe
begin

text \<open>
  The invariant of the chat server's own state and the operations on users, accounts and sectors
  that keep it. It is stated on the components of the state: the user map \<open>M\<close>, the users \<open>U\<close>, the
  accounts \<open>A\<close>, the sectors \<open>S\<close>.
\<close>

subsection \<open>The invariant\<close>

definition map_ok :: "(u64 \<rightharpoonup> addr) \<Rightarrow> (addr \<Rightarrow> user) \<Rightarrow> bool" where
  "map_ok M U \<longleftrightarrow> finite (dom M) \<and> (\<forall>sid a. M sid = Some a \<longrightarrow> m_SSID (U a) = sid)"

text \<open>The accounts are those of the logged-in users, each of one session.\<close>

definition acc_ok :: "(u64 \<rightharpoonup> addr) \<Rightarrow> (addr \<Rightarrow> user) \<Rightarrow> (u64 \<rightharpoonup> u64) \<Rightarrow> bool" where
  "acc_ok M U A \<longleftrightarrow> (\<forall>acc sid. A acc = Some sid \<longleftrightarrow>
     (\<exists>a. M sid = Some a \<and> mb_login (U a) \<and> m_accountNo (U a) = acc))"

text \<open>A sector's list has one node for each user whose position it is, and the users' iterators are
  these nodes.\<close>

definition pos_ok :: "nat \<Rightarrow> user \<Rightarrow> bool" where
  "pos_ok n u \<longleftrightarrow>
     (if mb_inSector u then 0 \<le> m_sectorX u \<and> m_sectorX u < SECTOR_MAX_X \<and> 0 \<le> m_sectorY u \<and>
        m_sectorY u < SECTOR_MAX_Y \<and> m_sectorIter u < n
      else m_sectorX u = -1 \<and> m_sectorY u = -1)"

definition at_node :: "nat \<Rightarrow> int \<Rightarrow> int \<Rightarrow> user \<Rightarrow> bool" where
  "at_node k y x u \<longleftrightarrow> mb_inSector u \<and> m_sectorIter u = k \<and> m_sectorY u = y \<and> m_sectorX u = x"

definition sec_ok :: "addr set \<Rightarrow> (addr \<Rightarrow> user) \<Rightarrow> (int \<Rightarrow> int \<Rightarrow> (nat \<times> addr) list) \<Rightarrow> nat \<Rightarrow> bool" where
  "sec_ok R U S n \<longleftrightarrow>
     (\<forall>y x k a. (k, a) \<in> set (S y x) \<longleftrightarrow> a \<in> R \<and> at_node k y x (U a)) \<and>
     (\<forall>y x. distinct (S y x)) \<and> (\<forall>a \<in> R. pos_ok n (U a)) \<and>
     (\<forall>a \<in> R. \<forall>b \<in> R. mb_inSector (U a) \<and> mb_inSector (U b) \<and> m_sectorIter (U a) = m_sectorIter (U b) \<longrightarrow> a = b)"

definition cnt_ok :: "addr set \<Rightarrow> (addr \<Rightarrow> user) \<Rightarrow> u32 \<Rightarrow> u32 \<Rightarrow> bool" where
  "cnt_ok R U connect login \<longleftrightarrow> connect = of_nat (card {a \<in> R. \<not> mb_login (U a)}) \<and>
     login = of_nat (card {a \<in> R. mb_login (U a)})"

definition chat_ok :: "(nat \<rightharpoonup> u64) \<Rightarrow> chat \<Rightarrow> bool" where
  "chat_ok m c \<longleftrightarrow> ran m = dom (c_userMap c) \<and> map_ok (c_userMap c) (c_users c) \<and>
     acc_ok (c_userMap c) (c_users c) (c_accountMap c) \<and>
     sec_ok (ran (c_userMap c)) (c_users c) (c_sectors c) (c_nodes c) \<and>
     cnt_ok (ran (c_userMap c)) (c_users c) (c_connectCnt c) (c_loginCnt c) \<and>
     mp_inv (c_userPool c) (ran (c_userMap c))"

definition chat_inv :: "(nat \<rightharpoonup> u64) \<Rightarrow> chat \<Rightarrow> bool" where
  "chat_inv m c \<longleftrightarrow> chat_ok m c \<and> c_held c = [] \<and> c_order c"

lemma map_ok_inj: "map_ok M U \<Longrightarrow> M s = Some a \<Longrightarrow> M t = Some a \<Longrightarrow> s = t"
  by (auto simp: map_ok_def)

lemma map_ok_ran: "map_ok M U \<Longrightarrow> finite (ran M)"
  by (simp add: map_ok_def finite_ran)

lemma map_ok_ran_del:
  assumes "map_ok M U" and "M sid = Some a"
  shows "ran (M(sid := None)) = ran M - {a}"
proof (intro set_eqI iffI)
  fix b assume "b \<in> ran (M(sid := None))"
  then obtain t where "t \<noteq> sid" "M t = Some b" by (auto simp: ran_def split: if_splits)
  then show "b \<in> ran M - {a}" using map_ok_inj[OF assms(1)] assms(2) by (auto simp: ran_def)
next
  fix b assume "b \<in> ran M - {a}"
  then obtain t where "M t = Some b" "b \<noteq> a" by (auto simp: ran_def)
  then have "(M(sid := None)) t = Some b" using assms(2) by auto
  then show "b \<in> ran (M(sid := None))" by (rule ranI)
qed

subsection \<open>A new user\<close>

lemma map_ok_new:
  assumes "map_ok M U" and "a \<notin> ran M" and "m_SSID u = sid"
  shows "map_ok (M(sid \<mapsto> a)) (U(a := u))"
  using assms by (auto simp: map_ok_def ran_def)

lemma acc_ok_new:
  assumes A: "acc_ok M U A" and a: "a \<notin> ran M" and s: "M sid = None" and u: "\<not> mb_login u"
  shows "acc_ok (M(sid \<mapsto> a)) (U(a := u)) A"
proof -
  have "(M(sid \<mapsto> a)) t = Some b \<and> mb_login ((U(a := u)) b) \<and> m_accountNo ((U(a := u)) b) = acc \<longleftrightarrow>
      M t = Some b \<and> mb_login (U b) \<and> m_accountNo (U b) = acc" for t b acc
    using a s u by (auto simp: ran_def)
  with A show ?thesis by (simp add: acc_ok_def)
qed

lemma sec_ok_new:
  assumes S: "sec_ok R U S n" and a: "a \<notin> R" and u: "\<not> mb_inSector u" "m_sectorX u = -1" "m_sectorY u = -1"
  shows "sec_ok (insert a R) (U(a := u)) S n"
proof -
  have "b \<in> insert a R \<and> at_node k y x ((U(a := u)) b) \<longleftrightarrow> b \<in> R \<and> at_node k y x (U b)" for k y x b
    using a u by (auto simp: at_node_def)
  moreover have "\<forall>b \<in> insert a R. pos_ok n ((U(a := u)) b)"
    using S a u by (auto simp: sec_ok_def pos_ok_def)
  moreover have "b = d" if "b \<in> insert a R" "d \<in> insert a R" "mb_inSector ((U(a := u)) b)"
      "mb_inSector ((U(a := u)) d)" "m_sectorIter ((U(a := u)) b) = m_sectorIter ((U(a := u)) d)" for b d
    using S u that by (auto simp: sec_ok_def split: if_splits)
  moreover have "(k, b) \<in> set (S y x) \<longleftrightarrow> b \<in> R \<and> at_node k y x (U b)" "distinct (S y x)" for k y x b
    using S by (simp_all add: sec_ok_def)
  ultimately show ?thesis
    unfolding sec_ok_def by blast
qed

lemma card_insert_iff:
  assumes "finite R" and "a \<notin> R"
  shows "card {b \<in> insert a R. P ((U(a := u)) b)} = card {b \<in> R. P (U b)} + of_bool (P u)"
proof -
  have "{b \<in> insert a R. P ((U(a := u)) b)} = (if P u then insert a {b \<in> R. P (U b)} else {b \<in> R. P (U b)})"
    using assms(2) by auto
  then show ?thesis using assms by simp
qed

lemma cnt_ok_new:
  assumes C: "cnt_ok R U k l" and f: "finite R" and a: "a \<notin> R" and u: "\<not> mb_login u"
  shows "cnt_ok (insert a R) (U(a := u)) (k + 1) l"
  using C u card_insert_iff[OF f a, of mb_login U u] card_insert_iff[OF f a, of "\<lambda>u. \<not> mb_login u" U u]
  by (simp add: cnt_ok_def)

subsection \<open>Changing a user\<close>

lemma map_ok_upd:
  assumes "map_ok M U" and "m_SSID u = m_SSID (U a)"
  shows "map_ok M (U(a := u))"
  using assms by (auto simp: map_ok_def)

lemma acc_ok_upd:
  assumes "acc_ok M U A" and "mb_login u = mb_login (U a)" and "m_accountNo u = m_accountNo (U a)"
  shows "acc_ok M (U(a := u)) A"
proof -
  have "mb_login ((U(a := u)) b) = mb_login (U b) \<and> m_accountNo ((U(a := u)) b) = m_accountNo (U b)" for b
    using assms by simp
  with assms(1) show ?thesis by (simp add: acc_ok_def del: fun_upd_apply)
qed

lemma cnt_ok_upd:
  assumes "cnt_ok R U k l" and "mb_login u = mb_login (U a)"
  shows "cnt_ok R (U(a := u)) k l"
proof -
  have "mb_login ((U(a := u)) b) = mb_login (U b)" for b
    using assms by simp
  with assms(1) show ?thesis by (simp add: cnt_ok_def del: fun_upd_apply)
qed

lemma sec_ok_upd:
  assumes "sec_ok R U S n" and "mb_inSector u = mb_inSector (U a)" and "m_sectorX u = m_sectorX (U a)"
    and "m_sectorY u = m_sectorY (U a)" and "m_sectorIter u = m_sectorIter (U a)"
  shows "sec_ok R (U(a := u)) S n"
proof -
  have "at_node k y x ((U(a := u)) b) = at_node k y x (U b)" "pos_ok n ((U(a := u)) b) = pos_ok n (U b)"
    "mb_inSector ((U(a := u)) b) = mb_inSector (U b)" "m_sectorIter ((U(a := u)) b) = m_sectorIter (U b)" for k y x b
    using assms by (simp_all add: at_node_def pos_ok_def)
  with assms(1) show ?thesis by (simp add: sec_ok_def del: fun_upd_apply)
qed

subsection \<open>Login and logout\<close>

lemma acc_ok_login:
  assumes A: "acc_ok M U A" and M: "map_ok M U" and s: "M sid = Some a" and new: "A acc = None"
    and out: "\<not> mb_login (U a)" and u: "mb_login u" "m_accountNo u = acc"
  shows "acc_ok M (U(a := u)) (A(acc \<mapsto> sid))"
  unfolding acc_ok_def
proof (intro allI)
  fix acc' sid'
  show "(A(acc \<mapsto> sid)) acc' = Some sid' \<longleftrightarrow>
      (\<exists>b. M sid' = Some b \<and> mb_login ((U(a := u)) b) \<and> m_accountNo ((U(a := u)) b) = acc')"
  proof (cases "sid' = sid")
    case True
    have "\<not> (A acc' = Some sid)" using A s out by (auto simp: acc_ok_def)
    with True s u show ?thesis by auto
  next
    case False
    have ne: "M sid' \<noteq> Some a" using map_ok_inj[OF M s] False by blast
    have "A acc' = Some sid' \<longleftrightarrow> (\<exists>b. M sid' = Some b \<and> mb_login (U b) \<and> m_accountNo (U b) = acc')"
      using A by (simp add: acc_ok_def)
    with ne False new show ?thesis by (auto split: if_splits)
  qed
qed

lemma acc_ok_delete:
  assumes A: "acc_ok M U A" and M: "map_ok M U" and s: "M sid = Some a"
  shows "acc_ok (M(sid := None)) (U(a := u)) (if mb_login (U a) then A(m_accountNo (U a) := None) else A)"
  unfolding acc_ok_def
proof (intro allI)
  fix acc sid'
  let ?A = "if mb_login (U a) then A(m_accountNo (U a) := None) else A"
  have base: "A acc = Some t \<longleftrightarrow> (\<exists>b. M t = Some b \<and> mb_login (U b) \<and> m_accountNo (U b) = acc)" for t
    using A by (simp add: acc_ok_def)
  show "?A acc = Some sid' \<longleftrightarrow>
      (\<exists>b. (M(sid := None)) sid' = Some b \<and> mb_login ((U(a := u)) b) \<and> m_accountNo ((U(a := u)) b) = acc)"
  proof (cases "sid' = sid")
    case True
    have "?A acc \<noteq> Some sid"
    proof (cases "mb_login (U a) \<and> acc = m_accountNo (U a)")
      case False
      then have "A acc \<noteq> Some sid" using base[of sid] s by auto
      with False show ?thesis by simp
    qed simp
    with True show ?thesis by simp
  next
    case False
    have ne: "M sid' \<noteq> Some a" using map_ok_inj[OF M s] False by blast
    have "A (m_accountNo (U a)) = Some sid" if "mb_login (U a)" using A s that by (auto simp: acc_ok_def)
    then have "?A acc = Some sid' \<longleftrightarrow> A acc = Some sid'" using False by auto
    with ne False base[of sid'] show ?thesis by auto
  qed
qed

lemma map_ok_delete: "map_ok M U \<Longrightarrow> M sid = Some a \<Longrightarrow> map_ok (M(sid := None)) (U(a := u))"
  using map_ok_inj[of M U] by (auto simp: map_ok_def split: if_splits)

lemma cnt_ok_login:
  assumes C: "cnt_ok R U k l" and f: "finite R" and a: "a \<in> R" and out: "\<not> mb_login (U a)" and u: "mb_login u"
  shows "cnt_ok R (U(a := u)) (k - 1) (l + 1)"
proof -
  let ?N = "{b \<in> R. \<not> mb_login (U b)}" and ?L = "{b \<in> R. mb_login (U b)}"
  have 1: "{b \<in> R. \<not> mb_login ((U(a := u)) b)} = ?N - {a}" using u by auto
  have 2: "{b \<in> R. mb_login ((U(a := u)) b)} = insert a ?L" using u a by auto
  have 3: "card ?N = Suc (card (?N - {a}))" by (rule card.remove) (use f a out in auto)
  have 4: "card (insert a ?L) = Suc (card ?L)" using f out by simp
  show ?thesis using C unfolding cnt_ok_def 1 2 4 by (simp add: 3)
qed

lemma cnt_ok_delete:
  assumes C: "cnt_ok R U k l" and f: "finite R" and a: "a \<in> R"
  shows "cnt_ok (R - {a}) (U(a := u)) (if mb_login (U a) then k else k - 1) (if mb_login (U a) then l - 1 else l)"
proof -
  let ?N = "{b \<in> R. \<not> mb_login (U b)}" and ?L = "{b \<in> R. mb_login (U b)}"
  have 1: "{b \<in> R - {a}. \<not> mb_login ((U(a := u)) b)} = ?N - {a}" by auto
  have 2: "{b \<in> R - {a}. mb_login ((U(a := u)) b)} = ?L - {a}" by auto
  show ?thesis
  proof (cases "mb_login (U a)")
    case True
    then have "?N - {a} = ?N" by auto
    moreover have "card ?L = Suc (card (?L - {a}))" by (rule card.remove) (use f a True in auto)
    ultimately show ?thesis using C True unfolding cnt_ok_def 1 2 by simp
  next
    case False
    then have "?L - {a} = ?L" by auto
    moreover have "card ?N = Suc (card (?N - {a}))" by (rule card.remove) (use f a False in auto)
    ultimately show ?thesis using C False unfolding cnt_ok_def 1 2 by simp
  qed
qed

subsection \<open>Leaving and entering a sector\<close>

lemma sec_ok_remove:
  assumes S: "sec_ok R U S n" and a: "a \<in> R" and i: "mb_inSector (U a)"
    and S': "\<And>y x. set (S' y x) = {nd \<in> set (S y x). fst nd \<noteq> m_sectorIter (U a)}" "\<And>y x. distinct (S' y x)"
  shows "sec_ok (R - {a}) (U(a := u)) S' n"
proof -
  have inj: "b = d" if "b \<in> R" "d \<in> R" "mb_inSector (U b)" "mb_inSector (U d)" "m_sectorIter (U b) = m_sectorIter (U d)" for b d
    using S that unfolding sec_ok_def by blast
  have "(k, b) \<in> set (S' y x) \<longleftrightarrow> b \<in> R - {a} \<and> at_node k y x ((U(a := u)) b)" for k y x b
  proof -
    have "(k, b) \<in> set (S y x) \<longleftrightarrow> b \<in> R \<and> at_node k y x (U b)" using S by (simp add: sec_ok_def)
    moreover have "k \<noteq> m_sectorIter (U a) \<longleftrightarrow> b \<noteq> a" if "b \<in> R" "at_node k y x (U b)"
      using that inj[of b a] a i by (auto simp: at_node_def)
    ultimately show ?thesis unfolding S' by auto
  qed
  moreover have "\<forall>b \<in> R - {a}. pos_ok n ((U(a := u)) b)" using S by (simp add: sec_ok_def)
  moreover have "b = d" if "b \<in> R - {a}" "d \<in> R - {a}" "mb_inSector ((U(a := u)) b)" "mb_inSector ((U(a := u)) d)"
      "m_sectorIter ((U(a := u)) b) = m_sectorIter ((U(a := u)) d)" for b d
    using that inj[of b d] by simp
  ultimately show ?thesis unfolding sec_ok_def using S'(2) by blast
qed

lemma sec_ok_remove_none:
  assumes S: "sec_ok R U S n" and i: "\<not> mb_inSector (U a)"
  shows "sec_ok (R - {a}) (U(a := u)) S n"
proof -
  have "(k, b) \<in> set (S y x) \<longleftrightarrow> b \<in> R - {a} \<and> at_node k y x ((U(a := u)) b)" for k y x b
  proof -
    have "(k, b) \<in> set (S y x) \<longleftrightarrow> b \<in> R \<and> at_node k y x (U b)" using S by (simp add: sec_ok_def)
    then show ?thesis using i by (auto simp: at_node_def)
  qed
  moreover have "\<forall>b \<in> R - {a}. pos_ok n ((U(a := u)) b)" "\<forall>y x. distinct (S y x)" using S by (simp_all add: sec_ok_def)
  moreover have "b = d" if "b \<in> R - {a}" "d \<in> R - {a}" "mb_inSector ((U(a := u)) b)" "mb_inSector ((U(a := u)) d)"
      "m_sectorIter ((U(a := u)) b) = m_sectorIter ((U(a := u)) d)" for b d
    using that S by (simp add: sec_ok_def)
  ultimately show ?thesis unfolding sec_ok_def by blast
qed

lemma sec_ok_add:
  assumes S: "sec_ok R U S n" and a: "a \<notin> R" and u: "mb_inSector u" "m_sectorIter u = n"
    and p: "0 \<le> m_sectorX u" "m_sectorX u < SECTOR_MAX_X" "0 \<le> m_sectorY u" "m_sectorY u < SECTOR_MAX_Y"
    and S': "S' = S(m_sectorY u := (S (m_sectorY u))(m_sectorX u := S (m_sectorY u) (m_sectorX u) @ [(n, a)]))"
  shows "sec_ok (insert a R) (U(a := u)) S' (Suc n)"
proof -
  have base: "(k, b) \<in> set (S y x) \<longleftrightarrow> b \<in> R \<and> at_node k y x (U b)" for k y x b using S by (simp add: sec_ok_def)
  have fresh: "m_sectorIter (U b) < n" if "b \<in> R" "mb_inSector (U b)" for b
    using S that by (auto simp: sec_ok_def pos_ok_def)
  have set': "set (S' y x) = set (S y x) \<union> (if y = m_sectorY u \<and> x = m_sectorX u then {(n, a)} else {})" for y x
    by (simp add: S')
  have "(k, b) \<in> set (S' y x) \<longleftrightarrow> b \<in> insert a R \<and> at_node k y x ((U(a := u)) b)" for k y x b
    unfolding set' using base[of k b y x] a u by (auto simp: at_node_def)
  moreover have "distinct (S' y x)" for y x
  proof -
    have "distinct (S y x)" "(n, a) \<notin> set (S y x)" using S base[of n a y x] a by (simp_all add: sec_ok_def)
    then show ?thesis by (auto simp: S')
  qed
  moreover have "\<forall>b \<in> insert a R. pos_ok (Suc n) ((U(a := u)) b)"
  proof
    fix b assume "b \<in> insert a R"
    then show "pos_ok (Suc n) ((U(a := u)) b)"
      using S u p a by (cases "b = a") (auto simp: sec_ok_def pos_ok_def)
  qed
  moreover have "b = d" if "b \<in> insert a R" "d \<in> insert a R" "mb_inSector ((U(a := u)) b)" "mb_inSector ((U(a := u)) d)"
      "m_sectorIter ((U(a := u)) b) = m_sectorIter ((U(a := u)) d)" for b d
  proof -
    have old: "b = d" if "b \<in> R" "d \<in> R" "mb_inSector (U b)" "mb_inSector (U d)" "m_sectorIter (U b) = m_sectorIter (U d)"
      using S that unfolding sec_ok_def by blast
    show ?thesis
      using that old fresh[of b] fresh[of d] u a by (cases "b = a"; cases "d = a") auto
  qed
  ultimately show ?thesis unfolding sec_ok_def by blast
qed

text \<open>The two operations.\<close>

lemma user_eta: "\<not> mb_inSector u \<Longrightarrow> u\<lparr>mb_inSector := False\<rparr> = u"
  by (cases u) simp

lemma Sector_RemoveUser_ok:
  assumes S: "sec_ok R (c_users c) (c_sectors c) (c_nodes c)" and a: "a \<in> R"
  obtains S' where "Sector_RemoveUser a c =
      Some (c\<lparr>c_sectors := S', c_users := (c_users c)(a := (c_users c a)\<lparr>mb_inSector := False\<rparr>)\<rparr>)"
    "\<And>u. sec_ok (R - {a}) ((c_users c)(a := u)) S' (c_nodes c)"
proof (cases "mb_inSector (c_users c a)")
  case False
  show ?thesis
    by (rule that[of "c_sectors c"]) (use False sec_ok_remove_none[OF S] in \<open>simp_all add: Sector_RemoveUser_def user_eta\<close>)
next
  case True
  let ?u = "c_users c a"
  let ?y = "m_sectorY ?u" and ?x = "m_sectorX ?u" and ?k = "m_sectorIter ?u"
  define S' where "S' = (c_sectors c)(?y := (c_sectors c ?y)(?x := filter (\<lambda>node. fst node \<noteq> ?k) (c_sectors c ?y ?x)))"
  have base: "(k, b) \<in> set (c_sectors c y x) \<longleftrightarrow> b \<in> R \<and> at_node k y x (c_users c b)" for k y x b
    using S by (simp add: sec_ok_def)
  have mem: "(?k, a) \<in> set (c_sectors c ?y ?x)" using base a True by (simp add: at_node_def)
  have S'set: "set (S' y x) = {nd \<in> set (c_sectors c y x). fst nd \<noteq> ?k}" for y x
  proof -
    have "fst nd \<noteq> ?k" if "nd \<in> set (c_sectors c y x)" "y \<noteq> ?y \<or> x \<noteq> ?x" for nd
    proof
      assume k: "fst nd = ?k"
      obtain b where nd: "nd = (?k, b)" using k by (cases nd) auto
      then have b: "b \<in> R" "at_node ?k y x (c_users c b)" using that base by auto
      then have "b = a" using S a True unfolding sec_ok_def at_node_def by blast
      with b that(2) show False by (simp add: at_node_def)
    qed
    then show ?thesis by (auto simp: S'_def)
  qed
  have S'd: "distinct (S' y x)" for y x using S by (auto simp: S'_def sec_ok_def)
  show ?thesis
  proof (rule that[of S'])
    have "?k \<in> fst ` set (c_sectors c ?y ?x)" using mem by force
    then show "Sector_RemoveUser a c = Some (c\<lparr>c_sectors := S', c_users := (c_users c)(a := ?u\<lparr>mb_inSector := False\<rparr>)\<rparr>)"
      using True by (simp add: Sector_RemoveUser_def upd_sector_def upd_user_def S'_def Let_def)
    show "sec_ok (R - {a}) ((c_users c)(a := u)) S' (c_nodes c)" for u
      by (rule sec_ok_remove[OF S a True S'set S'd])
  qed
qed

lemma Sector_AddUser_ok:
  assumes S: "sec_ok (R - {a}) (c_users c) (c_sectors c) (c_nodes c)" and a: "a \<in> R"
    and out: "\<not> mb_inSector (c_users c a)"
    and p: "0 \<le> m_sectorX (c_users c a)" "m_sectorX (c_users c a) < SECTOR_MAX_X"
      "0 \<le> m_sectorY (c_users c a)" "m_sectorY (c_users c a) < SECTOR_MAX_Y"
  obtains S' U' where "Sector_AddUser a c = Some (c\<lparr>c_nodes := Suc (c_nodes c), c_sectors := S', c_users := U'\<rparr>)"
    "U' = (c_users c)(a := (c_users c a)\<lparr>m_sectorIter := c_nodes c, mb_inSector := True\<rparr>)"
    "sec_ok R U' S' (Suc (c_nodes c))"
proof -
  let ?u = "c_users c a"
  let ?u' = "?u\<lparr>m_sectorIter := c_nodes c, mb_inSector := True\<rparr>"
  let ?S' = "(c_sectors c)(m_sectorY ?u' := (c_sectors c (m_sectorY ?u'))(m_sectorX ?u' :=
      c_sectors c (m_sectorY ?u') (m_sectorX ?u') @ [(c_nodes c, a)]))"
  have "sec_ok (insert a (R - {a})) ((c_users c)(a := ?u')) ?S' (Suc (c_nodes c))"
    by (rule sec_ok_add[OF S _ _ _ _ _ _ _ refl]) (use p in simp_all)
  moreover have "insert a (R - {a}) = R" using a by blast
  moreover have "Sector_AddUser a c = Some (c\<lparr>c_nodes := Suc (c_nodes c), c_sectors := ?S', c_users := (c_users c)(a := ?u')\<rparr>)"
    using out by (simp add: Sector_AddUser_def upd_sector_def upd_user_def Let_def)
  ultimately show ?thesis using that by metis
qed

end
