(* ===== verification/NetRun.thy ===== *)
theory NetRun
  imports NetSafe
begin

text \<open>
  Runs of the server: the events that the system delivers, the step of the library for each, and
  the theorem that every sequence of events the system may deliver keeps the invariant.
\<close>

subsection \<open>Handlers\<close>

context derived_class begin

lemma srv_trySend:
  assumes srv: "srv_inv c st" and i: "i < n_maxSession st" and s: "x_snd c = Some i"
  shows "wpx C (CNetServer_trySend i st) (\<lambda>st'. srv_inv (send_done c) st' \<and> n_maxSession st' = n_maxSession st)"
  by (rule wpx_mono[OF trySend_inv[OF srv_net[OF srv] i s]]) (auto intro: srv_inv_lib[OF srv] simp: lib_frame_max)

lemma send_complete_inv:
  assumes srv: "srv_inv c st" and i: "i < n_maxSession st" and s: "x_snd c = Some i"
    and n: "unat n \<le> length (rb_list (s_send_buffer (sess st i)))"
  shows "wpx C (send_complete cb i n st) (\<lambda>st'. srv_inv (send_done c) st' \<and> n_maxSession st' = n_maxSession st)"
proof -
  have l: "i < length (n_sessions st)" using i net_invD(3)[OF srv_net[OF srv]] by simp
  have rf: "\<not> s_release_flag (sess st i)" using net_invD(1)[OF srv_net[OF srv] i] s by (auto simp: slot_ok_def)
  define st0 where "st0 = st\<lparr>n_sendByte := n_sendByte st + n, n_sendPacket := n_sendPacket st + s_sendPacket (sess st i)\<rparr>"
  have srv0: "srv_inv c st0"
    by (rule srv_fields[OF srv]) (auto intro!: net_inv_env[OF srv_net[OF srv]] simp: st0_def)
  define st1 where "st1 = upd_sess i (\<lambda>s. s\<lparr>s_sendPacket := 0\<rparr>) st0"
  have srv1: "srv_inv c st1" unfolding st1_def
    by (rule srv_field_upd[OF srv0]) (use i in \<open>simp_all add: st0_def\<close>)
  have s1: "n_maxSession st1 = n_maxSession st" "s_send_buffer (sess st1 i) = s_send_buffer (sess st i)"
    "\<not> s_release_flag (sess st1 i)"
    using l rf by (simp_all add: st1_def st0_def)
  have act: "sessions_of st1 i = Some (Session_GetSessionID (sess st1 i))"
    by (rule active_session[OF srv_net[OF srv1]]) (use s1 i in simp_all)
  have d: "dinv (sessions_of st1) (net.more st1)" using srv1 by (simp add: srv_inv_def)
  have "wpx C (OnSend cb (Session_GetSessionID (sess st1 i)) n st1) (\<lambda>st2. wpx C (CNetServer_trySend i
       (upd_sess i (\<lambda>s. s\<lparr>s_send_buffer := RingBuffer_MoveFront (s_send_buffer s) n\<rparr>) st2))
      (\<lambda>st'. srv_inv (send_done c) st' \<and> n_maxSession st' = n_maxSession st))"
  proof (rule wpx_mono[OF send[OF srv_net[OF srv1] d act refl]])
    fix st2 assume A: "net_inv c st2 \<and> net_frame st1 st2 \<and> dinv (sessions_of st1) (net.more st2) \<and>
        (\<forall>j. s_send_buffer (sess st2 j) = s_send_buffer (sess st1 j))"
    have srv2: "srv_inv c st2" by (rule srv_inv_cb[OF srv1]) (use A in auto)
    have i2: "i < n_maxSession st2" "n_maxSession st2 = n_maxSession st"
      using A i s1 by (auto simp: net_frame_def)
    note M = rb_MoveFront[OF net_bufs(1)[OF srv_net[OF srv2] i2(1)], of n]
    let ?st3 = "upd_sess i (\<lambda>s. s\<lparr>s_send_buffer := RingBuffer_MoveFront (s_send_buffer s) n\<rparr>) st2"
    have srv3: "srv_inv c ?st3"
      by (rule srv_field_upd[OF srv2 i2(1)]) (use M A n s1 net_bufs(2)[OF srv_net[OF srv2] i2(1)] in \<open>auto simp: slot_ok_def bufs_ok_def\<close>)
    show "wpx C (CNetServer_trySend i ?st3) (\<lambda>st'. srv_inv (send_done c) st' \<and> n_maxSession st' = n_maxSession st)"
      using srv_trySend[OF srv3 _ s] i2 by simp
  qed
  then show ?thesis
    by (simp add: send_complete_def Let_def st0_def [symmetric] st1_def [symmetric])
qed

lemma release_inv:
  assumes srv: "srv_inv c st" and i: "i < n_maxSession st" and r: "x_rel c = Some i"
  shows "wpx C (CNetServer_release cb i st) (\<lambda>st'. srv_inv (rel_done c) st' \<and> n_maxSession st' = n_maxSession st)"
proof -
  note inv = srv_net[OF srv]
  have S: "s_disconnect (sess st i)" "s_release_flag (sess st i)" "of_nat i \<notin> set (n_empty st)"
      "s_session_index (sess st i) = of_nat i"
    using net_invD(1)[OF inv i] r by (auto simp: slot_ok_def)
  define m where "m = sessions_of st"
  have mi: "m i = Some (Session_GetSessionID (sess st i))" using i S by (simp add: m_def sessions_of_def)
  have d: "dinv m (net.more st)" using srv by (simp add: srv_inv_def m_def)
  let ?Q = "\<lambda>st'. srv_inv (rel_done c) st' \<and> n_maxSession st' = n_maxSession st"
  have "wpx C (OnClientLeave cb (Session_GetSessionID (sess st i)) st) (\<lambda>st1.
      let st2 = upd_sess i (\<lambda>s. s\<lparr>s_session_id := 0\<rparr>) st1
      in wpx C (release_drain i (s_send_q (sess st2 i)) st2) (\<lambda>st3.
        let st4 = st3\<lparr>n_open := n_open st3 - {s_sock (sess st3 i)}\<rparr>;
            st5 = upd_sess i (\<lambda>s. s\<lparr>s_sock := INVALID_SOCKET\<rparr>) st4
        in ?Q (st5\<lparr>n_empty := s_session_index (sess st5 i) # n_empty st5, n_sessionCnt := n_sessionCnt st5 - 1\<rparr>)))"
  proof (rule wpx_mono[OF leave[OF inv d mi m_def[symmetric]]])
    fix st1 assume A: "net_inv c st1 \<and> net_frame st st1 \<and> dinv (m(i := None)) (net.more st1)"
    have m1: "n_maxSession st1 = n_maxSession st" "n_empty st1 = n_empty st" using A by (auto simp: net_frame_def)
    have i1: "i < n_maxSession st1" using i m1 by simp
    have l1: "i < length (n_sessions st1)" using i1 net_invD(3)[of c st1] A by simp
    let ?st2 = "upd_sess i (\<lambda>s. s\<lparr>s_session_id := 0\<rparr>) st1"
    have inv2: "net_inv c ?st2" by (rule sess_field_inv) (use A i1 in simp_all)
    have "wpx C (release_drain i (s_send_q (sess ?st2 i)) ?st2) (\<lambda>st3.
        let st4 = st3\<lparr>n_open := n_open st3 - {s_sock (sess st3 i)}\<rparr>;
            st5 = upd_sess i (\<lambda>s. s\<lparr>s_sock := INVALID_SOCKET\<rparr>) st4
        in ?Q (st5\<lparr>n_empty := s_session_index (sess st5 i) # n_empty st5, n_sessionCnt := n_sessionCnt st5 - 1\<rparr>))"
    proof (rule wpx_mono[OF release_drain_inv[OF inv2 _ refl]])
      show "i < n_maxSession ?st2" using i1 by simp
      fix st3 assume B: "net_inv c st3 \<and> lib_frame ?st2 st3 \<and> s_send_q (sess st3 i) = [] \<and>
          s_release_flag (sess st3 i) = s_release_flag (sess ?st2 i)"
      have f3: "n_maxSession st3 = n_maxSession st" "n_empty st3 = n_empty st" "net.more st3 = net.more st1"
        using B m1 by (auto simp: lib_frame_def net_frame_def)
      have i3: "i < n_maxSession st3" using i f3 by simp
      have l3: "i < length (n_sessions st3)" using i3 net_invD(3)[of c st3] B by simp
      let ?st4 = "st3\<lparr>n_open := n_open st3 - {s_sock (sess st3 i)}\<rparr>"
      have inv4: "net_inv c ?st4" by (rule net_inv_env[OF conjunct1[OF B]]) simp_all
      let ?st5 = "upd_sess i (\<lambda>s. s\<lparr>s_sock := INVALID_SOCKET\<rparr>) ?st4"
      have inv5: "net_inv c ?st5" by (rule sess_field_inv[OF inv4]) (use i3 in simp_all)
      let ?st6 = "?st5\<lparr>n_empty := s_session_index (sess ?st5 i) # n_empty ?st5, n_sessionCnt := n_sessionCnt ?st5 - 1\<rparr>"
      have inv6: "net_inv (rel_done c) ?st6"
        by (rule push_index_inv[OF inv5 _ r]) (use i3 l3 B in simp_all)
      have idx5: "s_session_index (sess ?st5 i) = of_nat i"
        using net_invD(1)[OF inv5, of i] r i3 by (auto simp: slot_ok_def)
      have "sessions_of ?st6 = m(i := None)"
      proof
        fix j
        show "sessions_of ?st6 j = (m(i := None)) j"
        proof (cases "j < n_maxSession st \<and> j \<noteq> i")
          case True
          have b: "n_maxSession st \<le> 2 ^ 16" by (rule net_invD(7)[OF inv])
          have "(of_nat j :: u16) \<noteq> of_nat i" using True i b of_nat_u16_eq[of j i] by simp
          moreover have "Session_GetSessionID (sess st3 j) = Session_GetSessionID (sess st j)"
          proof -
            have "s_session_id (sess st3 j) = s_session_id (sess ?st2 j)"
              "s_session_index (sess st3 j) = s_session_index (sess ?st2 j)"
              using net_frame_sess(1,2)[OF lib_frame_net, of ?st2 st3 j] B True m1 net_invD(3)[of c st1] A by auto
            moreover have "s_session_id (sess st1 j) = s_session_id (sess st j)"
              "s_session_index (sess st1 j) = s_session_index (sess st j)"
              using net_frame_sess(1,2)[of st st1 j] A True net_invD(3)[OF inv] by auto
            ultimately show ?thesis using True l1 by (simp add: Session_GetSessionID_def)
          qed
          ultimately show ?thesis
            using True f3 l3 idx5 by (simp add: sessions_of_def m_def)
        next
          case False
          then show ?thesis using f3 idx5 by (auto simp: sessions_of_def m_def)
        qed
      qed
      then show "let st4 = ?st4; st5 = upd_sess i (\<lambda>s. s\<lparr>s_sock := INVALID_SOCKET\<rparr>) st4
          in ?Q (st5\<lparr>n_empty := s_session_index (sess st5 i) # n_empty st5, n_sessionCnt := n_sessionCnt st5 - 1\<rparr>)"
        using inv6 A f3 by (simp add: srv_inv_def Let_def)
    qed
    then show "let st2 = ?st2 in wpx C (release_drain i (s_send_q (sess st2 i)) st2) (\<lambda>st3.
        let st4 = st3\<lparr>n_open := n_open st3 - {s_sock (sess st3 i)}\<rparr>;
            st5 = upd_sess i (\<lambda>s. s\<lparr>s_sock := INVALID_SOCKET\<rparr>) st4
        in ?Q (st5\<lparr>n_empty := s_session_index (sess st5 i) # n_empty st5, n_sessionCnt := n_sessionCnt st5 - 1\<rparr>))"
      by (simp only: Let_def)
  qed
  then show ?thesis
    using S(1) by (simp add: CNetServer_release_def Let_def)
qed

end

subsection \<open>Events\<close>

text \<open>
  What the system delivers to a thread: a connection (or a failed \<^verbatim>\<open>accept\<close>), the end of a
  receive with the bytes \<open>d\<close> that arrived, the end of a send of \<open>n\<close> bytes, both with the error of
  a failed operation, one of the posts (the threads take them in any order), the next session of
  the time-out scan, or the application's calls of \<open>Stop\<close> and \<open>Show\<close>. \<open>event_ok\<close> says what the system guarantees: operations that end were in
  progress, and they transfer at most what was asked for.
\<close>

datatype event =
    Ev_accept "u64 option" string u16
  | Ev_recv nat bytes "u32 option"
  | Ev_send nat u32 "u32 option"
  | Ev_post nat
  | Ev_timeout nat
  | Ev_stop
  | Ev_exit nat
  | Ev_show

fun event_ok :: "'a net_scheme \<Rightarrow> event \<Rightarrow> bool" where
  "event_ok st (Ev_accept sock ip port) \<longleftrightarrow> True"
| "event_ok st (Ev_recv i d err) \<longleftrightarrow> i \<in> n_recv_io st \<and>
     length d \<le> seg_total (recv_segments (s_recv_buffer (sess st i)))"
| "event_ok st (Ev_send i n err) \<longleftrightarrow> i \<in> n_send_io st \<and>
     unat n \<le> length (rb_list (s_send_buffer (sess st i)))"
| "event_ok st (Ev_post k) \<longleftrightarrow> k < length (n_posts st)"
| "event_ok st (Ev_timeout i) \<longleftrightarrow> i < n_maxSession st"
| "event_ok st Ev_stop \<longleftrightarrow> n_isRunning st"
| "event_ok st (Ev_exit n) \<longleftrightarrow> True"
| "event_ok st Ev_show \<longleftrightarrow> True"

definition take_post :: "nat \<Rightarrow> 'a net_scheme \<Rightarrow> 'a net_scheme" where
  "take_post k st = st\<lparr>n_posts := take k (n_posts st) @ drop (Suc k) (n_posts st)\<rparr>"

fun post_completion :: "post \<Rightarrow> completion" where
  "post_completion (Post i p) = \<lparr>c_error = None, c_bytes = 0, c_session = Some i, c_overlapped = Ov_post p\<rparr>"
| "post_completion (Post_null p) = \<lparr>c_error = None, c_bytes = 0, c_session = None, c_overlapped = Ov_post p\<rparr>"
| "post_completion Post_exit = \<lparr>c_error = None, c_bytes = 0, c_session = None, c_overlapped = Ov_null\<rparr>"

definition kernel_write :: "bytes \<Rightarrow> session \<Rightarrow> session" where
  "kernel_write d s = (let rb = s_recv_buffer s in
     s\<lparr>s_recv_buffer := rb\<lparr>rb_buf := seg_write (recv_segments rb) d (rb_buf rb)\<rparr>\<rparr>)"

fun event_step :: "'a net_scheme callbacks \<Rightarrow> event \<Rightarrow> 'a net_scheme \<Rightarrow> 'a net_scheme run" where
  "event_step cb (Ev_accept sock ip port) st = runAcceptThread_body cb sock ip port st"
| "event_step cb (Ev_recv i d err) st =
     map_option fst (runIoThread_body cb
       \<lparr>c_error = err, c_bytes = of_nat (length d), c_session = Some i, c_overlapped = Ov_recv\<rparr>
       (upd_sess i (kernel_write d) (st\<lparr>n_recv_io := n_recv_io st - {i}\<rparr>)))"
| "event_step cb (Ev_send i n err) st =
     map_option fst (runIoThread_body cb
       \<lparr>c_error = err, c_bytes = n, c_session = Some i, c_overlapped = Ov_send\<rparr>
       (st\<lparr>n_send_io := n_send_io st - {i}\<rparr>))"
| "event_step cb (Ev_post k) st =
     map_option fst (runIoThread_body cb (post_completion (n_posts st ! k)) (take_post k st))"
| "event_step cb (Ev_timeout i) st = timeout_check cb i st"
| "event_step cb Ev_stop st = CNetServer_Stop cb st"
| "event_step cb (Ev_exit n) st = Some (CNetServer_Stop_exit n st)"
| "event_step cb Ev_show st = Some (snd (CNetServer_Show st))"

text \<open>A run: each event happens on some thread. An event that the system cannot deliver in the state
  reached is skipped, so a statement about all lists of events is one about all possible runs.\<close>

fun run_events :: "'a net_scheme callbacks \<Rightarrow> (tid \<times> event) list \<Rightarrow> 'a net_scheme \<Rightarrow> 'a net_scheme run" where
  "run_events cb [] st = Some st"
| "run_events cb ((t, ev) # evs) st =
     (if event_ok (st\<lparr>n_tid := t\<rparr>) ev
      then do { st \<leftarrow> event_step cb ev (st\<lparr>n_tid := t\<rparr>); run_events cb evs st }
      else run_events cb evs st)"

text \<open>
  The crash of \<^verbatim>\<open>CLog::WriteFile\<close>: the event makes a worker write a log record and the log file cannot be opened.
  \<open>log_file_fails\<close> says that a run comes to such an event.
\<close>

fun log_write_fails :: "event \<Rightarrow> 'a net_scheme \<Rightarrow> bool" where
  "log_write_fails (Ev_post k) st \<longleftrightarrow> n_posts st ! k = Post_null LOG_PEND \<and> \<not> e_opened (n_env st (n_time st))"
| "log_write_fails ev st \<longleftrightarrow> False"

fun log_file_fails :: "'a net_scheme callbacks \<Rightarrow> (tid \<times> event) list \<Rightarrow> 'a net_scheme \<Rightarrow> bool" where
  "log_file_fails cb [] st \<longleftrightarrow> False"
| "log_file_fails cb ((t, ev) # evs) st \<longleftrightarrow>
     (if event_ok (st\<lparr>n_tid := t\<rparr>) ev
      then log_write_fails ev (st\<lparr>n_tid := t\<rparr>) \<or>
        (case event_step cb ev (st\<lparr>n_tid := t\<rparr>) of None \<Rightarrow> False | Some st \<Rightarrow> log_file_fails cb evs st)
      else log_file_fails cb evs st)"

lemma writeLog_fails: "\<not> e_opened (n_env st (n_time st)) \<Longrightarrow> CNetServer_writeLog st = None"
  by (simp add: CNetServer_writeLog_def ask_def CLog_WriteFile_def split: list.split)

lemma log_write_fails_None:
  assumes "log_write_fails ev st"
  shows "event_step cb ev st = None"
proof -
  obtain k where k: "ev = Ev_post k" using assms by (cases ev) simp_all
  have "CNetServer_writeLog (take_post k st) = None"
    by (rule writeLog_fails) (use assms k in \<open>simp add: take_post_def\<close>)
  then show ?thesis using assms k by (simp add: runIoThread_body_def)
qed

lemma log_file_fails_None: "log_file_fails cb evs st \<Longrightarrow> run_events cb evs st = None"
proof (induction evs arbitrary: st)
  case (Cons te evs)
  obtain t ev where te: "te = (t, ev)" by (cases te)
  show ?case
  proof (cases "event_step cb ev (st\<lparr>n_tid := t\<rparr>)")
    case None
    then show ?thesis using Cons by (simp add: te split: if_splits)
  next
    case (Some st1)
    then have "\<not> log_write_fails ev (st\<lparr>n_tid := t\<rparr>)" using log_write_fails_None by fastforce
    then show ?thesis using Cons Some by (simp add: te split: if_splits)
  qed
qed simp

subsection \<open>Taking an event into the running step\<close>

lemma struct_ok_take_post:
  assumes "struct_ok n len emp cnt rio sio ps"
  shows "struct_ok n len emp cnt rio sio (take k ps @ drop (Suc k) ps)"
proof -
  have "set (take k ps @ drop (Suc k) ps) \<subseteq> set ps"
    by (auto dest: in_set_takeD in_set_dropD)
  with assms show ?thesis unfolding struct_ok_def by blast
qed

lemma take_post_simps [simp]:
  "n_sessions (take_post k st) = n_sessions st" "n_maxSession (take_post k st) = n_maxSession st"
  "n_posts (take_post k st) = take k (n_posts st) @ drop (Suc k) (n_posts st)"
  "n_empty (take_post k st) = n_empty st" "n_recv_io (take_post k st) = n_recv_io st"
  "n_send_io (take_post k st) = n_send_io st" "net.more (take_post k st) = net.more st"
  by (simp_all add: take_post_def)

definition rel_own :: "nat \<Rightarrow> ctx \<Rightarrow> ctx" where
  "rel_own i c = c\<lparr>x_rel := Some i\<rparr>"

lemma rel_own_simps [simp]:
  "x_pins (rel_own i c) = x_pins c" "x_held (rel_own i c) = x_held c" "x_recv (rel_own i c) = x_recv c"
  "x_snd (rel_own i c) = x_snd c" "x_rel (rel_own i c) = Some i" "x_log (rel_own i c) = x_log c"
  by (simp_all add: rel_own_def)

lemma rel_done_own: "x_rel c = None \<Longrightarrow> rel_done (rel_own i c) = c"
  by (simp add: rel_done_def rel_own_def)

lemma no_ctx_simps [simp]:
  "x_pins no_ctx i = 0" "x_held no_ctx = {#}" "x_recv no_ctx = None" "x_snd no_ctx = None"
  "x_rel no_ctx = None" "x_log no_ctx = 0"
  by (simp_all add: no_ctx_def)

text \<open>The context in which the handler of a post runs.\<close>

fun post_ctx :: "post \<Rightarrow> ctx" where
  "post_ctx (Post i SEND_PEND) = own_send i (pin i no_ctx)"
| "post_ctx (Post i RELEASE_PEND) = rel_own i (pin i no_ctx)"
| "post_ctx (Post i _) = pin i no_ctx"
| "post_ctx (Post_null LOG_PEND) = no_ctx\<lparr>x_log := 1\<rparr>"
| "post_ctx _ = no_ctx"

text \<open>A post of each kind is taken: its reference is now the one of the handler.\<close>

lemma slot_ok_take:
  assumes "slot_ok i v s" and "v_pins v = 0" and "\<not> v_snd v" and "\<not> v_relc v"
  shows "0 < v_sendp v \<Longrightarrow> slot_ok i (v\<lparr>v_sendp := v_sendp v - 1, v_pins := 1, v_snd := True\<rparr>) s"
    and "0 < v_cancel v \<Longrightarrow> slot_ok i (v\<lparr>v_cancel := v_cancel v - 1, v_pins := 1\<rparr>) s"
    and "0 < v_rel v \<Longrightarrow> slot_ok i (v\<lparr>v_rel := v_rel v - 1, v_pins := 1, v_relc := True\<rparr>) s"
proof -
  assume "0 < v_sendp v"
  then obtain n where n: "v_sendp v = Suc n" by (cases "v_sendp v") auto
  then show "slot_ok i (v\<lparr>v_sendp := v_sendp v - 1, v_pins := 1, v_snd := True\<rparr>) s"
    using assms by (cases "s_release_flag s"; cases "v_recv v") (simp_all add: slot_ok_def)
next
  assume "0 < v_cancel v"
  then obtain n where n: "v_cancel v = Suc n" by (cases "v_cancel v") auto
  then show "slot_ok i (v\<lparr>v_cancel := v_cancel v - 1, v_pins := 1\<rparr>) s"
    using assms by (cases "s_release_flag s"; cases "v_recv v") (simp_all add: slot_ok_def)
next
  assume "0 < v_rel v"
  then obtain n where n: "v_rel v = Suc n" by (cases "v_rel v") auto
  then show "slot_ok i (v\<lparr>v_rel := v_rel v - 1, v_pins := 1, v_relc := True\<rparr>) s"
    using assms by (cases "s_release_flag s"; cases "v_recv v") (simp_all add: slot_ok_def)
qed

lemma view_take_post:
  assumes k: "k < length (n_posts st)" and p: "n_posts st ! k = Post i p"
  shows "j \<noteq> i \<Longrightarrow> view (post_ctx (Post i p)) (take_post k st) j = view no_ctx st j"
    and "p = SEND_PEND \<Longrightarrow> 0 < v_sendp (view no_ctx st i) \<and> view (post_ctx (Post i p)) (take_post k st) i =
      (view no_ctx st i)\<lparr>v_sendp := v_sendp (view no_ctx st i) - 1, v_pins := 1, v_snd := True\<rparr>"
    and "p = CANCEL_IO \<Longrightarrow> 0 < v_cancel (view no_ctx st i) \<and> view (post_ctx (Post i p)) (take_post k st) i =
      (view no_ctx st i)\<lparr>v_cancel := v_cancel (view no_ctx st i) - 1, v_pins := 1\<rparr>"
    and "p = RELEASE_PEND \<Longrightarrow> 0 < v_rel (view no_ctx st i) \<and> view (post_ctx (Post i p)) (take_post k st) i =
      (view no_ctx st i)\<lparr>v_rel := v_rel (view no_ctx st i) - 1, v_pins := 1, v_relc := True\<rparr>"
proof -
  note cnt = count_list_take_post[OF k]
  show "view (post_ctx (Post i p)) (take_post k st) j = view no_ctx st j" if "j \<noteq> i"
    using that cnt[of "Post j SEND_PEND"] cnt[of "Post j CANCEL_IO"] cnt[of "Post j RELEASE_PEND"] p
    by (cases p) (simp_all add: view_eq_iff)
  note eqs = cnt[of "Post i SEND_PEND"] cnt[of "Post i CANCEL_IO"] cnt[of "Post i RELEASE_PEND"]
  show "0 < v_sendp (view no_ctx st i) \<and> view (post_ctx (Post i p)) (take_post k st) i =
      (view no_ctx st i)\<lparr>v_sendp := v_sendp (view no_ctx st i) - 1, v_pins := 1, v_snd := True\<rparr>"
    if "p = SEND_PEND" using that eqs p by (simp add: view_def)
  show "0 < v_cancel (view no_ctx st i) \<and> view (post_ctx (Post i p)) (take_post k st) i =
      (view no_ctx st i)\<lparr>v_cancel := v_cancel (view no_ctx st i) - 1, v_pins := 1\<rparr>"
    if "p = CANCEL_IO" using that eqs p by (simp add: view_def)
  show "0 < v_rel (view no_ctx st i) \<and> view (post_ctx (Post i p)) (take_post k st) i =
      (view no_ctx st i)\<lparr>v_rel := v_rel (view no_ctx st i) - 1, v_pins := 1, v_relc := True\<rparr>"
    if "p = RELEASE_PEND" using that eqs p by (simp add: view_def)
qed

lemma take_post_inv:
  assumes inv: "net_inv no_ctx st" and k: "k < length (n_posts st)"
  shows "net_inv (post_ctx (n_posts st ! k)) (take_post k st)"
proof -
  note cnt = count_list_take_post[OF k]
  note so = net_invD(2)[OF inv]
  have kin: "n_posts st ! k \<in> set (n_posts st)" using k by simp
  show ?thesis
  proof (cases "n_posts st ! k")
    case (Post i p)
    then have i: "i < n_maxSession st" and p: "p = SEND_PEND \<or> p = CANCEL_IO \<or> p = RELEASE_PEND"
      using so kin by (auto simp: struct_ok_def)
    note v = view_take_post[OF k Post]
    have lc: "count_list (n_posts (take_post k st)) (Post_null LOG_PEND) = count_list (n_posts st) (Post_null LOG_PEND)"
      using cnt[of "Post_null LOG_PEND"] Post by simp
    have pc: "x_held (post_ctx (Post i p)) = {#}" "x_log (post_ctx (Post i p)) = 0" by (cases p; simp)+
    have "net_inv (post_ctx (Post i p)) (take_post k st)"
    proof (rule net_inv_slot[OF inv i])
      show "view (post_ctx (Post i p)) (take_post k st) j = view no_ctx st j \<and> sess (take_post k st) j = sess st j"
        if "j \<noteq> i" for j using v(1)[OF that] by simp
      show "slot_ok i (view (post_ctx (Post i p)) (take_post k st) i) (sess (take_post k st) i)"
        if S: "slot_ok i (view no_ctx st i) (sess st i)"
        using p slot_ok_take[OF S] v(2-4) by (elim disjE) (simp_all del: post_ctx.simps)
      show "log_ok (n_syslog st) (n_logQueue st) (count_list (n_posts st) (Post_null LOG_PEND) + x_log no_ctx) \<Longrightarrow>
        log_ok (n_syslog (take_post k st)) (n_logQueue (take_post k st))
          (count_list (n_posts (take_post k st)) (Post_null LOG_PEND) + x_log (post_ctx (Post i p)))"
        unfolding lc pc by (simp add: take_post_def)
    qed (use inv struct_ok_take_post pc in \<open>auto simp: take_post_def net_inv_def\<close>)
    with Post show ?thesis by simp
  next
    case (Post_null p)
    show ?thesis
    proof (rule net_inv_views[OF inv])
      show "view (post_ctx (n_posts st ! k)) (take_post k st) j = view no_ctx st j" for j
        using Post_null cnt[of "Post j SEND_PEND"] cnt[of "Post j CANCEL_IO"] cnt[of "Post j RELEASE_PEND"]
        by (cases p) (auto simp: view_eq_iff)
      show "log_ok (n_syslog (take_post k st)) (n_logQueue (take_post k st))
          (count_list (n_posts (take_post k st)) (Post_null LOG_PEND) + x_log (post_ctx (n_posts st ! k)))"
        using net_invD(5)[OF inv] cnt[of "Post_null LOG_PEND"] Post_null
        by (cases p) (auto simp: take_post_def)
      show "pk_ok (n_pool (take_post k st)) (n_packets (take_post k st))
          (queued (n_sessions st) + x_held (post_ctx (n_posts st ! k)))"
        using net_invD(4)[OF inv] Post_null by (cases p) (auto simp: take_post_def)
    qed (use so struct_ok_take_post in \<open>auto simp: take_post_def\<close>)
  next
    case Post_exit
    show ?thesis
    proof (rule net_inv_views[OF inv])
      show "view (post_ctx (n_posts st ! k)) (take_post k st) j = view no_ctx st j" for j
        using Post_exit cnt[of "Post j SEND_PEND"] cnt[of "Post j CANCEL_IO"] cnt[of "Post j RELEASE_PEND"]
        by (auto simp: view_eq_iff)
      show "log_ok (n_syslog (take_post k st)) (n_logQueue (take_post k st))
          (count_list (n_posts (take_post k st)) (Post_null LOG_PEND) + x_log (post_ctx (n_posts st ! k)))"
        using net_invD(5)[OF inv] cnt[of "Post_null LOG_PEND"] Post_exit by (auto simp: take_post_def)
    qed (use so struct_ok_take_post net_invD(4)[OF inv] Post_exit in \<open>auto simp: take_post_def\<close>)
  qed
qed


lemma next_sessID_nz: "next_sessID sid \<noteq> 0"
proof (cases "sid + 1 = 0")
  case True
  have "sid + 2 = (sid + 1) + 1" by simp
  then have "sid + 2 = 1" unfolding True by simp
  with True show ?thesis unfolding next_sessID_def by (simp only: if_True refl one_neq_zero not_False_eq_True simp_thms)
next
  case False
  then show ?thesis unfolding next_sessID_def by (simp only: if_False not_False_eq_True)
qed

lemma writeLog_inv:
  assumes inv: "net_inv (no_ctx\<lparr>x_log := 1\<rparr>) st"
  shows "wpx (C \<or> \<not> e_opened (n_env st (n_time st))) (CNetServer_writeLog st)
    (\<lambda>st'. net_inv no_ctx st' \<and> lib_frame st st' \<and> n_sessions st' = n_sessions st)"
proof (cases "e_opened (n_env st (n_time st))")
  case False
  then show ?thesis by (simp add: writeLog_fails)
next
  case True
  note L = net_invD(5)[OF inv]
  obtain a q where q: "n_logQueue st = a # q"
    using L by (cases "n_logQueue st") (auto simp: log_ok_def)
  have lg: "lg_inv (n_syslog st) (insert a (set q))" and a: "a \<notin> set q" using L q by (auto simp: log_ok_def)
  obtain lg1 where A: "CLog_WriteFile a True (e_tm (n_env st (n_time st))) (n_syslog st) = Some lg1"
      "lg_inv lg1 (insert a (set q))"
    by (rule CLog_WriteFile_ok[OF lg])
  obtain lg2 where B: "CLog_Free (n_tid st) a lg1 = Some lg2" "lg_inv lg2 (insert a (set q) - {a})"
    by (rule CLog_Free_ok[OF A(2), of a]) simp
  define st' where "st' = st\<lparr>n_time := n_time st + 1, n_syslog := lg2, n_logQueue := q\<rparr>"
  have run: "CNetServer_writeLog st = Some st'"
    using A(1) B(1) True by (simp add: CNetServer_writeLog_def q ask_def st'_def)
  have "net_inv no_ctx st'"
  proof (rule net_inv_views[OF inv])
    show "view no_ctx st' j = view (no_ctx\<lparr>x_log := 1\<rparr>) st j" for j by (simp add: view_eq_iff st'_def)
    show "log_ok (n_syslog st') (n_logQueue st') (count_list (n_posts st') (Post_null LOG_PEND) + x_log no_ctx)"
      using L q a B(2) by (simp add: st'_def log_ok_def)
  qed (use net_invD(2,4)[OF inv] in \<open>simp_all add: st'_def\<close>)
  then show ?thesis
    by (simp add: run) (simp add: st'_def lib_frame_def net_frame_def)
qed

lemma recv_ended_inv:
  assumes inv: "net_inv no_ctx st" and i: "i \<in> n_recv_io st"
    and d: "length d \<le> seg_total (recv_segments (s_recv_buffer (sess st i)))"
  shows "net_inv (recv_own i (pin i no_ctx)) (upd_sess i (kernel_write d) (st\<lparr>n_recv_io := n_recv_io st - {i}\<rparr>))"
proof -
  let ?st = "upd_sess i (kernel_write d) (st\<lparr>n_recv_io := n_recv_io st - {i}\<rparr>)"
  have m: "i < n_maxSession st" using net_invD(2)[OF inv] i by (auto simp: struct_ok_def)
  note len = net_invD(3)[OF inv]
  note B = net_bufs(3,4)[OF inv m]
  let ?rb = "s_recv_buffer (sess st i)"
  note b = rb_written[OF B(1) d]
  show ?thesis
  proof (rule net_inv_slot[OF inv m])
    show "view (recv_own i (pin i no_ctx)) ?st j = view no_ctx st j \<and> sess ?st j = sess st j" if "j \<noteq> i" for j
      using that m len by (simp add: view_eq_iff)
    show "slot_ok i (view (recv_own i (pin i no_ctx)) ?st i) (sess ?st i)"
      if S: "slot_ok i (view no_ctx st i) (sess st i)"
      using S i m len b B(2) by (simp add: slot_ok_def kernel_write_def Let_def bufs_ok_def)
  qed (use inv m len in \<open>auto simp: net_inv_def struct_ok_def kernel_write_def Let_def\<close>)
qed

lemma send_ended_inv:
  assumes inv: "net_inv no_ctx st" and i: "i \<in> n_send_io st"
  shows "net_inv (own_send i (pin i no_ctx)) (st\<lparr>n_send_io := n_send_io st - {i}\<rparr>)"
proof -
  let ?st = "st\<lparr>n_send_io := n_send_io st - {i}\<rparr>"
  have m: "i < n_maxSession st" using net_invD(2)[OF inv] i by (auto simp: struct_ok_def)
  show ?thesis
  proof (rule net_inv_slot[OF inv m])
    show "view (own_send i (pin i no_ctx)) ?st j = view no_ctx st j \<and> sess ?st j = sess st j" if "j \<noteq> i" for j
      using that by (simp add: view_eq_iff)
    show "slot_ok i (view (own_send i (pin i no_ctx)) ?st i) (sess ?st i)"
      if S: "slot_ok i (view no_ctx st i) (sess st i)"
      using S i by (simp add: slot_ok_def)
  qed (use inv m in \<open>auto simp: net_inv_def struct_ok_def\<close>)
qed

context derived_class begin

lemma srv_updateIOCount:
  assumes srv: "srv_inv (pin i c) st" and i: "i < n_maxSession st"
    and r: "x_recv c = Some i \<or> x_snd c = Some i \<Longrightarrow> 0 < x_pins c i"
  shows "wpx C (CNetServer_updateIOCount i st) (\<lambda>rs. srv_inv c (snd rs) \<and> lib_frame st (snd rs))"
  by (rule wpx_mono[OF updateIOCount_back[OF srv_net[OF srv] i r]]) (auto intro: srv_inv_lib[OF srv])

lemma gqcs_failed_inv:
  assumes srv: "srv_inv c st"
  shows "wpx C (gqcs_failed err sid st) (\<lambda>st'. srv_inv c st' \<and> lib_frame st st' \<and> n_sessions st' = n_sessions st)"
proof -
  have go: "wpx C (CNetServer_Log ''SYS'' enLOG_LEVEL_ERROR
             (''GQCS return 0 ['' @ fmt_d (sint err) @ ''] session id : '' @ fmt_d (sint sid) @
              '' Count '' @ fmt_d (sint cnt)) st1)
      (\<lambda>st'. srv_inv c st' \<and> lib_frame st st' \<and> n_sessions st' = n_sessions st)"
    if "srv_inv c st1" "lib_frame st st1" "n_sessions st1 = n_sessions st" for st1 and cnt :: u32
    by (rule wpx_mono[OF srv_Log[OF that(1) _ log_text3]])
      (use that(2,3) lib_frame_trans[OF that(2)] in simp_all)
  have a: "srv_inv c (st\<lparr>n_semiTimeOut := w\<rparr>)" "srv_inv c (st\<lparr>n_AbortedByLocal := w\<rparr>)" for w
    by (rule srv_fields[OF srv]; auto intro!: net_inv_env[OF srv_net[OF srv]])+
  have f: "lib_frame st (st\<lparr>n_semiTimeOut := w\<rparr>)" "lib_frame st (st\<lparr>n_AbortedByLocal := w\<rparr>)" for w
    by (simp_all add: lib_frame_def net_frame_def)
  let ?p = "if err = 121 then (n_semiTimeOut st + 1, st\<lparr>n_semiTimeOut := n_semiTimeOut st + 1\<rparr>)
    else if err = 1236 then (n_AbortedByLocal st + 1, st\<lparr>n_AbortedByLocal := n_AbortedByLocal st + 1\<rparr>)
    else (0, st)"
  have p: "srv_inv c (snd ?p)" "lib_frame st (snd ?p)" "n_sessions (snd ?p) = n_sessions st"
    using srv a f by simp_all
  show ?thesis
    unfolding gqcs_failed_def Let_def split_def by (rule wpx_if) (use srv go[OF p] in simp_all)
qed

text \<open>A pass of the worker thread for a session: what is left to show is the handler.\<close>

lemma runIoThread_body_inv:
  assumes srv: "srv_inv c st" and i: "i < n_maxSession st"
    and h: "\<And>st1. srv_inv c st1 \<Longrightarrow> n_maxSession st1 = n_maxSession st \<Longrightarrow> n_sessions st1 = n_sessions st \<Longrightarrow>
      wpx C (session_completion cb n i ov st1) (\<lambda>st'. srv_inv (pin i no_ctx) st' \<and> n_maxSession st' = n_maxSession st)"
    and ov: "ov \<noteq> Ov_null"
  shows "wpx C (runIoThread_body cb \<lparr>c_error = err, c_bytes = n, c_session = Some i, c_overlapped = ov\<rparr> st)
    (\<lambda>rs. srv_inv no_ctx (fst rs) \<and> n_maxSession (fst rs) = n_maxSession st)"
proof -
  have fin: "wpx C (session_completion cb n i ov st1) (\<lambda>st2. wpx C (CNetServer_updateIOCount i st2)
      (\<lambda>rs. srv_inv no_ctx (snd rs) \<and> n_maxSession (snd rs) = n_maxSession st))"
    if "srv_inv c st1" "n_maxSession st1 = n_maxSession st" "n_sessions st1 = n_sessions st" for st1
  proof (rule wpx_mono[OF h[OF that]])
    fix st2 assume A: "srv_inv (pin i no_ctx) st2 \<and> n_maxSession st2 = n_maxSession st"
    show "wpx C (CNetServer_updateIOCount i st2)
      (\<lambda>rs. srv_inv no_ctx (snd rs) \<and> n_maxSession (snd rs) = n_maxSession st)"
      by (rule wpx_mono[OF srv_updateIOCount[OF conjunct1[OF A]]]) (use A i in \<open>auto simp: lib_frame_max\<close>)
  qed
  show ?thesis
  proof (cases err)
    case None
    then show ?thesis using fin[OF srv] ov by (simp add: runIoThread_body_def split_def)
  next
    case (Some e)
    have "wpx C (gqcs_failed e (Session_GetSessionID (sess st i)) st)
      (\<lambda>st1. wpx C (session_completion cb n i ov st1) (\<lambda>st2. wpx C (CNetServer_updateIOCount i st2)
      (\<lambda>rs. srv_inv no_ctx (snd rs) \<and> n_maxSession (snd rs) = n_maxSession st)))"
      by (rule wpx_mono[OF gqcs_failed_inv[OF srv]]) (auto intro!: fin simp: lib_frame_max)
    with Some ov show ?thesis by (simp add: runIoThread_body_def split_def)
  qed
qed

lemma srv_recv_done:
  assumes "srv_inv c st" and "i < n_maxSession st" and "x_recv c = Some i" and "s_disconnect (sess st i)"
  shows "srv_inv (recv_done c) st"
  by (rule srv_inv_lib[OF assms(1) recv_done_inv[OF srv_net[OF assms(1)] assms(2,3)]]) (use assms in simp_all)

lemma srv_send_done:
  assumes "srv_inv c st" and "i < n_maxSession st" and "x_snd c = Some i"
  shows "srv_inv (send_done c) st"
  by (rule srv_inv_lib[OF assms(1) send_done_inv[OF srv_net[OF assms(1)] assms(2,3)]]) simp

lemma recv_event_inv:
  assumes srv: "srv_inv no_ctx st" and ok: "event_ok st (Ev_recv i d err)"
  shows "wpx C (event_step cb (Ev_recv i d err) st) (\<lambda>st'. srv_inv no_ctx st' \<and> n_maxSession st' = n_maxSession st)"
proof -
  note inv = srv_net[OF srv]
  let ?c = "recv_own i (pin i no_ctx)"
  let ?st = "upd_sess i (kernel_write d) (st\<lparr>n_recv_io := n_recv_io st - {i}\<rparr>)"
  let ?n = "of_nat (length d) :: u32"
  have io: "i \<in> n_recv_io st" and d: "length d \<le> seg_total (recv_segments (s_recv_buffer (sess st i)))"
    using ok by simp_all
  have i: "i < n_maxSession st" using net_invD(2)[OF inv] io by (auto simp: struct_ok_def)
  have l: "i < length (n_sessions st)" using i net_invD(3)[OF inv] by simp
  note B = net_bufs(3,4)[OF inv i]
  have total: "seg_total (recv_segments (s_recv_buffer (sess st i))) =
      rb_capacity (s_recv_buffer (sess st i)) - length (rb_list (s_recv_buffer (sess st i)))"
    by (rule recv_segments_total[OF B(1)])
  have dle: "length d \<le> 2000" using d B(2) unfolding total by simp
  then have un: "unat ?n = length d" by (simp add: unat_of_nat take_bit_nat_eq_self)
  note M = rb_MoveRear[OF B(1) d[unfolded total] un]
  have "sessions_of ?st = sessions_of (st\<lparr>n_recv_io := n_recv_io st - {i}\<rparr>)"
    by (rule sessions_of_upd) (use l in \<open>simp_all add: kernel_write_def Let_def\<close>)
  also have "\<dots> = sessions_of st" by (rule ext) (simp add: sessions_of_def)
  finally have srv1: "srv_inv ?c ?st"
    by (intro srv_upd[OF srv recv_ended_inv[OF inv io d]]) simp_all
  have h: "wpx C (session_completion cb ?n i Ov_recv st1) (\<lambda>st'. srv_inv (pin i no_ctx) st' \<and> n_maxSession st' = n_maxSession ?st)"
    if A: "srv_inv ?c st1" "n_maxSession st1 = n_maxSession ?st" "n_sessions st1 = n_sessions ?st" for st1
  proof -
    have i1: "i < n_maxSession st1" using A i by simp
    have rb1: "s_recv_buffer (sess st1 i) = (s_recv_buffer (sess st i))
        \<lparr>rb_buf := seg_write (recv_segments (s_recv_buffer (sess st i))) d (rb_buf (s_recv_buffer (sess st i)))\<rparr>"
      using A l by (simp add: kernel_write_def Let_def)
    note D = srv_disconnect[OF A(1) i1]
    have "wpx C (Some (CNetServer_disconnect i st1)) (\<lambda>st'. srv_inv (pin i no_ctx) st' \<and> n_maxSession st' = n_maxSession ?st)"
      using srv_recv_done[OF D(1), of i] D lib_frame_max[OF D(2)] A i1 by (simp add: recv_done_own)
    moreover have "wpx C (recv_complete cb i ?n st1) (\<lambda>st'. srv_inv (pin i no_ctx) st' \<and> n_maxSession st' = n_maxSession ?st)"
      by (rule wpx_mono[OF recv_complete_inv[OF A(1) i1 _ M(1)[folded rb1] M(3)[folded rb1, unfolded B(2)]]])
        (use A in \<open>simp_all add: recv_done_own\<close>)
    ultimately show ?thesis by (simp add: session_completion_def)
  qed
  have "wpx C (runIoThread_body cb \<lparr>c_error = err, c_bytes = ?n, c_session = Some i, c_overlapped = Ov_recv\<rparr> ?st)
    (\<lambda>rs. srv_inv no_ctx (fst rs) \<and> n_maxSession (fst rs) = n_maxSession ?st)"
    by (rule runIoThread_body_inv[OF srv1 _ h]) (use i in simp_all)
  then show ?thesis by (simp add: wpx_map)
qed

lemma send_event_inv:
  assumes srv: "srv_inv no_ctx st" and ok: "event_ok st (Ev_send i n err)"
  shows "wpx C (event_step cb (Ev_send i n err) st) (\<lambda>st'. srv_inv no_ctx st' \<and> n_maxSession st' = n_maxSession st)"
proof -
  note inv = srv_net[OF srv]
  let ?c = "own_send i (pin i no_ctx)"
  let ?st = "st\<lparr>n_send_io := n_send_io st - {i}\<rparr>"
  have io: "i \<in> n_send_io st" and n: "unat n \<le> length (rb_list (s_send_buffer (sess st i)))"
    using ok by simp_all
  have i: "i < n_maxSession st" using net_invD(2)[OF inv] io by (auto simp: struct_ok_def)
  have "sessions_of ?st = sessions_of st" by (rule ext) (simp add: sessions_of_def)
  then have srv1: "srv_inv ?c ?st"
    by (intro srv_upd[OF srv send_ended_inv[OF inv io]]) simp_all
  have h: "wpx C (session_completion cb n i Ov_send st1) (\<lambda>st'. srv_inv (pin i no_ctx) st' \<and> n_maxSession st' = n_maxSession ?st)"
    if A: "srv_inv ?c st1" "n_maxSession st1 = n_maxSession ?st" "n_sessions st1 = n_sessions ?st" for st1
  proof -
    have i1: "i < n_maxSession st1" using A i by simp
    note D = srv_disconnect[OF A(1) i1]
    have "wpx C (Some (CNetServer_disconnect i st1)) (\<lambda>st'. srv_inv (pin i no_ctx) st' \<and> n_maxSession st' = n_maxSession ?st)"
      using srv_send_done[OF D(1), of i] lib_frame_max[OF D(2)] A i1 by (simp add: send_done_own)
    moreover have "wpx C (send_complete cb i n st1) (\<lambda>st'. srv_inv (pin i no_ctx) st' \<and> n_maxSession st' = n_maxSession ?st)"
      by (rule wpx_mono[OF send_complete_inv[OF A(1) i1]]) (use A n in \<open>simp_all add: send_done_own\<close>)
    ultimately show ?thesis by (simp add: session_completion_def)
  qed
  have "wpx C (runIoThread_body cb \<lparr>c_error = err, c_bytes = n, c_session = Some i, c_overlapped = Ov_send\<rparr> ?st)
    (\<lambda>rs. srv_inv no_ctx (fst rs) \<and> n_maxSession (fst rs) = n_maxSession ?st)"
    by (rule runIoThread_body_inv[OF srv1 _ h]) (use i in simp_all)
  then show ?thesis by (simp add: wpx_map)
qed

lemma srv_take_post:
  assumes srv: "srv_inv no_ctx st" and k: "k < length (n_posts st)"
  shows "srv_inv (post_ctx (n_posts st ! k)) (take_post k st)"
proof -
  have "sessions_of (take_post k st) = sessions_of st" by (rule ext) (simp add: sessions_of_def)
  then show ?thesis by (intro srv_upd[OF srv take_post_inv[OF srv_net[OF srv] k]]) simp_all
qed

lemma post_handler_inv:
  assumes srv: "srv_inv (post_ctx (Post i p)) st" and i: "i < n_maxSession st"
    and p: "p = SEND_PEND \<or> p = CANCEL_IO \<or> p = RELEASE_PEND"
  shows "wpx C (session_completion cb 0 i (Ov_post p) st)
    (\<lambda>st'. srv_inv (pin i no_ctx) st' \<and> n_maxSession st' = n_maxSession st)"
proof -
  consider "p = SEND_PEND" | "p = CANCEL_IO" | "p = RELEASE_PEND" using p by blast
  then show ?thesis
  proof cases
    case 1
    then have "srv_inv (own_send i (pin i no_ctx)) st" using srv by simp
    from srv_trySend[OF this i] show ?thesis by (simp add: session_completion_def 1 send_done_own)
  next
    case 2
    then show ?thesis using srv by (simp add: session_completion_def)
  next
    case 3
    then have "srv_inv (rel_own i (pin i no_ctx)) st" using srv by simp
    from release_inv[OF this i] show ?thesis by (simp add: session_completion_def 3 rel_done_own)
  qed
qed

lemma post_event_inv:
  assumes srv: "srv_inv no_ctx st" and ok: "event_ok st (Ev_post k)"
  shows "wpx (C \<or> log_write_fails (Ev_post k) st) (event_step cb (Ev_post k) st)
    (\<lambda>st'. srv_inv no_ctx st' \<and> n_maxSession st' = n_maxSession st)"
proof -
  have k: "k < length (n_posts st)" using ok by simp
  note srv1 = srv_take_post[OF srv k]
  have kin: "n_posts st ! k \<in> set (n_posts st)" using k by simp
  show ?thesis
  proof (cases "n_posts st ! k")
    case (Post i p)
    then have i: "i < n_maxSession st" and p: "p = SEND_PEND \<or> p = CANCEL_IO \<or> p = RELEASE_PEND"
      using net_invD(2)[OF srv_net[OF srv]] kin by (auto simp: struct_ok_def)
    have "wpx C (runIoThread_body cb \<lparr>c_error = None, c_bytes = 0, c_session = Some i, c_overlapped = Ov_post p\<rparr> (take_post k st))
      (\<lambda>rs. srv_inv no_ctx (fst rs) \<and> n_maxSession (fst rs) = n_maxSession (take_post k st))"
    proof (rule runIoThread_body_inv[OF srv1[unfolded Post]])
      fix st1 assume A: "srv_inv (post_ctx (Post i p)) st1" "n_maxSession st1 = n_maxSession (take_post k st)"
      show "wpx C (session_completion cb 0 i (Ov_post p) st1)
          (\<lambda>st'. srv_inv (pin i no_ctx) st' \<and> n_maxSession st' = n_maxSession (take_post k st))"
        using post_handler_inv[OF A(1) _ p] A(2) i by simp
    qed (use i in simp_all)
    then show ?thesis using Post by (simp add: wpx_map)
  next
    case (Post_null p)
    show ?thesis
    proof (cases "p = LOG_PEND")
      case True
      then have srv2: "srv_inv (no_ctx\<lparr>x_log := 1\<rparr>) (take_post k st)" using srv1 Post_null by simp
      have "wpx (C \<or> log_write_fails (Ev_post k) st) (CNetServer_writeLog (take_post k st))
          (\<lambda>st'. srv_inv no_ctx st' \<and> n_maxSession st' = n_maxSession st)"
        by (rule wpx_mono[OF wpx_weaken[OF writeLog_inv[OF srv_net[OF srv2]]]])
          (use lib_frame_max[of "take_post k st"] Post_null True in \<open>auto simp: take_post_def intro: srv_inv_lib[OF srv2]\<close>)
      then show ?thesis using Post_null True by (simp add: runIoThread_body_def)
    next
      case False
      then have srv2: "srv_inv no_ctx (take_post k st)" using srv1 Post_null by (cases p) simp_all
      have "wpx C (CNetServer_Log ''SYS'' enLOG_LEVEL_ERROR ''fault Post Queue '' (take_post k st))
          (\<lambda>st'. srv_inv no_ctx st' \<and> n_maxSession st' = n_maxSession st)"
        by (rule wpx_mono[OF srv_Log[OF srv2]]) (use lib_frame_max[of "take_post k st"] in auto)
      then show ?thesis using Post_null False by (simp add: runIoThread_body_def)
    qed
  next
    case Post_exit
    then show ?thesis using srv1 by (simp add: runIoThread_body_def)
  qed
qed

lemma timeout_check_inv:
  assumes srv: "srv_inv no_ctx st" and i: "i < n_maxSession st"
  shows "wpx C (timeout_check cb i st) (\<lambda>st'. srv_inv no_ctx st' \<and> n_maxSession st' = n_maxSession st)"
proof -
  define st0 where "st0 = snd (ask st)"
  define e where "e = n_env st (n_time st)"
  have srv0: "srv_inv no_ctx st0" unfolding st0_def
    by (rule srv_inv_lib[OF srv ask_inv[OF srv_net[OF srv]]])
  have i0: "i < n_maxSession st0" "n_maxSession st0 = n_maxSession st" using i by (simp_all add: st0_def)
  define st1 where "st1 = io_inc i st0"
  have l0: "i < length (n_sessions st0)" using i0 net_invD(3)[OF srv_net[OF srv0]] by simp
  have srv1: "srv_inv (pin i no_ctx) st1" unfolding st1_def
    by (rule srv_inv_lib[OF srv0 io_inc_inv[OF srv_net[OF srv0] i0(1)] lib_frame_io_inc[OF l0]])
  have i1: "i < n_maxSession st1" "n_maxSession st1 = n_maxSession st" using i0 by (simp_all add: st1_def)
  let ?Q = "\<lambda>st'. srv_inv no_ctx st' \<and> n_maxSession st' = n_maxSession st"
  have fin: "wpx C (CNetServer_updateIOCount i st2) (\<lambda>rs. ?Q (snd rs))"
    if "srv_inv (pin i no_ctx) st2" "n_maxSession st2 = n_maxSession st" for st2
    by (rule wpx_mono[OF srv_updateIOCount[OF that(1)]]) (use that(2) i in \<open>auto simp: lib_frame_max\<close>)
  have warn: "wpx C (OnClientTimeout cb (Session_GetSessionID (sess st1 i)) st1) (\<lambda>st2.
      wpx C (CNetServer_Log ''SYS'' enLOG_LEVEL_DEBUG (''Timeout session '' @
          fmt_d (sint (Session_GetSessionID (sess st1 i))) @ '' tick '' @ fmt_d n @ '' '' @ fmt_d m) st2)
        (\<lambda>st3. wpx C (CNetServer_updateIOCount i st3) (\<lambda>rs. ?Q (snd rs))))"
    if rf: "\<not> s_release_flag (sess st1 i)" for n m
  proof -
    have d: "dinv (sessions_of st1) (net.more st1)" using srv1 by (simp add: srv_inv_def)
    show ?thesis
    proof (rule wpx_mono[OF timeout[OF srv_net[OF srv1] d active_session[OF srv_net[OF srv1] i1(1) rf] refl]])
      fix st2 assume A: "net_inv (pin i no_ctx) st2 \<and> net_frame st1 st2 \<and> dinv (sessions_of st1) (net.more st2)"
      have srv2: "srv_inv (pin i no_ctx) st2" by (rule srv_inv_cb[OF srv1]) (use A in auto)
      have m2: "n_maxSession st2 = n_maxSession st" using A i1 by (auto simp: net_frame_def)
      show "wpx C (CNetServer_Log ''SYS'' enLOG_LEVEL_DEBUG (''Timeout session '' @
            fmt_d (sint (Session_GetSessionID (sess st1 i))) @ '' tick '' @ fmt_d n @ '' '' @ fmt_d m) st2)
          (\<lambda>st3. wpx C (CNetServer_updateIOCount i st3) (\<lambda>rs. ?Q (snd rs)))"
        by (rule wpx_mono[OF srv_Log[OF srv2 _ log_text3]]) (use m2 in \<open>auto intro!: fin simp: lib_frame_max\<close>)
    qed
  qed
  show ?thesis
    using warn fin[OF srv1 i1(2)]
    by (simp add: timeout_check_def split_def Let_def st0_def [symmetric] e_def [symmetric] st1_def [symmetric])
qed

lemma accept_inv:
  assumes srv: "srv_inv no_ctx st"
  shows "wpx C (runAcceptThread_body cb sock ip port st) (\<lambda>st'. srv_inv no_ctx st' \<and> n_maxSession st' = n_maxSession st)"
proof -
  let ?Q = "\<lambda>st'. srv_inv no_ctx st' \<and> n_maxSession st' = n_maxSession st"
  have same: "srv_inv no_ctx (st\<lparr>n_acceptErr := w\<rparr>)" "srv_inv no_ctx (st\<lparr>n_totalAccept := v\<rparr>)" for w v
    by (rule srv_fields[OF srv]; auto intro!: net_inv_env[OF srv_net[OF srv]])+
  have go: "wpx C (let i = unat index;
      st1 = io_inc i (st0\<lparr>n_empty := rest\<rparr>);
      sid = n_sessID st1;
      (e, st2) = ask (st1\<lparr>n_sessID := next_sessID sid\<rparr>);
      st3 = upd_sess i (accept_init i clientSock ip port (e_tick e) sid) st2;
      st4 = st3\<lparr>n_open := insert clientSock (n_open st3), n_sessionCnt := n_sessionCnt st3 + 1\<rparr>
    in OnClientJoin cb (Session_GetSessionID (sess st4 i)) st4 \<bind> (\<lambda>st5.
       CNetServer_recvPost i st5 \<bind> (\<lambda>(_, st6).
       CNetServer_updateIOCount i st6 \<bind> (\<lambda>(_, st7). Some st7)))) ?Q"
    if srv0: "srv_inv no_ctx st0" and m0: "n_maxSession st0 = n_maxSession st" and e0: "n_empty st0 = index # rest"
    for st0 index rest clientSock
  proof -
    note inv = srv_net[OF srv0]
    let ?i = "unat index"
    have i: "?i < n_maxSession st0" using net_invD(2)[OF inv] e0 by (auto simp: struct_ok_def)
    have l: "?i < length (n_sessions st0)" using i net_invD(3)[OF inv] by simp
    define sid where "sid = n_sessID st0"
    define e where "e = n_env st0 (n_time st0)"
    define st4 where "st4 = (let st1 = io_inc ?i (st0\<lparr>n_empty := rest\<rparr>); st2 = snd (ask (st1\<lparr>n_sessID := next_sessID sid\<rparr>));
      st3 = upd_sess ?i (accept_init ?i clientSock ip port (e_tick e) sid) st2
      in st3\<lparr>n_open := insert clientSock (n_open st3), n_sessionCnt := n_sessionCnt st3 + 1\<rparr>)"
    have S4: "n_sessions st4 = (n_sessions st0)[?i := accept_init ?i clientSock ip port (e_tick e) sid
        ((sess st0 ?i)\<lparr>s_io_count := s_io_count (sess st0 ?i) + 1\<rparr>)]"
      using l by (simp add: st4_def Let_def ask_def io_inc_def upd_sess_def)
    have F4: "n_maxSession st4 = n_maxSession st0" "n_empty st4 = rest" "n_sessionCnt st4 = n_sessionCnt st0 + 1"
      "n_recv_io st4 = n_recv_io st0" "n_send_io st4 = n_send_io st0" "n_posts st4 = n_posts st0"
      "n_pool st4 = n_pool st0" "n_packets st4 = n_packets st0" "n_syslog st4 = n_syslog st0"
      "n_logQueue st4 = n_logQueue st0" "n_env st4 = n_env st0" "n_sessID st4 \<noteq> 0"
      "net.more st4 = net.more st0"
      using next_sessID_nz by (simp_all add: st4_def Let_def ask_def io_inc_def upd_sess_def)
    have inv4: "net_inv (recv_own ?i (pin ?i no_ctx)) st4"
      by (rule pop_index_inv[OF inv e0 _ S4]) (use F4 in simp_all)
    have i4: "?i < n_maxSession st4" using i F4 by simp
    define m where "m = sessions_of st0"
    have d: "dinv m (net.more st4)" using srv0 F4 by (simp add: srv_inv_def m_def)
    have mi: "m ?i = None" by (simp add: m_def sessions_of_def e0)
    have dist: "index \<notin> set rest" using net_invD(2)[OF inv] e0 by (simp add: struct_ok_def)
    have so: "sessions_of st4 = m(?i \<mapsto> Session_GetSessionID (sess st4 ?i))"
    proof
      fix j
      show "sessions_of st4 j = (m(?i \<mapsto> Session_GetSessionID (sess st4 ?i))) j"
      proof (cases "j = ?i")
        case True
        then show ?thesis using i4 F4 dist by (simp add: sessions_of_def)
      next
        case False
        have "(of_nat j :: u16) \<noteq> index" if "j < n_maxSession st0"
          using that False net_invD(7)[OF inv] unat_of_nat_u16[of j] by auto
        then show ?thesis using False F4 S4 e0 by (auto simp: sessions_of_def m_def)
      qed
    qed
    have "wpx C (OnClientJoin cb (Session_GetSessionID (sess st4 ?i)) st4) (\<lambda>st5. wpx C (CNetServer_recvPost ?i st5)
        (\<lambda>rs. wpx C (CNetServer_updateIOCount ?i (snd rs)) (\<lambda>rs. ?Q (snd rs))))"
    proof (rule wpx_mono[OF join[OF inv4 d mi so]])
      fix st5 assume A: "net_inv (recv_own ?i (pin ?i no_ctx)) st5 \<and> net_frame st4 st5 \<and>
          dinv (m(?i \<mapsto> Session_GetSessionID (sess st4 ?i))) (net.more st5)"
      have "sessions_of st5 = sessions_of st4"
        by (rule sessions_of_frame) (use A net_invD(3)[OF inv4] in auto)
      then have srv5: "srv_inv (recv_own ?i (pin ?i no_ctx)) st5" using A so by (simp add: srv_inv_def)
      have m5: "n_maxSession st5 = n_maxSession st" using A F4 m0 by (auto simp: net_frame_def)
      show "wpx C (CNetServer_recvPost ?i st5)
        (\<lambda>rs. wpx C (CNetServer_updateIOCount ?i (snd rs)) (\<lambda>rs. ?Q (snd rs)))"
      proof (rule wpx_mono[OF srv_recvPost[OF srv5]])
        show "?i < n_maxSession st5" using m5 i m0 by simp
        fix rs assume B: "srv_inv (recv_done (recv_own ?i (pin ?i no_ctx))) (snd rs) \<and> lib_frame st5 (snd rs)"
        then have srv6: "srv_inv (pin ?i no_ctx) (snd rs)" by (simp add: recv_done_own)
        have m6: "n_maxSession (snd rs) = n_maxSession st" using B m5 lib_frame_max by metis
        show "wpx C (CNetServer_updateIOCount ?i (snd rs)) (\<lambda>rs. ?Q (snd rs))"
          by (rule wpx_mono[OF srv_updateIOCount[OF srv6]]) (use m6 i m0 in \<open>auto simp: lib_frame_max\<close>)
      qed simp
    qed
    moreover have "n_sessID (io_inc ?i (st0\<lparr>n_empty := rest\<rparr>)) = sid"
      "n_env (io_inc ?i (st0\<lparr>n_empty := rest\<rparr>)) (n_time (io_inc ?i (st0\<lparr>n_empty := rest\<rparr>))) = e"
      by (simp_all add: io_inc_def sid_def e_def)
    ultimately show ?thesis
      by (simp add: Let_def split_def) (simp add: st4_def Let_def)
  qed
  let ?st0 = "st\<lparr>n_totalAccept := n_totalAccept st + 1\<rparr>"
  show ?thesis
  proof (cases sock)
    case None
    then show ?thesis using same(1) by (simp add: runAcceptThread_body_def)
  next
    case (Some clientSock)
    show ?thesis
    proof (cases "OnConnectionRequest cb ip port ?st0")
      case False
      then show ?thesis using same(2) Some by (simp add: runAcceptThread_body_def)
    next
      case True
      show ?thesis
      proof (cases "n_empty st")
        case Nil
        then show ?thesis using same(2) Some by (simp add: runAcceptThread_body_def Let_def)
      next
        case (Cons index rest)
        from go[OF same(2), of "n_totalAccept st + 1" index rest clientSock] Cons Some True
        show ?thesis by (simp add: runAcceptThread_body_def Let_def)
      qed
    qed
  qed
qed

lemma stop_loop_inv:
  assumes "srv_inv no_ctx st" and "\<forall>i \<in> set is. i < n_maxSession st"
  shows "wpx C (stop_loop is st) (\<lambda>st'. srv_inv no_ctx st' \<and> n_maxSession st' = n_maxSession st)"
  using assms
proof (induction "is" arbitrary: st)
  case (Cons i "is")
  note srv = Cons.prems(1)
  have i: "i < n_maxSession st" using Cons.prems(2) by simp
  let ?Q = "\<lambda>st'. srv_inv no_ctx st' \<and> n_maxSession st' = n_maxSession st"
  have rest: "wpx C (stop_loop is st1) ?Q" if "srv_inv no_ctx st1" "n_maxSession st1 = n_maxSession st" for st1
    using Cons.IH[OF that(1)] that(2) Cons.prems(2) by simp
  show ?case
  proof (cases "s_release_flag (sess st i)")
    case True
    then show ?thesis using rest[OF srv] by simp
  next
    case False
    have "s_session_index (sess st i) = of_nat i"
      using net_invD(1)[OF srv_net[OF srv] i] False by (auto simp: slot_ok_def)
    then have "unat (sid_index (Session_GetSessionID (sess st i))) < n_maxSession st"
      using i net_invD(7)[OF srv_net[OF srv]] by (simp add: unat_of_nat_u16)
    note D = DisconnectSession_inv[OF srv_net[OF srv] this, of C]
    have "wpx C (CNetServer_DisconnectSession (Session_GetSessionID (sess st i)) st) (\<lambda>st1. wpx C (stop_loop is st1) ?Q)"
      by (rule wpx_mono[OF D]) (auto intro!: rest intro: srv_inv_lib[OF srv] simp: lib_frame_max)
    with False show ?thesis by simp
  qed
qed simp

lemma stop_event_inv:
  assumes srv: "srv_inv no_ctx st" and ok: "event_ok st Ev_stop"
  shows "wpx C (event_step cb Ev_stop st) (\<lambda>st'. srv_inv no_ctx st' \<and> n_maxSession st' = n_maxSession st)"
proof -
  have "srv_inv no_ctx (st\<lparr>n_isRunning := False\<rparr>)"
    by (rule srv_fields[OF srv]) (auto intro!: net_inv_env[OF srv_net[OF srv]])
  from stop_loop_inv[OF this, of "[0..<n_maxSession st]"] ok show ?thesis
    by (simp add: CNetServer_Stop_def)
qed

lemma show_event_inv:
  assumes "srv_inv no_ctx st"
  shows "wpx C (event_step cb Ev_show st) (\<lambda>st'. srv_inv no_ctx st' \<and> n_maxSession st' = n_maxSession st)"
  by (simp add: CNetServer_Show_def)
    (rule srv_fields[OF assms]; auto intro!: net_inv_env[OF srv_net[OF assms]])

lemma exit_event_inv:
  assumes srv: "srv_inv no_ctx st"
  shows "wpx C (event_step cb (Ev_exit n) st) (\<lambda>st'. srv_inv no_ctx st' \<and> n_maxSession st' = n_maxSession st)"
proof -
  let ?st = "st\<lparr>n_posts := n_posts st @ replicate n Post_exit\<rparr>"
  have c0: "count_list (replicate n Post_exit) p = 0" if "p \<noteq> Post_exit" for p
    using that by (induction n) simp_all
  have "net_inv no_ctx ?st"
  proof (rule net_inv_views[OF srv_net[OF srv]])
    show "view no_ctx ?st j = view no_ctx st j" for j by (simp add: view_eq_iff c0)
    show "struct_ok (n_maxSession st) (length (n_sessions st)) (n_empty ?st) (n_sessionCnt ?st)
       (n_recv_io ?st) (n_send_io ?st) (n_posts ?st)"
      using net_invD(2)[OF srv_net[OF srv]] by (auto simp: struct_ok_def)
  qed (use net_invD(4,5)[OF srv_net[OF srv]] in \<open>simp_all add: c0\<close>)
  then have "srv_inv no_ctx ?st" by (rule srv_fields[OF srv]) simp_all
  with srv show ?thesis by (simp add: CNetServer_Stop_exit_def)
qed

text \<open>Every event, on every thread.\<close>

lemma event_step_inv:
  assumes srv: "srv_inv no_ctx st" and ok: "event_ok st ev"
  shows "wpx (C \<or> log_write_fails ev st) (event_step cb ev st)
    (\<lambda>st'. srv_inv no_ctx st' \<and> n_maxSession st' = n_maxSession st)"
proof (cases ev)
  case (Ev_accept sock ip port)
  then show ?thesis using accept_inv[OF srv] by simp
next
  case (Ev_recv i d err)
  then show ?thesis using recv_event_inv[OF srv] ok by (simp del: event_step.simps event_ok.simps)
next
  case (Ev_send i n err)
  then show ?thesis using send_event_inv[OF srv] ok by (simp del: event_step.simps event_ok.simps)
next
  case (Ev_post k)
  then show ?thesis using post_event_inv[OF srv] ok by blast
next
  case (Ev_timeout i)
  then show ?thesis using timeout_check_inv[OF srv] ok by simp
next
  case Ev_stop
  then show ?thesis using stop_event_inv[OF srv] ok by (simp del: event_step.simps event_ok.simps)
next
  case (Ev_exit n)
  then show ?thesis using exit_event_inv[OF srv] by (simp del: event_step.simps)
next
  case Ev_show
  then show ?thesis using show_event_inv[OF srv] by (simp del: event_step.simps)
qed

lemma srv_on_thread: "srv_inv no_ctx st \<Longrightarrow> srv_inv no_ctx (st\<lparr>n_tid := t\<rparr>)"
  by (rule srv_fields) (auto intro!: net_inv_env[OF srv_net])

lemma run_events_inv:
  assumes "srv_inv no_ctx st"
  shows "wpx (C \<or> log_file_fails cb evs st) (run_events cb evs st)
    (\<lambda>st'. srv_inv no_ctx st' \<and> n_maxSession st' = n_maxSession st)"
  using assms
proof (induction evs arbitrary: st)
  case (Cons te evs)
  obtain t ev where te: "te = (t, ev)" by (cases te)
  let ?Q = "\<lambda>st'. srv_inv no_ctx st' \<and> n_maxSession st' = n_maxSession st"
  show ?case
  proof (cases "event_ok (st\<lparr>n_tid := t\<rparr>) ev")
    case True
    note E = event_step_inv[OF srv_on_thread[OF Cons.prems] True]
    show ?thesis
    proof (cases "event_step cb ev (st\<lparr>n_tid := t\<rparr>)")
      case None
      then show ?thesis using E True by (simp add: te)
    next
      case (Some st1)
      then have "srv_inv no_ctx st1 \<and> n_maxSession st1 = n_maxSession st" using wpx_SomeE[OF E Some] by simp
      then show ?thesis using Cons.IH[of st1] True Some
        by (auto simp: te elim!: wpx_weaken)
    qed
  next
    case False
    then show ?thesis using Cons.IH[OF Cons.prems] by (simp add: te)
  qed
qed simp

end

end
