(* ===== verification/ChatSafe.thy ===== *)
theory ChatSafe
  imports ChatInv NetRun
begin

text \<open>
  The callbacks of the chat server keep its invariant and that of the network library, so
  \<^verbatim>\<open>ChatServer\<close> meets the contract of a derived class.
\<close>

subsection \<open>The derived members and the library\<close>

lemma upd_chat_simps [simp]:
  "net.more (upd_chat f st) = f (net.more st)"
  "n_sessions (upd_chat f st) = n_sessions st" "n_maxSession (upd_chat f st) = n_maxSession st"
  "n_packets (upd_chat f st) = n_packets st" "n_pool (upd_chat f st) = n_pool st"
  "n_tid (upd_chat f st) = n_tid st" "n_env (upd_chat f st) = n_env st" "n_time (upd_chat f st) = n_time st"
  "n_packetKey (upd_chat f st) = n_packetKey st" "n_packetCode (upd_chat f st) = n_packetCode st"
  by (cases st; simp add: upd_chat_def)+

lemma net_inv_upd_chat [simp]: "net_inv c (upd_chat f st) = net_inv c st"
proof -
  have "view c (upd_chat f st) i = view c st i" for i by (cases st) (simp add: view_def upd_chat_def)
  moreover have "n_empty (upd_chat f st) = n_empty st" "n_sessionCnt (upd_chat f st) = n_sessionCnt st"
    "n_recv_io (upd_chat f st) = n_recv_io st" "n_send_io (upd_chat f st) = n_send_io st"
    "n_posts (upd_chat f st) = n_posts st" "n_syslog (upd_chat f st) = n_syslog st"
    "n_logQueue (upd_chat f st) = n_logQueue st" "n_sessID (upd_chat f st) = n_sessID st"
    by (cases st; simp add: upd_chat_def)+
  ultimately show ?thesis by (simp only: net_inv_def upd_chat_simps)
qed

lemma net_frame_upd_chat [simp]: "net_frame st (upd_chat f st)"
  by (cases st) (simp add: net_frame_def upd_chat_def)

lemma net_frame_then_upd: "net_frame st0 st \<Longrightarrow> net_frame st0 (upd_chat f st)"
  by (rule net_frame_trans[OF _ net_frame_upd_chat])

lemma sessions_of_upd_chat [simp]: "sessions_of (upd_chat f st) = sessions_of st"
proof
  fix i
  have "n_empty (upd_chat f st) = n_empty st" by (cases st) (simp add: upd_chat_def)
  then show "sessions_of (upd_chat f st) i = sessions_of st i" by (simp add: sessions_of_def)
qed

lemma sessions_of_index:
  assumes inv: "net_inv c st" and s: "sessions_of st i = Some sid"
  shows "i < n_maxSession st" and "unat (sid_index sid) = i"
proof -
  show i: "i < n_maxSession st" using s by (simp add: sessions_of_def split: if_splits)
  have "of_nat i \<notin> set (n_empty st)" "sid = Session_GetSessionID (sess st i)"
    using s by (simp_all add: sessions_of_def split: if_splits)
  then have "sid_index sid = of_nat i" using net_invD(1)[OF inv i] by (simp add: slot_ok_def)
  then show "unat (sid_index sid) = i" using i net_invD(7)[OF inv] by (simp add: unat_of_nat_u16)
qed

subsection \<open>Locks\<close>

lemma lock_fields [simp]:
  "c_users (acquire l c) = c_users c" "c_userMap (acquire l c) = c_userMap c"
  "c_accountMap (acquire l c) = c_accountMap c" "c_sectors (acquire l c) = c_sectors c"
  "c_nodes (acquire l c) = c_nodes c" "c_connectCnt (acquire l c) = c_connectCnt c"
  "c_loginCnt (acquire l c) = c_loginCnt c" "c_userPool (acquire l c) = c_userPool c"
  "c_held (acquire l c) = l # c_held c"
  "c_users (unlock l c) = c_users c" "c_userMap (unlock l c) = c_userMap c"
  "c_accountMap (unlock l c) = c_accountMap c" "c_sectors (unlock l c) = c_sectors c"
  "c_nodes (unlock l c) = c_nodes c" "c_connectCnt (unlock l c) = c_connectCnt c"
  "c_loginCnt (unlock l c) = c_loginCnt c" "c_userPool (unlock l c) = c_userPool c"
  "c_held (unlock l c) = remove1 l (c_held c)" "c_order (unlock l c) = c_order c"
  by (simp_all add: acquire_def unlock_def)

lemma order_acquire:
  "c_order (acquire l c) \<longleftrightarrow> c_order c \<and> (\<forall>h \<in> set (c_held c). lock_rank h < lock_rank l \<or> private_lock c h)"
  by (simp add: acquire_def)

lemma chat_ok_fields:
  assumes "chat_ok m c" and "c_users c' = c_users c" and "c_userMap c' = c_userMap c"
    and "c_accountMap c' = c_accountMap c" and "c_sectors c' = c_sectors c" and "c_nodes c' = c_nodes c"
    and "c_connectCnt c' = c_connectCnt c" and "c_loginCnt c' = c_loginCnt c" and "c_userPool c' = c_userPool c"
  shows "chat_ok m c'"
  using assms by (simp add: chat_ok_def)

lemma chat_ok_lock [simp]: "chat_ok m (acquire l c) = chat_ok m c" "chat_ok m (unlock l c) = chat_ok m c"
  by (auto intro: chat_ok_fields)

text \<open>Sectors in strictly ascending order, after locks of lower rank.\<close>

definition pos_less :: "int \<times> int \<Rightarrow> int \<times> int \<Rightarrow> bool" where
  "pos_less p q \<longleftrightarrow> snd p < snd q \<or> snd p = snd q \<and> fst p < fst q"

definition sector_lock :: "int \<times> int \<Rightarrow> lock" where
  "sector_lock p = L_sector (snd p) (fst p)"

lemma LockSectors_fields [simp]:
  "c_users (LockSectors ps c) = c_users c" "c_userMap (LockSectors ps c) = c_userMap c"
  "c_accountMap (LockSectors ps c) = c_accountMap c" "c_sectors (LockSectors ps c) = c_sectors c"
  "c_nodes (LockSectors ps c) = c_nodes c" "c_connectCnt (LockSectors ps c) = c_connectCnt c"
  "c_loginCnt (LockSectors ps c) = c_loginCnt c" "c_userPool (LockSectors ps c) = c_userPool c"
  "c_held (LockSectors ps c) = rev (map sector_lock ps) @ c_held c"
  by (induction ps c rule: LockSectors.induct) (simp_all add: sector_lock_def)

lemma UnlockSectors_fields [simp]:
  "c_users (UnlockSectors ps c) = c_users c" "c_userMap (UnlockSectors ps c) = c_userMap c"
  "c_accountMap (UnlockSectors ps c) = c_accountMap c" "c_sectors (UnlockSectors ps c) = c_sectors c"
  "c_nodes (UnlockSectors ps c) = c_nodes c" "c_connectCnt (UnlockSectors ps c) = c_connectCnt c"
  "c_loginCnt (UnlockSectors ps c) = c_loginCnt c" "c_userPool (UnlockSectors ps c) = c_userPool c"
  "c_order (UnlockSectors ps c) = c_order c"
  by (induction ps c rule: UnlockSectors.induct) simp_all

lemma LockSectors_order:
  assumes "c_order c" and "sorted_wrt pos_less ps"
    and "\<And>h p. h \<in> set (c_held c) \<Longrightarrow> p \<in> set ps \<Longrightarrow> lock_rank h < lock_rank (sector_lock p)"
  shows "c_order (LockSectors ps c)"
  using assms
proof (induction ps c rule: LockSectors.induct)
  case (2 x y ps c)
  have l: "lock_rank h < lock_rank (L_sector y x)" if "h \<in> set (c_held c)" for h
    using 2(4)[OF that, of "(x, y)"] by (simp add: sector_lock_def)
  have "c_order (acquire (L_sector y x) c)" using 2(2) l by (simp add: order_acquire)
  moreover have "lock_rank h < lock_rank (sector_lock p)"
    if h: "h \<in> set (c_held (acquire (L_sector y x) c))" and p: "p \<in> set ps" for h p
  proof (cases "h = L_sector y x")
    case True
    have "pos_less (x, y) p" using 2(3) p by simp
    with True show ?thesis by (cases p) (auto simp: pos_less_def sector_lock_def less_prod_def)
  next
    case False
    then show ?thesis using 2(4)[of h p] h p by simp
  qed
  ultimately show ?case using 2(1) 2(3) by simp
qed simp

lemma UnlockSectors_held:
  assumes "c_held c = rev (map sector_lock ps) @ H" and "distinct ps"
  shows "c_held (UnlockSectors ps c) = H"
  using assms
proof (induction ps c rule: UnlockSectors.induct)
  case (2 x y ps c)
  have "L_sector y x \<notin> set (rev (map sector_lock ps))"
    using 2(3) by (auto simp: sector_lock_def)
  then have "c_held (unlock (L_sector y x) c) = rev (map sector_lock ps) @ H"
    using 2(2) by (simp add: remove1_append sector_lock_def)
  then show ?case using 2(1) 2(3) by simp
qed simp

lemma pos_less_distinct: "sorted_wrt pos_less ps \<Longrightarrow> distinct ps"
  by (induction ps) (auto simp: pos_less_def)

definition on_map :: "int \<times> int \<Rightarrow> bool" where
  "on_map p \<longleftrightarrow> 0 \<le> fst p \<and> fst p < SECTOR_MAX_X \<and> 0 \<le> snd p \<and> snd p < SECTOR_MAX_Y"

lemma GetSectorAround_row_eq:
  "(if y < 0 \<or> SECTOR_MAX_Y \<le> y then [] else GetSectorAround_row (x - 1) y) =
     filter on_map [(x - 1, y), (x, y), (x + 1, y)]"
proof (cases "y < 0 \<or> SECTOR_MAX_Y \<le> y")
  case True
  then have "\<not> on_map (k, y)" for k by (auto simp: on_map_def)
  with True show ?thesis by simp
next
  case False
  have "x - 1 + 2 = x + 1" by simp
  with False show ?thesis by (simp add: GetSectorAround_row_def Let_def on_map_def)
qed

lemma GetSectorAround_eq:
  "GetSectorAround x y = filter on_map
     ([(x - 1, y - 1), (x, y - 1), (x + 1, y - 1)] @ [(x - 1, y), (x, y), (x + 1, y)] @
      [(x - 1, y + 1), (x, y + 1), (x + 1, y + 1)])"
proof -
  have "y - 1 + 0 = y - 1" "y - 1 + 1 = y" "y - 1 + 2 = y + 1" by simp_all
  then have "GetSectorAround x y = concat (map (\<lambda>y. if y < 0 \<or> SECTOR_MAX_Y \<le> y then [] else GetSectorAround_row (x - 1) y)
      [y - 1, y, y + 1])"
    by (simp only: GetSectorAround_def Let_def list.map)
  then show ?thesis unfolding GetSectorAround_row_eq by simp
qed

lemma GetSectorAround_sorted: "sorted_wrt pos_less (GetSectorAround x y)"
  unfolding GetSectorAround_eq by (rule sorted_wrt_filter) (simp add: pos_less_def)

lemma GetSectorAround_set:
  "p \<in> set (GetSectorAround x y) \<longleftrightarrow> \<bar>fst p - x\<bar> \<le> 1 \<and> \<bar>snd p - y\<bar> \<le> 1 \<and> on_map p"
proof -
  have "p \<in> set ([(x - 1, y - 1), (x, y - 1), (x + 1, y - 1)] @ [(x - 1, y), (x, y), (x + 1, y)] @
      [(x - 1, y + 1), (x, y + 1), (x + 1, y + 1)]) \<longleftrightarrow>
      (fst p = x - 1 \<or> fst p = x \<or> fst p = x + 1) \<and> (snd p = y - 1 \<or> snd p = y \<or> snd p = y + 1)"
    by (cases p) auto
  moreover have "\<bar>n - m\<bar> \<le> 1 \<longleftrightarrow> n = m - 1 \<or> n = m \<or> n = m + 1" for n m :: int by linarith
  ultimately show ?thesis unfolding GetSectorAround_eq set_filter mem_Collect_eq by metis
qed

lemma move_sectors_sorted: "sorted_wrt pos_less (move_sectors u x y)"
  by (auto simp: move_sectors_def pos_less_def less_prod_def)

subsection \<open>Reading from a packet\<close>

definition pk_same :: "packet \<Rightarrow> packet \<Rightarrow> bool" where
  "pk_same p p' \<longleftrightarrow> (pk_inv p \<longrightarrow> pk_inv p') \<and> pk_buffer_size p' = pk_buffer_size p \<and> pk_ref_cnt p' = pk_ref_cnt p"

lemma pk_same_refl [simp]: "pk_same p p"
  by (simp add: pk_same_def)

lemma pk_same_trans: "pk_same p q \<Longrightarrow> pk_same q r \<Longrightarrow> pk_same p r"
  by (simp add: pk_same_def)

lemma GetData_same: "CPacket_GetData n p = (p', k, bs) \<Longrightarrow> pk_same p p'"
  by (auto simp: CPacket_GetData_def pk_same_def pk_inv_def split: if_splits)

lemma get_same: "CPacket_get v p = (p', w) \<Longrightarrow> pk_same p p'"
  by (auto simp: CPacket_get_def split: prod.splits intro: GetData_same)

lemma get_wchars_same: "get_wchars k arr p = (p', ws) \<Longrightarrow> pk_same p p'"
  by (auto simp: get_wchars_def split: prod.splits intro: GetData_same)

lemma ProcLogin_read_same:
  assumes "ProcLogin_read e p = (p', acc, wid, nick)"
  shows "pk_same p p'"
proof -
  obtain p1 v1 where 1: "CPacket_get (e_word e) p = (p1, v1)" by fastforce
  obtain p2 w2 where 2: "get_wchars MAX_ID_SIZE (map (e_wmem e) [0..<MAX_ID_SIZE]) p1 = (p2, w2)" by fastforce
  obtain p3 w3 where 3: "get_wchars MAX_NICK_SIZE (map (e_wmem e) [MAX_ID_SIZE..<MAX_ID_SIZE + MAX_NICK_SIZE]) p2 = (p3, w3)"
    by fastforce
  obtain p4 n4 b4 where 4: "CPacket_GetData 64 p3 = (p4, n4, b4)" by (cases "CPacket_GetData 64 p3")
  have "p' = p4" using assms by (simp add: ProcLogin_read_def 1 2 3 4)
  then show ?thesis
    using get_same[OF 1] get_wchars_same[OF 2] get_wchars_same[OF 3] GetData_same[OF 4] pk_same_trans by blast
qed

lemma ProcSectorMove_read_same:
  assumes "ProcSectorMove_read e p = (p', acc, x, y)"
  shows "pk_same p p'"
  using assms by (auto simp: ProcSectorMove_read_def split: prod.splits dest!: get_same intro: pk_same_trans)

lemma ProcMessage_read_same:
  assumes "ProcMessage_read e p = (p', acc, len)"
  shows "pk_same p p'"
  using assms by (auto simp: ProcMessage_read_def split: prod.splits dest!: get_same intro: pk_same_trans)

lemma ProcMessage_text_same: "ProcMessage_text len p = (p', ws) \<Longrightarrow> pk_same p p'"
  by (auto simp: ProcMessage_text_def split: prod.splits dest: GetData_same)

lemma net_inv_read:
  assumes inv: "net_inv c st" and p: "pk_same (n_packets st a) p"
  shows "net_inv c (st\<lparr>n_packets := (n_packets st)(a := p)\<rparr>)"
  using net_inv_packets[OF inv, of p a] p net_invD(4)[OF inv] by (simp add: pk_same_def pk_ok_def)

subsection \<open>Sending\<close>

text \<open>While a callback runs: the invariant of the derived members, and the locks it holds.\<close>

definition cs :: "(nat \<rightharpoonup> u64) \<Rightarrow> lock list \<Rightarrow> chat_server \<Rightarrow> bool" where
  "cs m H st \<longleftrightarrow> chat_ok m (chat st) \<and> c_held (chat st) = H \<and> c_order (chat st)"

lemma cs_inv: "cs m [] st \<longleftrightarrow> chat_inv m (chat st)"
  by (simp add: cs_def chat_inv_def)

lemma cs_lib: "cs m H st \<Longrightarrow> net.more st' = net.more st \<Longrightarrow> cs m H st'"
  by (simp add: cs_def)

lemma user_session:
  assumes inv: "net_inv c st" and ok: "chat_ok m (chat st)" and s: "sessions_of st = m"
    and a: "a \<in> ran (c_userMap (chat st))"
  shows "unat (sid_index (m_SSID (c_users (chat st) a))) < n_maxSession st"
proof -
  obtain sid where sid: "c_userMap (chat st) sid = Some a" using a by (auto simp: ran_def)
  then have "sid \<in> ran m" using ok by (auto simp: chat_ok_def)
  then obtain i where "sessions_of st i = Some sid" using s by (auto simp: ran_def)
  from sessions_of_index[OF inv this] have "unat (sid_index sid) < n_maxSession st" by simp
  moreover have "m_SSID (c_users (chat st) a) = sid" using ok sid by (auto simp: chat_ok_def map_ok_def)
  ultimately show ?thesis by simp
qed

lemma SendMessageUni_inv:
  assumes "net_inv c st" and "packet \<in># x_held c"
    and "unat (sid_index (m_SSID (c_users (chat st) a))) < n_maxSession st"
  shows "wpx C (ChatServer_SendMessageUni packet a st) (\<lambda>st'. net_inv c st' \<and> lib_frame st st')"
  unfolding ChatServer_SendMessageUni_def wpx_map
  by (rule wpx_mono[OF SendPacket_inv[OF assms]]) auto

lemma SendMessageSector_loop_inv:
  assumes "net_inv c st" and "packet \<in># x_held c"
    and "\<forall>nd \<in> set nds. unat (sid_index (m_SSID (c_users (chat st) (snd nd)))) < n_maxSession st"
  shows "wpx C (SendMessageSector_loop packet nds st) (\<lambda>st'. net_inv c st' \<and> lib_frame st st')"
  using assms
proof (induction nds arbitrary: st)
  case (Cons nd nds)
  obtain k a where nd: "nd = (k, a)" by (cases nd)
  have "unat (sid_index (m_SSID (c_users (chat st) a))) < n_maxSession st" using Cons.prems(3) nd by simp
  note U = SendMessageUni_inv[OF Cons.prems(1,2) this, of C]
  show ?case
    unfolding nd SendMessageSector_loop.simps wpx_bind
  proof (rule wpx_mono[OF U])
    fix st1 assume A: "net_inv c st1 \<and> lib_frame st st1"
    have "n_maxSession st1 = n_maxSession st" "chat st1 = chat st"
      using A lib_frame_max[of st st1] by (auto simp: lib_frame_def)
    then have "\<forall>nd \<in> set nds. unat (sid_index (m_SSID (c_users (chat st1) (snd nd)))) < n_maxSession st1"
      using Cons.prems(3) by simp
    from Cons.IH[OF conjunct1[OF A] Cons.prems(2) this]
    show "wpx C (SendMessageSector_loop packet nds st1) (\<lambda>st'. net_inv c st' \<and> lib_frame st st')"
      by (rule wpx_mono) (use A lib_frame_trans in blast)
  qed
qed simp

lemma SendMessageAround_loop_inv:
  assumes "net_inv c st" and "packet \<in># x_held c" and "chat_ok m (chat st)" and "sessions_of st = m"
  shows "wpx C (SendMessageAround_loop packet ps st) (\<lambda>st'. net_inv c st' \<and> lib_frame st st')"
  using assms
proof (induction ps arbitrary: st)
  case (Cons p ps)
  note inv = Cons.prems(1) and h = Cons.prems(2) and ok = Cons.prems(3) and s = Cons.prems(4)
  obtain x y where p: "p = (x, y)" by (cases p)
  have "\<forall>nd \<in> set (c_sectors (chat st) y x). unat (sid_index (m_SSID (c_users (chat st) (snd nd)))) < n_maxSession st"
  proof
    fix nd assume nd: "nd \<in> set (c_sectors (chat st) y x)"
    have "(fst nd, snd nd) \<in> set (c_sectors (chat st) y x)" using nd by simp
    then have "snd nd \<in> ran (c_userMap (chat st))" using ok unfolding chat_ok_def sec_ok_def by blast
    from user_session[OF inv ok s this]
    show "unat (sid_index (m_SSID (c_users (chat st) (snd nd)))) < n_maxSession st" .
  qed
  note L = SendMessageSector_loop_inv[OF inv h this, of C]
  show ?case
    unfolding p SendMessageAround_loop.simps wpx_bind ChatServer_SendMessageSector_def
  proof (rule wpx_mono[OF L])
    fix st1 assume A: "net_inv c st1 \<and> lib_frame st st1"
    have "chat st1 = chat st" "sessions_of st1 = m"
      using A s sessions_of_frame[OF lib_frame_net, of st st1] net_invD(3)[OF inv] by (auto simp: lib_frame_def)
    with Cons.IH[OF conjunct1[OF A] h] ok
    have "wpx C (SendMessageAround_loop packet ps st1) (\<lambda>st'. net_inv c st' \<and> lib_frame st1 st')" by simp
    then show "wpx C (SendMessageAround_loop packet ps st1) (\<lambda>st'. net_inv c st' \<and> lib_frame st st')"
      by (rule wpx_mono) (use A lib_frame_trans in blast)
  qed
qed simp

lemma SendMessageAround_inv:
  assumes inv: "net_inv c st" and h: "packet \<in># x_held c" and s: "sessions_of st = m"
    and cs: "cs m [L_user user] st"
  shows "wpx C (ChatServer_SendMessageAround packet user st)
    (\<lambda>st'. net_inv c st' \<and> net_frame st st' \<and> cs m [L_user user] st')"
proof -
  let ?ps = "GetSectorAround (m_sectorX (c_users (chat st) user)) (m_sectorY (c_users (chat st) user))"
  let ?st1 = "upd_chat (LockSectorAround ?ps) st"
  have ord: "c_order (chat ?st1)"
    unfolding upd_chat_simps LockSectorAround_def
    by (rule LockSectors_order[OF _ GetSectorAround_sorted])
      (use cs in \<open>auto simp: cs_def sector_lock_def less_prod_def\<close>)
  have ok: "chat_ok m (chat ?st1)" "c_held (chat ?st1) = rev (map sector_lock ?ps) @ [L_user user]"
    using cs by (auto simp: cs_def LockSectorAround_def intro: chat_ok_fields)
  have "wpx C (SendMessageAround_loop packet ?ps ?st1) (\<lambda>st2. net_inv c st2 \<and> lib_frame ?st1 st2)"
    by (rule SendMessageAround_loop_inv[OF _ h ok(1)]) (use inv s in simp_all)
  then have "wpx C (SendMessageAround_loop packet ?ps ?st1) (\<lambda>st2. net_inv c (upd_chat (UnlockSectorAround ?ps) st2) \<and>
      net_frame st (upd_chat (UnlockSectorAround ?ps) st2) \<and> cs m [L_user user] (upd_chat (UnlockSectorAround ?ps) st2))"
  proof (rule wpx_mono)
    fix st2 assume A: "net_inv c st2 \<and> lib_frame ?st1 st2"
    have c2: "chat st2 = chat ?st1" using A by (simp add: lib_frame_def)
    have "net_frame st (upd_chat (UnlockSectorAround ?ps) st2)"
      using A net_frame_trans[OF net_frame_upd_chat net_frame_trans[OF lib_frame_net net_frame_upd_chat]] by blast
    moreover have "cs m [L_user user] (upd_chat (UnlockSectorAround ?ps) st2)"
      using ok ord UnlockSectors_held[OF ok(2) pos_less_distinct[OF GetSectorAround_sorted]]
      unfolding cs_def upd_chat_simps c2 UnlockSectorAround_def by (auto intro: chat_ok_fields)
    ultimately show "net_inv c (upd_chat (UnlockSectorAround ?ps) st2) \<and>
      net_frame st (upd_chat (UnlockSectorAround ?ps) st2) \<and> cs m [L_user user] (upd_chat (UnlockSectorAround ?ps) st2)"
      using A by simp
  qed
  then show ?thesis by (simp add: ChatServer_SendMessageAround_def Let_def)
qed

text \<open>A new packet is filled, sent and given up.\<close>

lemma send_new_inv:
  assumes inv: "net_inv c st" and R: "R (chat st)"
    and fill: "\<And>e p. pk_fresh p \<Longrightarrow> wpx C (fill e p)
      (\<lambda>p'. pk_inv p' \<and> pk_buffer_size p' = eBUFFER_DEFAULT \<and> pk_ref_cnt p' = 1)"
    and send: "\<And>a st1. net_inv (hold a c) st1 \<Longrightarrow> lib_frame st st1 \<Longrightarrow>
      wpx C (send a st1) (\<lambda>st2. net_inv (hold a c) st2 \<and> net_frame st1 st2 \<and> R (chat st2))"
  shows "wpx C (send_new fill send st) (\<lambda>st'. net_inv c st' \<and> net_frame st st' \<and> R (chat st'))"
  unfolding send_new_def wpx_bind
proof (rule wpx_mono[OF Packet_Alloc_inv[OF inv]])
  fix ra
  assume A0: "case ra of (a, st') \<Rightarrow> net_inv (hold a c) st' \<and> lib_frame st st' \<and> n_sessions st' = n_sessions st \<and>
     n_recv_io st' = n_recv_io st \<and> n_send_io st' = n_send_io st \<and> pk_fresh (n_packets st' a) \<and>
     a \<notin># queued (n_sessions st) + x_held c"
  obtain a st1 where ra: "ra = (a, st1)" by (cases ra)
  note A = A0[unfolded ra prod.case]
  let ?e = "fst (ask st1)" and ?st2 = "snd (ask st1)"
  let ?Q = "\<lambda>st'. net_inv c st' \<and> net_frame st st' \<and> R (chat st')"
  have inv2: "net_inv (hold a c) ?st2" and fr2: "lib_frame st ?st2"
    using A ask_inv[of "hold a c" st1] lib_frame_trans[of st st1] by auto
  have f2: "pk_fresh (n_packets ?st2 a)" using A by simp
  have rest: "wpx C (fill ?e (n_packets ?st2 a)) (\<lambda>p. wpx C (send a (?st2\<lparr>n_packets := (n_packets ?st2)(a := p)\<rparr>))
      (\<lambda>st3. wpx C (Packet_Free a st3) ?Q))"
  proof (rule wpx_mono[OF fill[OF f2]])
    fix p assume P: "pk_inv p \<and> pk_buffer_size p = eBUFFER_DEFAULT \<and> pk_ref_cnt p = 1"
    let ?st3 = "?st2\<lparr>n_packets := (n_packets ?st2)(a := p)\<rparr>"
    have inv3: "net_inv (hold a c) ?st3"
      by (rule net_inv_packets[OF inv2]) (use P f2 in \<open>simp_all add: pk_fresh_def\<close>)
    have fr3: "lib_frame st ?st3" using fr2 by (simp add: lib_frame_def net_frame_def)
    show "wpx C (send a ?st3) (\<lambda>st3. wpx C (Packet_Free a st3) ?Q)"
    proof (rule wpx_mono[OF send[OF inv3 fr3]])
      fix st4 assume B: "net_inv (hold a c) st4 \<and> net_frame ?st3 st4 \<and> R (chat st4)"
      have h: "a \<in># x_held (hold a c)" by simp
      show "wpx C (Packet_Free a st4) ?Q"
        unfolding Packet_Free_def
      proof (rule wpx_mono[OF Packet_SubRef_inv[OF conjunct1[OF B] h]])
        fix st' assume D: "net_inv (unhold a (hold a c)) st' \<and> lib_frame st4 st' \<and> n_sessions st' = n_sessions st4 \<and>
           n_recv_io st' = n_recv_io st4 \<and> n_send_io st' = n_send_io st4 \<and> (\<forall>b. b \<noteq> a \<longrightarrow> n_packets st' b = n_packets st4 b)"
        have "net_frame st st'"
          using B D lib_frame_net[OF fr3] lib_frame_net[of st4 st'] net_frame_trans by blast
        with B D show "?Q st'" by (auto simp: lib_frame_def)
      qed
    qed
  qed
  then show "wpx C (case ra of (send_packet, st) \<Rightarrow> let (e, st) = ask st
      in fill e (n_packets st send_packet) \<bind> (\<lambda>p. let st = st\<lparr>n_packets := (n_packets st)(send_packet := p)\<rparr>
          in send send_packet st \<bind> Packet_Free send_packet)) ?Q"
    by (simp add: ra split_def Let_def)
qed

lemma pk_message_ready:
  "pk_message code key r d p \<Longrightarrow> pk_inv p \<and> pk_buffer_size p = eBUFFER_DEFAULT \<and> pk_ref_cnt p = 1"
  by (simp add: pk_message_def eBUFFER_DEFAULT_def)

text \<open>An answer to the user itself.\<close>

lemma answer_inv:
  assumes inv: "net_inv c st" and s: "sessions_of st = m" and cs: "cs m H st"
    and a: "a \<in> ran (c_userMap (chat st))"
    and fill: "\<And>e p. pk_fresh p \<Longrightarrow> \<exists>p' code key r d. fill e p = Some p' \<and> pk_message code key r d p'"
  shows "wpx C (send_new fill (\<lambda>p. ChatServer_SendMessageUni p a) st)
    (\<lambda>st'. net_inv c st' \<and> net_frame st st' \<and> chat st' = chat st)"
proof (rule send_new_inv[OF inv, where R = "\<lambda>x. x = chat st"])
  show "wpx C (fill e p) (\<lambda>p'. pk_inv p' \<and> pk_buffer_size p' = eBUFFER_DEFAULT \<and> pk_ref_cnt p' = 1)"
    if f: "pk_fresh p" for e p
  proof -
    obtain p' code key r d where "fill e p = Some p'" "pk_message code key r d p'" using fill[OF f, of e] by blast
    then show ?thesis using pk_message_ready by simp
  qed
  fix b st1 assume A: "net_inv (hold b c) st1" "lib_frame st st1"
  have "chat_ok m (chat st)" using cs by (simp add: cs_def)
  note idx = user_session[OF inv this s a]
  have c1: "chat st1 = chat st" using A(2) by (simp add: lib_frame_def)
  have "unat (sid_index (m_SSID (c_users (chat st1) a))) < n_maxSession st1"
    using idx lib_frame_max[OF A(2)] c1 by simp
  note U = SendMessageUni_inv[OF A(1) _ this, of b C]
  show "wpx C (ChatServer_SendMessageUni b a st1) (\<lambda>st2. net_inv (hold b c) st2 \<and> net_frame st1 st2 \<and> chat st2 = chat st)"
    by (rule wpx_mono[OF U]) (use c1 in \<open>simp_all add: lib_frame_def\<close>)
qed simp

subsection \<open>The packet handlers\<close>

text \<open>When they end the process: a login with an account that is in use, and a message of a user
  whose ID or nickname does not fit the arrays of \<open>MakeMessage\<close>.\<close>

definition ProcLogin_crash :: "addr \<Rightarrow> addr \<Rightarrow> chat_server \<Rightarrow> bool" where
  "ProcLogin_crash user packet st \<longleftrightarrow>
     (let (e, st) = ask st; (p, account_no, wid, nick) = ProcLogin_read e (n_packets st packet)
      in \<not> mb_login (c_users (chat st) user) \<and> c_accountMap (chat st) account_no \<noteq> None)"

definition ProcMessage_crash :: "addr \<Rightarrow> addr \<Rightarrow> chat_server \<Rightarrow> bool" where
  "ProcMessage_crash user packet st \<longleftrightarrow>
     (let (e, st) = ask st; (p, account_no, message_len) = ProcMessage_read e (n_packets st packet);
          u = c_users (chat st) user
      in m_accountNo u = account_no \<and> CPacket_GetDataSize p = uint message_len \<and> message_len \<noteq> 0 \<and>
         unat message_len \<le> MAX_MESSAGE \<and> (MAX_ID_SIZE \<le> length (m_ID u) \<or> MAX_NICK_SIZE \<le> length (m_nickname u)))"

definition handler_post :: "ctx \<Rightarrow> (nat \<rightharpoonup> u64) \<Rightarrow> addr \<Rightarrow> chat_server \<Rightarrow> (bool \<times> chat_server) \<Rightarrow> bool" where
  "handler_post c m user st r \<longleftrightarrow> net_inv c (snd r) \<and> net_frame st (snd r) \<and> cs m [L_user user] (snd r)"

lemma read_packet:
  assumes inv: "net_inv c st" and p: "pk_same (n_packets st packet) p"
  shows "net_inv c ((snd (ask st))\<lparr>n_packets := (n_packets st)(packet := p)\<rparr>)"
    and "lib_frame st ((snd (ask st))\<lparr>n_packets := (n_packets st)(packet := p)\<rparr>)"
proof -
  have "pk_same (n_packets (snd (ask st)) packet) p" using p by simp
  from net_inv_read[OF ask_inv(1)[OF inv] this]
  show "net_inv c ((snd (ask st))\<lparr>n_packets := (n_packets st)(packet := p)\<rparr>)" by simp
  show "lib_frame st ((snd (ask st))\<lparr>n_packets := (n_packets st)(packet := p)\<rparr>)"
    by (simp add: lib_frame_def net_frame_def ask_def)
qed

lemma ProcLogin_set_ok:
  assumes ok: "chat_ok m ch" and s: "c_userMap ch sid = Some a" and new: "c_accountMap ch acc = None"
    and out: "\<not> mb_login (c_users ch a)"
  shows "chat_ok m (ProcLogin_set acc wid nick a (unlock L_accountMap
    ((acquire L_accountMap ch)\<lparr>c_accountMap := (c_accountMap ch)(acc \<mapsto> sid)\<rparr>)))"
proof -
  let ?u = "(c_users ch a)\<lparr>mb_login := True, m_accountNo := acc, m_ID := wid, m_nickname := nick\<rparr>"
  have a: "a \<in> ran (c_userMap ch)" using s by (rule ranI)
  have O: "map_ok (c_userMap ch) (c_users ch)" "acc_ok (c_userMap ch) (c_users ch) (c_accountMap ch)"
    "sec_ok (ran (c_userMap ch)) (c_users ch) (c_sectors ch) (c_nodes ch)"
    "cnt_ok (ran (c_userMap ch)) (c_users ch) (c_connectCnt ch) (c_loginCnt ch)"
    using ok by (auto simp: chat_ok_def)
  have "map_ok (c_userMap ch) ((c_users ch)(a := ?u))" by (rule map_ok_upd[OF O(1)]) simp
  moreover have "acc_ok (c_userMap ch) ((c_users ch)(a := ?u)) ((c_accountMap ch)(acc \<mapsto> sid))"
    by (rule acc_ok_login[OF O(2,1) s new out]) simp_all
  moreover have "sec_ok (ran (c_userMap ch)) ((c_users ch)(a := ?u)) (c_sectors ch) (c_nodes ch)"
    by (rule sec_ok_upd[OF O(3)]) simp_all
  moreover have "cnt_ok (ran (c_userMap ch)) ((c_users ch)(a := ?u)) (c_connectCnt ch - 1) (c_loginCnt ch + 1)"
    by (rule cnt_ok_login[OF O(4) map_ok_ran[OF O(1)] a out]) simp
  ultimately show ?thesis
    using ok by (simp add: chat_ok_def ProcLogin_set_def upd_user_def Let_def acquire_def unlock_def)
qed

lemma ProcLogin_answer_inv:
  assumes inv: "net_inv c st" and s: "sessions_of st = m" and cs: "cs m H st"
    and a: "a \<in> ran (c_userMap (chat st))" and fr: "net_frame st0 st"
  shows "wpx C (ProcLogin_answer status acc a st) (\<lambda>st'. net_inv c st' \<and> net_frame st0 st' \<and> cs m H st')"
proof -
  have "wpx C (ProcLogin_answer status acc a st) (\<lambda>st'. net_inv c st' \<and> net_frame st st' \<and> chat st' = chat st)"
    unfolding ProcLogin_answer_def
    by (rule answer_inv[OF inv s cs a]) (use MakeLogin_message in blast)
  then show ?thesis
    by (rule wpx_mono) (use net_frame_trans[OF fr] cs_lib[OF cs] in blast)
qed

lemma ProcLogin_inv:
  assumes inv: "net_inv c st" and s: "sessions_of st = m" and cs: "cs m [L_user user] st"
    and M: "c_userMap (chat st) sid = Some user"
  shows "wpx (C \<or> ProcLogin_crash user packet st) (ProcLogin user packet st) (handler_post c m user st)"
proof -
  let ?C = "C \<or> ProcLogin_crash user packet st"
  obtain p acc wid nick where R: "ProcLogin_read (fst (ask st)) (n_packets st packet) = (p, acc, wid, nick)"
    by (cases "ProcLogin_read (fst (ask st)) (n_packets st packet)")
  define st1 where "st1 = (snd (ask st))\<lparr>n_packets := (n_packets st)(packet := p)\<rparr>"
  have inv1: "net_inv c st1" and fr1: "lib_frame st st1"
    unfolding st1_def using read_packet[OF inv ProcLogin_read_same[OF R]] by simp_all
  have c1: "chat st1 = chat st" using fr1 by (simp add: lib_frame_def)
  have s1: "sessions_of st1 = m" using s sessions_of_frame[OF lib_frame_net[OF fr1]] net_invD(3)[OF inv] by simp
  have cs1: "cs m [L_user user] st1" by (rule cs_lib[OF cs c1])
  have a: "user \<in> ran (c_userMap (chat st))" using M by (rule ranI)
  have ok: "chat_ok m (chat st)" using cs by (simp add: cs_def)
  have ssid: "m_SSID (c_users (chat st) user) = sid" using ok M by (auto simp: chat_ok_def map_ok_def)
  show ?thesis
  proof (cases "mb_login (c_users (chat st) user)")
    case True
    have "wpx ?C (ProcLogin_answer 0 acc user st1) (\<lambda>st'. net_inv c st' \<and> net_frame st st' \<and> cs m [L_user user] st')"
      by (rule ProcLogin_answer_inv[OF inv1 s1 cs1 _ lib_frame_net[OF fr1]]) (use a c1 in simp)
    then show ?thesis
      using True R c1 by (simp add: ProcLogin_def split_def Let_def handler_post_def st1_def [symmetric])
  next
    case out: False
    show ?thesis
    proof (cases "c_accountMap (chat st) acc")
      case (Some sid')
      then have "ProcLogin_crash user packet st" using out R by (simp add: ProcLogin_crash_def split_def)
      then show ?thesis using out R c1 Some
        by (simp add: ProcLogin_def split_def Let_def st1_def [symmetric])
    next
      case None
      define st2 where "st2 = upd_chat (ProcLogin_set acc wid nick user)
        (upd_chat (unlock L_accountMap) (upd_chat (\<lambda>c. c\<lparr>c_accountMap := (c_accountMap c)(acc \<mapsto> sid)\<rparr>)
          (upd_chat (acquire L_accountMap) st1)))"
      have c2: "chat st2 = ProcLogin_set acc wid nick user (unlock L_accountMap
          ((acquire L_accountMap (chat st))\<lparr>c_accountMap := (c_accountMap (chat st))(acc \<mapsto> sid)\<rparr>))"
        by (simp add: st2_def c1)
      have "cs m [L_user user] st2"
        using ProcLogin_set_ok[OF ok M None out, of wid nick] cs
        unfolding cs_def c2 by (auto simp: ProcLogin_set_def upd_user_def Let_def order_acquire less_prod_def acquire_def unlock_def)
      moreover have "net_inv c st2" "sessions_of st2 = m" "user \<in> ran (c_userMap (chat st2))"
        using inv1 s1 a by (simp_all add: st2_def c1) (simp add: ProcLogin_set_def upd_user_def Let_def)
      moreover have "net_frame st st2"
        unfolding st2_def by (intro net_frame_then_upd lib_frame_net[OF fr1])
      ultimately have "wpx ?C (ProcLogin_answer 1 acc user st2) (\<lambda>st'. net_inv c st' \<and> net_frame st st' \<and> cs m [L_user user] st')"
        by (intro ProcLogin_answer_inv)
      then show ?thesis
        using out R c1 None ssid by (simp add: ProcLogin_def split_def Let_def handler_post_def st1_def [symmetric] st2_def [symmetric])
    qed
  qed
qed

text \<open>Moving a user: it leaves its sector's list and is appended to the new one, under both locks.\<close>

lemma move_sectors_locks:
  assumes "c_held ch = [L_user a]" and "c_order ch"
  shows "c_order (LockSectors (move_sectors u x y) ch)"
  by (rule LockSectors_order[OF assms(2) move_sectors_sorted])
    (use assms in \<open>auto simp: sector_lock_def less_prod_def\<close>)

lemma ProcSectorMove_move_ok:
  assumes ok: "chat_ok m ch" and a: "a \<in> ran (c_userMap ch)" and l: "c_held ch = [L_user a]" "c_order ch"
    and p: "0 \<le> x" "x < SECTOR_MAX_X" "0 \<le> y" "y < SECTOR_MAX_Y"
  obtains ch' where "ProcSectorMove_move a x y ch = Some ch'" "chat_ok m ch'" "c_held ch' = [L_user a]" "c_order ch'"
    "c_userMap ch' = c_userMap ch"
    "c_users ch' = (c_users ch)(a := (c_users ch a)\<lparr>m_sectorX := x, m_sectorY := y,
       m_sectorIter := c_nodes ch, mb_inSector := True\<rparr>)"
proof -
  let ?ps = "move_sectors (c_users ch a) x y"
  define c1 where "c1 = LockSectors ?ps ch"
  have O: "map_ok (c_userMap ch) (c_users ch)" "acc_ok (c_userMap ch) (c_users ch) (c_accountMap ch)"
    "cnt_ok (ran (c_userMap ch)) (c_users ch) (c_connectCnt ch) (c_loginCnt ch)"
    "sec_ok (ran (c_userMap ch)) (c_users ch) (c_sectors ch) (c_nodes ch)"
    using ok by (auto simp: chat_ok_def)
  have S1: "sec_ok (ran (c_userMap ch)) (c_users c1) (c_sectors c1) (c_nodes c1)" using O(4) by (simp add: c1_def)
  obtain S2 where R: "Sector_RemoveUser a c1 =
      Some (c1\<lparr>c_sectors := S2, c_users := (c_users c1)(a := (c_users c1 a)\<lparr>mb_inSector := False\<rparr>)\<rparr>)"
      "\<And>u. sec_ok (ran (c_userMap ch) - {a}) ((c_users c1)(a := u)) S2 (c_nodes c1)"
    by (rule Sector_RemoveUser_ok[OF S1 a]) (rule that)
  define u2 where "u2 = (c_users c1 a)\<lparr>mb_inSector := False, m_sectorX := x, m_sectorY := y\<rparr>"
  define c3 where "c3 = c1\<lparr>c_sectors := S2, c_users := (c_users c1)(a := u2)\<rparr>"
  have S3: "sec_ok (ran (c_userMap ch) - {a}) (c_users c3) (c_sectors c3) (c_nodes c3)"
    using R(2) by (simp add: c3_def)
  obtain S4 U4 where A: "Sector_AddUser a c3 = Some (c3\<lparr>c_nodes := Suc (c_nodes c3), c_sectors := S4, c_users := U4\<rparr>)"
      "U4 = (c_users c3)(a := (c_users c3 a)\<lparr>m_sectorIter := c_nodes c3, mb_inSector := True\<rparr>)"
      "sec_ok (ran (c_userMap ch)) U4 S4 (Suc (c_nodes c3))"
    by (rule Sector_AddUser_ok[OF S3 a]) (use p in \<open>simp_all add: c3_def u2_def\<close>)
  define c4 where "c4 = c3\<lparr>c_nodes := Suc (c_nodes c3), c_sectors := S4, c_users := U4\<rparr>"
  let ?u = "(c_users ch a)\<lparr>m_sectorX := x, m_sectorY := y, m_sectorIter := c_nodes ch, mb_inSector := True\<rparr>"
  have U4: "U4 = (c_users ch)(a := ?u)"
    unfolding A(2) by (simp add: c3_def u2_def c1_def)
  have run: "ProcSectorMove_move a x y ch = Some (UnlockSectors ?ps c4)"
    using p A(1) by (simp add: ProcSectorMove_move_def Let_def c1_def [symmetric] R(1) User_MoveSector_def upd_user_def
        c3_def u2_def c4_def)
  have c4f: "c_userMap c4 = c_userMap ch" "c_accountMap c4 = c_accountMap ch" "c_connectCnt c4 = c_connectCnt ch"
    "c_loginCnt c4 = c_loginCnt ch" "c_userPool c4 = c_userPool ch" "c_users c4 = U4" "c_sectors c4 = S4"
    "c_nodes c4 = Suc (c_nodes c3)" "c_held c4 = rev (map sector_lock ?ps) @ [L_user a]" "c_order c4 = c_order c1"
    using l by (simp_all add: c4_def c3_def c1_def)
  have "chat_ok m c4"
    unfolding chat_ok_def c4f
  proof (intro conjI)
    show "map_ok (c_userMap ch) U4" unfolding U4 by (rule map_ok_upd[OF O(1)]) simp
    show "acc_ok (c_userMap ch) U4 (c_accountMap ch)" unfolding U4 by (rule acc_ok_upd[OF O(2)]) simp_all
    show "cnt_ok (ran (c_userMap ch)) U4 (c_connectCnt ch) (c_loginCnt ch)" unfolding U4 by (rule cnt_ok_upd[OF O(3)]) simp
    show "sec_ok (ran (c_userMap ch)) U4 S4 (Suc (c_nodes c3))" by (rule A(3))
  qed (use ok in \<open>auto simp: chat_ok_def\<close>)
  then have ok': "chat_ok m (UnlockSectors ?ps c4)" by (rule chat_ok_fields) simp_all
  show ?thesis
  proof (rule that[OF run ok'])
    show "c_held (UnlockSectors ?ps c4) = [L_user a]"
      by (rule UnlockSectors_held[OF c4f(9) pos_less_distinct[OF move_sectors_sorted]])
    show "c_order (UnlockSectors ?ps c4)"
      using move_sectors_locks[OF l] by (simp add: c4f(10) c1_def)
  qed (simp_all add: c4f U4)
qed

lemma ProcSectorMove_inv:
  assumes inv: "net_inv c st" and s: "sessions_of st = m" and cs: "cs m [L_user user] st"
    and a: "user \<in> ran (c_userMap (chat st))"
  shows "wpx C (ProcSectorMove user packet st) (handler_post c m user st)"
proof -
  obtain p acc x y where R: "ProcSectorMove_read (fst (ask st)) (n_packets st packet) = (p, acc, x, y)"
    by (cases "ProcSectorMove_read (fst (ask st)) (n_packets st packet)")
  define st1 where "st1 = (snd (ask st))\<lparr>n_packets := (n_packets st)(packet := p)\<rparr>"
  have inv1: "net_inv c st1" and fr1: "lib_frame st st1"
    unfolding st1_def using read_packet[OF inv ProcSectorMove_read_same[OF R]] by simp_all
  have c1: "chat st1 = chat st" using fr1 by (simp add: lib_frame_def)
  have s1: "sessions_of st1 = m" using s sessions_of_frame[OF lib_frame_net[OF fr1]] net_invD(3)[OF inv] by simp
  have cs1: "cs m [L_user user] st1" by (rule cs_lib[OF cs c1])
  have no: "handler_post c m user st (False, st1)"
    using inv1 lib_frame_net[OF fr1] cs1 by (simp add: handler_post_def)
  have ok: "chat_ok m (chat st)" and l: "c_held (chat st) = [L_user user]" "c_order (chat st)" using cs by (auto simp: cs_def)
  show ?thesis
  proof (cases "acc \<noteq> m_accountNo (c_users (chat st) user) \<or> x < 0 \<or> SECTOR_MAX_X \<le> x \<or> y < 0 \<or> SECTOR_MAX_Y \<le> y")
    case True
    then show ?thesis
      using no R c1 by (auto simp: ProcSectorMove_def split_def Let_def st1_def [symmetric])
  next
    case False
    then have p: "0 \<le> x" "x < SECTOR_MAX_X" "0 \<le> y" "y < SECTOR_MAX_Y" "acc = m_accountNo (c_users (chat st) user)" by auto
    obtain ch' where M: "ProcSectorMove_move user x y (chat st) = Some ch'" "chat_ok m ch'" "c_held ch' = [L_user user]"
        "c_order ch'" "c_userMap ch' = c_userMap (chat st)"
      by (rule ProcSectorMove_move_ok[OF ok a l p(1-4)]) (rule that)
    define st2 where "st2 = upd_chat (\<lambda>_. ch') st1"
    have cs2: "cs m [L_user user] st2" using M by (simp add: cs_def st2_def)
    have fr2: "net_frame st st2" unfolding st2_def by (intro net_frame_then_upd lib_frame_net[OF fr1])
    have a2: "user \<in> ran (c_userMap (chat st2))" using a M by (simp add: st2_def)
    have "wpx C (send_new (\<lambda>e p. Some (MakeSectorMove (n_packetCode st2) (n_packetKey st2) (e_rand e) p acc
          (of_int (m_sectorX (c_users ch' user))) (of_int (m_sectorY (c_users ch' user)))))
        (\<lambda>p. ChatServer_SendMessageUni p user) st2)
        (\<lambda>st'. net_inv c st' \<and> net_frame st2 st' \<and> chat st' = chat st2)"
    proof (rule answer_inv[OF _ _ cs2 a2])
      show "\<exists>p' code key r d. Some (MakeSectorMove (n_packetCode st2) (n_packetKey st2) (e_rand e) p acc
          (of_int (m_sectorX (c_users ch' user))) (of_int (m_sectorY (c_users ch' user)))) = Some p' \<and>
          pk_message code key r d p'" if "pk_fresh p" for e p
        using MakeSectorMove_message[OF that] by blast
    qed (use inv1 s1 in \<open>simp_all add: st2_def\<close>)
    then have "wpx C (send_new (\<lambda>e p. Some (MakeSectorMove (n_packetCode st2) (n_packetKey st2) (e_rand e) p acc
          (of_int (m_sectorX (c_users ch' user))) (of_int (m_sectorY (c_users ch' user)))))
        (\<lambda>p. ChatServer_SendMessageUni p user) st2) (\<lambda>st'. handler_post c m user st (True, st'))"
      by (rule wpx_mono) (use net_frame_trans[OF fr2] cs_lib[OF cs2] in \<open>simp add: handler_post_def\<close>)
    then show ?thesis
      using R c1 M(1) p by (simp add: ProcSectorMove_def split_def Let_def st1_def [symmetric] st2_def)
  qed
qed

lemma MakeMessage_fill:
  assumes f: "pk_fresh p" and l: "unat len \<le> MAX_MESSAGE"
    and crash: "MAX_ID_SIZE \<le> length wid \<or> MAX_NICK_SIZE \<le> length nick \<Longrightarrow> C"
  shows "wpx C (MakeMessage code key r (map f1 [0..<MAX_ID_SIZE]) (map f2 [MAX_ID_SIZE..<MAX_ID_SIZE + MAX_NICK_SIZE])
      beyond p acc wid nick len msg)
    (\<lambda>p'. pk_inv p' \<and> pk_buffer_size p' = eBUFFER_DEFAULT \<and> pk_ref_cnt p' = 1)"
proof (cases "MAX_ID_SIZE \<le> length wid \<or> MAX_NICK_SIZE \<le> length nick")
  case True
  then show ?thesis using crash by (auto simp: MakeMessage_def wcscpy_s_def split: option.split)
next
  case False
  have l': "unat len \<le> 128" using l by (simp add: MAX_MESSAGE_def)
  show ?thesis
  proof (rule MakeMessage_message[OF f _ _ _ _ l', of wid "map f1 [0..<MAX_ID_SIZE]" nick
        "map f2 [MAX_ID_SIZE..<MAX_ID_SIZE + MAX_NICK_SIZE]" code key r beyond acc msg])
    fix p' d assume "MakeMessage code key r (map f1 [0..<MAX_ID_SIZE])
      (map f2 [MAX_ID_SIZE..<MAX_ID_SIZE + MAX_NICK_SIZE]) beyond p acc wid nick len msg = Some p'"
      "pk_message code key r d p'"
    then show ?thesis using pk_message_ready by simp
  qed (use False in simp_all)
qed

lemma ProcMessage_inv:
  assumes inv: "net_inv c st" and s: "sessions_of st = m" and cs: "cs m [L_user user] st"
  shows "wpx (C \<or> ProcMessage_crash user packet st) (ProcMessage user packet st) (handler_post c m user st)"
proof -
  let ?C = "C \<or> ProcMessage_crash user packet st" and ?u = "c_users (chat st) user"
  obtain p acc len where R: "ProcMessage_read (fst (ask st)) (n_packets st packet) = (p, acc, len)"
    by (cases "ProcMessage_read (fst (ask st)) (n_packets st packet)")
  obtain p2 msg where T: "ProcMessage_text len p = (p2, msg)" by (cases "ProcMessage_text len p")
  have same2: "pk_same (n_packets st packet) p2"
    using pk_same_trans[OF ProcMessage_read_same[OF R] ProcMessage_text_same[OF T]] .
  define st1 where "st1 = (snd (ask st))\<lparr>n_packets := (n_packets st)(packet := p)\<rparr>"
  define st2 where "st2 = (snd (ask st))\<lparr>n_packets := (n_packets st)(packet := p2)\<rparr>"
  have inv1: "net_inv c st1" and fr1: "lib_frame st st1"
    unfolding st1_def using read_packet[OF inv ProcMessage_read_same[OF R]] by simp_all
  have inv2: "net_inv c st2" and fr2: "lib_frame st st2"
    unfolding st2_def using read_packet[OF inv same2] by simp_all
  have c1: "chat st1 = chat st" "chat st2 = chat st" using fr1 fr2 by (simp_all add: lib_frame_def)
  have no: "handler_post c m user st (False, st1)"
    using inv1 lib_frame_net[OF fr1] cs_lib[OF cs c1(1)] by (simp add: handler_post_def)
  show ?thesis
  proof (cases "m_accountNo ?u \<noteq> acc \<or> CPacket_GetDataSize p \<noteq> uint len \<or> len = 0 \<or> MAX_MESSAGE < unat len")
    case True
    then show ?thesis using no R c1 by (auto simp: ProcMessage_def split_def Let_def st1_def [symmetric])
  next
    case False
    then have F: "m_accountNo ?u = acc" "CPacket_GetDataSize p = uint len" "len \<noteq> 0" "unat len \<le> MAX_MESSAGE" by auto
    have crash: "ProcMessage_crash user packet st" if "MAX_ID_SIZE \<le> length (m_ID ?u) \<or> MAX_NICK_SIZE \<le> length (m_nickname ?u)"
      using that F R by (simp add: ProcMessage_crash_def split_def)
    let ?fill = "\<lambda>e p. MakeMessage (n_packetCode st2) (n_packetKey st2) (e_rand e) (map (e_wmem e) [0..<MAX_ID_SIZE])
        (map (e_wmem e) [MAX_ID_SIZE..<MAX_ID_SIZE + MAX_NICK_SIZE]) (e_mem e) p acc (m_ID ?u) (m_nickname ?u) len msg"
    have "wpx ?C (send_new ?fill (\<lambda>p. ChatServer_SendMessageAround p user) st2)
        (\<lambda>st'. net_inv c st' \<and> net_frame st2 st' \<and> chat_ok m (chat st') \<and> c_held (chat st') = [L_user user] \<and> c_order (chat st'))"
    proof (rule send_new_inv[OF inv2, where R = "\<lambda>x. chat_ok m x \<and> c_held x = [L_user user] \<and> c_order x"])
      show "chat_ok m (chat st2) \<and> c_held (chat st2) = [L_user user] \<and> c_order (chat st2)"
        using cs c1 by (simp add: cs_def)
      show "wpx ?C (?fill e q) (\<lambda>p'. pk_inv p' \<and> pk_buffer_size p' = eBUFFER_DEFAULT \<and> pk_ref_cnt p' = 1)"
        if "pk_fresh q" for e q
        by (rule MakeMessage_fill[OF that F(4)]) (use crash in blast)
      fix b st3 assume A: "net_inv (hold b c) st3" "lib_frame st2 st3"
      have c3: "chat st3 = chat st" using A(2) c1 by (simp add: lib_frame_def)
      have s3: "sessions_of st3 = m"
        using s sessions_of_frame[OF lib_frame_net[OF lib_frame_trans[OF fr2 A(2)]]] net_invD(3)[OF inv] by simp
      show "wpx ?C (ChatServer_SendMessageAround b user st3) (\<lambda>st4. net_inv (hold b c) st4 \<and> net_frame st3 st4 \<and>
          chat_ok m (chat st4) \<and> c_held (chat st4) = [L_user user] \<and> c_order (chat st4))"
        using SendMessageAround_inv[OF A(1) _ s3 cs_lib[OF cs c3], of b ?C] by (simp add: cs_def)
    qed
    then have "wpx ?C (send_new ?fill (\<lambda>p. ChatServer_SendMessageAround p user) st2) (\<lambda>st'. handler_post c m user st (True, st'))"
      by (rule wpx_mono) (use net_frame_trans[OF lib_frame_net[OF fr2]] in \<open>simp add: handler_post_def cs_def\<close>)
    then show ?thesis
      using R T F by (simp add: ProcMessage_def split_def Let_def st2_def)
  qed
qed

text \<open>The crash condition of a received packet, as \<open>OnRecv\<close> reaches it.\<close>

definition ChatServer_OnRecv_crash :: "u64 \<Rightarrow> addr \<Rightarrow> chat_server \<Rightarrow> bool" where
  "ChatServer_OnRecv_crash session_id packet st \<longleftrightarrow>
     (case OnRecv_begin session_id packet st of
        None \<Rightarrow> False
      | Some (packet_type, user, st) \<Rightarrow>
          packet_type = en_PACKET_TYPE_value en_PACKET_CS_CHAT_REQ_LOGIN \<and> ProcLogin_crash user packet st \<or>
          packet_type = en_PACKET_TYPE_value en_PACKET_CS_CHAT_REQ_MESSAGE \<and> ProcMessage_crash user packet st)"

lemma user_upd_ok:
  assumes ok: "chat_ok m ch"
    and f: "m_SSID u = m_SSID (c_users ch a)" "mb_login u = mb_login (c_users ch a)"
      "m_accountNo u = m_accountNo (c_users ch a)" "mb_inSector u = mb_inSector (c_users ch a)"
      "m_sectorX u = m_sectorX (c_users ch a)" "m_sectorY u = m_sectorY (c_users ch a)"
      "m_sectorIter u = m_sectorIter (c_users ch a)"
  shows "chat_ok m (ch\<lparr>c_users := (c_users ch)(a := u)\<rparr>)"
  using ok map_ok_upd[of "c_userMap ch" "c_users ch" u a] acc_ok_upd[of "c_userMap ch" "c_users ch" "c_accountMap ch" u a]
    sec_ok_upd[of "ran (c_userMap ch)" "c_users ch" "c_sectors ch" "c_nodes ch" u a]
    cnt_ok_upd[of "ran (c_userMap ch)" "c_users ch" "c_connectCnt ch" "c_loginCnt ch" u a] f
  by (simp add: chat_ok_def)

lemma AcquireUser_ok:
  assumes cs: "cs m [] st" and M: "c_userMap (chat st) sid = Some a"
  obtains st' where "ChatServer_AcquireUser sid st = Some (a, st')" "st' = upd_chat (\<lambda>_. chat st') st"
    "cs m [L_user a] st'" "c_userMap (chat st') = c_userMap (chat st)" "c_users (chat st') = c_users (chat st)"
proof -
  let ?st' = "upd_chat (unlock L_userMap) (upd_chat (acquire (L_user a)) (upd_chat (acquire L_userMap) st))"
  have "chat_ok m (chat ?st')" using cs by (simp add: cs_def)
  moreover have "c_held (chat ?st') = [L_user a]" "c_order (chat ?st')"
    using cs by (simp_all add: cs_def order_acquire less_prod_def)
  ultimately show ?thesis
    by (intro that[of ?st']) (use M in \<open>simp_all add: ChatServer_AcquireUser_def cs_def\<close>, cases st, simp add: upd_chat_def)
qed

lemma OnRecv_begin_ok:
  assumes inv: "net_inv c st" and cs: "cs m [] st" and s: "sessions_of st = m" and mi: "m i = Some sid"
  obtains ty user st' where "OnRecv_begin sid packet st = Some (ty, user, st')" "net_inv c st'" "net_frame st st'"
    "cs m [L_user user] st'" "c_userMap (chat st') sid = Some user"
proof -
  obtain p ty where R: "CPacket_get (e_wmem (fst (ask st)) 0) (n_packets st packet) = (p, ty)" by fastforce
  define st1 where "st1 = (snd (ask st))\<lparr>n_packets := (n_packets st)(packet := p)\<rparr>"
  have inv1: "net_inv c st1" and fr1: "lib_frame st st1"
    unfolding st1_def using read_packet[OF inv get_same[OF R]] by simp_all
  have c1: "chat st1 = chat st" using fr1 by (simp add: lib_frame_def)
  have "sid \<in> ran m" using mi by (rule ranI)
  then obtain a where a: "c_userMap (chat st1) sid = Some a" using cs c1 by (auto simp: cs_def chat_ok_def)
  obtain st2 where A: "ChatServer_AcquireUser sid st1 = Some (a, st2)" "st2 = upd_chat (\<lambda>_. chat st2) st1"
      "cs m [L_user a] st2" "c_userMap (chat st2) = c_userMap (chat st1)"
    by (rule AcquireUser_ok[OF cs_lib[OF cs c1] a]) (rule that)
  have inv2: "net_inv c st2" using inv1 by (subst A(2)) simp
  have fr2: "net_frame st st2" by (subst A(2)) (intro net_frame_then_upd lib_frame_net[OF fr1])
  define st4 where "st4 = upd_chat (upd_user a (User_UpdateRecvTime (e_tick (fst (ask st2))))) (snd (ask st2))"
  have cs4: "cs m [L_user a] st4"
    using A(3) user_upd_ok[of m "chat st2"] by (simp add: cs_def st4_def upd_user_def User_UpdateRecvTime_def)
  have fr4: "net_frame st st4"
    unfolding st4_def by (intro net_frame_then_upd net_frame_trans[OF fr2 lib_frame_net[OF ask_inv(2)[OF inv2]]])
  show ?thesis
  proof (rule that[of ty a st4, OF _ _ fr4 cs4])
    show "OnRecv_begin sid packet st = Some (ty, a, st4)"
      using R A(1) by (simp add: OnRecv_begin_def split_def Let_def st1_def [symmetric] st4_def)
    show "net_inv c st4" using ask_inv(1)[OF inv2] by (simp add: st4_def)
    show "c_userMap (chat st4) sid = Some a" using a A(4) by (simp add: st4_def upd_user_def)
  qed
qed

lemma OnRecv_dispatch_inv:
  assumes inv: "net_inv c st" and s: "sessions_of st = m" and cs: "cs m [L_user user] st"
    and M: "c_userMap (chat st) sid = Some user"
    and crash: "ty = en_PACKET_TYPE_value en_PACKET_CS_CHAT_REQ_LOGIN \<Longrightarrow> ProcLogin_crash user packet st \<Longrightarrow> C"
      "ty = en_PACKET_TYPE_value en_PACKET_CS_CHAT_REQ_MESSAGE \<Longrightarrow> ProcMessage_crash user packet st \<Longrightarrow> C"
  shows "wpx C (OnRecv_dispatch ty user packet st) (handler_post c m user st)"
proof -
  have a: "user \<in> ran (c_userMap (chat st))" using M by (rule ranI)
  have id: "handler_post c m user st (b, st)" for b using inv cs by (simp add: handler_post_def)
  have L: "wpx C (ProcLogin user packet st) (handler_post c m user st)" if "ty = en_PACKET_TYPE_value en_PACKET_CS_CHAT_REQ_LOGIN"
    by (rule wpx_weaken[OF ProcLogin_inv[OF inv s cs M, of C]]) (use crash(1)[OF that] in blast)
  have T: "wpx C (ProcMessage user packet st) (handler_post c m user st)" if "ty = en_PACKET_TYPE_value en_PACKET_CS_CHAT_REQ_MESSAGE"
    by (rule wpx_weaken[OF ProcMessage_inv[OF inv s cs, of C]]) (use crash(2)[OF that] in blast)
  show ?thesis
    using L T ProcSectorMove_inv[OF inv s cs a, of C] id by (simp add: OnRecv_dispatch_def del: en_PACKET_TYPE_value.simps)
qed

lemma OnRecv_inv:
  assumes inv: "net_inv c st" and cs: "cs m [] st" and s: "sessions_of st = m" and mi: "m i = Some sid"
  shows "wpx (C \<or> ChatServer_OnRecv_crash sid packet st) (ChatServer_OnRecv sid packet st)
    (\<lambda>st'. net_inv c st' \<and> net_frame st st' \<and> cs m [] st')"
proof -
  let ?C = "C \<or> ChatServer_OnRecv_crash sid packet st" and ?Q = "\<lambda>st'. net_inv c st' \<and> net_frame st st' \<and> cs m [] st'"
  obtain ty user st1 where B: "OnRecv_begin sid packet st = Some (ty, user, st1)" "net_inv c st1" "net_frame st st1"
      "cs m [L_user user] st1" "c_userMap (chat st1) sid = Some user"
    by (rule OnRecv_begin_ok[OF inv cs s mi]) (rule that)
  have len: "length (n_sessions st) = n_maxSession st" by (rule net_invD(3)[OF inv])
  have s1: "sessions_of st1 = m" using sessions_of_frame[OF B(3) len] s by simp
  have "wpx ?C (OnRecv_dispatch ty user packet st1) (\<lambda>r. wpx ?C
      (if \<not> fst r then CNetServer_DisconnectSession sid (ChatServer_ReleaseUser user (snd r))
       else Some (ChatServer_ReleaseUser user (snd r))) (\<lambda>st'. ?Q (messageTps_inc st')))"
  proof (rule wpx_mono[OF OnRecv_dispatch_inv[OF B(2) s1 B(4,5)]])
    fix r assume H: "handler_post c m user st1 r"
    let ?st2 = "ChatServer_ReleaseUser user (snd r)"
    have inv2: "net_inv c ?st2" using H by (simp add: handler_post_def ChatServer_ReleaseUser_def)
    have fr2: "net_frame st ?st2"
      unfolding ChatServer_ReleaseUser_def using H net_frame_trans[OF B(3)] by (intro net_frame_then_upd) (simp add: handler_post_def)
    have cs2: "cs m [] ?st2" using H by (simp add: handler_post_def cs_def ChatServer_ReleaseUser_def)
    have fin: "?Q (messageTps_inc st')" if "net_inv c st'" "net_frame st st'" "cs m [] st'" for st'
      using that net_frame_then_upd by (auto simp: messageTps_inc_def cs_def intro: chat_ok_fields)
    have idx: "unat (sid_index sid) < n_maxSession ?st2"
      using sessions_of_index[OF inv, of i sid] s mi fr2 by (simp add: net_frame_def)
    have "wpx ?C (CNetServer_DisconnectSession sid ?st2) (\<lambda>st'. ?Q (messageTps_inc st'))"
    proof (rule wpx_mono[OF DisconnectSession_inv[OF inv2 idx]])
      fix st3 assume A: "net_inv c st3 \<and> lib_frame ?st2 st3"
      show "?Q (messageTps_inc st3)"
        by (rule fin) (use A net_frame_trans[OF fr2] cs_lib[OF cs2] in \<open>auto simp: lib_frame_def\<close>)
    qed
    then show "wpx ?C (if \<not> fst r then CNetServer_DisconnectSession sid ?st2 else Some ?st2) (\<lambda>st'. ?Q (messageTps_inc st'))"
      using fin[OF inv2 fr2 cs2] by simp
  qed (auto simp: ChatServer_OnRecv_crash_def B(1))
  note D = this
  show ?thesis
    by (simp add: ChatServer_OnRecv_def B(1) split_def Let_def) (rule wpx_mono[OF D], simp split: if_split_asm)
qed

subsection \<open>Joining and leaving\<close>

lemma CreateUser_inv:
  assumes inv: "net_inv c st" and cs: "cs m [] st" and mi: "m i = None" and s: "sessions_of st = m(i \<mapsto> sid)"
  shows "wpx C (ChatServer_CreateUser sid st) (\<lambda>st'. net_inv c st' \<and> net_frame st st' \<and> cs (m(i \<mapsto> sid)) [] st')"
proof -
  let ?ch = "chat st"
  have ok: "chat_ok m ?ch" using cs by (simp add: cs_def)
  have O: "map_ok (c_userMap ?ch) (c_users ?ch)" "acc_ok (c_userMap ?ch) (c_users ?ch) (c_accountMap ?ch)"
    "sec_ok (ran (c_userMap ?ch)) (c_users ?ch) (c_sectors ?ch) (c_nodes ?ch)"
    "cnt_ok (ran (c_userMap ?ch)) (c_users ?ch) (c_connectCnt ?ch) (c_loginCnt ?ch)"
    "mp_inv (c_userPool ?ch) (ran (c_userMap ?ch))" "ran m = dom (c_userMap ?ch)"
    using ok by (auto simp: chat_ok_def)
  have "sid \<notin> ran m"
  proof
    assume "sid \<in> ran m"
    then obtain j where j: "m j = Some sid" by (auto simp: ran_def)
    then have "j \<noteq> i" "sessions_of st j = Some sid" "sessions_of st i = Some sid" using mi s by auto
    then show False using sessions_of_index(2)[OF inv] by metis
  qed
  then have none: "c_userMap ?ch sid = None" using O(6) by blast
  obtain a pool where A: "MemoryPoolTls_Alloc (n_tid st) (c_userPool ?ch) = Some (a, pool)" "a \<notin> ran (c_userMap ?ch)"
      "mp_inv pool (insert a (ran (c_userMap ?ch)))"
    using tls.alloc_ok[OF O(5), of "n_tid st"] by blast
  define st1 where "st1 = upd_chat (acquire (L_user a)) (upd_chat (\<lambda>c. c\<lparr>c_userPool := pool\<rparr>) st)"
  define u where "u = User_InitUser sid (e_tick (fst (ask st1))) (c_users ?ch a)"
  have u: "m_SSID u = sid" "\<not> mb_login u" "\<not> mb_inSector u" "m_sectorX u = -1" "m_sectorY u = -1"
    by (simp_all add: u_def User_InitUser_def User_UpdateRecvTime_def)
  define st3 where "st3 = upd_chat (acquire L_userMap) (upd_chat (upd_user a (User_InitUser sid (e_tick (fst (ask st1))))) (snd (ask st1)))"
  define st4 where "st4 = upd_chat (\<lambda>c. c\<lparr>c_connectCnt := c_connectCnt c + 1\<rparr>) (upd_chat (unlock (L_user a))
      (upd_chat (unlock L_userMap) (upd_chat (\<lambda>c. c\<lparr>c_userMap := (c_userMap c)(sid \<mapsto> a)\<rparr>) st3)))"
  have c3: "chat st3 = acquire L_userMap (upd_user a (\<lambda>_. u) (acquire (L_user a) (?ch\<lparr>c_userPool := pool\<rparr>)))"
    by (simp add: st3_def st1_def upd_user_def u_def)
  have run: "ChatServer_CreateUser sid st = Some st4"
    using A(1) none by (simp add: ChatServer_CreateUser_def Let_def split_def st1_def [symmetric] st3_def [symmetric] st4_def)
      (simp add: st3_def st1_def upd_user_def)
  have inv1: "net_inv c st1" using inv by (simp add: st1_def)
  have inv4: "net_inv c st4" using ask_inv(1)[OF inv1] by (simp add: st4_def st3_def)
  have fr4: "net_frame st st4"
  proof -
    have "net_frame st st1" unfolding st1_def by (intro net_frame_then_upd net_frame_refl)
    from net_frame_trans[OF this lib_frame_net[OF ask_inv(2)[OF inv1]]]
    show ?thesis unfolding st4_def st3_def by (intro net_frame_then_upd)
  qed
  have ran: "ran ((c_userMap ?ch)(sid \<mapsto> a)) = insert a (ran (c_userMap ?ch))" using none by simp
  have f4: "c_userMap (chat st4) = (c_userMap ?ch)(sid \<mapsto> a)" "c_users (chat st4) = (c_users ?ch)(a := u)"
    "c_accountMap (chat st4) = c_accountMap ?ch" "c_sectors (chat st4) = c_sectors ?ch" "c_nodes (chat st4) = c_nodes ?ch"
    "c_connectCnt (chat st4) = c_connectCnt ?ch + 1" "c_loginCnt (chat st4) = c_loginCnt ?ch" "c_userPool (chat st4) = pool"
    "c_held (chat st4) = []"
    using cs by (simp_all add: st4_def c3 upd_user_def cs_def unlock_def acquire_def)
  have "c_order (chat st4)"
    using cs none u(1) by (simp add: st4_def c3 upd_user_def cs_def order_acquire unlock_def)
  moreover have "chat_ok (m(i \<mapsto> sid)) (chat st4)"
    unfolding chat_ok_def f4 ran
  proof (intro conjI)
    show "ran (m(i \<mapsto> sid)) = dom ((c_userMap ?ch)(sid \<mapsto> a))" using mi O(6) by simp
    show "map_ok ((c_userMap ?ch)(sid \<mapsto> a)) ((c_users ?ch)(a := u))" by (rule map_ok_new[OF O(1) A(2) u(1)])
    show "acc_ok ((c_userMap ?ch)(sid \<mapsto> a)) ((c_users ?ch)(a := u)) (c_accountMap ?ch)"
      by (rule acc_ok_new[OF O(2) A(2) none u(2)])
    show "sec_ok (insert a (ran (c_userMap ?ch))) ((c_users ?ch)(a := u)) (c_sectors ?ch) (c_nodes ?ch)"
      by (rule sec_ok_new[OF O(3) A(2) u(3-5)])
    show "cnt_ok (insert a (ran (c_userMap ?ch))) ((c_users ?ch)(a := u)) (c_connectCnt ?ch + 1) (c_loginCnt ?ch)"
      by (rule cnt_ok_new[OF O(4) map_ok_ran[OF O(1)] A(2) u(2)])
  qed (rule A(3))
  ultimately show ?thesis using inv4 fr4 f4(9) by (simp add: run cs_def)
qed

lemma DeleteUser_inv:
  assumes inv: "net_inv c st" and cs: "cs m [] st" and mi: "m i = Some sid" and s: "sessions_of st = m"
  shows "wpx C (ChatServer_DeleteUser sid st) (\<lambda>st'. net_inv c st' \<and> net_frame st st' \<and> cs (m(i := None)) [] st')"
proof -
  let ?ch = "chat st"
  have ok: "chat_ok m ?ch" using cs by (simp add: cs_def)
  have O: "map_ok (c_userMap ?ch) (c_users ?ch)" "acc_ok (c_userMap ?ch) (c_users ?ch) (c_accountMap ?ch)"
    "sec_ok (ran (c_userMap ?ch)) (c_users ?ch) (c_sectors ?ch) (c_nodes ?ch)"
    "cnt_ok (ran (c_userMap ?ch)) (c_users ?ch) (c_connectCnt ?ch) (c_loginCnt ?ch)"
    "mp_inv (c_userPool ?ch) (ran (c_userMap ?ch))" "ran m = dom (c_userMap ?ch)"
    using ok by (auto simp: chat_ok_def)
  have "sid \<in> ran m" using mi by (rule ranI)
  then obtain a where M: "c_userMap ?ch sid = Some a" using O(6) by blast
  have a: "a \<in> ran (c_userMap ?ch)" using M by (rule ranI)
  have ssid: "m_SSID (c_users ?ch a) = sid" using O(1) M by (simp add: map_ok_def)
  have ran: "ran ((c_userMap ?ch)(sid := None)) = ran (c_userMap ?ch) - {a}" by (rule map_ok_ran_del[OF O(1) M])
  define c1 where "c1 = unlock L_userMap ((acquire (L_user a) (acquire L_userMap ?ch))\<lparr>c_userMap := (c_userMap ?ch)(sid := None)\<rparr>)"
  have c1f: "c_userMap c1 = (c_userMap ?ch)(sid := None)" "c_users c1 = c_users ?ch" "c_accountMap c1 = c_accountMap ?ch"
    "c_sectors c1 = c_sectors ?ch" "c_nodes c1 = c_nodes ?ch" "c_connectCnt c1 = c_connectCnt ?ch"
    "c_loginCnt c1 = c_loginCnt ?ch" "c_userPool c1 = c_userPool ?ch" "c_held c1 = [L_user a]" "c_order c1"
    using cs by (simp_all add: c1_def cs_def unlock_def acquire_def less_prod_def)
  have unmap: "DeleteUser_unmap sid ?ch = Some (a, c1)"
    using M ssid by (simp add: DeleteUser_unmap_def Let_def c1_def acquire_def unlock_def)
  obtain c2 u where L: "DeleteUser_leave_sector a c1 = Some c2" "c_userMap c2 = c_userMap c1" "c_users c2 = (c_users c1)(a := u)"
      "mb_login u = mb_login (c_users c1 a)" "m_accountNo u = m_accountNo (c_users c1 a)"
      "c_accountMap c2 = c_accountMap c1" "c_nodes c2 = c_nodes c1" "c_connectCnt c2 = c_connectCnt c1"
      "c_loginCnt c2 = c_loginCnt c1" "c_userPool c2 = c_userPool c1" "c_held c2 = [L_user a]" "c_order c2"
      "\<And>v. sec_ok (ran (c_userMap ?ch) - {a}) ((c_users ?ch)(a := v)) (c_sectors c2) (c_nodes ?ch)"
  proof (cases "mb_inSector (c_users c1 a)")
    case False
    show ?thesis
    proof (rule that[of c1 "c_users c1 a"])
      show "sec_ok (ran (c_userMap ?ch) - {a}) ((c_users ?ch)(a := v)) (c_sectors c1) (c_nodes ?ch)" for v
        using sec_ok_remove_none[OF O(3), of a v] False by (simp add: c1f)
    qed (use False c1f in \<open>simp_all add: DeleteUser_leave_sector_def Let_def\<close>)
  next
    case True
    let ?l = "L_sector (m_sectorY (c_users c1 a)) (m_sectorX (c_users c1 a))"
    have S: "sec_ok (ran (c_userMap ?ch)) (c_users (acquire ?l c1)) (c_sectors (acquire ?l c1)) (c_nodes (acquire ?l c1))"
      using O(3) by (simp add: c1f)
    obtain S' where R: "Sector_RemoveUser a (acquire ?l c1) = Some ((acquire ?l c1)\<lparr>c_sectors := S',
          c_users := (c_users (acquire ?l c1))(a := (c_users (acquire ?l c1) a)\<lparr>mb_inSector := False\<rparr>)\<rparr>)"
        "\<And>u. sec_ok (ran (c_userMap ?ch) - {a}) ((c_users (acquire ?l c1))(a := u)) S' (c_nodes (acquire ?l c1))"
      by (rule Sector_RemoveUser_ok[OF S a]) (rule that)
    let ?u = "(c_users c1 a)\<lparr>mb_inSector := False\<rparr>"
    let ?c2 = "upd_user a (\<lambda>u. u\<lparr>mb_inSector := False\<rparr>) (unlock ?l ((acquire ?l c1)\<lparr>c_sectors := S', c_users := (c_users c1)(a := ?u)\<rparr>))"
    show ?thesis
    proof (rule that[of ?c2 ?u])
      show "DeleteUser_leave_sector a c1 = Some ?c2"
        using True R(1) by (simp add: DeleteUser_leave_sector_def Let_def)
      show "sec_ok (ran (c_userMap ?ch) - {a}) ((c_users ?ch)(a := v)) (c_sectors ?c2) (c_nodes ?ch)" for v
        using R(2)[of v] by (simp add: c1f upd_user_def unlock_def acquire_def)
      show "c_order ?c2" using c1f by (simp add: upd_user_def unlock_def acquire_def less_prod_def)
    qed (use c1f in \<open>simp_all add: upd_user_def unlock_def acquire_def\<close>)
  qed
  define c3 where "c3 = DeleteUser_logout a (unlock (L_user a) c2)"
  have login: "mb_login (c_users c2 a) = mb_login (c_users ?ch a)" "m_accountNo (c_users c2 a) = m_accountNo (c_users ?ch a)"
    using L by (simp_all add: c1f)
  have "\<exists>v. c_users c3 = (c_users ?ch)(a := v)"
    using L(3) by (auto simp: c3_def DeleteUser_logout_def Let_def upd_user_def c1f)
  then obtain v where v: "c_users c3 = (c_users ?ch)(a := v)" by blast
  have c3f: "c_userMap c3 = (c_userMap ?ch)(sid := None)" "c_sectors c3 = c_sectors c2" "c_nodes c3 = c_nodes ?ch"
    "c_accountMap c3 = (if mb_login (c_users ?ch a) then (c_accountMap ?ch)(m_accountNo (c_users ?ch a) := None) else c_accountMap ?ch)"
    "c_connectCnt c3 = (if mb_login (c_users ?ch a) then c_connectCnt ?ch else c_connectCnt ?ch - 1)"
    "c_loginCnt c3 = (if mb_login (c_users ?ch a) then c_loginCnt ?ch - 1 else c_loginCnt ?ch)"
    "c_userPool c3 = c_userPool ?ch" "c_held c3 = []" "c_order c3"
    using L login by (simp_all add: c3_def DeleteUser_logout_def Let_def upd_user_def c1f unlock_def acquire_def)
  obtain pool where P: "MemoryPoolTls_Free (n_tid st) a (c_userPool c3) = Some (True, pool)" "mp_inv pool (ran (c_userMap ?ch) - {a})"
    using tls.free_ok[OF O(5) a, of "n_tid st"] c3f(7) by auto
  let ?st' = "upd_chat (\<lambda>_. c3\<lparr>c_userPool := pool\<rparr>) st"
  have run: "ChatServer_DeleteUser sid st = Some ?st'"
    using P(1) by (simp add: ChatServer_DeleteUser_def unmap L(1) Let_def c3_def [symmetric])
  have inj: "j = i" if "m j = Some sid" for j
    using that mi s sessions_of_index(2)[OF inv] by metis
  have "ran (m(i := None)) = dom (c_userMap ?ch) - {sid}"
  proof (intro set_eqI iffI)
    fix t assume "t \<in> ran (m(i := None))"
    then obtain j where "j \<noteq> i" "m j = Some t" by (auto simp: ran_def split: if_splits)
    then show "t \<in> dom (c_userMap ?ch) - {sid}" using inj O(6) by (auto intro: ranI)
  next
    fix t assume t: "t \<in> dom (c_userMap ?ch) - {sid}"
    then obtain j where "m j = Some t" using O(6) by (auto simp: ran_def)
    then have "(m(i := None)) j = Some t" using t mi by auto
    then show "t \<in> ran (m(i := None))" by (rule ranI)
  qed
  then have "chat_ok (m(i := None)) (c3\<lparr>c_userPool := pool\<rparr>)"
    using map_ok_delete[OF O(1) M, of v] acc_ok_delete[OF O(2,1) M, of v] cnt_ok_delete[OF O(4) map_ok_ran[OF O(1)] a, of v]
      L(13)[of v] P(2)
    unfolding chat_ok_def by (simp add: c3f v ran)
  then have "cs (m(i := None)) [] ?st'" using c3f by (simp add: cs_def)
  then show ?thesis using inv by (simp add: run)
qed

subsection \<open>The contract\<close>

lemma messageTps_post:
  assumes "wpx C r (\<lambda>st'. net_inv c st' \<and> net_frame st st' \<and> cs m [] st')"
  shows "wpx C (map_option messageTps_inc r) (\<lambda>st'. net_inv c st' \<and> net_frame st st' \<and> chat_inv m (chat st'))"
  unfolding wpx_map
proof (rule wpx_mono[OF assms])
  fix st1 assume A: "net_inv c st1 \<and> net_frame st st1 \<and> cs m [] st1"
  then show "net_inv c (messageTps_inc st1) \<and> net_frame st (messageTps_inc st1) \<and> chat_inv m (chat (messageTps_inc st1))"
    using net_frame_then_upd by (auto simp: messageTps_inc_def cs_def chat_inv_def intro: chat_ok_fields)
qed

text \<open>The chat server is a derived class in the sense of the library; a packet may end the process
  (\<open>ChatServer_OnRecv_crash\<close>), everything else does not.\<close>

lemma chat_join:
  assumes "net_inv c st" and "chat_inv m (chat st)" and "m i = None" and "sessions_of st = m(i \<mapsto> sid)"
  shows "wpx C (OnClientJoin chat_callbacks sid st) (\<lambda>st'. net_inv c st' \<and> net_frame st st' \<and> chat_inv (m(i \<mapsto> sid)) (chat st'))"
  using messageTps_post[OF CreateUser_inv[OF assms(1) _ assms(3,4)]] assms(2)
  by (simp add: chat_callbacks_def ChatServer_OnClientJoin_def cs_inv)

lemma chat_leave:
  assumes "net_inv c st" and "chat_inv m (chat st)" and "m i = Some sid" and "sessions_of st = m"
  shows "wpx C (OnClientLeave chat_callbacks sid st) (\<lambda>st'. net_inv c st' \<and> net_frame st st' \<and> chat_inv (m(i := None)) (chat st'))"
  using messageTps_post[OF DeleteUser_inv[OF assms(1) _ assms(3,4)]] assms(2)
  by (simp add: chat_callbacks_def ChatServer_OnClientLeave_def cs_inv)

lemma chat_timeout:
  assumes inv: "net_inv c st" and d: "chat_inv m (chat st)" and mi: "m i = Some sid" and s: "sessions_of st = m"
  shows "wpx C (OnClientTimeout chat_callbacks sid st) (\<lambda>st'. net_inv c st' \<and> net_frame st st' \<and> chat_inv m (chat st'))"
proof -
  have "unat (sid_index sid) < n_maxSession st" using sessions_of_index[OF inv, of i sid] mi s by simp
  from DisconnectSession_inv[OF inv this, of C] show ?thesis
    unfolding chat_callbacks_def ChatServer_OnClientTimeout_def callbacks.simps
    by (rule wpx_mono) (use d in \<open>auto simp: lib_frame_def\<close>)
qed

lemma chat_recv:
  assumes "net_inv c st" and "chat_inv m (chat st)" and "m i = Some sid" and "sessions_of st = m"
  shows "wpx (C \<or> ChatServer_OnRecv_crash sid packet st) (OnRecv chat_callbacks sid packet st)
    (\<lambda>st'. net_inv c st' \<and> net_frame st st' \<and> chat_inv m (chat st'))"
  using OnRecv_inv[OF assms(1) _ assms(4,3), of C packet] assms(2)
  by (simp add: chat_callbacks_def cs_inv)

interpretation chat_srv: derived_class chat_callbacks chat_inv True
proof unfold_locales
  fix c and st :: chat_server and m i sid packet
  assume "net_inv c st" "chat_inv m (chat st)" "m i = Some sid" "sessions_of st = m"
  from chat_recv[OF this, of True packet]
  show "wpx True (OnRecv chat_callbacks sid packet st) (\<lambda>st'. net_inv c st' \<and> net_frame st st' \<and> chat_inv m (chat st'))"
    by simp
qed (erule (3) chat_join, erule (3) chat_leave, erule (3) chat_timeout, simp add: chat_callbacks_def ChatServer_OnSend_def)

text \<open>The same server with the packets that would end the process taken out: nothing else does.\<close>

definition chat_guarded :: "chat_server callbacks" where
  "chat_guarded = chat_callbacks\<lparr>OnRecv := \<lambda>session_id packet st.
     if ChatServer_OnRecv_crash session_id packet st then Some st else ChatServer_OnRecv session_id packet st\<rparr>"

lemma chat_guarded_simps:
  "OnClientJoin chat_guarded = OnClientJoin chat_callbacks" "OnClientLeave chat_guarded = OnClientLeave chat_callbacks"
  "OnClientTimeout chat_guarded = OnClientTimeout chat_callbacks" "OnSend chat_guarded = OnSend chat_callbacks"
  by (simp_all add: chat_guarded_def)

interpretation chat_total: derived_class chat_guarded chat_inv False
proof unfold_locales
  fix c and st :: chat_server and m i sid packet
  assume A: "net_inv c st" "chat_inv m (chat st)" "m i = Some sid" "sessions_of st = m"
  from chat_recv[OF A, of False packet] A
  show "wpx False (OnRecv chat_guarded sid packet st) (\<lambda>st'. net_inv c st' \<and> net_frame st st' \<and> chat_inv m (chat st'))"
    by (cases "ChatServer_OnRecv_crash sid packet st") (simp_all add: chat_guarded_def chat_callbacks_def)
qed (unfold chat_guarded_simps, erule (3) chat_join, erule (3) chat_leave, erule (3) chat_timeout,
    simp add: chat_callbacks_def ChatServer_OnSend_def)

end
