(* ===== verification/NetMono.thy ===== *)
theory NetMono
  imports NetRun
begin

text \<open>
  A derived class whose \<open>OnRecv\<close> ends the process less often: the library's steps with it do what
  they did before, wherever they did not end the process before.
\<close>

definition run_le :: "'a run \<Rightarrow> 'a run \<Rightarrow> bool" where
  "run_le m n \<longleftrightarrow> m = None \<or> m = n"

lemma run_le_refl [simp, intro]: "run_le m m"
  by (simp add: run_le_def)

lemma run_le_None [simp]: "run_le None n"
  by (simp add: run_le_def)

lemma run_le_bind:
  assumes "run_le m n" and "\<And>x. run_le (f x) (g x)"
  shows "run_le (Option.bind m f) (Option.bind n g)"
proof (cases m)
  case (Some a)
  then have "n = Some a" using assms(1) by (simp add: run_le_def)
  with Some assms(2)[of a] show ?thesis by simp
qed simp

lemma run_le_map: "run_le m n \<Longrightarrow> run_le (map_option f m) (map_option f n)"
  by (auto simp: run_le_def)

lemma run_le_Some: "run_le m n \<Longrightarrow> m = Some x \<Longrightarrow> n = Some x"
  by (simp add: run_le_def)

locale recv_replaced =
  fixes cb :: "'a net_scheme callbacks" and f :: "u64 \<Rightarrow> addr \<Rightarrow> 'a net_scheme \<Rightarrow> 'a net_scheme run"
  assumes le: "run_le (OnRecv cb sid packet st) (f sid packet st)"
begin

lemma recv_dispatch_le: "run_le (recv_dispatch cb i p ok st) (recv_dispatch (cb\<lparr>OnRecv := f\<rparr>) i p ok st)"
  by (simp add: recv_dispatch_def Let_def le)

lemma recv_message_le: "run_le (recv_message cb i len st) (recv_message (cb\<lparr>OnRecv := f\<rparr>) i len st)"
  unfolding recv_message_def
  by (rule run_le_bind[OF run_le_refl]) (auto simp: Let_def split_def intro!: run_le_bind recv_dispatch_le)

lemma recv_loop_le: "run_le (recv_loop cb fuel i st) (recv_loop (cb\<lparr>OnRecv := f\<rparr>) fuel i st)"
proof (induction fuel arbitrary: st)
  case (Suc fuel)
  show ?case
    unfolding recv_loop.simps Let_def split_def
    by (auto intro!: run_le_bind recv_message_le Suc.IH)
qed simp

lemma recv_complete_le: "run_le (recv_complete cb i n st) (recv_complete (cb\<lparr>OnRecv := f\<rparr>) i n st)"
  unfolding recv_complete_def Let_def split_def by (intro run_le_bind recv_loop_le run_le_refl)

lemma session_completion_le:
  "run_le (session_completion cb n i ov st) (session_completion (cb\<lparr>OnRecv := f\<rparr>) n i ov st)"
  by (auto simp: session_completion_def CNetServer_release_def send_complete_def recv_complete_le
      split: overlapped.split ePost.split)

lemma runIoThread_body_le: "run_le (runIoThread_body cb c st) (runIoThread_body (cb\<lparr>OnRecv := f\<rparr>) c st)"
  unfolding runIoThread_body_def
  by (auto intro!: run_le_bind session_completion_le split: option.split)

lemma event_step_le: "run_le (event_step cb ev st) (event_step (cb\<lparr>OnRecv := f\<rparr>) ev st)"
proof (cases ev)
  case (Ev_accept sock ip port)
  then show ?thesis by (simp add: runAcceptThread_body_def Let_def split_def split: option.split list.split)
next
  case (Ev_timeout i)
  then show ?thesis by (simp add: timeout_check_def Let_def split_def)
next
  case Ev_stop
  then show ?thesis by (simp add: CNetServer_Stop_def)
qed (auto intro: run_le_map runIoThread_body_le)

text \<open>A run that does not end the process is the run with the replaced callback.\<close>

lemma run_events_le: "run_le (run_events cb evs st) (run_events (cb\<lparr>OnRecv := f\<rparr>) evs st)"
proof (induction evs arbitrary: st)
  case (Cons te evs)
  obtain t ev where "te = (t, ev)" by (cases te)
  then show ?case by (auto intro!: run_le_bind event_step_le Cons.IH)
qed simp

end

end
