(* ===== verification/ServerStart.thy ===== *)
theory ServerStart
  imports ChatSafe NetMono TextParse
begin

text \<open>
  The start of the server: the constructors, the configuration, \<open>ChatServer::Start\<close>, and the
  theorem that the server that has started satisfies the invariants of the library and of the chat
  server.

  A local variable that is read without having been set has an arbitrary value: \<open>uninit k\<close> for the
  integers, \<open>junk\<close> for the array of the address.
\<close>

subsection \<open>Constructors\<close>

text \<open>\<open>pmem a\<close> is the memory of the packet with address \<open>a\<close>; the members that the constructor does
  not set are set by \<open>Start\<close>. The static members of \<^verbatim>\<open>CLog\<close> and \<^verbatim>\<open>CPacket\<close> are part of the state.\<close>

definition CLog_static :: "(addr \<Rightarrow> clog) \<Rightarrow> (string \<Rightarrow> string) \<Rightarrow> syslog" where
  "CLog_static objs files = \<lparr>lg_dir = [], lg_level = 0, lg_init = False, lg_pool = MemoryPoolTls_ctor 100 False,
     lg_objs = objs, lg_counter = 0, lg_files = files\<rparr>"

definition CNetServer_ctor :: "(nat \<Rightarrow> environment) \<Rightarrow> (addr \<Rightarrow> bytes) \<Rightarrow> syslog \<Rightarrow> 'a \<Rightarrow> 'a net_scheme" where
  "CNetServer_ctor env pmem lg m =
     \<lparr>n_isRunning = False, n_maxSession = 0, n_maxUser = 0, n_packetKey = 0, n_packetCode = 0, n_sessID = 1,
      n_sessions = [], n_empty = [], n_logQueue = [], n_totalAccept = 0, n_sessionCnt = 0, n_syncRecv = 0,
      n_syncSend = 0, n_recvByte = 0, n_sendByte = 0, n_sendPacket = 0, n_recvPacket = 0, n_semiTimeOut = 0,
      n_AbortedByLocal = 0, n_preAccept = 0, n_acceptErr = 0, n_pool = MemoryPoolTls_ctor 500 False,
      n_packets = (\<lambda>a. CPacket_ctor eBUFFER_DEFAULT (pmem a)), n_syslog = lg, n_posts = [],
      n_recv_io = {}, n_send_io = {}, n_open = {}, n_tid = 0, n_env = env, n_time = 0, \<dots> = m\<rparr>"

definition ChatServer_members :: chat where
  "ChatServer_members = \<lparr>c_userPool = MemoryPoolTls_ctor 200 False, c_users = (\<lambda>_. User_ctor), c_userMap = Map.empty,
     c_accountMap = Map.empty, c_sectors = (\<lambda>_ _. []), c_nodes = 0, c_connectCnt = 0, c_loginCnt = 0,
     c_duplicateLogin = 0, c_messageTps = 0, c_collectMsgTPS = 0, c_held = [], c_order = True\<rparr>"

definition ChatServer_ctor :: "(nat \<Rightarrow> environment) \<Rightarrow> (addr \<Rightarrow> bytes) \<Rightarrow> syslog \<Rightarrow> chat_server" where
  "ChatServer_ctor env pmem lg = CNetServer_ctor env pmem lg ChatServer_members"

subsection \<open>The configuration\<close>

definition get_value :: "string \<Rightarrow> string \<Rightarrow> int \<Rightarrow> int run" where
  "get_value buf key old = map_option (\<lambda>r. case r of None \<Rightarrow> old | Some v \<Rightarrow> v) (TextParser_GetValue buf key)"

definition get_string :: "string \<Rightarrow> string \<Rightarrow> string \<Rightarrow> string run" where
  "get_string buf key old = map_option (\<lambda>r. case r of None \<Rightarrow> old | Some v \<Rightarrow> v) (TextParser_GetStringValue buf key 16)"

record config =
  cf_ip :: string
  cf_port :: int
  cf_worker :: int
  cf_max_worker :: int
  cf_max_user :: int
  cf_max_session :: int
  cf_packet_code :: int
  cf_packet_key :: int
  cf_nagle :: int

definition read_config :: "string \<Rightarrow> (nat \<Rightarrow> int) \<Rightarrow> string \<Rightarrow> config run" where
  "read_config buf uninit junk = do {
     ip \<leftarrow> get_string buf ''ServerBindIP'' junk;
     port \<leftarrow> get_value buf ''ServerBindPort'' (uninit 0);
     worker \<leftarrow> get_value buf ''IOCPWorkerThread'' (uninit 1);
     max_worker \<leftarrow> get_value buf ''IOCPActiveThread'' (uninit 2);
     max_user \<leftarrow> get_value buf ''MaxUser'' (uninit 3);
     max_session \<leftarrow> get_value buf ''MaxSession'' (uninit 4);
     packet_code \<leftarrow> get_value buf ''PacketCode'' (uninit 5);
     packet_key \<leftarrow> get_value buf ''PacketKey'' (uninit 6);
     nagle \<leftarrow> get_value buf ''Nagle'' (uninit 7);
     Some \<lparr>cf_ip = ip, cf_port = port, cf_worker = worker, cf_max_worker = max_worker, cf_max_user = max_user,
       cf_max_session = max_session, cf_packet_code = packet_code, cf_packet_key = packet_key, cf_nagle = nagle\<rparr>
   }"

text \<open>The members of the connection to the monitor server; each keeps what it held when its key is
  missing (the address array still holds the server's own).\<close>

record monitor_config =
  mc_ip :: string
  mc_port :: u16
  mc_worker :: int
  mc_active :: int

definition read_monitor :: "string \<Rightarrow> (nat \<Rightarrow> int) \<Rightarrow> config \<Rightarrow> monitor_config run" where
  "read_monitor buf uninit cf = do {
     ip \<leftarrow> get_string buf ''MonitorIP'' (cf_ip cf);
     port \<leftarrow> get_value buf ''MonitorPort'' (cf_port cf);
     worker \<leftarrow> get_value buf ''ClientIOCPWorker'' (uninit 8);
     active \<leftarrow> get_value buf ''ClientIOCPActive'' (uninit 9);
     Some \<lparr>mc_ip = ip, mc_port = of_int port, mc_worker = worker, mc_active = active\<rparr>
   }"

text \<open>
  \<open>Start\<close>: the result, the monitor server to connect to if there is one, and the server. Without the
  file the result is true, as the code returns 1. \<open>MaxUser\<close> is read and not used.
\<close>

definition ChatServer_Start ::
  "string option \<Rightarrow> (nat \<Rightarrow> int) \<Rightarrow> string \<Rightarrow> bool \<Rightarrow> (nat \<Rightarrow> bytes \<times> bytes) \<Rightarrow> chat_server \<Rightarrow>
   (bool \<times> monitor_config option \<times> chat_server) run" where
  "ChatServer_Start file uninit junk handles mem st = do {
     let st = ChatServer_init st;
     let (ok, buf) = TextParser_LoadFile file [];
     if \<not> ok then Some (True, None, st)
     else do {
       cf \<leftarrow> read_config buf uninit junk;
       (ret, st) \<leftarrow> CNetServer_Start chat_callbacks (cf_ip cf) (cf_max_session cf) (of_int (cf_packet_key cf))
                    (of_int (cf_packet_code cf)) handles mem st;
       if \<not> ret then Some (False, None, st)
       else do {
         mc \<leftarrow> read_monitor buf uninit cf;
         Some (True, Some mc, st)
       }
     }
   }"

subsection \<open>The state after the start\<close>

text \<open>What the memory allocator guarantees: blocks have the size asked for.\<close>

definition system_ok :: "(addr \<Rightarrow> bytes) \<Rightarrow> (nat \<Rightarrow> bytes \<times> bytes) \<Rightarrow> bool" where
  "system_ok pmem mem \<longleftrightarrow> (\<forall>a. length (pmem a) = 2005) \<and>
     (\<forall>i. length (fst (mem i)) = 4001 \<and> length (snd (mem i)) = 2001)"

lemma push_indices_eq: "push_indices n st = map of_nat [0..<n] @ st"
proof (induction n arbitrary: st)
  case (Suc n)
  have "push_indices (Suc n) st = map of_nat [0..<n] @ of_nat n # st" using Suc by simp
  then show ?case by simp
qed simp

lemma u16_indices:
  assumes "n \<le> 2 ^ 16"
  shows "distinct (map of_nat [0..<n] :: u16 list)" and "k < n \<Longrightarrow> unat (of_nat k :: u16) = k"
proof -
  have u: "unat (of_nat k :: u16) = k" if "k < n" for k
    using that assms by (simp add: unat_of_nat take_bit_nat_eq_self)
  have "inj_on (of_nat :: nat \<Rightarrow> u16) {0..<n}"
    by (rule inj_onI) (metis u atLeastLessThan_iff)
  then show "distinct (map of_nat [0..<n] :: u16 list)" by (simp add: distinct_map)
  show "unat (of_nat k :: u16) = k" if "k < n" by (rule u[OF that])
qed

text \<open>The first state of the server: no session, no post, nothing in use.\<close>

definition started :: "nat \<Rightarrow> u8 \<Rightarrow> u8 \<Rightarrow> (nat \<Rightarrow> environment) \<Rightarrow> (addr \<Rightarrow> bytes) \<Rightarrow> syslog \<Rightarrow> (nat \<Rightarrow> bytes \<times> bytes) \<Rightarrow> chat_server" where
  "started n key code env pmem lg mem =
     (ChatServer_init (ChatServer_ctor env pmem lg))\<lparr>n_maxSession := n, n_packetKey := key, n_packetCode := code,
       n_isRunning := True, n_sessions := map (\<lambda>i. Session_ctor (fst (mem i)) (snd (mem i))) [0..<n],
       n_empty := map of_nat [0..<n]\<rparr>"

lemma Session_ctor_free:
  assumes "length sm = 4001" and "length rm = 2001"
  shows "slot_ok i \<lparr>v_free = True, v_sendp = 0, v_cancel = 0, v_rel = 0, v_rio = False, v_sio = False, v_pins = 0,
    v_recv = False, v_snd = False, v_relc = False\<rparr> (Session_ctor sm rm)"
  using rb_ctor[of 4000 sm] rb_ctor[of 2000 rm] assms
  by (simp add: slot_ok_def bufs_ok_def Session_ctor_def MAX_SENDQ_def)

lemma concat_Nil: "(\<And>x. x \<in> set xs \<Longrightarrow> f x = []) \<Longrightarrow> concat (map f xs) = []"
  by (induction xs) auto

lemma started_net_inv:
  assumes sys: "system_ok pmem mem" and n: "n \<le> 2 ^ 16" and lg: "lg_inv lg {}"
  shows "net_inv no_ctx (started n key code env pmem lg mem)"
proof -
  let ?st = "started n key code env pmem lg mem"
  have F: "n_maxSession ?st = n" "n_posts ?st = []" "n_recv_io ?st = {}" "n_send_io ?st = {}"
    "n_empty ?st = map of_nat [0..<n]" "n_sessionCnt ?st = 0" "n_logQueue ?st = []" "n_syslog ?st = lg"
    "n_sessions ?st = map (\<lambda>i. Session_ctor (fst (mem i)) (snd (mem i))) [0..<n]" "n_env ?st = env"
    "n_pool ?st = MemoryPoolTls_ctor 500 False" "n_packets ?st = (\<lambda>a. CPacket_ctor eBUFFER_DEFAULT (pmem a))"
    "n_sessID ?st = 1"
    by (simp_all add: started_def ChatServer_init_def ChatServer_ctor_def CNetServer_ctor_def upd_chat_def)
  have q: "queued (n_sessions ?st) = {#}"
    unfolding queued_def F map_map by (subst concat_Nil) (auto simp: Session_ctor_def)
  have "slot_ok i (view no_ctx ?st i) (sess ?st i)" if "i < n" for i
  proof -
    have "view no_ctx ?st i = \<lparr>v_free = True, v_sendp = 0, v_cancel = 0, v_rel = 0, v_rio = False, v_sio = False,
        v_pins = 0, v_recv = False, v_snd = False, v_relc = False\<rparr>"
      using that by (simp add: view_def F)
    moreover have "sess ?st i = Session_ctor (fst (mem i)) (snd (mem i))" using that by (simp add: F)
    ultimately show ?thesis using Session_ctor_free[of "fst (mem i)" "snd (mem i)" i] sys by (simp add: system_ok_def)
  qed
  moreover have "struct_ok (n_maxSession ?st) (length (n_sessions ?st)) (n_empty ?st) (n_sessionCnt ?st)
       (n_recv_io ?st) (n_send_io ?st) (n_posts ?st)"
    using n u16_indices[OF n] by (auto simp: struct_ok_def F)
  moreover have "pk_ok (n_pool ?st) (n_packets ?st) (queued (n_sessions ?st) + x_held no_ctx)"
    unfolding q F(11,12) pk_ok_def
    using mp_inv_ctor[of 500 False] sys pk_ctor[of eBUFFER_DEFAULT]
    by (auto simp: system_ok_def eBUFFER_DEFAULT_def CPacket_ctor_def CPacket_Clear_def)
  moreover have "log_ok (n_syslog ?st) (n_logQueue ?st) (count_list (n_posts ?st) (Post_null LOG_PEND) + x_log no_ctx)"
    using lg by (simp add: log_ok_def F)
  ultimately show ?thesis
    using sys by (simp add: net_inv_def F system_ok_def)
qed

lemma started_chat_inv: "chat_inv (sessions_of (started n key code env pmem lg mem)) (chat (started n key code env pmem lg mem))"
proof -
  let ?st = "started n key code env pmem lg mem"
  have s: "sessions_of ?st = Map.empty"
    by (rule ext) (auto simp: sessions_of_def started_def ChatServer_init_def ChatServer_ctor_def upd_chat_def CNetServer_ctor_def)
  have c: "chat ?st = ChatServer_members"
    by (simp add: started_def ChatServer_init_def ChatServer_ctor_def upd_chat_def CNetServer_ctor_def ChatServer_members_def)
  show ?thesis
    unfolding s c using mp_inv_ctor[of 200 False]
    by (simp add: chat_inv_def chat_ok_def ChatServer_members_def map_ok_def acc_ok_def sec_ok_def cnt_ok_def)
qed

lemma started_srv_inv:
  assumes "system_ok pmem mem" and "n \<le> 2 ^ 16" and "lg_inv lg {}"
  shows "chat_total.srv_inv no_ctx (started n key code env pmem lg mem)"
  using started_net_inv[OF assms] started_chat_inv by (simp add: chat_total.srv_inv_def)

text \<open>\<open>Start\<close> with a readable configuration leads to this state.\<close>

lemma ChatServer_Start_started:
  assumes "ChatServer_Start (Some text) uninit junk handles mem (ChatServer_ctor env pmem (CLog_static objs files)) = Some (True, mc, st)"
  obtains cf lg where "read_config text uninit junk = Some cf" "lg_inv lg {}" "0 \<le> cf_max_session cf"
    "st = started (nat (cf_max_session cf)) (of_int (cf_packet_key cf)) (of_int (cf_packet_code cf)) env pmem lg mem"
proof -
  obtain lg where lg: "SYSLOG_Init ''Log'' 0 (CLog_static objs files) = Some lg" "lg_inv lg {}"
    using mp_inv_ctor[of 100 False]
    by (auto simp: SYSLOG_Init_def SYSLOG_DIRECTORY_def SYSLOG_LEVEL_def CLog_static_def lg_inv_def dfLOG_DIR_MAX_def)
  obtain cf where cf: "read_config text uninit junk = Some cf"
    using assms by (auto simp: ChatServer_Start_def TextParser_LoadFile_def bind_Some_iff)
  have "\<not> (16 \<le> length (cf_ip cf) \<or> \<not> handles \<or> cf_max_session cf < 0)"
    using assms cf lg(1)
    by (auto simp: ChatServer_Start_def TextParser_LoadFile_def CNetServer_Start_def Let_def ChatServer_init_def
        ChatServer_ctor_def upd_chat_def CNetServer_ctor_def split: if_splits)
  moreover from this have "st = started (nat (cf_max_session cf)) (of_int (cf_packet_key cf)) (of_int (cf_packet_code cf)) env pmem lg mem"
    using assms cf lg(1)
    by (auto simp: ChatServer_Start_def TextParser_LoadFile_def CNetServer_Start_def Let_def ChatServer_init_def
        ChatServer_ctor_def upd_chat_def CNetServer_ctor_def started_def push_indices_eq bind_Some_iff)
  ultimately show ?thesis using that[OF cf lg(2)] by simp
qed

end
