(* ===== verification/Server.thy ===== *)
theory Server
  imports ServerStart TextRound
begin

text \<open>
  The whole server: what holds in every state that a server can reach after \<open>ChatServer::Start\<close>,
  whatever the clients send and in whatever order the system delivers completions, posts,
  connections and time-outs.
\<close>

subsection \<open>Reachable states\<close>

text \<open>A server that has started with some configuration of at most 65536 sessions (an index has 16
  bits).\<close>

definition booted :: "chat_server \<Rightarrow> bool" where
  "booted st \<longleftrightarrow> (\<exists>conf uninit junk mem env pmem objs files mc.
     system_ok pmem mem \<and> n_maxSession st \<le> 2 ^ 16 \<and>
     ChatServer_Start (Some conf) uninit junk True mem (ChatServer_ctor env pmem (CLog_static objs files)) =
       Some (True, mc, st))"

lemma booted_inv:
  assumes "booted st"
  shows "chat_total.srv_inv no_ctx st"
proof -
  obtain conf uninit junk mem env pmem objs files mc where
    S: "system_ok pmem mem" "n_maxSession st \<le> 2 ^ 16"
      "ChatServer_Start (Some conf) uninit junk True mem (ChatServer_ctor env pmem (CLog_static objs files)) = Some (True, mc, st)"
    using assms by (auto simp: booted_def)
  from S(3) obtain cf lg where "read_config conf uninit junk = Some cf" and C: "lg_inv lg {}"
    "0 \<le> cf_max_session cf" "st = started (nat (cf_max_session cf)) (of_int (cf_packet_key cf)) (of_int (cf_packet_code cf)) env pmem lg mem"
    by (rule ChatServer_Start_started) (rule that)
  have "nat (cf_max_session cf) \<le> 2 ^ 16" using S(2) C(3) by (simp add: started_def)
  then show ?thesis unfolding C(3) by (rule started_srv_inv[OF S(1) _ C(1)])
qed

lemma OnRecv_crash_None:
  assumes "ChatServer_OnRecv_crash sid packet st"
  shows "ChatServer_OnRecv sid packet st = None"
proof -
  obtain ty user st1 where B: "OnRecv_begin sid packet st = Some (ty, user, st1)"
    and C: "ty = en_PACKET_TYPE_value en_PACKET_CS_CHAT_REQ_LOGIN \<and> ProcLogin_crash user packet st1 \<or>
      ty = en_PACKET_TYPE_value en_PACKET_CS_CHAT_REQ_MESSAGE \<and> ProcMessage_crash user packet st1"
    using assms by (auto simp: ChatServer_OnRecv_crash_def split: option.splits)
  have L: "ProcLogin user packet st1 = None" if "ProcLogin_crash user packet st1"
    using that by (auto simp: ProcLogin_crash_def ProcLogin_def split_def Let_def)
  have T: "ProcMessage user packet st1 = None" if "ProcMessage_crash user packet st1"
    using that by (auto simp: ProcMessage_crash_def ProcMessage_def split_def Let_def send_new_def MakeMessage_def
        wcscpy_s_def bind_eq_None_conv split: option.splits)
  from C have "OnRecv_dispatch ty user packet st1 = None"
    using L T by (auto simp: OnRecv_dispatch_def simp del: en_PACKET_TYPE_value.simps)
  then show ?thesis by (simp add: ChatServer_OnRecv_def B)
qed

interpretation guard: recv_replaced chat_callbacks
  "\<lambda>session_id packet st. if ChatServer_OnRecv_crash session_id packet st then Some st else ChatServer_OnRecv session_id packet st"
  by unfold_locales (auto simp: chat_callbacks_def OnRecv_crash_None)

lemma guarded_run: "run_le (run_events chat_callbacks evs st) (run_events chat_guarded evs st)"
  using guard.run_events_le by (simp add: chat_guarded_def)

lemma reach_inv:
  assumes "booted st0" and "run_events chat_callbacks evs st0 = Some st"
  shows "net_inv no_ctx st" and "chat_inv (sessions_of st) (chat st)" and "n_maxSession st = n_maxSession st0"
proof -
  have "run_events chat_guarded evs st0 = Some st" using run_le_Some[OF guarded_run assms(2)] .
  then have "chat_total.srv_inv no_ctx st \<and> n_maxSession st = n_maxSession st0"
    using wpx_SomeE[OF chat_total.run_events_inv[OF booted_inv[OF assms(1)]]] by blast
  then show "net_inv no_ctx st" and "chat_inv (sessions_of st) (chat st)" and "n_maxSession st = n_maxSession st0"
    by (simp_all add: chat_total.srv_inv_def)
qed

subsection \<open>Posts\<close>

fun post_for :: "nat \<Rightarrow> post \<Rightarrow> bool" where
  "post_for i (Post j k) \<longleftrightarrow> j = i"
| "post_for i _ \<longleftrightarrow> False"

definition posts_for :: "nat \<Rightarrow> 'a net_scheme \<Rightarrow> post list" where
  "posts_for i st = filter (post_for i) (n_posts st)"

lemma length_posts_for:
  assumes "\<And>j k. Post j k \<in> set ps \<Longrightarrow> k \<in> {SEND_PEND, CANCEL_IO, RELEASE_PEND}"
  shows "length (filter (post_for i) ps) =
    count_list ps (Post i SEND_PEND) + count_list ps (Post i CANCEL_IO) + count_list ps (Post i RELEASE_PEND)"
  using assms
proof (induction ps)
  case (Cons p ps)
  have IH: "length (filter (post_for i) ps) =
      count_list ps (Post i SEND_PEND) + count_list ps (Post i CANCEL_IO) + count_list ps (Post i RELEASE_PEND)"
    by (rule Cons.IH) (use Cons.prems in auto)
  show ?case
  proof (cases p)
    case (Post j k)
    then have "k \<in> {SEND_PEND, CANCEL_IO, RELEASE_PEND}" using Cons.prems[of j k] by simp
    then show ?thesis using IH Post by auto
  qed (use IH in simp_all)
qed simp

lemma posts_for_count:
  assumes "net_inv c st"
  shows "length (posts_for i st) = v_sendp (view c st i) + v_cancel (view c st i) + v_rel (view c st i)"
  unfolding posts_for_def
  by (subst length_posts_for) (use net_invD(2)[OF assms] in \<open>auto simp: struct_ok_def view_def\<close>)

lemma idle_slot:
  assumes "net_inv no_ctx st" and "i < n_maxSession st"
  shows "slot_ok i (view no_ctx st i) (sess st i)" "v_pins (view no_ctx st i) = 0" "\<not> v_recv (view no_ctx st i)"
    "\<not> v_snd (view no_ctx st i)" "\<not> v_relc (view no_ctx st i)"
  using net_invD(1)[OF assms] by (simp_all add: view_def)

subsection \<open>A concrete server\<close>

text \<open>The configuration file of the repository, with two sessions.\<close>

definition sample_config :: "(string \<times> entry_value) list" where
  "sample_config =
     [(''ServerBindIP'', Str ''0.0.0.0''), (''ServerBindPort'', Num 6000), (''IOCPWorkerThread'', Num 4),
      (''IOCPActiveThread'', Num 4), (''MaxSession'', Num 2), (''MaxUser'', Num 18000), (''Nagle'', Num 1),
      (''PacketCode'', Num 119), (''PacketKey'', Num 50), (''MonitorIP'', Str ''127.0.0.1''),
      (''MonitorPort'', Num 5000), (''ClientIOCPWorker'', Num 1), (''ClientIOCPActive'', Num 1)]"

text \<open>The answers of a system where every request stays pending.\<close>

definition sample_env :: "nat \<Rightarrow> environment" where
  "sample_env t = \<lparr>e_io = Io_pending, e_tick = of_nat t,
     e_tm = \<lparr>tm_year = 123, tm_mon = 4, tm_mday = 1, tm_hour = 12, tm_min = 0, tm_sec = 0\<rparr>,
     e_opened = True, e_rand = 7, e_word = 0, e_mem = (\<lambda>_. 0), e_wmem = (\<lambda>_. 0), e_tail = [], e_nick_tail = []\<rparr>"

definition sample_packets :: "addr \<Rightarrow> bytes" where
  "sample_packets a = replicate 2005 0"

definition sample_rings :: "nat \<Rightarrow> bytes \<times> bytes" where
  "sample_rings i = (replicate 4001 0, replicate 2001 0)"

definition sample_clog :: clog where
  "sample_clog = \<lparr>cl_isHex = False, cl_logBuf = [], cl_logHex = [], cl_fileName = [],
     cl_logLevel = enLOG_LEVEL_DEBUG, cl_logNo = 0\<rparr>"

definition sample_static :: syslog where
  "sample_static = CLog_static (\<lambda>_. sample_clog) (\<lambda>_. [])"

definition sample_syslog :: syslog where
  "sample_syslog = sample_static\<lparr>lg_dir := ''Log'', lg_init := True\<rparr>"

definition sample_server :: chat_server where
  "sample_server = started 2 50 119 sample_env sample_packets sample_syslog sample_rings"

lemma get_value_print:
  assumes "\<forall>e \<in> set es. entry_ok e" and "word_ok key" and "\<forall>(k, v) \<in> set es. print_value v \<noteq> key"
    and "map_of es key = Some (Num n)"
  shows "get_value (print_config es) key old = Some n"
  using config_lookup(1)[OF assms] by (simp add: get_value_def)

lemma get_string_print:
  assumes "\<forall>e \<in> set es. entry_ok e" and "word_ok key" and "\<forall>(k, v) \<in> set es. print_value v \<noteq> key"
    and "map_of es key = Some (Str s)" and "length s \<le> 16"
  shows "get_string (print_config es) key old = Some s"
  using config_lookup(2)[OF assms] by (simp add: get_string_def)

lemma value_digit:
  assumes "value_ok v"
  shows "digit_value (hd (print_value v)) \<le> 9"
proof (cases v)
  case (Num n)
  have n: "- (2 ^ 31) \<le> n" "n < 2 ^ 31" using assms Num by simp_all
  have b: "nat \<bar>n\<bar> < 10 ^ 20" using n by simp
  obtain c cs where D: "digits 20 10 (nat \<bar>n\<bar>) = c # cs" "\<forall>d \<in> set (c # cs). is_digit d" "length (c # cs) \<le> 20"
    by (rule digits_10[OF b]) (rule that)
  have "fmt_d n = (if n < 0 then ''-'' else []) @ c # cs" using D(1) by (auto simp: fmt_d_def)
  then show ?thesis using D(2) Num by (auto simp: is_digit_def digit_value_def)
qed (simp add: digit_value_def)

lemma sample_config_ok:
  shows "\<forall>e \<in> set sample_config. entry_ok e" and "\<forall>(k, v) \<in> set sample_config. word_ok k"
    and "key \<in> fst ` set sample_config \<Longrightarrow> \<forall>(k, v) \<in> set sample_config. print_value v \<noteq> key"
proof -
  show "\<forall>e \<in> set sample_config. entry_ok e" by code_simp
  show "\<forall>(k, v) \<in> set sample_config. word_ok k" by code_simp
  have k: "\<forall>(k, v) \<in> set sample_config. 9 < digit_value (hd k)" by code_simp
  have "\<forall>e \<in> set sample_config. entry_ok e" by code_simp
  then have v: "\<forall>(k, v) \<in> set sample_config. digit_value (hd (print_value v)) \<le> 9"
    using value_digit by (auto simp: entry_ok_def)
  show "\<forall>(k, v) \<in> set sample_config. print_value v \<noteq> key" if "key \<in> fst ` set sample_config"
  proof -
    have "9 < digit_value (hd key)" using that k by force
    then show ?thesis using v by force
  qed
qed

lemma sample_num: "map_of sample_config key = Some (Num n) \<Longrightarrow> get_value (print_config sample_config) key old = Some n"
proof (rule get_value_print)
  assume m: "map_of sample_config key = Some (Num n)"
  have k: "key \<in> fst ` set sample_config" using map_of_SomeD[OF m] by force
  show "word_ok key" using sample_config_ok(2) map_of_SomeD[OF m] by blast
  show "\<forall>(k, v) \<in> set sample_config. print_value v \<noteq> key" by (rule sample_config_ok(3)[OF k])
qed (rule sample_config_ok(1))

lemma sample_str: "map_of sample_config key = Some (Str s) \<Longrightarrow> length s \<le> 16 \<Longrightarrow> get_string (print_config sample_config) key old = Some s"
proof (rule get_string_print)
  assume m: "map_of sample_config key = Some (Str s)"
  have k: "key \<in> fst ` set sample_config" using map_of_SomeD[OF m] by force
  show "word_ok key" using sample_config_ok(2) map_of_SomeD[OF m] by blast
  show "\<forall>(k, v) \<in> set sample_config. print_value v \<noteq> key" by (rule sample_config_ok(3)[OF k])
qed (rule sample_config_ok(1))

lemma sample_start:
  "ChatServer_Start (Some (print_config sample_config)) (\<lambda>_. 0) [] True sample_rings
     (ChatServer_ctor sample_env sample_packets (CLog_static (\<lambda>_. sample_clog) (\<lambda>_. []))) =
   Some (True, Some \<lparr>mc_ip = ''127.0.0.1'', mc_port = 5000, mc_worker = 1, mc_active = 1\<rparr>, sample_server)"
proof -
  let ?cf = "\<lparr>cf_ip = ''0.0.0.0'', cf_port = 6000, cf_worker = 4, cf_max_worker = 4, cf_max_user = 18000,
       cf_max_session = 2, cf_packet_code = 119, cf_packet_key = 50, cf_nagle = 1\<rparr>"
  have m: "map_of sample_config ''ServerBindIP'' = Some (Str ''0.0.0.0'')"
    "map_of sample_config ''ServerBindPort'' = Some (Num 6000)" "map_of sample_config ''IOCPWorkerThread'' = Some (Num 4)"
    "map_of sample_config ''IOCPActiveThread'' = Some (Num 4)" "map_of sample_config ''MaxSession'' = Some (Num 2)"
    "map_of sample_config ''MaxUser'' = Some (Num 18000)" "map_of sample_config ''Nagle'' = Some (Num 1)"
    "map_of sample_config ''PacketCode'' = Some (Num 119)" "map_of sample_config ''PacketKey'' = Some (Num 50)"
    "map_of sample_config ''MonitorIP'' = Some (Str ''127.0.0.1'')" "map_of sample_config ''MonitorPort'' = Some (Num 5000)"
    "map_of sample_config ''ClientIOCPWorker'' = Some (Num 1)" "map_of sample_config ''ClientIOCPActive'' = Some (Num 1)"
    by (simp_all add: sample_config_def)
  note vals = m(1)[THEN sample_str] m(2-9)[THEN sample_num] m(10)[THEN sample_str] m(11-13)[THEN sample_num]
  have cf: "read_config (print_config sample_config) (\<lambda>_. 0) [] = Some ?cf"
    unfolding read_config_def by (simp add: vals)
  have mc: "read_monitor (print_config sample_config) (\<lambda>_. 0) ?cf =
      Some \<lparr>mc_ip = ''127.0.0.1'', mc_port = 5000, mc_worker = 1, mc_active = 1\<rparr>"
    unfolding read_monitor_def by (simp add: vals)
  have n: "nat 2 = Suc (Suc 0)" by simp
  show ?thesis
    by (simp add: ChatServer_Start_def TextParser_LoadFile_def cf mc CNetServer_Start_def Let_def SYSLOG_Init_def
        SYSLOG_DIRECTORY_def SYSLOG_LEVEL_def CLog_static_def dfLOG_DIR_MAX_def ChatServer_init_def ChatServer_ctor_def
        upd_chat_def CNetServer_ctor_def sample_server_def started_def sample_syslog_def sample_static_def n push_indices_eq)
qed

lemma sample_booted: "booted sample_server"
proof -
  have "system_ok sample_packets sample_rings"
    by (simp add: system_ok_def sample_packets_def sample_rings_def)
  moreover have "n_maxSession sample_server \<le> 2 ^ 16" by (simp add: sample_server_def started_def)
  ultimately show ?thesis unfolding booted_def using sample_start by blast
qed

end
