(* ===== verification/ServerProps.thy ===== *)
theory ServerProps
  imports Server
begin

text \<open>
  Properties of every reachable state of the server, read off the invariants, with a concrete run as
  the example: two clients connect and the receive of the second one fails.
\<close>

subsection \<open>A run\<close>

definition sample_events :: "(tid \<times> event) list" where
  "sample_events = [(0, Ev_accept (Some 5) ''10.0.0.1'' 4000), (0, Ev_accept (Some 6) ''10.0.0.2'' 4001),
     (1, Ev_timeout 0), (2, Ev_recv 1 [] (Some 64)), (3, Ev_post 0), (3, Ev_post 5)]"

definition sample_state :: chat_server where
  "sample_state = the (run_events chat_callbacks sample_events sample_server)"

lemma sample_run_general:
  "map_option (\<lambda>st. (map (sessions_of st) [0, 1, 2], n_empty st, n_posts st, map (c_userMap (chat st)) [1, 0x100000002],
      map s_io_count (n_sessions st)))
    (run_events chat_callbacks sample_events (started 2 50 119 sample_env pm sample_syslog rings)) =
   Some ([Some 1, Some 0x100000002, None], [], [Post 1 RELEASE_PEND], [Some 200, Some 199], [1, 1])"
  by code_simp

lemma sample_run:
  "run_events chat_callbacks sample_events sample_server = Some sample_state"
  "sessions_of sample_state 0 = Some 1" "sessions_of sample_state 1 = Some 0x100000002"
  "n_posts sample_state = [Post 1 RELEASE_PEND]" "n_empty sample_state = []"
  "c_userMap (chat sample_state) 1 = Some 200"
  using sample_run_general[of sample_packets sample_rings]
  unfolding sample_state_def sample_server_def by auto

lemma sample_flags_general:
  "map_option (\<lambda>st. (0 \<in> n_recv_io st, s_disconnect (sess st 0), s_release_flag (sess st 1)))
    (run_events chat_callbacks sample_events (started 2 50 119 sample_env pm sample_syslog rings)) = Some (True, False, True)"
  by code_simp

lemma sample_flags:
  "0 \<in> n_recv_io sample_state" "\<not> s_disconnect (sess sample_state 0)" "s_release_flag (sess sample_state 1)"
  using sample_flags_general[of sample_packets sample_rings]
  unfolding sample_state_def sample_server_def by auto

lemma sample_reach: "net_inv no_ctx sample_state" "chat_inv (sessions_of sample_state) (chat sample_state)"
  "n_maxSession sample_state = 2"
  using reach_inv[OF sample_booted sample_run(1)] by (simp_all add: sample_server_def started_def)

subsection \<open>The process does not end\<close>

text \<open>
  C9. Nothing that the clients or the system do ends a started server except two kinds of packets and a log
  file that cannot be opened. The packets are a
  login with an account number that another user is logged in with, and a message of a user whose
  ID or nickname has no room for its terminator. With these packets skipped a sequence of events ends the process
  exactly if it comes to the write of a log record for which the file cannot be opened; every other sequence runs
  to the end (no crash, no null pointer, no failed allocation, no receive loop that does not
  terminate), and without skipping the server does the same or ends at such a packet.
\<close>

theorem server_ends_only_on_bad_packets:
  assumes "booted st0"
  shows "(run_events chat_guarded evs st0 = None \<longleftrightarrow> log_file_fails chat_guarded evs st0) \<and>
    run_events chat_callbacks evs st0 \<in> {run_events chat_guarded evs st0, None}"
proof -
  have "wpx (log_file_fails chat_guarded evs st0) (run_events chat_guarded evs st0) (\<lambda>_. True)"
    using chat_total.run_events_inv[OF booted_inv[OF assms], of evs] by (auto elim: wpx_mono)
  then have "run_events chat_guarded evs st0 = None \<longleftrightarrow> log_file_fails chat_guarded evs st0"
    using log_file_fails_None[of chat_guarded evs st0] by (cases "run_events chat_guarded evs st0") auto
  then show ?thesis using guarded_run[of evs st0] by (auto simp: run_le_def)
qed

theorem server_ends_only_on_bad_packets_witness:
  "\<not> log_file_fails chat_guarded sample_events sample_server \<and>
    run_events chat_guarded sample_events sample_server = Some sample_state"
proof -
  have g: "run_events chat_guarded sample_events sample_server = Some sample_state"
    using server_ends_only_on_bad_packets[OF sample_booted, of sample_events] sample_run(1) by simp
  then show ?thesis using server_ends_only_on_bad_packets[OF sample_booted, of sample_events] by simp
qed

text \<open>
  C21. In a reachable state a packet of a connected client makes \<open>OnRecv\<close> end the process exactly when
  it is one of the two kinds of \<open>ChatServer_OnRecv_crash\<close>.
\<close>

theorem OnRecv_ends_iff:
  assumes "booted st0" and "run_events chat_callbacks evs st0 = Some st" and "sessions_of st i = Some sid"
  shows "ChatServer_OnRecv sid packet st = None \<longleftrightarrow> ChatServer_OnRecv_crash sid packet st"
proof -
  have "cs (sessions_of st) [] st" using reach_inv(2)[OF assms(1,2)] by (simp add: cs_inv)
  from OnRecv_inv[OF reach_inv(1)[OF assms(1,2)] this refl assms(3), of False packet]
  have "ChatServer_OnRecv_crash sid packet st \<or> ChatServer_OnRecv sid packet st \<noteq> None"
    by (cases "ChatServer_OnRecv sid packet st") simp_all
  then show ?thesis using OnRecv_crash_None by blast
qed

theorem OnRecv_ends_iff_witness:
  "ChatServer_OnRecv 1 7 sample_state = None \<longleftrightarrow> ChatServer_OnRecv_crash 1 7 sample_state"
  by (rule OnRecv_ends_iff[OF sample_booted sample_run(1,2)])

subsection \<open>Sessions\<close>

lemma slot_single:
  assumes "slot_ok i v s"
  shows "v_sendp v + of_bool (v_sio v) \<le> (1 :: nat)" and "v_cancel v \<le> 1"
proof -
  have b: "of_bool b \<le> (1 :: nat)" for b by (cases b) simp_all
  show "v_sendp v + of_bool (v_sio v) \<le> (1 :: nat)" and "v_cancel v \<le> 1"
    using assms b[of "s_send_post_flag s"] b[of "s_disconnect s"] unfolding slot_ok_def by linarith+
qed

lemma slot_released:
  assumes "slot_ok i v s" and "\<not> v_relc v"
  shows "v_rel v = of_bool (s_release_flag s \<and> \<not> v_free v)"
    and "s_release_flag s \<Longrightarrow> s_disconnect s \<and> \<not> v_rio v \<and> \<not> v_sio v \<and> v_sendp v = 0 \<and> v_cancel v = 0"
    and "v_free v \<Longrightarrow> s_release_flag s \<and> s_send_q s = []"
    and "\<not> s_release_flag s \<Longrightarrow> \<not> v_free v \<and> 0 < s_io_count s"
  using assms by (cases "s_release_flag s"; cases "v_free v"; simp add: slot_ok_def)+

lemma idle_slot_bound:
  assumes S: "slot_ok i v s" and p: "v_pins v = 0"
  shows "s_io_count s \<le> 3"
proof -
  have 1: "v_sendp v + of_bool (v_sio v) \<le> (1 :: nat)" "v_cancel v \<le> 1" "of_bool (v_rio v) \<le> (1 :: nat)"
    using slot_single[OF S] by simp_all
  have c: "s_io_count s = int (v_sendp v + v_cancel v + v_rel v + of_bool (v_rio v) + of_bool (v_sio v))"
    using S p by (simp add: slot_ok_def)
  show ?thesis
  proof (cases "s_release_flag s")
    case True
    then have "v_rel v \<le> 1 \<and> \<not> v_rio v \<and> \<not> v_sio v \<and> v_sendp v = 0 \<and> v_cancel v = 0"
      using S by (cases "v_free v") (auto simp: slot_ok_def)
    then show ?thesis using c by simp
  next
    case False
    then have "v_rel v = 0" using S by (simp add: slot_ok_def)
    then show ?thesis using c 1 by linarith
  qed
qed

text \<open>
  C10. Between events the reference count of a session is the number of operations the system owes it:
  the posts that name it, the receive and the send in progress. It is never negative and never above 3.
\<close>

theorem io_count_is_outstanding:
  assumes "booted st0" and "run_events chat_callbacks evs st0 = Some st" and "i < n_maxSession st"
  shows "s_io_count (sess st i) =
      int (length (posts_for i st)) + of_bool (i \<in> n_recv_io st) + of_bool (i \<in> n_send_io st) \<and>
    0 \<le> s_io_count (sess st i) \<and> s_io_count (sess st i) \<le> 3"
proof -
  note inv = reach_inv(1)[OF assms(1,2)]
  note S = idle_slot[OF inv assms(3)]
  have "s_io_count (sess st i) = int (length (posts_for i st)) + of_bool (i \<in> n_recv_io st) + of_bool (i \<in> n_send_io st)"
    using S posts_for_count[OF inv, of i] by (simp add: slot_ok_def view_def)
  moreover have "s_io_count (sess st i) \<le> 3" by (rule idle_slot_bound[OF S(1,2)])
  ultimately show ?thesis by simp
qed

theorem io_count_is_outstanding_witness:
  "s_io_count (sess sample_state 1) = int (length (posts_for 1 sample_state)) + of_bool (1 \<in> n_recv_io sample_state) +
     of_bool (1 \<in> n_send_io sample_state) \<and> 0 \<le> s_io_count (sess sample_state 1) \<and> s_io_count (sess sample_state 1) \<le> 3"
  by (rule io_count_is_outstanding[OF sample_booted sample_run(1)]) (simp add: sample_reach(3))

text \<open>
  C11. A session is released exactly once: there is one release post for a session that is marked
  released and whose index is not free yet, and none otherwise; a marked session has been
  disconnected, has no operation in progress and no other post; a free index has no post at all and an empty
  send queue; a session that is not marked has its index in use and something outstanding that will
  look at its count again.
\<close>

theorem session_released_once:
  assumes "booted st0" and "run_events chat_callbacks evs st0 = Some st" and "i < n_maxSession st"
  shows "count_list (n_posts st) (Post i RELEASE_PEND) =
      of_bool (s_release_flag (sess st i) \<and> of_nat i \<notin> set (n_empty st)) \<and>
    (s_release_flag (sess st i) \<longrightarrow> s_disconnect (sess st i) \<and> i \<notin> n_recv_io st \<and> i \<notin> n_send_io st \<and>
      length (posts_for i st) = count_list (n_posts st) (Post i RELEASE_PEND)) \<and>
    (of_nat i \<in> set (n_empty st) \<longrightarrow> posts_for i st = [] \<and> s_send_q (sess st i) = []) \<and>
    (\<not> s_release_flag (sess st i) \<longrightarrow> of_nat i \<notin> set (n_empty st) \<and> 0 < s_io_count (sess st i))"
proof -
  note inv = reach_inv(1)[OF assms(1,2)]
  note S = idle_slot[OF inv assms(3)]
  have P: "length (posts_for i st) = v_sendp (view no_ctx st i) + v_cancel (view no_ctx st i) + v_rel (view no_ctx st i)"
    by (rule posts_for_count[OF inv])
  have V: "v_rel (view no_ctx st i) = count_list (n_posts st) (Post i RELEASE_PEND)"
    "v_free (view no_ctx st i) = (of_nat i \<in> set (n_empty st))" "v_rio (view no_ctx st i) = (i \<in> n_recv_io st)"
    "v_sio (view no_ctx st i) = (i \<in> n_send_io st)"
    by (simp_all add: view_def)
  note R = slot_released[OF S(1,5), unfolded V]
  have "posts_for i st = []" if "of_nat i \<in> set (n_empty st)"
  proof -
    have "length (posts_for i st) = 0" using R(1-3) P V(1) that by simp
    then show ?thesis by simp
  qed
  moreover have "length (posts_for i st) = count_list (n_posts st) (Post i RELEASE_PEND)" if "s_release_flag (sess st i)"
    using R(2)[OF that] P V(1) by simp
  ultimately show ?thesis using R by blast
qed

theorem session_released_once_witness:
  "count_list (n_posts sample_state) (Post 1 RELEASE_PEND) = 1 \<and> s_disconnect (sess sample_state 1) \<and>
    1 \<notin> n_recv_io sample_state \<and> 1 \<notin> n_send_io sample_state \<and> length (posts_for 1 sample_state) = 1 \<and>
    \<not> s_release_flag (sess sample_state 0) \<and> 0 < s_io_count (sess sample_state 0)"
proof -
  have f: "\<not> s_release_flag (sess sample_state 0)"
    using session_released_once[OF sample_booted sample_run(1), of 0] sample_flags(2) by (simp add: sample_reach(3))
  then show ?thesis
    using session_released_once[OF sample_booted sample_run(1), of 1]
      session_released_once[OF sample_booted sample_run(1), of 0] sample_flags(3) sample_run(5)
    by (simp add: sample_reach(3))
qed

text \<open>
  C19. A connected session never falls silent: unless it has been disconnected its next receive is
  pending, so data, the client's closing of the connection or its abort will be noticed; and at most one
  send operation or send request of a session exists at a time.
\<close>

theorem session_keeps_receiving:
  assumes "booted st0" and "run_events chat_callbacks evs st0 = Some st" and "i < n_maxSession st"
  shows "(\<not> s_disconnect (sess st i) \<longrightarrow> i \<in> n_recv_io st) \<and>
    count_list (n_posts st) (Post i SEND_PEND) + of_bool (i \<in> n_send_io st) \<le> 1 \<and>
    count_list (n_posts st) (Post i CANCEL_IO) \<le> 1"
proof -
  note S = idle_slot[OF reach_inv(1)[OF assms(1,2)] assms(3)]
  have "\<not> s_disconnect (sess st i) \<longrightarrow> i \<in> n_recv_io st" using S by (auto simp: slot_ok_def view_def)
  then show ?thesis using slot_single[OF S(1)] by (simp add: view_def)
qed

theorem session_keeps_receiving_witness:
  "0 \<in> n_recv_io sample_state \<and>
    count_list (n_posts sample_state) (Post 0 SEND_PEND) + of_bool (0 \<in> n_send_io sample_state) \<le> 1 \<and>
    count_list (n_posts sample_state) (Post 0 CANCEL_IO) \<le> 1"
  using session_keeps_receiving[OF sample_booted sample_run(1), of 0] sample_flags(2) by (simp add: sample_reach(3))

text \<open>
  C20. A session id leads back to the session: for every session in use, \<open>SendPacket\<close> and
  \<open>DisconnectSession\<close> compute from its id the index of the session itself and the id it was given,
  the index is in range, and no two sessions in use have the same id.
\<close>

theorem session_ids_are_unique:
  assumes "booted st0" and "run_events chat_callbacks evs st0 = Some st" and "sessions_of st i = Some sid"
  shows "unat (sid_index sid) = i \<and> i < n_maxSession st \<and> sid_id sid = s_session_id (sess st i) \<and>
    (\<forall>j. sessions_of st j = Some sid \<longrightarrow> j = i)"
proof -
  note X = sessions_of_index[OF reach_inv(1)[OF assms(1,2)]]
  have "sid = Session_GetSessionID (sess st i)" using assms(3) by (simp add: sessions_of_def split: if_splits)
  then have "sid_id sid = s_session_id (sess st i)" by simp
  moreover have "j = i" if "sessions_of st j = Some sid" for j using X(2)[OF that] X(2)[OF assms(3)] by simp
  ultimately show ?thesis using X[OF assms(3)] by blast
qed

theorem session_ids_are_unique_witness:
  "unat (sid_index 0x100000002) = (1 :: nat) \<and> 1 < n_maxSession sample_state \<and>
    sid_id 0x100000002 = s_session_id (sess sample_state 1) \<and> sessions_of sample_state 0 \<noteq> Some 0x100000002"
  using session_ids_are_unique[OF sample_booted sample_run(1,3)] by auto

subsection \<open>Packets and log records\<close>





subsection \<open>Users\<close>

text \<open>
  C17. The user map has one user for every session in use and no other, a user knows its session,
  different sessions have different user objects, and the user pool's use count is their number.
\<close>

theorem users_are_the_sessions:
  assumes "booted st0" and "run_events chat_callbacks evs st0 = Some st"
  shows "dom (c_userMap (chat st)) = ran (sessions_of st) \<and>
    (\<forall>sid a. c_userMap (chat st) sid = Some a \<longrightarrow> m_SSID (c_users (chat st) a) = sid) \<and>
    inj_on (c_userMap (chat st)) (dom (c_userMap (chat st))) \<and>
    MemoryPoolTls_GetUseSize (c_userPool (chat st)) = of_nat (card (ran (c_userMap (chat st))))"
proof -
  have C: "chat_ok (sessions_of st) (chat st)" using reach_inv(2)[OF assms] by (simp add: chat_inv_def)
  then have "mp_inv (c_userPool (chat st)) (ran (c_userMap (chat st)))" by (simp add: chat_ok_def)
  note mp_use_size_counts[OF this]
  moreover have M: "map_ok (c_userMap (chat st)) (c_users (chat st))" using C by (simp add: chat_ok_def)
  moreover have "inj_on (c_userMap (chat st)) (dom (c_userMap (chat st)))"
    using map_ok_inj[OF M] by (auto simp: inj_on_def)
  ultimately show ?thesis using C by (auto simp: chat_ok_def map_ok_def)
qed

theorem users_are_the_sessions_witness:
  "dom (c_userMap (chat sample_state)) = ran (sessions_of sample_state) \<and>
    m_SSID (c_users (chat sample_state) 200) = 1 \<and>
    MemoryPoolTls_GetUseSize (c_userPool (chat sample_state)) = of_nat (card (ran (c_userMap (chat sample_state))))"
  using users_are_the_sessions[OF sample_booted sample_run(1)] sample_run(6) by blast

text \<open>
  C15. The account map holds exactly the accounts of the users that are logged in, each with that user's
  session, so no two connected users are logged in with the same account; and the two counters count
  the users that are and that are not logged in.
\<close>

theorem accounts_are_the_logins:
  assumes "booted st0" and "run_events chat_callbacks evs st0 = Some st"
  shows "(\<forall>acc sid. c_accountMap (chat st) acc = Some sid \<longleftrightarrow>
      (\<exists>a. c_userMap (chat st) sid = Some a \<and> mb_login (c_users (chat st) a) \<and> m_accountNo (c_users (chat st) a) = acc)) \<and>
    (\<forall>a \<in> ran (c_userMap (chat st)). \<forall>b \<in> ran (c_userMap (chat st)).
      mb_login (c_users (chat st) a) \<and> mb_login (c_users (chat st) b) \<and>
      m_accountNo (c_users (chat st) a) = m_accountNo (c_users (chat st) b) \<longrightarrow> a = b) \<and>
    c_loginCnt (chat st) = of_nat (card {a \<in> ran (c_userMap (chat st)). mb_login (c_users (chat st) a)}) \<and>
    c_connectCnt (chat st) = of_nat (card {a \<in> ran (c_userMap (chat st)). \<not> mb_login (c_users (chat st) a)})"
proof -
  let ?c = "chat st"
  have C: "chat_ok (sessions_of st) ?c" using reach_inv(2)[OF assms] by (simp add: chat_inv_def)
  then have A: "c_accountMap ?c acc = Some sid \<longleftrightarrow>
      (\<exists>a. c_userMap ?c sid = Some a \<and> mb_login (c_users ?c a) \<and> m_accountNo (c_users ?c a) = acc)" for acc sid
    by (simp add: chat_ok_def acc_ok_def)
  have "a = b" if R: "a \<in> ran (c_userMap ?c)" "b \<in> ran (c_userMap ?c)" and L: "mb_login (c_users ?c a)" "mb_login (c_users ?c b)"
      "m_accountNo (c_users ?c a) = m_accountNo (c_users ?c b)" for a b
  proof -
    obtain s t where M: "c_userMap ?c s = Some a" "c_userMap ?c t = Some b" using R by (auto simp: ran_def)
    have "c_accountMap ?c (m_accountNo (c_users ?c a)) = Some s" "c_accountMap ?c (m_accountNo (c_users ?c a)) = Some t"
      unfolding A using M L by auto
    then show ?thesis using M by simp
  qed
  then show ?thesis using A C by (auto simp: chat_ok_def cnt_ok_def)
qed

theorem accounts_are_the_logins_witness:
  "(c_accountMap (chat sample_state) 7 = Some 1) =
      (mb_login (c_users (chat sample_state) 200) \<and> m_accountNo (c_users (chat sample_state) 200) = 7) \<and>
    c_loginCnt (chat sample_state) =
      of_nat (card {a \<in> ran (c_userMap (chat sample_state)). mb_login (c_users (chat sample_state) a)}) \<and>
    c_connectCnt (chat sample_state) =
      of_nat (card {a \<in> ran (c_userMap (chat sample_state)). \<not> mb_login (c_users (chat sample_state) a)})"
proof -
  note A = accounts_are_the_logins[OF sample_booted sample_run(1)]
  have "(c_accountMap (chat sample_state) 7 = Some 1) =
      (\<exists>a. c_userMap (chat sample_state) 1 = Some a \<and> mb_login (c_users (chat sample_state) a) \<and>
        m_accountNo (c_users (chat sample_state) a) = 7)"
    using A by blast
  then show ?thesis using A unfolding sample_run(6) by simp
qed

text \<open>
  C16. The lists of the sectors are the positions of the users: a user is in the list of a sector exactly
  when it is placed there, once, in the node its iterator refers to; a user that is not placed is in no
  list; and every placed user is on the map.
\<close>

theorem sectors_are_the_positions:
  assumes "booted st0" and "run_events chat_callbacks evs st0 = Some st"
  shows "(\<forall>y x. distinct (map snd (c_sectors (chat st) y x)) \<and> set (map snd (c_sectors (chat st) y x)) =
      {a \<in> ran (c_userMap (chat st)). mb_inSector (c_users (chat st) a) \<and>
        m_sectorY (c_users (chat st) a) = y \<and> m_sectorX (c_users (chat st) a) = x}) \<and>
    (\<forall>a \<in> ran (c_userMap (chat st)). mb_inSector (c_users (chat st) a) \<longrightarrow>
      0 \<le> m_sectorX (c_users (chat st) a) \<and> m_sectorX (c_users (chat st) a) < SECTOR_MAX_X \<and>
      0 \<le> m_sectorY (c_users (chat st) a) \<and> m_sectorY (c_users (chat st) a) < SECTOR_MAX_Y \<and>
      (m_sectorIter (c_users (chat st) a), a) \<in>
        set (c_sectors (chat st) (m_sectorY (c_users (chat st) a)) (m_sectorX (c_users (chat st) a))))"
proof -
  let ?c = "chat st"
  have "chat_ok (sessions_of st) ?c" using reach_inv(2)[OF assms] by (simp add: chat_inv_def)
  then have S: "sec_ok (ran (c_userMap ?c)) (c_users ?c) (c_sectors ?c) (c_nodes ?c)" by (simp add: chat_ok_def)
  then have N: "(k, a) \<in> set (c_sectors ?c y x) \<longleftrightarrow> a \<in> ran (c_userMap ?c) \<and> at_node k y x (c_users ?c a)"
    and D: "distinct (c_sectors ?c y x)" for k a y x
    by (simp_all add: sec_ok_def)
  have "inj_on snd (set (c_sectors ?c y x))" for y x
    by (rule inj_onI) (auto simp: N at_node_def)
  then have "distinct (map snd (c_sectors ?c y x))" for y x using D by (simp add: distinct_map)
  moreover have "set (map snd (c_sectors ?c y x)) = {a \<in> ran (c_userMap ?c). mb_inSector (c_users ?c a) \<and>
        m_sectorY (c_users ?c a) = y \<and> m_sectorX (c_users ?c a) = x}" for y x
  proof -
    have "a \<in> snd ` set (c_sectors ?c y x) \<longleftrightarrow> (\<exists>k. (k, a) \<in> set (c_sectors ?c y x))" for a by force
    then show ?thesis by (auto simp: N at_node_def)
  qed
  moreover have "pos_ok (c_nodes ?c) (c_users ?c a)" if "a \<in> ran (c_userMap ?c)" for a
    using S that by (simp add: sec_ok_def)
  ultimately show ?thesis by (simp add: N at_node_def pos_ok_def)
qed

theorem sectors_are_the_positions_witness:
  "distinct (map snd (c_sectors (chat sample_state) 3 4)) \<and> set (map snd (c_sectors (chat sample_state) 3 4)) =
    {a \<in> ran (c_userMap (chat sample_state)). mb_inSector (c_users (chat sample_state) a) \<and>
      m_sectorY (c_users (chat sample_state) a) = 3 \<and> m_sectorX (c_users (chat sample_state) a) = 4}"
  using sectors_are_the_positions[OF sample_booted sample_run(1)] by blast

text \<open>
  C18. Every step of the server gives back all locks it took, and took each lock only while holding locks that
  come before it in one fixed order (user map, users, account map, sectors by row and column; a
  user that is not in the map yet does not count), so the threads cannot wait for each other in a circle.
\<close>

theorem locks_are_ordered_and_released:
  assumes "booted st0" and "run_events chat_callbacks evs st0 = Some st"
  shows "c_held (chat st) = [] \<and> c_order (chat st)"
  using reach_inv(2)[OF assms] by (simp add: chat_inv_def)

theorem locks_are_ordered_and_released_witness:
  "c_held (chat sample_state) = [] \<and> c_order (chat sample_state)"
  by (rule locks_are_ordered_and_released[OF sample_booted sample_run(1)])

end
