(* ===== verification/Broadcast.thy ===== *)
theory Broadcast
  imports ServerProps
begin

text \<open>
  What the chat server sends to whom: the effect of \<open>SendPacket\<close> on the send queues, and that a chat
  message goes to exactly the users in the sectors around its sender.
\<close>

subsection \<open>Operations that leave the queues alone\<close>

definition quiet :: "nat \<Rightarrow> 'a net_scheme \<Rightarrow> 'a net_scheme \<Rightarrow> bool" where
  "quiet i st st' \<longleftrightarrow> length (n_sessions st') = length (n_sessions st) \<and>
     (\<forall>j. j \<noteq> i \<longrightarrow> sess st' j = sess st j) \<and> s_send_q (sess st' i) = s_send_q (sess st i) \<and>
     ident (sess st' i) = ident (sess st i) \<and>
     (\<forall>a. net_wire (n_packets st' a) = net_wire (n_packets st a)) \<and> net.more st' = net.more st"

lemma quiet_refl [simp]: "quiet i st st"
  by (simp add: quiet_def)

lemma quiet_trans: "quiet i st st' \<Longrightarrow> quiet i st' st'' \<Longrightarrow> quiet i st st''"
  by (simp add: quiet_def)

lemma quiet_length: "quiet i st st' \<Longrightarrow> length (n_sessions st') = length (n_sessions st)"
  by (simp add: quiet_def)

lemma quiet_upd:
  assumes "i < length (n_sessions st)" and "s_send_q (f (sess st i)) = s_send_q (sess st i)" and "ident (f (sess st i)) = ident (sess st i)"
  shows "quiet i st (upd_sess i f st)"
  using assms by (simp add: quiet_def)

lemma quiet_post: "quiet i st (post p st)"
  by (simp add: quiet_def)

lemma quiet_io_inc: "i < length (n_sessions st) \<Longrightarrow> quiet i st (io_inc i st)"
  unfolding io_inc_def by (rule quiet_upd) (simp_all add: ident_def)

lemma net_wire_ref: "net_wire (p\<lparr>pk_ref_cnt := n\<rparr>) = net_wire p"
  by (simp add: net_wire_def CPacket_GetDataSizeNet_def CPacket_GetBufferPtrNet_def)

lemma quiet_AddRef: "quiet i st (Packet_AddRef a st)"
  by (simp add: quiet_def Packet_AddRef_def CPacket_AddRef_def net_wire_ref)

lemma quiet_SubRef: "Packet_SubRef a st = Some st' \<Longrightarrow> quiet i st st'"
  by (auto simp: Packet_SubRef_def CPacket_SubRef_def Let_def bind_Some_iff quiet_def net_wire_ref split: if_splits)

lemma quiet_Log: "CNetServer_Log szType lev msg st = Some st' \<Longrightarrow> quiet i st st'"
  by (auto simp: CNetServer_Log_def Let_def bind_Some_iff quiet_def ask_def split: if_splits)

lemma quiet_sendPend:
  assumes i: "i < length (n_sessions st)"
  shows "quiet i st (CNetServer_sendPend i st)"
proof -
  have "quiet i st (upd_sess i (\<lambda>s. s\<lparr>s_send_post_flag := True\<rparr>) st)" by (rule quiet_upd[OF i]) (simp_all add: ident_def)
  from quiet_trans[OF quiet_trans[OF this quiet_io_inc] quiet_post] i
  show ?thesis by (simp add: CNetServer_sendPend_def)
qed

lemma quiet_disconnect:
  assumes i: "i < length (n_sessions st)"
  shows "quiet i st (CNetServer_disconnect i st)"
proof -
  have "quiet i st (upd_sess i (\<lambda>s. s\<lparr>s_disconnect := True\<rparr>) st)" by (rule quiet_upd[OF i]) (simp_all add: ident_def)
  from quiet_trans[OF quiet_trans[OF this quiet_io_inc] quiet_post] i
  show ?thesis by (simp add: CNetServer_disconnect_def)
qed

lemma quiet_releasePend:
  assumes i: "i < length (n_sessions st)"
  shows "quiet i st (CNetServer_releasePend i st)"
proof -
  have "quiet i st (upd_sess i (\<lambda>s. s\<lparr>s_release_flag := True\<rparr>) st)" by (rule quiet_upd[OF i]) (simp_all add: ident_def)
  from quiet_trans[OF quiet_trans[OF this quiet_io_inc] quiet_post] i
  show ?thesis by (simp add: CNetServer_releasePend_def)
qed

lemma quiet_updateIOCount:
  assumes i: "i < length (n_sessions st)" and r: "CNetServer_updateIOCount i st = Some (t, st')"
  shows "quiet i st st'"
proof -
  let ?st1 = "upd_sess i (\<lambda>s. s\<lparr>s_io_count := s_io_count (sess st i) - 1\<rparr>) st"
  have q: "quiet i st ?st1" by (rule quiet_upd[OF i]) (simp_all add: ident_def)
  have "st' = ?st1 \<or> st' = CNetServer_releasePend i ?st1"
    using r by (auto simp: CNetServer_updateIOCount_def Let_def split: if_splits)
  then show ?thesis using q quiet_trans[OF q quiet_releasePend[of i ?st1]] i by auto
qed

subsection \<open>Sending one packet\<close>

text \<open>A session that accepts a packet, and the effect of giving \<open>packet\<close> to each session of \<open>S\<close>.\<close>

definition takes :: "'a net_scheme \<Rightarrow> nat \<Rightarrow> bool" where
  "takes st i \<longleftrightarrow> \<not> s_release_flag (sess st i) \<and> \<not> s_disconnect (sess st i) \<and> length (s_send_q (sess st i)) < MAX_SENDQ"

definition sent :: "addr \<Rightarrow> nat set \<Rightarrow> 'a net_scheme \<Rightarrow> 'a net_scheme \<Rightarrow> bool" where
  "sent packet S st st' \<longleftrightarrow> length (n_sessions st') = length (n_sessions st) \<and>
     (\<forall>j. s_send_q (sess st' j) = s_send_q (sess st j) @ (if j \<in> S \<and> takes st j then [packet] else [])) \<and>
     (\<forall>j. j \<notin> S \<longrightarrow> sess st' j = sess st j) \<and> (\<forall>j. ident (sess st' j) = ident (sess st j)) \<and>
     (\<forall>a. net_wire (n_packets st' a) = net_wire (n_packets st a)) \<and> net.more st' = net.more st"

lemma sent_none [simp]: "sent packet {} st st"
  by (simp add: sent_def)

lemma sent_join:
  assumes A: "sent packet S st st1" and B: "sent packet T st1 st2" and disj: "S \<inter> T = {}"
  shows "sent packet (S \<union> T) st st2"
proof -
  have "takes st1 j = takes st j" if "j \<in> T" for j
    using A that disj by (auto simp: sent_def takes_def)
  moreover have "s_send_q (sess st1 j) = s_send_q (sess st j) @ (if j \<in> S \<and> takes st j then [packet] else [])" for j
    using A by (simp add: sent_def)
  moreover have "s_send_q (sess st2 j) = s_send_q (sess st1 j) @ (if j \<in> T \<and> takes st1 j then [packet] else [])" for j
    using B by (simp add: sent_def)
  ultimately have "s_send_q (sess st2 j) = s_send_q (sess st j) @ (if j \<in> S \<union> T \<and> takes st j then [packet] else [])" for j
    using disj by (cases "j \<in> S"; cases "j \<in> T") auto
  then show ?thesis using A B by (simp add: sent_def)
qed

lemma sent_one:
  assumes "length (n_sessions st') = length (n_sessions st)"
    and "s_send_q (sess st' i) = s_send_q (sess st i) @ (if takes st i then [packet] else [])"
    and o: "\<And>j. j \<noteq> i \<Longrightarrow> sess st' j = sess st j" and "ident (sess st' i) = ident (sess st i)"
    and "\<And>a. net_wire (n_packets st' a) = net_wire (n_packets st a)" and "net.more st' = net.more st"
  shows "sent packet {i} st st'"
proof -
  have "s_send_q (sess st' j) = s_send_q (sess st j) @ (if j \<in> {i} \<and> takes st j then [packet] else []) \<and>
      (j \<notin> {i} \<longrightarrow> sess st' j = sess st j) \<and> ident (sess st' j) = ident (sess st j)" for j
    using assms(2,4) o[of j] by (cases "j = i") simp_all
  then show ?thesis using assms(1,5,6) by (simp add: sent_def)
qed

lemma sent_quiet: "quiet i st st' \<Longrightarrow> \<not> takes st i \<Longrightarrow> sent packet {i} st st'"
  by (rule sent_one) (simp_all add: quiet_def)

lemma SendPacket_sent:
  assumes run: "CNetServer_SendPacket sid packet st = Some (r, st')" and i: "unat (sid_index sid) = i"
    and l: "i < length (n_sessions st)" and id: "s_session_id (sess st i) = sid_id sid"
  shows "sent packet {i} st st'"
proof -
  let ?st1 = "io_inc i st"
  have q1: "quiet i st ?st1" by (rule quiet_io_inc[OF l])
  have l1: "i < length (n_sessions ?st1)" using l by simp
  have f1: "s_release_flag (sess ?st1 i) = s_release_flag (sess st i)" "s_disconnect (sess ?st1 i) = s_disconnect (sess st i)"
    "s_session_id (sess ?st1 i) = s_session_id (sess st i)" "s_send_q (sess ?st1 i) = s_send_q (sess st i)"
    using l by (simp_all add: io_inc_def)
  show ?thesis
  proof (cases "\<not> s_release_flag (sess st i) \<and> \<not> s_disconnect (sess st i)")
    case False
    then obtain t where "CNetServer_updateIOCount i ?st1 = Some (t, st')"
      using run i f1 by (auto simp: CNetServer_SendPacket_def Let_def bind_Some_iff split: if_splits)
    from quiet_trans[OF q1 quiet_updateIOCount[OF l1 this]] show ?thesis
      by (rule sent_quiet) (use False in \<open>auto simp: takes_def\<close>)
  next
    case True
    let ?st2 = "Packet_AddRef packet ?st1"
    have q2: "quiet i st ?st2" by (rule quiet_trans[OF q1 quiet_AddRef])
    have l2: "i < length (n_sessions ?st2)" using l quiet_length[OF q2] by simp
    have s2: "sess ?st2 i = sess ?st1 i" by (simp add: Packet_AddRef_def)
    show ?thesis
    proof (cases "length (s_send_q (sess st i)) < MAX_SENDQ")
      case full: False
      obtain st3 st4 t where R: "Packet_SubRef packet ?st2 = Some st3"
          "CNetServer_Log ''SYS'' enLOG_LEVEL_ERROR (''Full Send Q '' @ fmt_d (sint (Session_GetSessionID (sess st3 i)))) st3 = Some st4"
          "CNetServer_updateIOCount i (CNetServer_disconnect i st4) = Some (t, st')"
        using run i f1 True id full s2
        by (auto simp: CNetServer_SendPacket_def Let_def bind_Some_iff send_q_Enqueue_def split: if_splits)
      have q4: "quiet i st st4" by (rule quiet_trans[OF quiet_trans[OF q2 quiet_SubRef[OF R(1)]] quiet_Log[OF R(2)]])
      have l4: "i < length (n_sessions st4)" using l quiet_length[OF q4] by simp
      have q5: "quiet i st (CNetServer_disconnect i st4)" by (rule quiet_trans[OF q4 quiet_disconnect[OF l4]])
      have l5: "i < length (n_sessions (CNetServer_disconnect i st4))" using l quiet_length[OF q5] by simp
      from quiet_trans[OF q5 quiet_updateIOCount[OF l5 R(3)]] show ?thesis
        by (rule sent_quiet) (use full in \<open>simp add: takes_def\<close>)
    next
      case room: True
      let ?st3 = "upd_sess i (\<lambda>s. s\<lparr>s_send_q := s_send_q (sess st i) @ [packet]\<rparr>) ?st2"
      obtain t where R: "CNetServer_updateIOCount i (CNetServer_sendPend i ?st3) = Some (t, st')"
        using run i f1 True id room s2
        by (auto simp: CNetServer_SendPacket_def Let_def bind_Some_iff send_q_Enqueue_def split: if_splits)
      have l3: "i < length (n_sessions ?st3)" using l2 by simp
      have q3: "quiet i ?st3 (CNetServer_sendPend i ?st3)" by (rule quiet_sendPend[OF l3])
      have l4: "i < length (n_sessions (CNetServer_sendPend i ?st3))" using l3 quiet_length[OF q3] by simp
      have q: "quiet i ?st3 st'" by (rule quiet_trans[OF q3 quiet_updateIOCount[OF l4 R]])
      have st3: "sess ?st3 j = (if j = i then (sess ?st2 i)\<lparr>s_send_q := s_send_q (sess st i) @ [packet]\<rparr> else sess ?st2 j)" for j
        using l2 by simp
      have "takes st i" using True room by (simp add: takes_def)
      moreover have "s_send_q (sess st' i) = s_send_q (sess st i) @ [packet]" "ident (sess st' i) = ident (sess st i)"
        using q q2 st3 by (simp_all add: quiet_def ident_def)
      moreover have "sess st' j = sess st j" if "j \<noteq> i" for j using q q2 st3 that by (simp add: quiet_def)
      moreover have "length (n_sessions st') = length (n_sessions st)" "net.more st' = net.more st"
        "net_wire (n_packets st' a) = net_wire (n_packets st a)" for a
        using q q2 by (simp_all add: quiet_def)
      ultimately show ?thesis by (intro sent_one) simp_all
    qed
  qed
qed

subsection \<open>Sending to the users of the sectors\<close>

text \<open>The session of a user.\<close>

definition session_index :: "chat \<Rightarrow> addr \<Rightarrow> nat" where
  "session_index c a = unat (sid_index (m_SSID (c_users c a)))"

lemma user_session_facts:
  assumes inv: "net_inv c st" and ok: "chat_ok (sessions_of st) (chat st)" and a: "a \<in> ran (c_userMap (chat st))"
  shows "session_index (chat st) a < length (n_sessions st)"
    and "s_session_id (sess st (session_index (chat st) a)) = sid_id (m_SSID (c_users (chat st) a))"
    and "sessions_of st (session_index (chat st) a) = Some (m_SSID (c_users (chat st) a))"
    and "c_userMap (chat st) (m_SSID (c_users (chat st) a)) = Some a"
proof -
  obtain sid where sid: "c_userMap (chat st) sid = Some a" using a by (auto simp: ran_def)
  have ms: "m_SSID (c_users (chat st) a) = sid" using ok sid by (auto simp: chat_ok_def map_ok_def)
  show "c_userMap (chat st) (m_SSID (c_users (chat st) a)) = Some a" using sid ms by simp
  have "sid \<in> ran (sessions_of st)" using sid ok by (auto simp: chat_ok_def)
  then obtain i where i: "sessions_of st i = Some sid" by (auto simp: ran_def)
  note X = sessions_of_index[OF inv i]
  have e: "session_index (chat st) a = i" using X by (simp add: session_index_def ms)
  show "sessions_of st (session_index (chat st) a) = Some (m_SSID (c_users (chat st) a))" using i e ms by simp
  show "session_index (chat st) a < length (n_sessions st)" using X e net_invD(3)[OF inv] by simp
  have "sid = Session_GetSessionID (sess st i)" using i by (simp add: sessions_of_def split: if_splits)
  then show "s_session_id (sess st (session_index (chat st) a)) = sid_id (m_SSID (c_users (chat st) a))"
    using e ms by simp
qed

lemma session_index_inj:
  assumes inv: "net_inv c st" and ok: "chat_ok (sessions_of st) (chat st)"
  shows "inj_on (session_index (chat st)) (ran (c_userMap (chat st)))"
proof (rule inj_onI)
  fix a b assume A: "a \<in> ran (c_userMap (chat st))" "b \<in> ran (c_userMap (chat st))"
    "session_index (chat st) a = session_index (chat st) b"
  have "Some (m_SSID (c_users (chat st) a)) = Some (m_SSID (c_users (chat st) b))"
    unfolding user_session_facts(3)[OF inv ok A(1), symmetric] user_session_facts(3)[OF inv ok A(2), symmetric] A(3) ..
  then have e: "m_SSID (c_users (chat st) a) = m_SSID (c_users (chat st) b)" by (rule option.inject[THEN iffD1])
  have "Some a = Some b"
    unfolding user_session_facts(4)[OF inv ok A(1), symmetric] user_session_facts(4)[OF inv ok A(2), symmetric] e ..
  then show "a = b" by (rule option.inject[THEN iffD1])
qed

text \<open>The sessions to which the loops send, with the facts that stay true while they run.\<close>

definition reachable_user :: "chat_server \<Rightarrow> addr \<Rightarrow> bool" where
  "reachable_user st a \<longleftrightarrow> session_index (chat st) a < length (n_sessions st) \<and>
     s_session_id (sess st (session_index (chat st) a)) = sid_id (m_SSID (c_users (chat st) a))"

lemma reachable_user_sent: "sent packet S st st' \<Longrightarrow> reachable_user st' a = reachable_user st a"
  by (simp add: sent_def reachable_user_def ident_def)

lemma SendMessageSector_loop_sent:
  assumes "SendMessageSector_loop packet nds st = Some st'" and "\<forall>a \<in> set (map snd nds). reachable_user st a"
    and "distinct (map (session_index (chat st)) (map snd nds))"
  shows "sent packet (session_index (chat st) ` set (map snd nds)) st st'"
  using assms
proof (induction nds arbitrary: st)
  case (Cons nd nds)
  obtain k a where nd: "nd = (k, a)" by (cases nd)
  obtain r st1 where R: "CNetServer_SendPacket (m_SSID (c_users (chat st) a)) packet st = Some (r, st1)"
      "SendMessageSector_loop packet nds st1 = Some st'"
    using Cons.prems(1) by (auto simp: nd ChatServer_SendMessageUni_def bind_Some_iff)
  have u: "reachable_user st a" using Cons.prems(2) by (simp add: nd)
  have S: "sent packet {session_index (chat st) a} st st1"
    by (rule SendPacket_sent[OF R(1)]) (use u in \<open>simp_all only: reachable_user_def session_index_def\<close>)
  have c1: "chat st1 = chat st" using S by (simp add: sent_def)
  have T: "sent packet (session_index (chat st1) ` set (map snd nds)) st1 st'"
  proof (rule Cons.IH[OF R(2)])
    show "\<forall>a \<in> set (map snd nds). reachable_user st1 a" using Cons.prems(2) reachable_user_sent[OF S] by simp
    show "distinct (map (session_index (chat st1)) (map snd nds))" using Cons.prems(3) unfolding c1 by simp
  qed
  have "{session_index (chat st) a} \<inter> session_index (chat st) ` set (map snd nds) = {}"
    using Cons.prems(3) by (simp add: nd image_image)
  from sent_join[OF S T[unfolded c1] this] show ?case by (simp add: nd)
qed simp

definition members :: "chat \<Rightarrow> (int \<times> int) list \<Rightarrow> addr list" where
  "members c ps = concat (map (\<lambda>(x, y). map snd (c_sectors c y x)) ps)"

lemma SendMessageAround_loop_sent:
  assumes "SendMessageAround_loop packet ps st = Some st'"
    and "\<forall>a \<in> set (members (chat st) ps). reachable_user st a"
    and "distinct (map (session_index (chat st)) (members (chat st) ps))"
  shows "sent packet (session_index (chat st) ` set (members (chat st) ps)) st st'"
  using assms
proof (induction ps arbitrary: st)
  case Nil
  then show ?case by (simp add: members_def)
next
  case (Cons p ps)
  obtain x y where p: "p = (x, y)" by (cases p)
  obtain st1 where R: "SendMessageSector_loop packet (c_sectors (chat st) y x) st = Some st1"
      "SendMessageAround_loop packet ps st1 = Some st'"
    using Cons.prems(1) by (auto simp: p ChatServer_SendMessageSector_def bind_Some_iff)
  have m: "members (chat st) (p # ps) = map snd (c_sectors (chat st) y x) @ members (chat st) ps"
    by (simp add: members_def p)
  have d: "distinct (map (session_index (chat st)) (map snd (c_sectors (chat st) y x)))"
    "distinct (map (session_index (chat st)) (members (chat st) ps))"
    "session_index (chat st) ` set (map snd (c_sectors (chat st) y x)) \<inter> session_index (chat st) ` set (members (chat st) ps) = {}"
    using Cons.prems(3) unfolding m map_append distinct_append set_map by simp_all
  have S: "sent packet (session_index (chat st) ` set (map snd (c_sectors (chat st) y x))) st st1"
    by (rule SendMessageSector_loop_sent[OF R(1) _ d(1)]) (use Cons.prems(2) m in simp)
  have c1: "chat st1 = chat st" using S by (simp add: sent_def)
  have "sent packet (session_index (chat st1) ` set (members (chat st1) ps)) st1 st'"
  proof (rule Cons.IH[OF R(2)])
    show "\<forall>a \<in> set (members (chat st1) ps). reachable_user st1 a"
      using Cons.prems(2) reachable_user_sent[OF S] by (simp add: m c1)
    show "distinct (map (session_index (chat st1)) (members (chat st1) ps))" using d(2) unfolding c1 .
  qed
  from sent_join[OF S this[unfolded c1] d(3)] show ?case by (simp add: m image_Un)
qed

subsection \<open>The audience of a user\<close>

text \<open>The placed users at a distance of at most one sector in each direction.\<close>

definition audience :: "chat \<Rightarrow> addr \<Rightarrow> addr set" where
  "audience c user = {a \<in> ran (c_userMap c). mb_inSector (c_users c a) \<and>
     \<bar>m_sectorX (c_users c a) - m_sectorX (c_users c user)\<bar> \<le> 1 \<and>
     \<bar>m_sectorY (c_users c a) - m_sectorY (c_users c user)\<bar> \<le> 1}"

lemma members_set:
  assumes S: "sec_ok (ran (c_userMap c)) (c_users c) (c_sectors c) (c_nodes c)"
  shows "set (members c ps) = {a \<in> ran (c_userMap c). mb_inSector (c_users c a) \<and>
    (m_sectorX (c_users c a), m_sectorY (c_users c a)) \<in> set ps}"
proof -
  have N: "(k, a) \<in> set (c_sectors c y x) \<longleftrightarrow> a \<in> ran (c_userMap c) \<and> at_node k y x (c_users c a)" for k a y x
    using S by (simp add: sec_ok_def)
  have M: "a \<in> set (map snd (c_sectors c y x)) \<longleftrightarrow> a \<in> ran (c_userMap c) \<and> mb_inSector (c_users c a) \<and>
      m_sectorY (c_users c a) = y \<and> m_sectorX (c_users c a) = x" for a y x
  proof -
    have "a \<in> set (map snd (c_sectors c y x)) \<longleftrightarrow> (\<exists>k. (k, a) \<in> set (c_sectors c y x))" by force
    then show ?thesis by (auto simp: N at_node_def)
  qed
  have "a \<in> set (members c ps) \<longleftrightarrow> (\<exists>(x, y) \<in> set ps. a \<in> set (map snd (c_sectors c y x)))" for a
    by (auto simp: members_def)
  then show ?thesis unfolding M by auto
qed

lemma members_distinct:
  assumes S: "sec_ok (ran (c_userMap c)) (c_users c) (c_sectors c) (c_nodes c)" and d: "distinct ps"
  shows "distinct (members c ps)"
  using d
proof (induction ps)
  case Nil
  then show ?case by (simp add: members_def)
next
  case (Cons p ps)
  obtain x y where p: "p = (x, y)" by (cases p)
  have m: "members c (p # ps) = map snd (c_sectors c y x) @ members c ps" by (simp add: members_def p)
  have one: "members c [p] = map snd (c_sectors c y x)" by (simp add: members_def p)
  have "inj_on snd (set (c_sectors c y x))"
    using S by (auto simp: inj_on_def sec_ok_def at_node_def)
  then have "distinct (map snd (c_sectors c y x))" using S by (simp add: distinct_map sec_ok_def)
  moreover have "set (members c [p]) \<inter> set (members c ps) = {}"
    unfolding members_set[OF S] using Cons.prems by auto
  ultimately show ?case unfolding m using Cons one by simp
qed

lemma audience_members:
  assumes S: "sec_ok (ran (c_userMap c)) (c_users c) (c_sectors c) (c_nodes c)"
  shows "set (members c (GetSectorAround (m_sectorX (c_users c user)) (m_sectorY (c_users c user)))) = audience c user"
proof -
  have "on_map (m_sectorX (c_users c a), m_sectorY (c_users c a))" if "a \<in> ran (c_userMap c)" "mb_inSector (c_users c a)" for a
    using S that by (auto simp: sec_ok_def pos_ok_def on_map_def)
  then show ?thesis
    unfolding members_set[OF S] GetSectorAround_set audience_def by auto
qed

lemma SendMessageAround_sent:
  assumes inv: "net_inv c st" and ok: "chat_ok (sessions_of st) (chat st)"
    and run: "ChatServer_SendMessageAround packet user st = Some st'"
  shows "s_send_q (sess st' j) = s_send_q (sess st j) @
      (if j \<in> session_index (chat st) ` audience (chat st) user \<and> takes st j then [packet] else [])"
    and "net_wire (n_packets st' a) = net_wire (n_packets st a)"
proof -
  let ?ps = "GetSectorAround (m_sectorX (c_users (chat st) user)) (m_sectorY (c_users (chat st) user))"
  let ?st1 = "upd_chat (LockSectorAround ?ps) st"
  have S: "sec_ok (ran (c_userMap (chat st))) (c_users (chat st)) (c_sectors (chat st)) (c_nodes (chat st))"
    using ok by (simp add: chat_ok_def)
  obtain st2 where R: "SendMessageAround_loop packet ?ps ?st1 = Some st2" "st' = upd_chat (UnlockSectorAround ?ps) st2"
    using run by (auto simp: ChatServer_SendMessageAround_def Let_def bind_Some_iff)
  have c1: "members (chat ?st1) ps = members (chat st) ps" "session_index (chat ?st1) = session_index (chat st)"
    "sess ?st1 j = sess st j" "takes ?st1 j = takes st j" "n_packets ?st1 = n_packets st"
    "reachable_user ?st1 a = reachable_user st a" for ps j a
    by (simp_all add: members_def session_index_def fun_eq_iff LockSectorAround_def takes_def reachable_user_def)
  have au: "set (members (chat st) ?ps) = audience (chat st) user" by (rule audience_members[OF S])
  have "sent packet (session_index (chat ?st1) ` set (members (chat ?st1) ?ps)) ?st1 st2"
  proof (rule SendMessageAround_loop_sent[OF R(1)])
    show "\<forall>a \<in> set (members (chat ?st1) ?ps). reachable_user ?st1 a"
      unfolding c1 au using user_session_facts(1,2)[OF inv ok] by (auto simp: audience_def reachable_user_def)
    show "distinct (map (session_index (chat ?st1)) (members (chat ?st1) ?ps))"
      unfolding c1 distinct_map au using members_distinct[OF S pos_less_distinct[OF GetSectorAround_sorted]]
        inj_on_subset[OF session_index_inj[OF inv ok]] by (auto simp: audience_def)
  qed
  then have T: "sent packet (session_index (chat st) ` audience (chat st) user) ?st1 st2" unfolding c1 au .
  show "s_send_q (sess st' j) = s_send_q (sess st j) @
      (if j \<in> session_index (chat st) ` audience (chat st) user \<and> takes st j then [packet] else [])"
    using T unfolding R(2) sent_def c1 upd_chat_simps by simp
  show "net_wire (n_packets st' a) = net_wire (n_packets st a)"
    using T unfolding R(2) sent_def c1 upd_chat_simps by simp
qed

subsection \<open>A chat message\<close>

lemma send_new_run:
  assumes "send_new fill send st = Some st'"
  obtains a st1 p st2 where "Packet_Alloc st = Some (a, st1)"
    "fill (fst (ask st1)) (n_packets st1 a) = Some p"
    "send a ((snd (ask st1))\<lparr>n_packets := (n_packets st1)(a := p)\<rparr>) = Some st2" "Packet_SubRef a st2 = Some st'"
  using assms by (auto simp: send_new_def Let_def split_def bind_Some_iff Packet_Free_def)

lemma Packet_Alloc_frame:
  assumes "net_inv c st" and "Packet_Alloc st = Some (a, st1)"
  shows "net_inv (hold a c) st1" and "lib_frame st st1" and "n_sessions st1 = n_sessions st" and "pk_fresh (n_packets st1 a)"
  using wpx_SomeE[OF Packet_Alloc_inv[OF assms(1)] assms(2)] by simp_all

lemma sessions_of_lib: "net_inv c st \<Longrightarrow> lib_frame st st' \<Longrightarrow> sessions_of st' = sessions_of st"
  using sessions_of_frame[OF lib_frame_net] net_invD(3) by blast

text \<open>The message that \<open>ProcMessage\<close> builds and where it goes.\<close>

lemma message_sent:
  assumes inv: "net_inv c st" and ok: "chat_ok (sessions_of st) (chat st)"
    and l: "length wid < MAX_ID_SIZE" "length nick < MAX_NICK_SIZE" "unat len \<le> MAX_MESSAGE"
    and run: "send_new (\<lambda>e p. MakeMessage code key (e_rand e) (map (e_wmem e) [0..<MAX_ID_SIZE])
        (map (e_wmem e) [MAX_ID_SIZE..<MAX_ID_SIZE + MAX_NICK_SIZE]) (e_mem e) p acc wid nick len msg)
      (\<lambda>send_packet. ChatServer_SendMessageAround send_packet user) st = Some st'"
  obtains a r ids nicks beyond where
    "\<And>j. s_send_q (sess st' j) = s_send_q (sess st j) @
      (if j \<in> session_index (chat st) ` audience (chat st) user \<and> takes st j then [a] else [])"
    "net_wire (n_packets st' a) = net_message code key r (message_payload acc (wid @ 0 # ids) (nick @ 0 # nicks)
      (read_wstring beyond (unat len) msg))"
    "length (wid @ 0 # ids) = MAX_ID_SIZE" "length (nick @ 0 # nicks) = MAX_NICK_SIZE"
proof -
  obtain a st1 p st2 where R: "Packet_Alloc st = Some (a, st1)"
    "MakeMessage code key (e_rand (fst (ask st1))) (map (e_wmem (fst (ask st1))) [0..<MAX_ID_SIZE])
        (map (e_wmem (fst (ask st1))) [MAX_ID_SIZE..<MAX_ID_SIZE + MAX_NICK_SIZE]) (e_mem (fst (ask st1))) (n_packets st1 a) acc wid nick len msg = Some p"
    "ChatServer_SendMessageAround a user ((snd (ask st1))\<lparr>n_packets := (n_packets st1)(a := p)\<rparr>) = Some st2"
    "Packet_SubRef a st2 = Some st'"
    by (rule send_new_run[OF run]) (rule that)
  let ?e = "fst (ask st1)" and ?st2 = "(snd (ask st1))\<lparr>n_packets := (n_packets st1)(a := p)\<rparr>"
  let ?oid = "map (e_wmem ?e) [0..<MAX_ID_SIZE]" and ?on = "map (e_wmem ?e) [MAX_ID_SIZE..<MAX_ID_SIZE + MAX_NICK_SIZE]"
  note A = Packet_Alloc_frame[OF inv R(1)]
  let ?d = "message_payload acc (wid @ 0 # drop (Suc (length wid)) ?oid) (nick @ 0 # drop (Suc (length nick)) ?on)
      (read_wstring (e_mem ?e) (unat len) msg)"
  have len: "unat len \<le> 128" using l(3) by (simp add: MAX_MESSAGE_def)
  have M: "pk_message code key (e_rand ?e) ?d p"
  proof (rule MakeMessage_message[OF A(4) l(1) _ l(2) _ len])
    show "length ?oid = MAX_ID_SIZE" "length ?on = MAX_NICK_SIZE" by simp_all
    fix p' assume "MakeMessage code key (e_rand ?e) ?oid ?on (e_mem ?e) (n_packets st1 a) acc wid nick len msg = Some p'"
      "pk_message code key (e_rand ?e) ?d p'"
    then show ?thesis using R(2) by simp
  qed
  have inv2: "net_inv (hold a c) (snd (ask st1))" and fr2: "lib_frame st (snd (ask st1))"
    using ask_inv[OF A(1)] lib_frame_trans[OF A(2)] by auto
  have "net_inv (hold a c) ((snd (ask st1))\<lparr>n_packets := (n_packets (snd (ask st1)))(a := p)\<rparr>)"
    by (rule net_inv_packets[OF inv2]) (use pk_message_ready[OF M] A(4) in \<open>simp_all add: pk_fresh_def\<close>)
  then have inv3: "net_inv (hold a c) ?st2" by simp
  have fr3: "lib_frame st ?st2" using fr2 by (simp add: lib_frame_def net_frame_def)
  have c3: "chat ?st2 = chat st" using fr3 by (simp add: lib_frame_def)
  have ok3: "chat_ok (sessions_of ?st2) (chat ?st2)"
    unfolding c3 sessions_of_lib[OF inv fr3] by (rule ok)
  note S = SendMessageAround_sent[OF inv3 ok3 R(3), unfolded c3]
  have q: "n_sessions st' = n_sessions st2" "net_wire (n_packets st' b) = net_wire (n_packets st2 b)" for b
    using R(4) by (auto simp: Packet_SubRef_def CPacket_SubRef_def Let_def bind_Some_iff net_wire_ref split: if_splits)
  show ?thesis
  proof (rule that[of a "e_rand ?e" "drop (Suc (length wid)) ?oid" "drop (Suc (length nick)) ?on" "e_mem ?e"])
    show "s_send_q (sess st' j) = s_send_q (sess st j) @
      (if j \<in> session_index (chat st) ` audience (chat st) user \<and> takes st j then [a] else [])" for j
      using S(1)[of j] A(3) q(1) by (simp add: takes_def)
    show "net_wire (n_packets st' a) = net_message code key (e_rand ?e) ?d"
      using S(2)[of a] q(2)[of a] M by (simp add: pk_message_def)
  qed (use l in simp_all)
qed

text \<open>
  C13. A chat message reaches exactly the users around the sender: when the account number is the user's own and the
  length is right, \<open>ProcMessage\<close> succeeds, appends one packet to the send queue of every session
  whose user stands at most one sector away in each direction (the sender's own included, if it is placed) and that is
  not disconnected and has room, and leaves every other queue alone; on the wire this packet is the
  encoded message with the sender's account, ID and nickname.
\<close>

theorem message_reaches_neighbourhood:
  assumes "net_inv c st" and "cs (sessions_of st) [L_user user] st"
    and "ProcMessage_read (fst (ask st)) (n_packets st packet) = (p, acc, len)" and "ProcMessage_text len p = (p2, msg)"
    and "m_accountNo (c_users (chat st) user) = acc" and "CPacket_GetDataSize p = uint len" and "len \<noteq> 0"
    and "unat len \<le> MAX_MESSAGE"
    and "length (m_ID (c_users (chat st) user)) < MAX_ID_SIZE" and "length (m_nickname (c_users (chat st) user)) < MAX_NICK_SIZE"
  shows "\<exists>st' a r ids nicks beyond. ProcMessage user packet st = Some (True, st') \<and>
    (\<forall>j. s_send_q (sess st' j) = s_send_q (sess st j) @
      (if j \<in> session_index (chat st) ` audience (chat st) user \<and> takes st j then [a] else [])) \<and>
    net_wire (n_packets st' a) = net_message (n_packetCode st) (n_packetKey st) r
      (message_payload acc (m_ID (c_users (chat st) user) @ 0 # ids) (m_nickname (c_users (chat st) user) @ 0 # nicks)
        (read_wstring beyond (unat len) msg)) \<and>
    length (m_ID (c_users (chat st) user) @ 0 # ids) = MAX_ID_SIZE \<and>
    length (m_nickname (c_users (chat st) user) @ 0 # nicks) = MAX_NICK_SIZE"
proof -
  define st1 where "st1 = (snd (ask st))\<lparr>n_packets := (n_packets st)(packet := p2)\<rparr>"
  have same: "pk_same (n_packets st packet) p2"
    by (rule pk_same_trans[OF ProcMessage_read_same[OF assms(3)] ProcMessage_text_same[OF assms(4)]])
  have inv1: "net_inv c st1" and fr1: "lib_frame st st1"
    unfolding st1_def using read_packet[OF assms(1) same] by simp_all
  have c1: "chat st1 = chat st" "sess st1 j = sess st j" "takes st1 j = takes st j" "n_packetCode st1 = n_packetCode st"
    "n_packetKey st1 = n_packetKey st" for j
    using fr1 by (simp_all add: lib_frame_def net_frame_def st1_def takes_def)
  have ok1: "chat_ok (sessions_of st1) (chat st1)"
    using assms(2) unfolding c1 sessions_of_lib[OF assms(1) fr1] cs_def by simp
  let ?u = "c_users (chat st) user"
  let ?send = "send_new (\<lambda>e p. MakeMessage (n_packetCode st) (n_packetKey st) (e_rand e) (map (e_wmem e) [0..<MAX_ID_SIZE])
        (map (e_wmem e) [MAX_ID_SIZE..<MAX_ID_SIZE + MAX_NICK_SIZE]) (e_mem e) p acc (m_ID ?u) (m_nickname ?u) len msg)
      (\<lambda>send_packet. ChatServer_SendMessageAround send_packet user) st1"
  have k: "n_packetCode (snd (ask st)) = n_packetCode st" "n_packetKey (snd (ask st)) = n_packetKey st"
    by (simp_all add: ask_def)
  have e: "ProcMessage user packet st = map_option (\<lambda>st'. (True, st')) ?send"
    using assms(3-8) c1 by (cases ?send) (simp_all add: ProcMessage_def split_def Let_def st1_def [symmetric] k)
  have "\<not> ProcMessage_crash user packet st"
    using assms(3,9,10) by (auto simp: ProcMessage_crash_def split_def)
  then have "ProcMessage user packet st \<noteq> None"
    using ProcMessage_inv[OF assms(1) refl assms(2), of False packet] by (cases "ProcMessage user packet st") simp_all
  then obtain st' where st': "?send = Some st'" using e by auto
  obtain a r ids nicks beyond where F:
    "\<And>j. s_send_q (sess st' j) = s_send_q (sess st1 j) @
      (if j \<in> session_index (chat st1) ` audience (chat st1) user \<and> takes st1 j then [a] else [])"
    "net_wire (n_packets st' a) = net_message (n_packetCode st) (n_packetKey st) r (message_payload acc (m_ID ?u @ 0 # ids)
      (m_nickname ?u @ 0 # nicks) (read_wstring beyond (unat len) msg))"
    "length (m_ID ?u @ 0 # ids) = MAX_ID_SIZE" "length (m_nickname ?u @ 0 # nicks) = MAX_NICK_SIZE"
    by (rule message_sent[OF inv1 ok1 assms(9,10,8) st']) (rule that)
  have run: "ProcMessage user packet st = Some (True, st')" using e st' by simp
  show ?thesis using run F unfolding c1 by blast
qed

text \<open>The example: two clients have connected, the first stands in sector (3, 3), the second in (4, 4), and
  the first says \<open>hi\<close> (neither has logged in, both account numbers are still -1).\<close>

definition duo_state :: chat_server where
  "duo_state = the (run_events chat_callbacks
     [(0, Ev_accept (Some 5) ''10.0.0.1'' 4000), (0, Ev_accept (Some 6) ''10.0.0.2'' 4001)] sample_server)"

lemma duo_run_general:
  "map_option (\<lambda>st. (map (sessions_of st) [0, 1], map (c_userMap (chat st)) [1, 0x100000002],
      map (\<lambda>a. (m_accountNo (c_users (chat st) a), m_ID (c_users (chat st) a), m_nickname (c_users (chat st) a))) [200, 199]))
    (run_events chat_callbacks [(0, Ev_accept (Some 5) ''10.0.0.1'' 4000), (0, Ev_accept (Some 6) ''10.0.0.2'' 4001)]
      (started 2 50 119 sample_env pm sample_syslog rings)) =
   Some ([Some 1, Some 0x100000002], [Some 200, Some 199], [(-1, [], []), (-1, [], [])])"
  by code_simp

lemma duo_run:
  "run_events chat_callbacks [(0, Ev_accept (Some 5) ''10.0.0.1'' 4000), (0, Ev_accept (Some 6) ''10.0.0.2'' 4001)] sample_server =
     Some duo_state"
  "c_userMap (chat duo_state) 1 = Some 200" "c_userMap (chat duo_state) 0x100000002 = Some 199"
  "m_accountNo (c_users (chat duo_state) 200) = -1" "m_ID (c_users (chat duo_state) 200) = []"
  "m_nickname (c_users (chat duo_state) 200) = []"
  using duo_run_general[of sample_packets sample_rings] unfolding duo_state_def sample_server_def by auto

definition talk_chat :: chat where
  "talk_chat = the (do {
     c \<leftarrow> ProcSectorMove_move 199 4 4 (acquire (L_user 199) (chat duo_state));
     ProcSectorMove_move 200 3 3 (acquire (L_user 200) (unlock (L_user 199) c))
   })"

lemma talk_chat_ok:
  "chat_ok (sessions_of duo_state) talk_chat" "c_held talk_chat = [L_user 200]" "c_order talk_chat"
  "c_userMap talk_chat = c_userMap (chat duo_state)"
  "m_sectorX (c_users talk_chat 200) = 3 \<and> m_sectorY (c_users talk_chat 200) = 3 \<and> mb_inSector (c_users talk_chat 200)"
  "m_sectorX (c_users talk_chat 199) = 4 \<and> m_sectorY (c_users talk_chat 199) = 4 \<and> mb_inSector (c_users talk_chat 199)"
  "m_accountNo (c_users talk_chat 200) = -1" "m_ID (c_users talk_chat 200) = []" "m_nickname (c_users talk_chat 200) = []"
proof -
  have C: "chat_ok (sessions_of duo_state) (chat duo_state)" "c_held (chat duo_state) = []" "c_order (chat duo_state)"
    using reach_inv(2)[OF sample_booted duo_run(1)] by (simp_all add: chat_inv_def)
  have R: "199 \<in> ran (c_userMap (chat duo_state))" "200 \<in> ran (c_userMap (chat duo_state))"
    using duo_run(2,3) by (auto intro: ranI)
  have P: "(0 :: int) \<le> 3" "3 < SECTOR_MAX_X" "3 < SECTOR_MAX_Y" "(0 :: int) \<le> 4" "4 < SECTOR_MAX_X" "4 < SECTOR_MAX_Y"
    by (simp_all add: SECTOR_MAX_X_def SECTOR_MAX_Y_def)
  let ?c0 = "acquire (L_user 199) (chat duo_state)"
  obtain c1 where M1: "ProcSectorMove_move 199 4 4 ?c0 = Some c1" "chat_ok (sessions_of duo_state) c1"
      "c_held c1 = [L_user 199]" "c_order c1" "c_userMap c1 = c_userMap ?c0"
      "c_users c1 = (c_users ?c0)(199 := (c_users ?c0 199)\<lparr>m_sectorX := 4, m_sectorY := 4, m_sectorIter := c_nodes ?c0, mb_inSector := True\<rparr>)"
    by (rule ProcSectorMove_move_ok[of "sessions_of duo_state" ?c0 199 4 4]) (use C R P in \<open>auto simp: order_acquire\<close>)
  let ?c2 = "acquire (L_user 200) (unlock (L_user 199) c1)"
  obtain c3 where M2: "ProcSectorMove_move 200 3 3 ?c2 = Some c3" "chat_ok (sessions_of duo_state) c3"
      "c_held c3 = [L_user 200]" "c_order c3" "c_userMap c3 = c_userMap ?c2"
      "c_users c3 = (c_users ?c2)(200 := (c_users ?c2 200)\<lparr>m_sectorX := 3, m_sectorY := 3, m_sectorIter := c_nodes ?c2, mb_inSector := True\<rparr>)"
    by (rule ProcSectorMove_move_ok[of "sessions_of duo_state" ?c2 200 3 3]) (use M1 R P in \<open>auto simp: order_acquire\<close>)
  have t: "talk_chat = c3" using M1(1) M2(1) by (simp add: talk_chat_def)
  show "chat_ok (sessions_of duo_state) talk_chat" "c_held talk_chat = [L_user 200]" "c_order talk_chat"
    "c_userMap talk_chat = c_userMap (chat duo_state)"
    "m_sectorX (c_users talk_chat 200) = 3 \<and> m_sectorY (c_users talk_chat 200) = 3 \<and> mb_inSector (c_users talk_chat 200)"
    "m_sectorX (c_users talk_chat 199) = 4 \<and> m_sectorY (c_users talk_chat 199) = 4 \<and> mb_inSector (c_users talk_chat 199)"
    "m_accountNo (c_users talk_chat 200) = -1" "m_ID (c_users talk_chat 200) = []" "m_nickname (c_users talk_chat 200) = []"
    using M1 M2 duo_run by (simp_all add: t)
qed

definition talk_payload :: bytes where
  "talk_payload = le_bytes 8 (-1 :: u64) @ le_bytes 2 (4 :: u16) @ [104, 0, 105, 0]"

definition talk_state :: "addr \<times> chat_server" where
  "talk_state = (let (a, st) = the (Packet_Alloc (upd_chat (\<lambda>_. talk_chat) duo_state))
     in (a, st\<lparr>n_packets := (n_packets st)(a := fst (CPacket_PutData talk_payload (n_packets st a)))\<rparr>))"

lemma talk_state_ok:
  "net_inv (hold (fst talk_state) no_ctx) (snd talk_state)"
  "cs (sessions_of (snd talk_state)) [L_user 200] (snd talk_state)" "chat (snd talk_state) = talk_chat"
  "pk_inv (n_packets (snd talk_state) (fst talk_state))" "pk_data (n_packets (snd talk_state) (fst talk_state)) = talk_payload"
proof -
  let ?st0 = "upd_chat (\<lambda>_. talk_chat) duo_state"
  have inv0: "net_inv no_ctx ?st0" using reach_inv(1)[OF sample_booted duo_run(1)] by simp
  have "Packet_Alloc ?st0 \<noteq> None" using Packet_Alloc_inv[OF inv0, of False] by (cases "Packet_Alloc ?st0") simp_all
  then obtain a st1 where A: "Packet_Alloc ?st0 = Some (a, st1)" by auto
  note F = Packet_Alloc_frame[OF inv0 A]
  let ?p = "fst (CPacket_PutData talk_payload (n_packets st1 a))"
  have t: "talk_state = (a, st1\<lparr>n_packets := (n_packets st1)(a := ?p)\<rparr>)" by (simp add: talk_state_def A)
  have len: "length talk_payload \<le> 1999" by (simp add: talk_payload_def)
  have H: "pk_holds talk_payload ?p" using pk_holds_PutData[OF pk_holds_fresh[OF F(4)], of talk_payload] len by simp
  show "net_inv (hold (fst talk_state) no_ctx) (snd talk_state)"
    unfolding t fst_conv snd_conv
    by (rule net_inv_packets[OF F(1)]) (use H F(4) in \<open>simp_all add: pk_holds_def pk_fresh_def eBUFFER_DEFAULT_def\<close>)
  have fr: "lib_frame ?st0 (st1\<lparr>n_packets := (n_packets st1)(a := ?p)\<rparr>)"
    using F(2) by (simp add: lib_frame_def net_frame_def)
  show c: "chat (snd talk_state) = talk_chat" using fr by (simp add: t lib_frame_def)
  have s: "sessions_of (snd talk_state) = sessions_of duo_state"
    using sessions_of_lib[OF inv0 fr] by (simp add: t)
  show "cs (sessions_of (snd talk_state)) [L_user 200] (snd talk_state)"
    using talk_chat_ok(1-3) by (simp add: cs_def s c)
  show "pk_inv (n_packets (snd talk_state) (fst talk_state))" "pk_data (n_packets (snd talk_state) (fst talk_state)) = talk_payload"
    using H by (simp_all add: t pk_holds_def)
qed

lemma talk_read:
  obtains p p2 where "ProcMessage_read (fst (ask (snd talk_state))) (n_packets (snd talk_state) (fst talk_state)) = (p, -1, 4)"
    "CPacket_GetDataSize p = 4" "ProcMessage_text 4 p = (p2, [104, 105])"
proof -
  note P = talk_state_ok(4,5)
  let ?e = "fst (ask (snd talk_state))"
  have d: "pk_data (n_packets (snd talk_state) (fst talk_state)) =
      le_bytes (LENGTH(64) div 8) (-1 :: u64) @ le_bytes 2 (4 :: u16) @ [104, 0, 105, 0]"
    using P(2) by (simp add: talk_payload_def)
  obtain p1 where P1: "CPacket_get (e_word ?e) (n_packets (snd talk_state) (fst talk_state)) = (p1, -1)" "pk_inv p1"
      "pk_data p1 = le_bytes 2 (4 :: u16) @ [104, 0, 105, 0]"
    by (rule pk_get[OF P(1) d, of "e_word ?e"]) simp_all
  have d2: "pk_data p1 = le_bytes (LENGTH(16) div 8) (4 :: u16) @ [104, 0, 105, 0]" using P1(3) by simp
  obtain p where P2: "CPacket_get (e_wmem ?e 0) p1 = (p, 4)" "pk_inv p" "pk_data p = [104, 0, 105, 0]"
    by (rule pk_get[OF P1(2) d2, of "e_wmem ?e 0"]) simp_all
  obtain p2 where P3: "CPacket_GetData 4 p = (p2, 4, [104, 0, 105, 0])"
    by (rule pk_GetData_has[OF P2(2), of 4]) (use P2(3) in simp_all)
  show ?thesis
  proof (rule that[of p p2])
    show "ProcMessage_read ?e (n_packets (snd talk_state) (fst talk_state)) = (p, -1, 4)"
      using P1(1) P2(1) by (simp add: ProcMessage_read_def)
    have "length (pk_data p) = nat (pk_data_size p)" by (rule length_pk_data[OF P2(2)])
    then show "CPacket_GetDataSize p = 4" using P2 pk_inv_facts(7)[OF P2(2)] by (simp add: CPacket_GetDataSize_def)
    have "c_str (take 2 (unwbytes [104, 0, 105, 0])) = [104, 105]" by code_simp
    then show "ProcMessage_text 4 p = (p2, [104, 105])" using P3 by (simp add: ProcMessage_text_def)
  qed
qed

theorem message_reaches_neighbourhood_witness:
  "\<exists>st' a r ids nicks beyond. ProcMessage 200 (fst talk_state) (snd talk_state) = Some (True, st') \<and>
    (\<forall>j. s_send_q (sess st' j) = s_send_q (sess (snd talk_state) j) @
      (if j \<in> session_index talk_chat ` audience talk_chat 200 \<and> takes (snd talk_state) j then [a] else [])) \<and>
    199 \<in> audience talk_chat 200 \<and> 200 \<in> audience talk_chat 200 \<and>
    net_wire (n_packets st' a) = net_message (n_packetCode (snd talk_state)) (n_packetKey (snd talk_state)) r
      (message_payload (-1) ([] @ 0 # ids) ([] @ 0 # nicks) (read_wstring beyond 4 [104, 105]))"
proof -
  have R: "199 \<in> ran (c_userMap (chat duo_state))" "200 \<in> ran (c_userMap (chat duo_state))"
    using duo_run(2,3) by (auto intro: ranI)
  have A: "199 \<in> audience talk_chat 200" "200 \<in> audience talk_chat 200"
    using R talk_chat_ok(4-6) by (simp_all add: audience_def)
  obtain p p2 where P: "ProcMessage_read (fst (ask (snd talk_state))) (n_packets (snd talk_state) (fst talk_state)) = (p, -1, 4)"
    "CPacket_GetDataSize p = 4" "ProcMessage_text 4 p = (p2, [104, 105])"
    by (rule talk_read)
  note T = message_reaches_neighbourhood[OF talk_state_ok(1,2) P(1,3), unfolded talk_state_ok(3)]
  have "m_accountNo (c_users talk_chat 200) = -1" "CPacket_GetDataSize p = uint (4 :: u16)" "(4 :: u16) \<noteq> 0"
    "unat (4 :: u16) \<le> MAX_MESSAGE" "length (m_ID (c_users talk_chat 200)) < MAX_ID_SIZE"
    "length (m_nickname (c_users talk_chat 200)) < MAX_NICK_SIZE"
    using talk_chat_ok(7-9) P(2) by (simp_all add: MAX_MESSAGE_def MAX_ID_SIZE_def MAX_NICK_SIZE_def)
  note U = T[OF this]
  have u: "unat (4 :: u16) = 4" by simp
  show ?thesis using U[unfolded talk_chat_ok(8,9) u] A by blast
qed

end
