(* ===== verification/Framing.thy ===== *)
theory Framing
  imports ServerProps
begin

text \<open>
  The receive loop against a specification on the byte stream: \<open>frames\<close> cuts a list of bytes into whole
  messages, the rest, and whether a header with an impossible length was met. The loop of
  \<open>runIoThread\<close> on the ring does what handling the list of messages one after the other does.
\<close>

subsection \<open>Cutting the stream\<close>

definition frame_len :: "bytes \<Rightarrow> u16" where
  "frame_len bs = h_len (net_header_of (take 5 bs))"

function frames :: "bytes \<Rightarrow> bytes list \<times> bool \<times> bytes" where
  "frames bs =
     (if length bs < 5 then ([], True, bs)
      else if frame_len bs = 0 \<or> 2000 < unat (frame_len bs) then ([], False, bs)
      else if length bs < unat (frame_len bs) + 5 then ([], True, bs)
      else (let (fs, ok, rest) = frames (drop (unat (frame_len bs) + 5) bs)
            in (take (unat (frame_len bs) + 5) bs # fs, ok, rest)))"
  by pat_completeness auto
termination by (relation "measure length") auto

declare frames.simps [simp del]

lemma frame_len_append: "5 \<le> length xs \<Longrightarrow> frame_len (xs @ ys) = frame_len xs"
  by (simp add: frame_len_def)

text \<open>How the stream is cut into receives does not matter.\<close>

lemma frames_append:
  "frames xs = (fs, True, r) \<Longrightarrow> frames (xs @ ys) = (case frames (r @ ys) of (gs, ok, r') \<Rightarrow> (fs @ gs, ok, r'))"
proof (induction xs arbitrary: fs rule: frames.induct)
  case (1 xs)
  show ?case
  proof (cases "length xs < 5 \<or> (frame_len xs \<noteq> 0 \<and> unat (frame_len xs) \<le> 2000 \<and> length xs < unat (frame_len xs) + 5)")
    case True
    then have "fs = []" "r = xs" using 1(2) by (auto simp: frames.simps[of xs] split: if_splits)
    then show ?thesis by (simp add: split_def)
  next
    case False
    let ?n = "unat (frame_len xs) + 5"
    have c: "\<not> length xs < 5" "\<not> (frame_len xs = 0 \<or> 2000 < unat (frame_len xs))" "\<not> length xs < ?n"
      using False 1(2) by (auto simp: frames.simps[of xs] split: if_splits)
    obtain fs' where f: "frames (drop ?n xs) = (fs', True, r)" "fs = take ?n xs # fs'"
      using 1(2) c by (auto simp: frames.simps[of xs] split: prod.splits)
    have IH: "frames (drop ?n xs @ ys) = (case frames (r @ ys) of (gs, ok, r') \<Rightarrow> (fs' @ gs, ok, r'))"
      by (rule 1(1)[OF c f(1)])
    have e: "frame_len (xs @ ys) = frame_len xs" using c(1) by (simp add: frame_len_append)
    have "frames (xs @ ys) = (let (gs, ok, r') = frames (drop ?n xs @ ys) in (take ?n xs # gs, ok, r'))"
      using c by (subst frames.simps) (simp add: e)
    then show ?thesis unfolding IH f(2) by (simp add: split_def Let_def)
  qed
qed

subsection \<open>The head of the ring\<close>

lemma recv_head_list:
  assumes rb: "rb_inv rb" "rb_capacity rb = 2000"
  shows "length (rb_list rb) < 5 \<Longrightarrow> RingBuffer_Peek rb (of_nat net_header_size) = (0, [])"
    and "5 \<le> length (rb_list rb) \<Longrightarrow> RingBuffer_Peek rb (of_nat net_header_size) = (of_nat net_header_size, take 5 (rb_list rb))"
    and "sint (RingBuffer_GetBufferSize rb) < uint (len :: u16) \<longleftrightarrow> 2000 < unat len"
    and "(ucast len :: u64) + 5 > scast (RingBuffer_GetFillSize rb) \<longleftrightarrow> length (rb_list rb) < unat len + 5"
proof -
  have fill: "unat (RingBuffer_GetFillSize rb) = length (rb_list rb)" "length (rb_list rb) \<le> 2000"
    using rb_sizes[OF rb(1)] rb(2) by simp_all
  have b16: "unat len < 2 ^ 16" using unsigned_less[of len] by simp
  show "RingBuffer_Peek rb (of_nat net_header_size) = (0, [])" if "length (rb_list rb) < 5"
    by (rule rb_Peek_fail[OF rb(1)]) (use that in \<open>simp_all add: net_header_size_def\<close>)
  show "RingBuffer_Peek rb (of_nat net_header_size) = (of_nat net_header_size, take 5 (rb_list rb))" if "5 \<le> length (rb_list rb)"
    using rb_Peek_ok[OF rb(1), of "of_nat net_header_size"] that by (simp add: net_header_size_def)
  have "unat (RingBuffer_GetBufferSize rb) = 2000" using rb_sizes(3)[OF rb(1)] rb(2) by simp
  then have "sint (RingBuffer_GetBufferSize rb) = int 2000" using sint_unat[of "RingBuffer_GetBufferSize rb"] by simp
  then show "sint (RingBuffer_GetBufferSize rb) < uint len \<longleftrightarrow> 2000 < unat len"
    unfolding uint_nat by (simp only: of_nat_less_iff)
  have l64: "unat ((ucast len :: u64) + 5) = unat len + 5"
    using b16 by (subst unat_add_small) (simp_all add: unat_ucast_u16_u64)
  have f64: "unat (scast (RingBuffer_GetFillSize rb) :: u64) = length (rb_list rb)"
    using fill by (subst unat_scast_u32_u64) simp_all
  show "(ucast len :: u64) + 5 > scast (RingBuffer_GetFillSize rb) \<longleftrightarrow> length (rb_list rb) < unat len + 5"
    using l64 f64 by (simp add: word_less_nat_alt)
qed

lemma recv_take:
  assumes rb: "rb_inv rb" "rb_capacity rb = 2000" and l: "unat (len :: u16) + 5 \<le> length (rb_list rb)"
  obtains rb' where "RingBuffer_Dequeue rb (ucast len + 5) = (rb', ucast len + 5, take (unat len + 5) (rb_list rb))"
    "rb_inv rb'" "rb_capacity rb' = 2000" "rb_list rb' = drop (unat len + 5) (rb_list rb)"
proof -
  have b16: "unat len < 2 ^ 16" using unsigned_less[of len] by simp
  have l32: "unat ((ucast len :: u32) + 5) = unat len + 5"
    using b16 by (subst unat_add_small) (simp_all add: unat_ucast_u16_u32)
  show ?thesis
    by (rule rb_Dequeue_ok[OF rb(1), of "ucast len + 5"]) (use l32 l rb(2) that in simp_all)
qed

subsection \<open>The loop\<close>

text \<open>Handling the message with the bytes \<open>f\<close>: what \<open>recv_message\<close> does, with the bytes given and the
  ring only moved on.\<close>

definition deliver_frame :: "'a net_scheme callbacks \<Rightarrow> nat \<Rightarrow> bytes \<Rightarrow> 'a net_scheme \<Rightarrow> 'a net_scheme run" where
  "deliver_frame cb i f st = do {
     (packet, st) \<leftarrow> Packet_Alloc st;
     let st = upd_sess i (\<lambda>s. s\<lparr>s_recv_buffer := fst (RingBuffer_Dequeue (s_recv_buffer s) (ucast (frame_len f) + 5))\<rparr>) st;
     let (p, ok) = recv_packet (n_packetKey st) f (frame_len f) (n_packets st packet);
     let st = st\<lparr>n_packets := (n_packets st)(packet := p)\<rparr>;
     st \<leftarrow> recv_dispatch cb i packet ok st;
     Packet_Free packet st
   }"

fun deliver_frames :: "'a net_scheme callbacks \<Rightarrow> nat \<Rightarrow> bytes list \<Rightarrow> 'a net_scheme \<Rightarrow> 'a net_scheme run" where
  "deliver_frames cb i [] st = Some st"
| "deliver_frames cb i (f # fs) st = do { st \<leftarrow> deliver_frame cb i f st; deliver_frames cb i fs st }"

text \<open>After the messages: a header with an impossible length disconnects the session.\<close>

definition reject :: "nat \<Rightarrow> bool \<Rightarrow> bytes \<Rightarrow> 'a net_scheme \<Rightarrow> 'a net_scheme run" where
  "reject i ok rest st =
     (if ok then Some st
      else do {
        st \<leftarrow> CNetServer_Log ''SYS'' enLOG_LEVEL_DEBUG
                (''Packet Error header indicates length ['' @ fmt_d (uint (frame_len rest)) @ '']'') st;
        Some (CNetServer_disconnect i st)
      })"

definition recv_stream :: "'a net_scheme callbacks \<Rightarrow> nat \<Rightarrow> bytes \<Rightarrow> 'a net_scheme \<Rightarrow> 'a net_scheme run" where
  "recv_stream cb i bs st =
     (case frames bs of (fs, ok, rest) \<Rightarrow> do { st \<leftarrow> deliver_frames cb i fs st; reject i ok rest st })"

lemma recv_stream_whole:
  assumes "\<not> length bs < 5" and "\<not> (frame_len bs = 0 \<or> 2000 < unat (frame_len bs))" and "\<not> length bs < unat (frame_len bs) + 5"
  shows "recv_stream cb i bs st =
    deliver_frame cb i (take (unat (frame_len bs) + 5) bs) st \<bind> recv_stream cb i (drop (unat (frame_len bs) + 5) bs)"
proof -
  obtain fs ok rest where f: "frames (drop (unat (frame_len bs) + 5) bs) = (fs, ok, rest)"
    by (cases "frames (drop (unat (frame_len bs) + 5) bs)")
  have "frames bs = (take (unat (frame_len bs) + 5) bs # fs, ok, rest)"
    using assms f by (simp add: frames.simps[of bs])
  then show ?thesis
    by (cases "deliver_frame cb i (take (unat (frame_len bs) + 5) bs) st") (simp_all add: recv_stream_def f)
qed

lemma recv_message_frame:
  assumes l: "i < length (n_sessions st)" and rb: "rb_inv (s_recv_buffer (sess st i))" "rb_capacity (s_recv_buffer (sess st i)) = 2000"
    and f: "unat (frame_len bs) + 5 \<le> length bs" "bs = rb_list (s_recv_buffer (sess st i))"
  shows "recv_message cb i (frame_len bs) st = deliver_frame cb i (take (unat (frame_len bs) + 5) bs) st"
proof (cases "Packet_Alloc st")
  case None
  then show ?thesis by (simp add: recv_message_def deliver_frame_def)
next
  case (Some r)
  obtain a st1 where r: "r = (a, st1)" by (cases r)
  have s1: "n_sessions st1 = n_sessions st" using Some r by (auto simp: Packet_Alloc_def bind_Some_iff)
  have e: "frame_len (take (unat (frame_len bs) + 5) bs) = frame_len bs" by (simp add: frame_len_def min_def)
  have d: "snd (snd (RingBuffer_Dequeue (s_recv_buffer (sess st i)) (ucast (frame_len bs) + 5))) = take (unat (frame_len bs) + 5) bs"
    by (rule recv_take[OF rb, of "frame_len bs"]) (use f in simp_all)
  have u: "upd_sess i (\<lambda>s. s\<lparr>s_recv_buffer := fst (RingBuffer_Dequeue (s_recv_buffer s) n)\<rparr>) st1 =
      upd_sess i (\<lambda>s. s\<lparr>s_recv_buffer := fst (RingBuffer_Dequeue (s_recv_buffer (sess st i)) n)\<rparr>) st1" for n
    by (simp add: upd_sess_def s1)
  show ?thesis
    unfolding recv_message_def deliver_frame_def Some r
    by (simp add: split_def Let_def e u s1) (simp add: d)
qed

text \<open>The state in which \<open>runIoThread\<close> enters the loop when the bytes \<open>d\<close> have arrived for session
  \<open>i\<close>, and what it does after the loop: the counters, the next receive and the release of its count.\<close>

definition received :: "nat \<Rightarrow> bytes \<Rightarrow> 'a net_scheme \<Rightarrow> 'a net_scheme" where
  "received i d st =
     (let st = upd_sess i (kernel_write d) (st\<lparr>n_recv_io := n_recv_io st - {i}\<rparr>);
          n = of_nat (length d);
          (e, st) = ask (st\<lparr>n_recvByte := n_recvByte st + n\<rparr>)
      in upd_sess i (\<lambda>s. s\<lparr>s_recv_buffer := RingBuffer_MoveRear (s_recv_buffer s) n, s_last_recv_time := e_tick e\<rparr>) st)"

definition recv_counted :: "nat \<Rightarrow> 'a net_scheme \<Rightarrow> 'a net_scheme run" where
  "recv_counted i st = do {
     (_, st) \<leftarrow> CNetServer_recvPost i
       (upd_sess i (\<lambda>s. s\<lparr>s_recvPacket := 0\<rparr>) (st\<lparr>n_recvPacket := n_recvPacket st + s_recvPacket (sess st i)\<rparr>));
     Some st
   }"

definition recv_finish :: "nat \<Rightarrow> 'a net_scheme \<Rightarrow> 'a net_scheme run" where
  "recv_finish i st = do {
     st \<leftarrow> recv_counted i st;
     (_, st) \<leftarrow> CNetServer_updateIOCount i st;
     Some st
   }"

context derived_class begin

lemma recv_loop_stream:
  assumes "srv_inv c st" and "i < n_maxSession st" and "x_recv c = Some i"
    and "length (rb_list (s_recv_buffer (sess st i))) < fuel"
  shows "recv_loop cb fuel i st = recv_stream cb i (rb_list (s_recv_buffer (sess st i))) st"
  using assms
proof (induction fuel arbitrary: st)
  case 0
  then show ?case by simp
next
  case (Suc fuel)
  note srv = Suc.prems(1) and i = Suc.prems(2) and r = Suc.prems(3) and fuel = Suc.prems(4)
  let ?rb = "s_recv_buffer (sess st i)" and ?bs = "rb_list (s_recv_buffer (sess st i))"
  note B = net_bufs(3,4)[OF srv_net[OF srv] i]
  note H = recv_head_list[OF B]
  have n0: "(0 :: u32) \<noteq> of_nat net_header_size" by (simp add: net_header_size_def)
  have l: "i < length (n_sessions st)" using i net_invD(3)[OF srv_net[OF srv]] by simp
  show ?case
  proof (cases "length ?bs < 5")
    case True
    then show ?thesis using H(1)[OF True] n0 by (simp add: Let_def recv_stream_def frames.simps[of ?bs] reject_def)
  next
    case long: False
    have P: "RingBuffer_Peek ?rb (of_nat net_header_size) = (of_nat net_header_size, take 5 ?bs)" using H(2) long by simp
    have fl: "h_len (net_header_of (take 5 ?bs)) = frame_len ?bs" by (simp add: frame_len_def)
    consider (bad) "frame_len ?bs = 0 \<or> 2000 < unat (frame_len ?bs)"
      | (more) "\<not> (frame_len ?bs = 0 \<or> 2000 < unat (frame_len ?bs))" "length ?bs < unat (frame_len ?bs) + 5"
      | (whole) "\<not> (frame_len ?bs = 0 \<or> 2000 < unat (frame_len ?bs))" "\<not> length ?bs < unat (frame_len ?bs) + 5"
      by blast
    then show ?thesis
    proof cases
      case bad
      then show ?thesis
        using P long by (simp add: Let_def fl H(3) recv_stream_def frames.simps[of ?bs] reject_def)
    next
      case more
      then show ?thesis
        using P long by (simp add: Let_def fl H(3,4) recv_stream_def frames.simps[of ?bs] reject_def)
    next
      case whole
      let ?f = "take (unat (frame_len ?bs) + 5) ?bs" and ?rest = "drop (unat (frame_len ?bs) + 5) ?bs"
      have step: "recv_loop cb (Suc fuel) i st = recv_message cb i (frame_len ?bs) st \<bind> recv_loop cb fuel i"
        using P whole by (simp add: Let_def fl H(3,4) del: recv_loop.simps(1)) 
      have stream: "recv_stream cb i ?bs st = deliver_frame cb i ?f st \<bind> recv_stream cb i ?rest"
        by (rule recv_stream_whole) (use long whole in simp_all)
      have frame: "recv_message cb i (frame_len ?bs) st = deliver_frame cb i ?f st"
        by (rule recv_message_frame[OF l B _ refl]) (use whole in simp)
      have rest: "recv_loop cb fuel i st1 = recv_stream cb i ?rest st1" if m: "recv_message cb i (frame_len ?bs) st = Some st1" for st1
      proof -
        obtain rb' where D: "RingBuffer_Dequeue ?rb (ucast (frame_len ?bs) + 5) = (rb', ucast (frame_len ?bs) + 5, ?f)"
            "rb_inv rb'" "rb_capacity rb' = 2000" "rb_list rb' = ?rest"
          by (rule recv_take[OF B, of "frame_len ?bs"]) (use whole in simp_all)
        have le: "length ?bs \<le> 2000" using rb_sizes(4)[OF B(1)] B(2) by simp
        have z: "0 < unat (frame_len ?bs)" using whole by (simp add: unat_gt_0)
        have "srv_inv c st1 \<and> n_maxSession st1 = n_maxSession st \<and> s_recv_buffer (sess st1 i) = rb'"
          by (rule wpx_SomeE[OF recv_message_inv[OF srv i r D(1-3)] m]) (use whole le z in simp_all)
        then show ?thesis using Suc.IH[of st1] i r fuel whole z D(4) by simp
      qed
      show ?thesis unfolding step stream frame[symmetric]
        by (rule bind_option_cong[OF refl]) (rule rest, simp)
    qed
  qed
qed

text \<open>What is left in the ring afterwards is the rest that \<open>frames\<close> leaves.\<close>

lemma recv_loop_rest:
  assumes "srv_inv c st" and "i < n_maxSession st" and "x_recv c = Some i"
    and "length (rb_list (s_recv_buffer (sess st i))) < fuel" and "recv_loop cb fuel i st = Some st'"
    and "frames (rb_list (s_recv_buffer (sess st i))) = (fs, True, r)"
  shows "rb_list (s_recv_buffer (sess st' i)) = r"
  using assms
proof (induction fuel arbitrary: st fs)
  case 0
  then show ?case by simp
next
  case (Suc fuel)
  note srv = Suc.prems(1) and i = Suc.prems(2) and x = Suc.prems(3) and fuel = Suc.prems(4)
    and run = Suc.prems(5) and fr = Suc.prems(6)
  let ?rb = "s_recv_buffer (sess st i)" and ?bs = "rb_list (s_recv_buffer (sess st i))"
  note B = net_bufs(3,4)[OF srv_net[OF srv] i]
  note H = recv_head_list[OF B]
  have n0: "(0 :: u32) \<noteq> of_nat net_header_size" by (simp add: net_header_size_def)
  show ?case
  proof (cases "length ?bs < 5")
    case True
    then have "frames ?bs = ([], True, ?bs)" by (simp add: frames.simps[of ?bs])
    then have "r = ?bs" using fr by simp
    moreover have "st' = st" using H(1)[OF True] n0 run by (simp add: Let_def)
    ultimately show ?thesis by simp
  next
    case long: False
    have P: "RingBuffer_Peek ?rb (of_nat net_header_size) = (of_nat net_header_size, take 5 ?bs)" using H(2) long by simp
    have fl: "h_len (net_header_of (take 5 ?bs)) = frame_len ?bs" by (simp add: frame_len_def)
    have ok: "\<not> (frame_len ?bs = 0 \<or> 2000 < unat (frame_len ?bs))"
      using fr long by (auto simp: frames.simps[of ?bs] split: if_splits)
    show ?thesis
    proof (cases "length ?bs < unat (frame_len ?bs) + 5")
      case True
      then have "frames ?bs = ([], True, ?bs)" using long ok by (simp add: frames.simps[of ?bs])
      then have "r = ?bs" using fr by simp
      moreover have "st' = st" using P True ok run by (simp add: Let_def fl H(3,4))
      ultimately show ?thesis by simp
    next
      case whole: False
      let ?f = "take (unat (frame_len ?bs) + 5) ?bs" and ?rest = "drop (unat (frame_len ?bs) + 5) ?bs"
      have "recv_message cb i (frame_len ?bs) st \<bind> recv_loop cb fuel i = recv_loop cb (Suc fuel) i st"
        using P ok whole by (simp add: Let_def fl H(3,4) del: recv_loop.simps(1))
      with run have "recv_message cb i (frame_len ?bs) st \<bind> recv_loop cb fuel i = Some st'" by (simp only:)
      then obtain st1 where m: "recv_message cb i (frame_len ?bs) st = Some st1" and run1: "recv_loop cb fuel i st1 = Some st'"
        by (auto simp: bind_Some_iff simp del: recv_loop.simps)
      obtain rb' where D: "RingBuffer_Dequeue ?rb (ucast (frame_len ?bs) + 5) = (rb', ucast (frame_len ?bs) + 5, ?f)"
          "rb_inv rb'" "rb_capacity rb' = 2000" "rb_list rb' = ?rest"
        by (rule recv_take[OF B, of "frame_len ?bs"]) (use whole in simp_all)
      have le: "length ?bs \<le> 2000" using rb_sizes(4)[OF B(1)] B(2) by simp
      have z: "0 < unat (frame_len ?bs)" using ok by (simp add: unat_gt_0)
      have K: "srv_inv c st1 \<and> n_maxSession st1 = n_maxSession st \<and> s_recv_buffer (sess st1 i) = rb'"
        by (rule wpx_SomeE[OF recv_message_inv[OF srv i x D(1-3)] m]) (use whole le z in simp_all)
      obtain gs where "frames ?rest = (gs, True, r)"
        using fr long ok whole by (auto simp: frames.simps[of ?bs] split: prod.splits)
      then show ?thesis using Suc.IH[of st1 gs] K i x fuel whole z D(4) run1 by simp
    qed
  qed
qed

text \<open>The end of a receive, the whole event.\<close>

lemma recv_event_stream:
  assumes srv: "srv_inv no_ctx st" and ok: "event_ok st (Ev_recv i d None)" and d: "d \<noteq> []"
    and nd: "\<not> s_disconnect (sess st i)"
  shows "event_step cb (Ev_recv i d None) st =
      recv_stream cb i (rb_list (s_recv_buffer (sess st i)) @ d) (received i d st) \<bind> recv_finish i"
    and "rb_list (s_recv_buffer (sess (received i d st) i)) = rb_list (s_recv_buffer (sess st i)) @ d"
    and "srv_inv (recv_own i (pin i no_ctx)) (received i d st)" and "i < n_maxSession (received i d st)"
proof -
  note inv = srv_net[OF srv]
  let ?c = "recv_own i (pin i no_ctx)" and ?n = "of_nat (length d) :: u32"
  let ?st = "upd_sess i (kernel_write d) (st\<lparr>n_recv_io := n_recv_io st - {i}\<rparr>)"
  have io: "i \<in> n_recv_io st" and dl: "length d \<le> seg_total (recv_segments (s_recv_buffer (sess st i)))"
    using ok by simp_all
  have i: "i < n_maxSession st" using net_invD(2)[OF inv] io by (auto simp: struct_ok_def)
  have l: "i < length (n_sessions st)" using i net_invD(3)[OF inv] by simp
  note B = net_bufs(3,4)[OF inv i]
  note total = recv_segments_total[OF B(1)]
  have dle: "length d \<le> 2000" using dl B(2) unfolding total by simp
  then have un: "unat ?n = length d" by (simp add: unat_of_nat take_bit_nat_eq_self)
  then have nz: "?n \<noteq> 0" using d by (metis length_0_conv unat_0)
  note M = rb_MoveRear[OF B(1) dl[unfolded total] un]
  have "sessions_of ?st = sessions_of (st\<lparr>n_recv_io := n_recv_io st - {i}\<rparr>)"
    by (rule sessions_of_upd) (use l in \<open>simp_all add: kernel_write_def Let_def\<close>)
  also have "\<dots> = sessions_of st" by (rule ext) (simp add: sessions_of_def)
  finally have srv1: "srv_inv ?c ?st"
    by (intro srv_upd[OF srv recv_ended_inv[OF inv io dl]]) simp_all
  define st1 where "st1 = snd (ask (?st\<lparr>n_recvByte := n_recvByte ?st + ?n\<rparr>))"
  define e where "e = n_env st (n_time st)"
  have srv2: "srv_inv ?c st1"
    by (rule srv_fields[OF srv1]) (auto intro!: net_inv_env[OF srv_net[OF srv1]] simp: st1_def ask_def)
  have s1: "n_sessions st1 = n_sessions ?st" "n_maxSession st1 = n_maxSession st" by (simp_all add: st1_def)
  have rb1: "s_recv_buffer (sess st1 i) = (s_recv_buffer (sess st i))
      \<lparr>rb_buf := seg_write (recv_segments (s_recv_buffer (sess st i))) d (rb_buf (s_recv_buffer (sess st i)))\<rparr>"
    using s1 l by (simp add: kernel_write_def Let_def)
  have st2: "received i d st = upd_sess i (\<lambda>s. s\<lparr>s_recv_buffer := RingBuffer_MoveRear (s_recv_buffer s) ?n,
      s_last_recv_time := e_tick e\<rparr>) st1"
    by (simp add: received_def Let_def split_def st1_def e_def)
  show srv3: "srv_inv ?c (received i d st)" unfolding st2
    by (rule srv_field_upd[OF srv2]) (use i s1 M rb1 B(2) in \<open>auto simp: slot_ok_def bufs_ok_def\<close>)
  show i3: "i < n_maxSession (received i d st)" using i s1 by (simp add: st2)
  show L: "rb_list (s_recv_buffer (sess (received i d st) i)) = rb_list (s_recv_buffer (sess st i)) @ d"
    using M l s1 rb1 by (simp add: st2)
  have b3: "rb_inv (s_recv_buffer (sess (received i d st) i))" using net_bufs(3)[OF srv_net[OF srv3] i3] .
  have loop: "recv_loop cb (Suc (unat (RingBuffer_GetFillSize (s_recv_buffer (sess (received i d st) i))))) i (received i d st) =
      recv_stream cb i (rb_list (s_recv_buffer (sess st i)) @ d) (received i d st)"
    unfolding L[symmetric] by (rule recv_loop_stream[OF srv3 i3]) (use rb_sizes(1)[OF b3] in simp_all)
  have nd1: "\<not> s_disconnect (sess ?st i)" using nd l by (simp add: kernel_write_def Let_def)
  have "session_completion cb ?n i Ov_recv ?st = recv_complete cb i ?n ?st" using nz nd1 by (simp add: session_completion_def)
  also have "\<dots> = recv_stream cb i (rb_list (s_recv_buffer (sess st i)) @ d) (received i d st) \<bind> recv_counted i"
    unfolding loop[symmetric]
    by (simp add: recv_complete_def Let_def split_def st1_def[symmetric] e_def[symmetric] st2[symmetric] recv_counted_def[abs_def]
        del: recv_loop.simps)
  finally show "event_step cb (Ev_recv i d None) st =
      recv_stream cb i (rb_list (s_recv_buffer (sess st i)) @ d) (received i d st) \<bind> recv_finish i"
    by (simp add: runIoThread_body_def recv_finish_def[abs_def] split_def map_option_bind o_def)
qed

end

subsection \<open>The chat server\<close>

text \<open>
  C12. When bytes arrive for a connected client, the server does exactly this: it puts them behind the
  bytes that were left of earlier receives, handles the complete messages of that stream one after
  the other in order (decode, \<open>OnRecv\<close> or disconnect), disconnects the client if a header with length
  0 or above 2000 follows, and asks for the next receive. However the stream is cut into receives,
  the same messages are handled, and what is left in the ring is the incomplete message at the end.
\<close>

theorem receive_handles_the_stream:
  assumes "booted st0" and "run_events chat_callbacks evs st0 = Some st"
    and "event_ok st (Ev_recv i d None)" and "d \<noteq> []" and "\<not> s_disconnect (sess st i)"
  defines "old \<equiv> rb_list (s_recv_buffer (sess st i))"
  shows "event_step chat_callbacks (Ev_recv i d None) st =
      recv_stream chat_callbacks i (old @ d) (received i d st) \<bind> recv_finish i \<and>
    (\<forall>xs ys fs r. frames xs = (fs, True, r) \<longrightarrow>
      frames (xs @ ys) = (case frames (r @ ys) of (gs, ok, r') \<Rightarrow> (fs @ gs, ok, r'))) \<and>
    (\<forall>st' fs r. frames (old @ d) = (fs, True, r) \<longrightarrow> recv_stream chat_callbacks i (old @ d) (received i d st) = Some st' \<longrightarrow>
      rb_list (s_recv_buffer (sess st' i)) = r)"
proof -
  have srv: "chat_srv.srv_inv no_ctx st"
    using reach_inv[OF assms(1,2)] by (simp add: chat_srv.srv_inv_def)
  note E = chat_srv.recv_event_stream[OF srv assms(3,4,5)]
  have rest: "rb_list (s_recv_buffer (sess st' i)) = r"
    if f: "frames (old @ d) = (fs, True, r)" and run: "recv_stream chat_callbacks i (old @ d) (received i d st) = Some st'"
    for st' fs r
  proof -
    let ?fuel = "Suc (length (old @ d))"
    have L: "rb_list (s_recv_buffer (sess (received i d st) i)) = old @ d" using E(2) by (simp add: old_def)
    have "recv_loop chat_callbacks ?fuel i (received i d st) = Some st'"
      using chat_srv.recv_loop_stream[OF E(3,4), of ?fuel] run unfolding L by simp
    then show ?thesis using chat_srv.recv_loop_rest[OF E(3,4), of ?fuel st' fs r] f unfolding L by simp
  qed
  show ?thesis using E(1) rest frames_append unfolding old_def by blast
qed

definition sample_message :: bytes where
  "sample_message = [119, 3, 0, 7, 9, 1, 2, 3]"

lemma sample_recv_general:
  "map_option (\<lambda>st. (0 \<in> n_recv_io st, s_disconnect (sess st 0), rb_fillSize (s_recv_buffer (sess st 0))))
    (run_events chat_callbacks sample_events (started 2 50 119 sample_env pm sample_syslog rings)) = Some (True, False, 0)"
  by code_simp

lemma sample_recv:
  "0 \<in> n_recv_io sample_state" "\<not> s_disconnect (sess sample_state 0)"
  "rb_list (s_recv_buffer (sess sample_state 0)) = []" "rb_inv (s_recv_buffer (sess sample_state 0))"
  "rb_capacity (s_recv_buffer (sess sample_state 0)) = 2000"
proof -
  note S = sample_recv_general[of sample_packets sample_rings]
  show "0 \<in> n_recv_io sample_state" "\<not> s_disconnect (sess sample_state 0)"
    using S unfolding sample_state_def sample_server_def by auto
  have f: "rb_fillSize (s_recv_buffer (sess sample_state 0)) = 0"
    using S unfolding sample_state_def sample_server_def by auto
  have z: "0 < n_maxSession sample_state" using sample_reach(3) by simp
  show B: "rb_inv (s_recv_buffer (sess sample_state 0))" "rb_capacity (s_recv_buffer (sess sample_state 0)) = 2000"
    using net_bufs(3,4)[OF sample_reach(1) z] .
  have "length (rb_list (s_recv_buffer (sess sample_state 0))) = 0"
    using rb_sizes(1)[OF B(1)] f by (simp add: RingBuffer_GetFillSize_def)
  then show "rb_list (s_recv_buffer (sess sample_state 0)) = []" by (simp only: length_0_conv)
qed

theorem receive_handles_the_stream_witness:
  "event_step chat_callbacks (Ev_recv 0 sample_message None) sample_state =
     deliver_frames chat_callbacks 0 [sample_message] (received 0 sample_message sample_state) \<bind> recv_finish 0"
proof -
  have ok: "event_ok sample_state (Ev_recv 0 sample_message None)"
    using sample_recv recv_segments_total[OF sample_recv(4)] by (simp add: sample_message_def)
  have "frames sample_message = ([sample_message], True, [])" by code_simp
  then have "recv_stream chat_callbacks 0 sample_message st = deliver_frames chat_callbacks 0 [sample_message] st" for st
    by (cases "deliver_frame chat_callbacks 0 sample_message st") (simp_all add: recv_stream_def reject_def)
  then show ?thesis
    using receive_handles_the_stream[OF sample_booted sample_run(1) ok] sample_recv(2,3) by (simp add: sample_message_def)
qed

text \<open>
  C24. A header whose length is above 1995 and at most 2000 passes the check of \<open>runIoThread\<close>, but with the five
  bytes of the header the message is longer than the receive ring: the loop leaves it there whatever
  follows, even when the ring is full, neither handling it nor disconnecting the client.
\<close>

theorem oversized_message_is_stuck:
  assumes "rb_inv (s_recv_buffer (sess st i))" and "rb_capacity (s_recv_buffer (sess st i)) = 2000"
    and "rb_list (s_recv_buffer (sess st i)) = bs" and "5 \<le> length bs"
    and "1995 < unat (frame_len bs)" and "unat (frame_len bs) \<le> 2000"
  shows "recv_loop cb (Suc fuel) i st = Some st"
proof -
  note H = recv_head_list[OF assms(1,2)]
  have le: "length bs \<le> 2000" using rb_sizes(4)[OF assms(1)] assms(2,3) by simp
  have P: "RingBuffer_Peek (s_recv_buffer (sess st i)) (of_nat net_header_size) = (of_nat net_header_size, take 5 bs)"
    using H(2) assms(3,4) by simp
  have fl: "h_len (net_header_of (take 5 bs)) = frame_len bs" by (simp add: frame_len_def)
  have z: "frame_len bs \<noteq> 0" using assms(5) by auto
  show ?thesis using P z le assms(3,5,6) by (simp add: Let_def fl H(3,4))
qed

theorem oversized_message_is_stuck_witness:
  "recv_loop chat_callbacks 1 0 (received 0 [119, 208, 7, 0, 0] sample_state) =
     Some (received 0 [119, 208, 7, 0, 0] sample_state)"
proof -
  let ?d = "[119, 208, 7, 0, 0] :: bytes" and ?st = "received 0 [119, 208, 7, 0, 0] sample_state"
  have srv: "chat_srv.srv_inv no_ctx sample_state" using sample_reach by (simp add: chat_srv.srv_inv_def)
  have ok: "event_ok sample_state (Ev_recv 0 ?d None)"
    using sample_recv recv_segments_total[OF sample_recv(4)] by simp
  have E: "rb_list (s_recv_buffer (sess ?st 0)) = ?d" "chat_srv.srv_inv (recv_own 0 (pin 0 no_ctx)) ?st" "0 < n_maxSession ?st"
    using chat_srv.recv_event_stream(2-4)[OF srv ok] sample_recv(2,3) by simp_all
  note B = net_bufs(3,4)[OF chat_srv.srv_net[OF E(2)] E(3)]
  have len: "unat (frame_len ?d) = 2000" by code_simp
  show ?thesis
    using oversized_message_is_stuck[OF B E(1), of chat_callbacks 0] len by simp
qed

end
