(* ===== verification/LfStack.thy ===== *)
theory LfStack
  imports PoolSpec "HOL-Library.Multiset"
begin

text \<open>
  \<^verbatim>\<open>LockFreePool.h\<close> and \<^verbatim>\<open>LockFreeStack.h\<close>, instruction by instruction: every step of a thread is one
  access to shared memory (a read, a write to a node, a compare-and-swap, an interlocked counter),
  and a schedule says which thread makes the next step. A pointer to the top of a list carries a
  counter of its changes in the upper 17 bits.

  The nodes of the stack are the \<^verbatim>\<open>data\<close> members of the pool's blocks, eight bytes behind the
  start of the block.
\<close>

unbundle bit_operations_syntax

subsection \<open>Tagged pointers\<close>

definition dfADDRESS_MASK :: u64 where "dfADDRESS_MASK = 0x00007fffffffffff"
definition dfADDRESS_BIT :: nat where "dfADDRESS_BIT = 47"

definition addr_of :: "u64 \<Rightarrow> u64" where
  "addr_of p = p AND dfADDRESS_MASK"

definition next_cnt :: "u64 \<Rightarrow> u64" where
  "next_cnt p = drop_bit dfADDRESS_BIT p + 1"

definition tagged :: "u64 \<Rightarrow> u64 \<Rightarrow> u64" where
  "tagged node cnt = node OR push_bit dfADDRESS_BIT cnt"

definition node_offset :: u64 where "node_offset = 8"  \<comment> \<open>\<^verbatim>\<open>alignof(Node)\<close>, the offset of \<^verbatim>\<open>data\<close>\<close>

subsection \<open>State\<close>

text \<open>
  The members of the pool and of the stack, the memory of the blocks (\<open>b_next\<close> by the address of a
  block, \<open>n_next\<close> and \<open>n_data\<close> by the address of a node) and the number of blocks allocated so far.
  The last four fields are for the proofs: no step reads them. \<open>p_ver\<close> and \<open>s_ver\<close> count the changes of the two tops,
  \<open>lin\<close> lists the operations in the order they take effect, \<open>res\<close> in the order they return.
\<close>

datatype 'a result = Pushed 'a | Push_failed 'a | Popped 'a | Pop_empty

record 'a lfstack =
  p_top :: u64
  p_useCount :: u32
  p_capacity :: u32
  p_freeList :: bool
  s_top :: u64
  s_size :: u64
  b_next :: "u64 \<Rightarrow> u64"
  n_next :: "u64 \<Rightarrow> u64"
  n_data :: "u64 \<Rightarrow> 'a"
  mallocs :: nat
  p_ver :: nat
  s_ver :: nat
  lin :: "(tid \<times> 'a result) list"
  res :: "(tid \<times> 'a result) list"

text \<open>
  Where a thread is. The local variables are arguments: \<open>x\<close> the value to push, \<open>old\<close> the top as
  read, the node or block in hand. The last argument of a position with \<open>old\<close> is the change count at
  the read, and that of \<open>Pop_size\<close> and \<open>Pop_data\<close> the value that was popped; both are for the proofs.
\<close>

datatype 'a pc =
    Idle
  | Alloc_top 'a
  | Alloc_grow 'a
  | Alloc_malloc 'a
  | Alloc_next 'a u64 nat
  | Alloc_cas 'a u64 u64 nat
  | Alloc_use 'a u64
  | Push_data 'a u64
  | Push_top 'a u64
  | Push_link 'a u64 u64 nat
  | Push_cas 'a u64 u64 nat
  | Push_size 'a
  | Pop_top
  | Pop_next u64 nat
  | Pop_cas u64 u64 nat
  | Pop_size u64 'a
  | Pop_data u64 'a
  | Free_top 'a u64
  | Free_link 'a u64 u64 nat
  | Free_cas 'a u64 u64 nat
  | Free_use 'a

definition linearize :: "tid \<Rightarrow> 'a result \<Rightarrow> 'a lfstack \<Rightarrow> 'a lfstack" where
  "linearize t r st = st\<lparr>lin := lin st @ [(t, r)]\<rparr>"

definition return :: "tid \<Rightarrow> 'a result \<Rightarrow> 'a lfstack \<Rightarrow> 'a lfstack" where
  "return t r st = st\<lparr>res := res st @ [(t, r)]\<rparr>"

subsection \<open>Operations\<close>

text \<open>\<open>malloc k\<close> is the address of the \<open>k\<close>-th block from the allocator.\<close>

fun LockFreePool_Alloc :: "(nat \<Rightarrow> u64) \<Rightarrow> tid \<Rightarrow> 'a pc \<Rightarrow> 'a lfstack \<Rightarrow> 'a pc \<times> 'a lfstack" where
  "LockFreePool_Alloc malloc t (Alloc_top x) st =
     (if addr_of (p_top st) = 0 then
        if p_freeList st then (Alloc_grow x, st)
        else (Idle, return t (Push_failed x) (linearize t (Push_failed x) st))
      else (Alloc_next x (p_top st) (p_ver st), st))"
| "LockFreePool_Alloc malloc t (Alloc_grow x) st = (Alloc_malloc x, st\<lparr>p_capacity := p_capacity st + 1\<rparr>)"
| "LockFreePool_Alloc malloc t (Alloc_malloc x) st =
     (let node = malloc (mallocs st)
      in (Alloc_use x node, st\<lparr>mallocs := mallocs st + 1, b_next := (b_next st)(node := 0)\<rparr>))"
| "LockFreePool_Alloc malloc t (Alloc_next x old v) st = (Alloc_cas x old (b_next st (addr_of old)) v, st)"
| "LockFreePool_Alloc malloc t (Alloc_cas x old next v) st =
     (if p_top st = old then (Alloc_use x (addr_of old), st\<lparr>p_top := tagged next (next_cnt old), p_ver := p_ver st + 1\<rparr>)
      else (Alloc_top x, st))"
| "LockFreePool_Alloc malloc t (Alloc_use x block) st =
     (Push_data x (block + node_offset), st\<lparr>p_useCount := p_useCount st + 1\<rparr>)"
| "LockFreePool_Alloc malloc t p st = (p, st)"

fun LockFreePool_Free :: "tid \<Rightarrow> 'a pc \<Rightarrow> 'a lfstack \<Rightarrow> 'a pc \<times> 'a lfstack" where
  "LockFreePool_Free t (Free_top d node) st = (Free_link d node (p_top st) (p_ver st), st)"
| "LockFreePool_Free t (Free_link d node old v) st =
     (Free_cas d node old v, st\<lparr>b_next := (b_next st)(node := addr_of old)\<rparr>)"
| "LockFreePool_Free t (Free_cas d node old v) st =
     (if p_top st = old then (Free_use d, st\<lparr>p_top := tagged node (next_cnt old), p_ver := p_ver st + 1\<rparr>)
      else (Free_top d node, st))"
| "LockFreePool_Free t (Free_use d) st = (Idle, return t (Popped d) (st\<lparr>p_useCount := p_useCount st - 1\<rparr>))"
| "LockFreePool_Free t p st = (p, st)"

fun LockFreeStack_Push :: "tid \<Rightarrow> 'a pc \<Rightarrow> 'a lfstack \<Rightarrow> 'a pc \<times> 'a lfstack" where
  "LockFreeStack_Push t (Push_data x node) st = (Push_top x node, st\<lparr>n_data := (n_data st)(node := x)\<rparr>)"
| "LockFreeStack_Push t (Push_top x node) st = (Push_link x node (s_top st) (s_ver st), st)"
| "LockFreeStack_Push t (Push_link x node old v) st =
     (Push_cas x node old v, st\<lparr>n_next := (n_next st)(node := addr_of old)\<rparr>)"
| "LockFreeStack_Push t (Push_cas x node old v) st =
     (if s_top st = old then
        (Push_size x, linearize t (Pushed x) (st\<lparr>s_top := tagged node (next_cnt old), s_ver := s_ver st + 1\<rparr>))
      else (Push_top x node, st))"
| "LockFreeStack_Push t (Push_size x) st = (Idle, return t (Pushed x) (st\<lparr>s_size := s_size st + 1\<rparr>))"
| "LockFreeStack_Push t p st = (p, st)"

fun LockFreeStack_Pop :: "tid \<Rightarrow> 'a pc \<Rightarrow> 'a lfstack \<Rightarrow> 'a pc \<times> 'a lfstack" where
  "LockFreeStack_Pop t Pop_top st =
     (if addr_of (s_top st) = 0 then (Idle, return t Pop_empty (linearize t Pop_empty st))
      else (Pop_next (s_top st) (s_ver st), st))"
| "LockFreeStack_Pop t (Pop_next old v) st = (Pop_cas old (n_next st (addr_of old)) v, st)"
| "LockFreeStack_Pop t (Pop_cas old next v) st =
     (if s_top st = old then
        (Pop_size (addr_of old) (n_data st (addr_of old)),
         linearize t (Popped (n_data st (addr_of old)))
           (st\<lparr>s_top := tagged next (next_cnt old), s_ver := s_ver st + 1\<rparr>))
      else (Pop_top, st))"
| "LockFreeStack_Pop t (Pop_size node v) st = (Pop_data node v, st\<lparr>s_size := s_size st - 1\<rparr>)"
| "LockFreeStack_Pop t (Pop_data node v) st = (Free_top (n_data st node) (node - node_offset), st)"
| "LockFreeStack_Pop t p st = (p, st)"

definition lf_step :: "(nat \<Rightarrow> u64) \<Rightarrow> tid \<Rightarrow> 'a pc \<Rightarrow> 'a lfstack \<Rightarrow> 'a pc \<times> 'a lfstack" where
  "lf_step malloc t p st =
     (case p of
        Idle \<Rightarrow> (p, st)
      | Alloc_top _ \<Rightarrow> LockFreePool_Alloc malloc t p st
      | Alloc_grow _ \<Rightarrow> LockFreePool_Alloc malloc t p st
      | Alloc_malloc _ \<Rightarrow> LockFreePool_Alloc malloc t p st
      | Alloc_next _ _ _ \<Rightarrow> LockFreePool_Alloc malloc t p st
      | Alloc_cas _ _ _ _ \<Rightarrow> LockFreePool_Alloc malloc t p st
      | Alloc_use _ _ \<Rightarrow> LockFreePool_Alloc malloc t p st
      | Push_data _ _ \<Rightarrow> LockFreeStack_Push t p st
      | Push_top _ _ \<Rightarrow> LockFreeStack_Push t p st
      | Push_link _ _ _ _ \<Rightarrow> LockFreeStack_Push t p st
      | Push_cas _ _ _ _ \<Rightarrow> LockFreeStack_Push t p st
      | Push_size _ \<Rightarrow> LockFreeStack_Push t p st
      | Pop_top \<Rightarrow> LockFreeStack_Pop t p st
      | Pop_next _ _ \<Rightarrow> LockFreeStack_Pop t p st
      | Pop_cas _ _ _ \<Rightarrow> LockFreeStack_Pop t p st
      | Pop_size _ _ \<Rightarrow> LockFreeStack_Pop t p st
      | Pop_data _ _ \<Rightarrow> LockFreeStack_Pop t p st
      | _ \<Rightarrow> LockFreePool_Free t p st)"

subsection \<open>Schedules\<close>

text \<open>
  The calls and steps of all threads; every schedule is run as it is. The tag of a top has 17 bits and comes
  round after \<open>2 ^ 17\<close> changes, and then a compare-and-swap can succeed on a top that only looks the same.
  \<open>lf_timely\<close> says of a schedule that this does not happen along its run: no thread is held up for
  \<open>2 ^ 17\<close> changes of a top between its read of it and its compare-and-swap. It is a hypothesis of the theorems that
  need it.
\<close>

datatype 'a call = Push 'a | Pop

datatype 'a action = Start tid "'a call" | Step tid

fun call_pc :: "'a call \<Rightarrow> 'a pc" where
  "call_pc (Push x) = Alloc_top x"
| "call_pc Pop = Pop_top"

definition in_time :: "nat \<Rightarrow> nat \<Rightarrow> bool" where
  "in_time now before \<longleftrightarrow> int now - int before < 2 ^ 17"

fun timely :: "'a pc \<Rightarrow> 'a lfstack \<Rightarrow> bool" where
  "timely (Alloc_cas x old next v) st \<longleftrightarrow> in_time (p_ver st) v"
| "timely (Free_cas d node old v) st \<longleftrightarrow> in_time (p_ver st) v"
| "timely (Push_cas x node old v) st \<longleftrightarrow> in_time (s_ver st) v"
| "timely (Pop_cas old next v) st \<longleftrightarrow> in_time (s_ver st) v"
| "timely p st \<longleftrightarrow> True"

type_synonym 'a lfconfig = "'a pc list \<times> 'a lfstack"

fun lf_act :: "(nat \<Rightarrow> u64) \<Rightarrow> 'a action \<Rightarrow> 'a lfconfig \<Rightarrow> 'a lfconfig" where
  "lf_act malloc (Start t c) (ps, st) =
     (if t < length ps \<and> ps ! t = Idle then (ps[t := call_pc c], st) else (ps, st))"
| "lf_act malloc (Step t) (ps, st) =
     (if t < length ps then
        (let (p, st) = lf_step malloc t (ps ! t) st in (ps[t := p], st))
      else (ps, st))"

fun lf_run :: "(nat \<Rightarrow> u64) \<Rightarrow> 'a action list \<Rightarrow> 'a lfconfig \<Rightarrow> 'a lfconfig" where
  "lf_run malloc [] c = c"
| "lf_run malloc (a # as) c = lf_run malloc as (lf_act malloc a c)"

fun in_time_action :: "'a action \<Rightarrow> 'a lfconfig \<Rightarrow> bool" where
  "in_time_action (Start t c) (ps, st) \<longleftrightarrow> True"
| "in_time_action (Step t) (ps, st) \<longleftrightarrow> t < length ps \<longrightarrow> timely (ps ! t) st"

fun lf_timely :: "(nat \<Rightarrow> u64) \<Rightarrow> 'a action list \<Rightarrow> 'a lfconfig \<Rightarrow> bool" where
  "lf_timely malloc [] c \<longleftrightarrow> True"
| "lf_timely malloc (a # as) c \<longleftrightarrow> in_time_action a c \<and> lf_timely malloc as (lf_act malloc a c)"

subsection \<open>Construction\<close>

fun LockFreePool_fill :: "(nat \<Rightarrow> u64) \<Rightarrow> nat \<Rightarrow> 'a lfstack \<Rightarrow> 'a lfstack" where
  "LockFreePool_fill malloc 0 st = st"
| "LockFreePool_fill malloc (Suc n) st =
     (let temp = malloc (mallocs st)
      in LockFreePool_fill malloc n (st\<lparr>mallocs := mallocs st + 1, b_next := (b_next st)(temp := p_top st), p_top := temp\<rparr>))"

text \<open>\<open>b0\<close>, \<open>n0\<close> and \<open>d0\<close> are the contents of memory that has not been written.\<close>

definition LockFreeStack_ctor ::
  "(nat \<Rightarrow> u64) \<Rightarrow> (u64 \<Rightarrow> u64) \<Rightarrow> (u64 \<Rightarrow> u64) \<Rightarrow> (u64 \<Rightarrow> 'a) \<Rightarrow> nat \<Rightarrow> bool \<Rightarrow> 'a lfstack" where
  "LockFreeStack_ctor malloc b0 n0 d0 capacity freeList =
     LockFreePool_fill malloc capacity
       \<lparr>p_top = 0, p_useCount = 0, p_capacity = of_nat capacity, p_freeList = freeList, s_top = 0, s_size = 0,
        b_next = b0, n_next = n0, n_data = d0, mallocs = 0, p_ver = 0, s_ver = 0, lin = [], res = []\<rparr>"

definition LockFreeStack_GetSize :: "'a lfstack \<Rightarrow> u64" where
  "LockFreeStack_GetSize st = s_size st"

definition LockFreePool_GetUseCount :: "'a lfstack \<Rightarrow> u32" where
  "LockFreePool_GetUseCount st = p_useCount st"

definition LockFreePool_GetCapacity :: "'a lfstack \<Rightarrow> u32" where
  "LockFreePool_GetCapacity st = p_capacity st"

end
