(* ===== verification/Interleave.thy ===== *)
theory Interleave
  imports Main
begin

text \<open>
  Lemmas for models with one position per thread: a step of thread \<open>t\<close> replaces one element of the list
  of positions, so sums and sets over the threads split into the part of \<open>t\<close> and the part of the
  others.
\<close>

definition other_threads :: "nat \<Rightarrow> 'b list \<Rightarrow> 'b list" where
  "other_threads t ps = take t ps @ drop (Suc t) ps"

lemma set_split: "t < length ps \<Longrightarrow> set ps = insert (ps ! t) (set (other_threads t ps))"
  using arg_cong[OF id_take_nth_drop[of t ps], of set] by (simp add: other_threads_def)

lemma other_threads_update: "t < length ps \<Longrightarrow> other_threads t (ps[t := p]) = other_threads t ps"
  by (simp add: other_threads_def)

lemma sum_list_split:
  fixes f :: "'b \<Rightarrow> 'c::comm_monoid_add"
  assumes "t < length ps"
  shows "sum_list (map f ps) = f (ps ! t) + sum_list (map f (other_threads t ps))"
  using arg_cong[OF id_take_nth_drop[OF assms], of "\<lambda>xs. sum_list (map f xs)"] by (simp add: other_threads_def ac_simps)

lemma sum_list_split_update:
  fixes f :: "'b \<Rightarrow> 'c::comm_monoid_add"
  assumes "t < length ps"
  shows "sum_list (map f (ps[t := p])) = f p + sum_list (map f (other_threads t ps))"
  using sum_list_split[of t "ps[t := p]" f] assms by (simp add: other_threads_update)

lemma set_split_update: "t < length ps \<Longrightarrow> set (ps[t := p]) = insert p (set (other_threads t ps))"
  using set_split[of t "ps[t := p]"] by (simp add: other_threads_update)

lemma sum_list_all_zero:
  fixes f :: "'b \<Rightarrow> 'c::comm_monoid_add"
  assumes "\<And>p. p \<in> set ps \<Longrightarrow> f p = 0"
  shows "sum_list (map f ps) = 0"
  using assms by (induction ps) auto

end
