(* ===== verification/LfStackSafe.thy ===== *)
theory LfStackSafe
  imports LfStack Interleave
begin

text \<open>
  The lock-free stack is linearizable: with any number of threads and any schedule the operations behave as if
  each took effect at once at one point between its call and its return, and no two threads ever
  hold the same node. The invariant says that every block is in exactly one place (the pool, the stack or one
  thread's hands) and that what a thread has read of a head is still true if the head's counter has not moved.
\<close>

subsection \<open>Words\<close>

lemma mask_47: "dfADDRESS_MASK = mask 47"
  by (simp add: dfADDRESS_MASK_def mask_eq_exp_minus_1)

lemma addr_of_take: "addr_of p = take_bit 47 p"
  by (simp add: addr_of_def mask_47 take_bit_eq_mask)

lemma addr_of_small: "unat p < 2 ^ 47 \<Longrightarrow> addr_of p = p"
  by (simp add: addr_of_take word_unat_eq_iff unsigned_take_bit_eq take_bit_nat_eq_self)

lemma addr_of_less: "unat (addr_of p) < 2 ^ 47"
  unfolding addr_of_take unsigned_take_bit_eq by (rule take_bit_nat_less_exp)

lemma take_bit_push_bit_0: "take_bit n (push_bit n (x :: u64)) = 0"
  by (simp add: take_bit_push_bit)

lemma addr_of_tagged:
  assumes "unat p < 2 ^ 47"
  shows "addr_of (tagged p c) = p"
  using addr_of_small[OF assms]
  by (simp add: addr_of_take tagged_def dfADDRESS_BIT_def take_bit_or take_bit_push_bit_0)

definition tag_of :: "u64 \<Rightarrow> nat" where
  "tag_of p = unat (drop_bit 47 p)"

lemma drop_bit_small: "unat (p :: u64) < 2 ^ 47 \<Longrightarrow> drop_bit 47 p = 0"
  by (simp add: word_unat_eq_iff drop_bit_eq_div unat_div)

lemma tag_of_tagged:
  assumes "unat p < 2 ^ 47"
  shows "tag_of (tagged p c) = unat c mod 2 ^ 17"
proof -
  have "drop_bit 47 (tagged p c) = drop_bit 47 (push_bit 47 c)"
    using drop_bit_small[OF assms] by (simp add: tagged_def dfADDRESS_BIT_def drop_bit_or)
  also have "\<dots> = take_bit 17 c"
    by (rule bit_word_eqI) (auto simp: bit_simps)
  finally show ?thesis unfolding tag_of_def by (simp only: unsigned_take_bit_eq) (simp add: take_bit_eq_mod)
qed

lemma tag_of_less: "tag_of p < 2 ^ 17"
proof -
  have "unat p < 2 ^ 64" using unsigned_less[of p] by simp
  then show ?thesis by (simp add: tag_of_def drop_bit_eq_div unat_div)
qed

lemma tag_next:
  assumes "unat p < 2 ^ 47" and "tag_of old = v mod 2 ^ 17"
  shows "tag_of (tagged p (next_cnt old)) = Suc v mod 2 ^ 17"
proof -
  have "unat (next_cnt old) = tag_of old + 1"
    using tag_of_less[of old] unfolding next_cnt_def tag_of_def dfADDRESS_BIT_def
    by (subst unat_add_small) simp_all
  then show ?thesis using assms by (simp add: tag_of_tagged mod_Suc_eq)
qed

subsection \<open>Linked lists\<close>

fun chain :: "(u64 \<Rightarrow> u64) \<Rightarrow> u64 \<Rightarrow> u64 list \<Rightarrow> bool" where
  "chain nx a [] \<longleftrightarrow> a = 0"
| "chain nx a (x # xs) \<longleftrightarrow> a = x \<and> x \<noteq> 0 \<and> unat x < 2 ^ 47 \<and> chain nx (nx x) xs"

lemma chain_write: "a \<notin> set xs \<Longrightarrow> chain (nx(a := b)) c xs = chain nx c xs"
  by (induction xs arbitrary: c) auto

lemma chain_small: "chain nx a xs \<Longrightarrow> unat a < 2 ^ 47"
  by (cases xs) auto

definition top_ok :: "(u64 \<Rightarrow> u64) \<Rightarrow> u64 \<Rightarrow> nat \<Rightarrow> u64 list \<Rightarrow> bool" where
  "top_ok nx head v xs \<longleftrightarrow> tag_of head = v mod 2 ^ 17 \<and> chain nx (addr_of head) xs"

lemma top_ok_write: "top_ok nx head v xs \<Longrightarrow> a \<notin> set xs \<Longrightarrow> top_ok (nx(a := b)) head v xs"
  by (metis top_ok_def chain_write)

lemma top_ok_push:
  assumes "top_ok nx head v xs" and "nx a = addr_of head" and "a \<noteq> 0" and "unat a < 2 ^ 47"
  shows "top_ok nx (tagged a (next_cnt head)) (Suc v) (a # xs)"
  using assms by (simp add: top_ok_def addr_of_tagged tag_next)

lemma top_ok_pop:
  assumes "top_ok nx head v xs" and "addr_of head \<noteq> 0"
  obtains ys where "xs = addr_of head # ys" "top_ok nx (tagged (nx (addr_of head)) (next_cnt head)) (Suc v) ys"
proof (cases xs)
  case Nil
  then show ?thesis using assms by (simp add: top_ok_def)
next
  case (Cons x ys)
  then have c: "chain nx (nx x) ys" "x = addr_of head" using assms by (auto simp: top_ok_def)
  note s = chain_small[OF c(1)]
  show ?thesis
    by (rule that[of ys]) (use Cons c assms(1) s in \<open>simp_all add: top_ok_def addr_of_tagged tag_next\<close>)
qed

subsection \<open>What a thread has read\<close>

definition seen :: "u64 \<Rightarrow> nat \<Rightarrow> u64 \<Rightarrow> nat \<Rightarrow> bool" where
  "seen head v old w \<longleftrightarrow> w \<le> v \<and> tag_of old = w mod 2 ^ 17 \<and> (w = v \<longrightarrow> old = head)"

lemma seen_now: "top_ok nx head v xs \<Longrightarrow> seen head v head v"
  by (simp add: seen_def top_ok_def)

lemma seen_stable: "seen head v old w \<Longrightarrow> v \<le> v' \<Longrightarrow> (v' = v \<Longrightarrow> head' = head) \<Longrightarrow> seen head' v' old w"
  by (auto simp: seen_def)

text \<open>A compare-and-swap that succeeds in time has seen no change.\<close>

lemma seen_cas:
  assumes "top_ok nx head v xs" and "seen head v head w" and "in_time v w"
  shows "w = v"
proof -
  have "v mod 2 ^ 17 = w mod 2 ^ 17" "w \<le> v" using assms by (simp_all add: top_ok_def seen_def)
  then have "(2 :: nat) ^ 17 dvd v - w" by (simp add: mod_eq_dvd_iff_nat)
  moreover have "v - w < 2 ^ 17" using assms(3) \<open>w \<le> v\<close> by (simp add: in_time_def)
  ultimately show ?thesis using \<open>w \<le> v\<close> by (auto dest: dvd_imp_le)
qed

subsection \<open>The invariant\<close>

text \<open>The block in a thread's hands.\<close>

fun own :: "'a pc \<Rightarrow> u64 multiset" where
  "own (Alloc_use x block) = {#block#}"
| "own (Push_data x node) = {#node - node_offset#}"
| "own (Push_top x node) = {#node - node_offset#}"
| "own (Push_link x node old v) = {#node - node_offset#}"
| "own (Push_cas x node old v) = {#node - node_offset#}"
| "own (Pop_size node d) = {#node - node_offset#}"
| "own (Pop_data node d) = {#node - node_offset#}"
| "own (Free_top d block) = {#block#}"
| "own (Free_link d block old v) = {#block#}"
| "own (Free_cas d block old v) = {#block#}"
| "own p = {#}"

text \<open>What holds at each position.\<close>

fun pc_ok :: "'a lfstack \<Rightarrow> 'a pc \<Rightarrow> bool" where
  "pc_ok st (Alloc_next x old v) \<longleftrightarrow> seen (p_top st) (p_ver st) old v \<and> addr_of old \<noteq> 0"
| "pc_ok st (Alloc_cas x old nx v) \<longleftrightarrow> seen (p_top st) (p_ver st) old v \<and> addr_of old \<noteq> 0 \<and>
     (v = p_ver st \<longrightarrow> nx = b_next st (addr_of (p_top st)))"
| "pc_ok st (Push_top x node) \<longleftrightarrow> n_data st node = x"
| "pc_ok st (Push_link x node old v) \<longleftrightarrow> n_data st node = x \<and> seen (s_top st) (s_ver st) old v"
| "pc_ok st (Push_cas x node old v) \<longleftrightarrow> n_data st node = x \<and> seen (s_top st) (s_ver st) old v \<and>
     n_next st node = addr_of old"
| "pc_ok st (Pop_next old v) \<longleftrightarrow> seen (s_top st) (s_ver st) old v \<and> addr_of old \<noteq> 0"
| "pc_ok st (Pop_cas old nx v) \<longleftrightarrow> seen (s_top st) (s_ver st) old v \<and> addr_of old \<noteq> 0 \<and>
     (v = s_ver st \<longrightarrow> nx = n_next st (addr_of (s_top st)))"
| "pc_ok st (Pop_size node d) \<longleftrightarrow> n_data st node = d"
| "pc_ok st (Pop_data node d) \<longleftrightarrow> n_data st node = d"
| "pc_ok st (Free_link d block old v) \<longleftrightarrow> seen (p_top st) (p_ver st) old v"
| "pc_ok st (Free_cas d block old v) \<longleftrightarrow> seen (p_top st) (p_ver st) old v \<and> b_next st block = addr_of old"
| "pc_ok st p \<longleftrightarrow> True"

text \<open>An operation that has taken effect and not returned.\<close>

fun pending :: "'a pc \<Rightarrow> 'a result list" where
  "pending (Push_size x) = [Pushed x]"
| "pending (Pop_size node d) = [Popped d]"
| "pending (Pop_data node d) = [Popped d]"
| "pending (Free_top d block) = [Popped d]"
| "pending (Free_link d block old v) = [Popped d]"
| "pending (Free_cas d block old v) = [Popped d]"
| "pending (Free_use d) = [Popped d]"
| "pending p = []"

text \<open>What a thread still has to add to the size, the use count and the capacity.\<close>

fun due_size :: "'a pc \<Rightarrow> u64" where
  "due_size (Push_size x) = 1"
| "due_size (Pop_size node d) = - 1"
| "due_size p = 0"

fun due_use :: "'a pc \<Rightarrow> u32" where
  "due_use (Push_data x node) = - 1"
| "due_use (Push_top x node) = - 1"
| "due_use (Push_link x node old v) = - 1"
| "due_use (Push_cas x node old v) = - 1"
| "due_use (Pop_size node d) = - 1"
| "due_use (Pop_data node d) = - 1"
| "due_use (Free_top d block) = - 1"
| "due_use (Free_link d block old v) = - 1"
| "due_use (Free_cas d block old v) = - 1"
| "due_use (Free_use d) = - 1"
| "due_use p = 0"

fun due_capacity :: "'a pc \<Rightarrow> u32" where
  "due_capacity (Alloc_malloc x) = - 1"
| "due_capacity p = 0"

text \<open>The sequential stack, and the effect of a list of operations.\<close>

fun stack_spec :: "'a result \<Rightarrow> 'a list \<Rightarrow> 'a list option" where
  "stack_spec (Pushed x) xs = Some (x # xs)"
| "stack_spec (Push_failed x) xs = Some xs"
| "stack_spec (Popped x) [] = None"
| "stack_spec (Popped x) (y # xs) = (if x = y then Some xs else None)"
| "stack_spec Pop_empty xs = (if xs = [] then Some [] else None)"

fun replay :: "(tid \<times> 'a result) list \<Rightarrow> 'a list \<Rightarrow> 'a list option" where
  "replay [] xs = Some xs"
| "replay ((t, r) # rs) xs = Option.bind (stack_spec r xs) (replay rs)"

lemma replay_append: "replay (rs @ qs) xs = Option.bind (replay rs xs) (replay qs)"
proof (induction rs arbitrary: xs)
  case (Cons r rs)
  then show ?case by (cases r; cases "stack_spec (snd r) xs") auto
qed simp

definition of_thread :: "tid \<Rightarrow> (tid \<times> 'b) list \<Rightarrow> 'b list" where
  "of_thread t rs = map snd (filter (\<lambda>r. fst r = t) rs)"

lemma of_thread_simps [simp]:
  "of_thread t [] = []" "of_thread t (rs @ qs) = of_thread t rs @ of_thread t qs"
  "of_thread t [(u, r)] = (if u = t then [r] else [])"
  by (simp_all add: of_thread_def)

text \<open>The invariant, seen from thread \<open>t\<close> at position \<open>p\<close>; \<open>ps\<close> are the positions of the other threads,
  \<open>fl\<close> the free blocks, \<open>sl\<close> the nodes of the stack.\<close>

definition shared_ok :: "(nat \<Rightarrow> u64) \<Rightarrow> u64 list \<Rightarrow> u64 list \<Rightarrow> 'a pc \<Rightarrow> 'a pc list \<Rightarrow> 'a lfstack \<Rightarrow> bool" where
  "shared_ok malloc fl sl p ps st \<longleftrightarrow>
     top_ok (b_next st) (p_top st) (p_ver st) fl \<and> top_ok (n_next st) (s_top st) (s_ver st) sl \<and>
     own p + sum_list (map own ps) + mset fl + mset (map (\<lambda>n. n - node_offset) sl) = mset (map malloc [0..<mallocs st]) \<and>
     replay (lin st) [] = Some (map (n_data st) sl)"

definition counts_ok :: "u64 list \<Rightarrow> 'a pc \<Rightarrow> 'a pc list \<Rightarrow> 'a lfstack \<Rightarrow> bool" where
  "counts_ok sl p ps st \<longleftrightarrow>
     s_size st + (due_size p + sum_list (map due_size ps)) = of_nat (length sl) \<and>
     p_useCount st + (due_use p + sum_list (map due_use ps)) = of_nat (length sl) \<and>
     p_capacity st + (due_capacity p + sum_list (map due_capacity ps)) = of_nat (mallocs st)"

definition malloc_ok :: "(nat \<Rightarrow> u64) \<Rightarrow> nat \<Rightarrow> bool" where
  "malloc_ok malloc n \<longleftrightarrow> inj_on malloc {..<n} \<and> (\<forall>k < n. malloc k \<noteq> 0 \<and> unat (malloc k) + 8 < 2 ^ 47)"

lemma pc_ok_stable:
  assumes "pc_ok st q" and "p_ver st \<le> p_ver st'" and "s_ver st \<le> s_ver st'"
    and "p_ver st' = p_ver st \<Longrightarrow> p_top st' = p_top st \<and>
      (addr_of (p_top st) \<noteq> 0 \<longrightarrow> b_next st' (addr_of (p_top st)) = b_next st (addr_of (p_top st)))"
    and "s_ver st' = s_ver st \<Longrightarrow> s_top st' = s_top st \<and>
      (addr_of (s_top st) \<noteq> 0 \<longrightarrow> n_next st' (addr_of (s_top st)) = n_next st (addr_of (s_top st)))"
    and "\<And>b. b \<in># own q \<Longrightarrow> b_next st' b = b_next st b \<and> n_next st' (b + node_offset) = n_next st (b + node_offset) \<and>
      n_data st' (b + node_offset) = n_data st (b + node_offset)"
  shows "pc_ok st' q"
proof -
  have P: "seen (p_top st') (p_ver st') old w" if "seen (p_top st) (p_ver st) old w" for old w
    using seen_stable[OF that assms(2)] assms(4) by blast
  have S: "seen (s_top st') (s_ver st') old w" if "seen (s_top st) (s_ver st) old w" for old w
    using seen_stable[OF that assms(3)] assms(5) by blast
  show ?thesis
  proof (cases q)
    case (Alloc_cas x old nx w)
    then have A: "seen (p_top st) (p_ver st) old w" "addr_of old \<noteq> 0" "w = p_ver st \<Longrightarrow> nx = b_next st (addr_of (p_top st))"
      using assms(1) by auto
    have "nx = b_next st' (addr_of (p_top st'))" if "w = p_ver st'"
    proof -
      have v: "p_ver st' = p_ver st" using A(1) that assms(2) by (simp add: seen_def)
      then have "old = p_top st" using A(1) that by (simp add: seen_def)
      then show ?thesis using A(2,3) assms(4)[OF v] v that by simp
    qed
    then show ?thesis using Alloc_cas A P by simp
  next
    case (Pop_cas old nx w)
    then have A: "seen (s_top st) (s_ver st) old w" "addr_of old \<noteq> 0" "w = s_ver st \<Longrightarrow> nx = n_next st (addr_of (s_top st))"
      using assms(1) by auto
    have "nx = n_next st' (addr_of (s_top st'))" if "w = s_ver st'"
    proof -
      have v: "s_ver st' = s_ver st" using A(1) that assms(3) by (simp add: seen_def)
      then have "old = s_top st" using A(1) that by (simp add: seen_def)
      then show ?thesis using A(2,3) assms(5)[OF v] v that by simp
    qed
    then show ?thesis using Pop_cas A S by simp
  qed (use assms(1,6) P S in auto)
qed

subsection \<open>Places\<close>

lemma malloc_list: "malloc_ok malloc n \<Longrightarrow> distinct (map malloc [0..<n])"
  by (auto simp: malloc_ok_def distinct_map lessThan_atLeast0)

lemma malloc_distinct:
  assumes "malloc_ok malloc n"
  shows "count (mset (map malloc [0..<n])) a \<le> 1"
    and "a \<in># mset (map malloc [0..<n]) \<Longrightarrow> a \<noteq> 0 \<and> unat a + 8 < 2 ^ 47"
proof -
  show "count (mset (map malloc [0..<n])) a \<le> 1" using malloc_list[OF assms] by (simp add: distinct_count_atmost_1)
  show "a \<in># mset (map malloc [0..<n]) \<Longrightarrow> a \<noteq> 0 \<and> unat a + 8 < 2 ^ 47"
    using assms by (auto simp: malloc_ok_def)
qed

lemma held:
  assumes "shared_ok malloc fl sl p ps st" and "malloc_ok malloc (mallocs st)" and "b \<in># own p"
  shows "b \<notin> set fl" and "q \<in> set ps \<Longrightarrow> b \<notin># own q" and "b + node_offset \<notin> set sl"
    and "b \<noteq> 0" and "b + node_offset \<noteq> 0" and "unat b < 2 ^ 47" and "unat (b + node_offset) < 2 ^ 47"
proof -
  let ?F = "mset fl" and ?S = "mset (map (\<lambda>n. n - node_offset) sl)" and ?O = "sum_list (map own ps)"
  note D = malloc_distinct[OF assms(2)]
  have M: "own p + ?O + ?F + ?S = mset (map malloc [0..<mallocs st])" using assms(1) by (simp add: shared_ok_def)
  have c: "count (own p) b + count ?O b + count ?F b + count ?S b \<le> 1" using D(1)[of b] unfolding M[symmetric] by simp
  moreover have "count (own p) b > 0" using assms(3) by simp
  ultimately have z: "count ?O b = 0" "count ?F b = 0" "count ?S b = 0" by linarith+
  show "b \<notin> set fl" using z(2) by (simp add: count_eq_zero_iff)
  show "b + node_offset \<notin> set sl"
  proof
    assume "b + node_offset \<in> set sl"
    then have "b \<in># ?S" by (force simp: image_iff)
    then show False using z(3) by (simp add: count_eq_zero_iff)
  qed
  show "b \<notin># own q" if "q \<in> set ps"
  proof
    assume "b \<in># own q"
    then have "b \<in># ?O" using that by (induction ps) auto
    then show False using z(1) by (simp add: count_eq_zero_iff)
  qed
  have "b \<in># mset (map malloc [0..<mallocs st])" using assms(3) unfolding M[symmetric] by simp
  from D(2)[OF this] have b: "b \<noteq> 0" "unat b + 8 < 2 ^ 47" by simp_all
  show "b \<noteq> 0" "unat b < 2 ^ 47" using b by simp_all
  have "unat (b + node_offset) = unat b + 8" using b(2) by (subst unat_add_small) (simp_all add: node_offset_def)
  then show "unat (b + node_offset) < 2 ^ 47" "b + node_offset \<noteq> 0" using b(2) by auto
qed

lemma top_in:
  assumes "top_ok nx head v xs" and "addr_of head \<noteq> 0"
  shows "addr_of head \<in> set xs"
  using assms by (cases xs) (auto simp: top_ok_def)

text \<open>A thread that writes only to the block in its hands does not disturb the others.\<close>

lemma others_write:
  assumes "shared_ok malloc fl sl p ps st" and "malloc_ok malloc (mallocs st)" and "b \<in># own p"
    and "q \<in> set ps" and "pc_ok st q"
    and "p_top st' = p_top st" "p_ver st' = p_ver st" "s_top st' = s_top st" "s_ver st' = s_ver st"
    and "\<And>a. a \<noteq> b \<Longrightarrow> b_next st' a = b_next st a"
    and "\<And>a. a \<noteq> b + node_offset \<Longrightarrow> n_next st' a = n_next st a \<and> n_data st' a = n_data st a"
  shows "pc_ok st' q"
proof (rule pc_ok_stable[OF assms(5)])
  note H = held[OF assms(1-3)]
  have T: "top_ok (b_next st) (p_top st) (p_ver st) fl" "top_ok (n_next st) (s_top st) (s_ver st) sl"
    using assms(1) by (simp_all add: shared_ok_def)
  show "p_top st' = p_top st \<and> (addr_of (p_top st) \<noteq> 0 \<longrightarrow> b_next st' (addr_of (p_top st)) = b_next st (addr_of (p_top st)))"
    using assms(6,10) top_in[OF T(1)] H(1) by metis
  show "s_top st' = s_top st \<and> (addr_of (s_top st) \<noteq> 0 \<longrightarrow> n_next st' (addr_of (s_top st)) = n_next st (addr_of (s_top st)))"
    using assms(8,11) top_in[OF T(2)] H(3) by metis
  show "b_next st' c = b_next st c \<and> n_next st' (c + node_offset) = n_next st (c + node_offset) \<and>
      n_data st' (c + node_offset) = n_data st (c + node_offset)" if "c \<in># own q" for c
  proof -
    have "c \<noteq> b" using that H(2)[OF assms(4)] by blast
    then have "c + node_offset \<noteq> b + node_offset" by simp
    then show ?thesis using assms(10,11) \<open>c \<noteq> b\<close> by blast
  qed
qed (use assms(7,9) in simp_all)

text \<open>Nor does one that changes a top.\<close>

lemma others_cas:
  assumes "pc_ok st q" and "b_next st' = b_next st" "n_next st' = n_next st" "n_data st' = n_data st"
    and "p_ver st' = Suc (p_ver st) \<or> p_ver st' = p_ver st \<and> p_top st' = p_top st"
    and "s_ver st' = Suc (s_ver st) \<or> s_ver st' = s_ver st \<and> s_top st' = s_top st"
  shows "pc_ok st' q"
  by (rule pc_ok_stable[OF assms(1)]) (use assms(2-6) in auto)

subsection \<open>Steps\<close>

definition lf_ok :: "(nat \<Rightarrow> u64) \<Rightarrow> 'a pc \<Rightarrow> 'a pc list \<Rightarrow> 'a lfstack \<Rightarrow> bool" where
  "lf_ok malloc p ps st \<longleftrightarrow> (\<exists>fl sl. shared_ok malloc fl sl p ps st \<and> counts_ok sl p ps st) \<and>
     pc_ok st p \<and> (\<forall>q \<in> set ps. pc_ok st q)"

lemma lf_okI:
  "shared_ok malloc fl sl p ps st \<Longrightarrow> counts_ok sl p ps st \<Longrightarrow> pc_ok st p \<Longrightarrow> (\<And>q. q \<in> set ps \<Longrightarrow> pc_ok st q) \<Longrightarrow>
   lf_ok malloc p ps st"
  by (auto simp: lf_ok_def)

text \<open>A step that changes only the position.\<close>

lemma lf_ok_read:
  assumes "lf_ok malloc p ps st" and "own p' = own p" and "due_size p' = due_size p" and "due_use p' = due_use p"
    and "due_capacity p' = due_capacity p" and "pc_ok st p'"
  shows "lf_ok malloc p' ps st"
  using assms by (auto simp: lf_ok_def shared_ok_def counts_ok_def)

lemma seen_top:
  assumes "lf_ok malloc p ps st"
  shows "seen (p_top st) (p_ver st) (p_top st) (p_ver st)" and "seen (s_top st) (s_ver st) (s_top st) (s_ver st)"
  using assms by (auto simp: lf_ok_def shared_ok_def intro: seen_now)

text \<open>A step that writes to the block in the thread's hands.\<close>

lemma lf_ok_write:
  assumes ok: "lf_ok malloc p ps st" and m: "malloc_ok malloc (mallocs st)" and b: "own p = {#b#}"
    and st': "st' = st\<lparr>b_next := (b_next st)(b := u), n_next := (n_next st)(b + node_offset := w),
      n_data := (n_data st)(b + node_offset := d)\<rparr>"
    and "own p' = own p" and "due_size p' = due_size p" and "due_use p' = due_use p"
    and "due_capacity p' = due_capacity p" and "pc_ok st' p'"
  shows "lf_ok malloc p' ps st'"
proof -
  obtain fl sl where S: "shared_ok malloc fl sl p ps st" and C: "counts_ok sl p ps st" and Q: "\<forall>q \<in> set ps. pc_ok st q"
    using ok by (auto simp: lf_ok_def)
  have mem: "b \<in># own p" using b by simp
  note H = held[OF S m mem]
  have T: "top_ok (b_next st) (p_top st) (p_ver st) fl" "top_ok (n_next st) (s_top st) (s_ver st) sl"
    using S by (simp_all add: shared_ok_def)
  have "map ((n_data st)(b + node_offset := d)) sl = map (n_data st) sl" using H(3) by (auto intro!: map_cong)
  then have "shared_ok malloc fl sl p' ps st'"
    using S top_ok_write[OF T(1) H(1)] top_ok_write[OF T(2) H(3)] assms(5) unfolding shared_ok_def st' by simp
  moreover have "counts_ok sl p' ps st'" using C assms(6-8) by (simp add: counts_ok_def st')
  moreover have "pc_ok st' q" if q: "q \<in> set ps" for q
    by (rule others_write[OF S m mem q]) (use Q q in \<open>simp_all add: st'\<close>)
  ultimately show ?thesis using assms(9) by (intro lf_okI)
qed

lemma lf_ok_b_next:
  assumes "lf_ok malloc p ps st" and "malloc_ok malloc (mallocs st)" and "own p = {#b#}"
    and "own p' = own p" "due_size p' = due_size p" "due_use p' = due_use p" "due_capacity p' = due_capacity p"
    and "pc_ok (st\<lparr>b_next := (b_next st)(b := u)\<rparr>) p'"
  shows "lf_ok malloc p' ps (st\<lparr>b_next := (b_next st)(b := u)\<rparr>)"
  by (rule lf_ok_write[OF assms(1-3) _ assms(4-8), where u = u and w = "n_next st (b + node_offset)" and d = "n_data st (b + node_offset)"])
    simp

lemma lf_ok_n_next:
  assumes "lf_ok malloc p ps st" and "malloc_ok malloc (mallocs st)" and "own p = {#n - node_offset#}"
    and "own p' = own p" "due_size p' = due_size p" "due_use p' = due_use p" "due_capacity p' = due_capacity p"
    and "pc_ok (st\<lparr>n_next := (n_next st)(n := u)\<rparr>) p'"
  shows "lf_ok malloc p' ps (st\<lparr>n_next := (n_next st)(n := u)\<rparr>)"
  by (rule lf_ok_write[OF assms(1-3) _ assms(4-8), where u = "b_next st (n - node_offset)" and w = u and d = "n_data st n"])
    simp

lemma lf_ok_n_data:
  assumes "lf_ok malloc p ps st" and "malloc_ok malloc (mallocs st)" and "own p = {#n - node_offset#}"
    and "own p' = own p" "due_size p' = due_size p" "due_use p' = due_use p" "due_capacity p' = due_capacity p"
    and "pc_ok (st\<lparr>n_data := (n_data st)(n := u)\<rparr>) p'"
  shows "lf_ok malloc p' ps (st\<lparr>n_data := (n_data st)(n := u)\<rparr>)"
  by (rule lf_ok_write[OF assms(1-3) _ assms(4-8), where u = "b_next st (n - node_offset)" and w = "n_next st n" and d = u])
    simp

text \<open>A step that changes counters, the lists of results or nothing shared.\<close>

lemma lf_ok_counters:
  assumes ok: "lf_ok malloc p ps st" and "own p' = own p" and "pc_ok st p'"
    and "p_useCount st' + due_use p' = p_useCount st + due_use p"
    and "s_size st' + due_size p' = s_size st + due_size p"
    and "p_capacity st' + due_capacity p' = p_capacity st + due_capacity p"
    and "p_top st' = p_top st" "s_top st' = s_top st" "b_next st' = b_next st" "n_next st' = n_next st" "n_data st' = n_data st"
    and "mallocs st' = mallocs st" "p_ver st' = p_ver st" "s_ver st' = s_ver st" "replay (lin st') [] = replay (lin st) []"
  shows "lf_ok malloc p' ps st'"
proof -
  obtain fl sl where S: "shared_ok malloc fl sl p ps st" and C: "counts_ok sl p ps st" and Q: "\<forall>q \<in> set ps. pc_ok st q"
    using ok by (auto simp: lf_ok_def)
  have st: "pc_ok st' q" if "pc_ok st q" for q by (rule others_cas[OF that]) (use assms in simp_all)
  have "shared_ok malloc fl sl p' ps st'" using S assms(2,7-15) by (simp add: shared_ok_def)
  moreover have "counts_ok sl p' ps st'"
    using C assms(4-6,12) by (simp add: counts_ok_def add.assoc[symmetric])
  ultimately show ?thesis using st assms(3) Q by (intro lf_okI) auto
qed

text \<open>The four compare-and-swaps that succeed, and the allocation of a block.\<close>

lemma lf_ok_Alloc_cas:
  assumes ok: "lf_ok malloc (Alloc_cas x old nx v) ps st" and t: "timely (Alloc_cas x old nx v) st" and cas: "p_top st = old"
  shows "lf_ok malloc (Alloc_use x (addr_of old)) ps (st\<lparr>p_top := tagged nx (next_cnt old), p_ver := p_ver st + 1\<rparr>)"
proof -
  obtain fl sl where S: "shared_ok malloc fl sl (Alloc_cas x old nx v) ps st" and C: "counts_ok sl (Alloc_cas x old nx v) ps st"
    and P: "pc_ok st (Alloc_cas x old nx v)" and Q: "\<forall>q \<in> set ps. pc_ok st q"
    using ok by (auto simp: lf_ok_def)
  have T: "top_ok (b_next st) (p_top st) (p_ver st) fl" using S by (simp add: shared_ok_def)
  have "v = p_ver st" by (rule seen_cas[OF T]) (use P t cas in simp_all)
  then have nx: "nx = b_next st (addr_of (p_top st))" and nz: "addr_of (p_top st) \<noteq> 0" using P cas by simp_all
  obtain fl' where F: "fl = addr_of (p_top st) # fl'"
    "top_ok (b_next st) (tagged (b_next st (addr_of (p_top st))) (next_cnt (p_top st))) (Suc (p_ver st)) fl'"
    by (rule top_ok_pop[OF T nz]) (rule that)
  let ?st = "st\<lparr>p_top := tagged nx (next_cnt old), p_ver := p_ver st + 1\<rparr>"
  have "shared_ok malloc fl' sl (Alloc_use x (addr_of old)) ps ?st"
    using S F nx cas by (simp add: shared_ok_def ac_simps)
  moreover have "counts_ok sl (Alloc_use x (addr_of old)) ps ?st" using C by (simp add: counts_ok_def)
  ultimately show ?thesis using Q others_cas[of st _ ?st] by (intro lf_okI) auto
qed

lemma lf_ok_Free_cas:
  assumes ok: "lf_ok malloc (Free_cas d b old v) ps st" and m: "malloc_ok malloc (mallocs st)"
    and t: "timely (Free_cas d b old v) st" and cas: "p_top st = old"
  shows "lf_ok malloc (Free_use d) ps (st\<lparr>p_top := tagged b (next_cnt old), p_ver := p_ver st + 1\<rparr>)"
proof -
  obtain fl sl where S: "shared_ok malloc fl sl (Free_cas d b old v) ps st" and C: "counts_ok sl (Free_cas d b old v) ps st"
    and P: "pc_ok st (Free_cas d b old v)" and Q: "\<forall>q \<in> set ps. pc_ok st q"
    using ok by (auto simp: lf_ok_def)
  note H = held[OF S m, of b]
  have T: "top_ok (b_next st) (p_top st) (p_ver st) fl" using S by (simp add: shared_ok_def)
  let ?st = "st\<lparr>p_top := tagged b (next_cnt old), p_ver := p_ver st + 1\<rparr>"
  have "top_ok (b_next st) (tagged b (next_cnt old)) (Suc (p_ver st)) (b # fl)"
    using top_ok_push[OF T, of b] P cas H(4,6) by simp
  then have "shared_ok malloc (b # fl) sl (Free_use d) ps ?st"
    using S by (simp add: shared_ok_def ac_simps)
  moreover have "counts_ok sl (Free_use d) ps ?st" using C by (simp add: counts_ok_def)
  ultimately show ?thesis using Q others_cas[of st _ ?st] by (intro lf_okI) auto
qed

lemma lf_ok_Push_cas:
  assumes ok: "lf_ok malloc (Push_cas x n old v) ps st" and m: "malloc_ok malloc (mallocs st)"
    and t: "timely (Push_cas x n old v) st" and cas: "s_top st = old"
  shows "lf_ok malloc (Push_size x) ps
    (linearize t' (Pushed x) (st\<lparr>s_top := tagged n (next_cnt old), s_ver := s_ver st + 1\<rparr>))"
proof -
  obtain fl sl where S: "shared_ok malloc fl sl (Push_cas x n old v) ps st" and C: "counts_ok sl (Push_cas x n old v) ps st"
    and P: "pc_ok st (Push_cas x n old v)" and Q: "\<forall>q \<in> set ps. pc_ok st q"
    using ok by (auto simp: lf_ok_def)
  note H = held[OF S m, of "n - node_offset"]
  have T: "top_ok (n_next st) (s_top st) (s_ver st) sl" using S by (simp add: shared_ok_def)
  let ?st = "linearize t' (Pushed x) (st\<lparr>s_top := tagged n (next_cnt old), s_ver := s_ver st + 1\<rparr>)"
  have "top_ok (n_next st) (tagged n (next_cnt old)) (Suc (s_ver st)) (n # sl)"
    using top_ok_push[OF T, of n] P cas H(5,7) by simp
  then have "shared_ok malloc fl (n # sl) (Push_size x) ps ?st"
    using S P by (simp add: shared_ok_def linearize_def replay_append ac_simps)
  moreover have "counts_ok (n # sl) (Push_size x) ps ?st" using C by (simp add: counts_ok_def linearize_def algebra_simps)
  ultimately show ?thesis using Q others_cas[of st _ ?st] by (intro lf_okI) (auto simp: linearize_def)
qed

lemma lf_ok_Pop_cas:
  assumes ok: "lf_ok malloc (Pop_cas old nx v) ps st" and t: "timely (Pop_cas old nx v) st" and cas: "s_top st = old"
  shows "lf_ok malloc (Pop_size (addr_of old) (n_data st (addr_of old))) ps
    (linearize t' (Popped (n_data st (addr_of old))) (st\<lparr>s_top := tagged nx (next_cnt old), s_ver := s_ver st + 1\<rparr>))"
proof -
  obtain fl sl where S: "shared_ok malloc fl sl (Pop_cas old nx v) ps st" and C: "counts_ok sl (Pop_cas old nx v) ps st"
    and P: "pc_ok st (Pop_cas old nx v)" and Q: "\<forall>q \<in> set ps. pc_ok st q"
    using ok by (auto simp: lf_ok_def)
  have T: "top_ok (n_next st) (s_top st) (s_ver st) sl" using S by (simp add: shared_ok_def)
  have "v = s_ver st" by (rule seen_cas[OF T]) (use P t cas in simp_all)
  then have nx: "nx = n_next st (addr_of (s_top st))" and nz: "addr_of (s_top st) \<noteq> 0" using P cas by simp_all
  obtain sl' where F: "sl = addr_of (s_top st) # sl'"
    "top_ok (n_next st) (tagged (n_next st (addr_of (s_top st))) (next_cnt (s_top st))) (Suc (s_ver st)) sl'"
    by (rule top_ok_pop[OF T nz]) (rule that)
  let ?p = "Pop_size (addr_of old) (n_data st (addr_of old))"
  let ?st = "linearize t' (Popped (n_data st (addr_of old))) (st\<lparr>s_top := tagged nx (next_cnt old), s_ver := s_ver st + 1\<rparr>)"
  have "shared_ok malloc fl sl' ?p ps ?st"
    using S F nx cas by (simp add: shared_ok_def linearize_def replay_append ac_simps)
  moreover have "counts_ok sl' ?p ps ?st" using C F(1) by (simp add: counts_ok_def linearize_def algebra_simps)
  ultimately show ?thesis using Q others_cas[of st _ ?st] by (intro lf_okI) (auto simp: linearize_def)
qed

lemma lf_ok_malloc:
  assumes ok: "lf_ok malloc (Alloc_malloc x) ps st" and m: "malloc_ok malloc (Suc (mallocs st))"
  defines "b \<equiv> malloc (mallocs st)"
  shows "lf_ok malloc (Alloc_use x b) ps (st\<lparr>mallocs := mallocs st + 1, b_next := (b_next st)(b := 0)\<rparr>)"
proof -
  obtain fl sl where S: "shared_ok malloc fl sl (Alloc_malloc x) ps st" and C: "counts_ok sl (Alloc_malloc x) ps st"
    and Q: "\<forall>q \<in> set ps. pc_ok st q"
    using ok by (auto simp: lf_ok_def)
  let ?st = "st\<lparr>mallocs := mallocs st + 1, b_next := (b_next st)(b := 0)\<rparr>" and ?p = "Alloc_use x b"
  have M: "sum_list (map own ps) + mset fl + mset (map (\<lambda>n. n - node_offset) sl) = mset (map malloc [0..<mallocs st])"
    using S by (simp add: shared_ok_def)
  have "b \<notin># mset (map malloc [0..<mallocs st])"
    using malloc_list[OF m] by (simp add: b_def)
  then have new: "b \<notin># sum_list (map own ps)" "b \<notin> set fl" unfolding M[symmetric] by simp_all
  have T: "top_ok (b_next st) (p_top st) (p_ver st) fl" using S by (simp add: shared_ok_def)
  have "shared_ok malloc fl sl ?p ps ?st"
    using S top_ok_write[OF T new(2), of 0] M by (simp add: shared_ok_def b_def[symmetric] ac_simps)
  moreover have "counts_ok sl ?p ps ?st" using C by (simp add: counts_ok_def algebra_simps)
  moreover have "pc_ok ?st q" if q: "q \<in> set ps" for q
  proof (rule pc_ok_stable)
    show "pc_ok st q" using Q q by blast
    show "p_top ?st = p_top st \<and> (addr_of (p_top st) \<noteq> 0 \<longrightarrow> b_next ?st (addr_of (p_top st)) = b_next st (addr_of (p_top st)))"
      using top_in[OF T] new(2) by auto
    have "b \<notin># own q" using new(1) q by (induction ps) auto
    then show "b_next ?st c = b_next st c \<and> n_next ?st (c + node_offset) = n_next st (c + node_offset) \<and>
      n_data ?st (c + node_offset) = n_data st (c + node_offset)" if "c \<in># own q" for c
      using that by auto
  qed simp_all
  ultimately show ?thesis by (intro lf_okI) auto
qed

lemma malloc_ok_mono: "malloc_ok malloc n \<Longrightarrow> k \<le> n \<Longrightarrow> malloc_ok malloc k"
  by (auto simp: malloc_ok_def intro: inj_on_subset)

lemma replay_more: "replay rs [] = Some xs \<Longrightarrow> replay (rs @ qs) [] = replay qs xs"
  by (simp add: replay_append)

lemma Pop_empty_ok:
  assumes "lf_ok malloc p ps st" and "addr_of (s_top st) = 0"
  shows "replay (lin st @ [(t, Pop_empty)]) [] = replay (lin st) []"
proof -
  obtain fl sl where S: "shared_ok malloc fl sl p ps st" using assms(1) by (auto simp: lf_ok_def)
  then have "sl = []" using assms(2) by (cases sl) (auto simp: shared_ok_def top_ok_def)
  then show ?thesis using S by (simp add: shared_ok_def replay_append)
qed

lemma lf_step_ok:
  assumes ok: "lf_ok malloc p ps st" and t: "timely p st" and m: "malloc_ok malloc (Suc (mallocs st))"
    and step: "lf_step malloc t p st = (p', st')"
  shows "lf_ok malloc p' ps st'"
proof -
  have m0: "malloc_ok malloc (mallocs st)" using malloc_ok_mono[OF m] by simp
  have P: "pc_ok st p" using ok by (simp add: lf_ok_def)
  note seen = seen_top[OF ok]
  note upd = linearize_def return_def
  show ?thesis
  proof (cases p)
    case Idle
    then show ?thesis using ok step by (simp add: lf_step_def)
  next
    case (Alloc_top x)
    have fail: "replay (lin st @ [(t, Push_failed x)]) [] = replay (lin st) []"
      using ok by (auto simp: lf_ok_def shared_ok_def replay_append)
    show ?thesis
      using step Alloc_top seen fail lf_ok_read[OF ok, of p'] lf_ok_counters[OF ok, of p' st']
      by (auto simp: lf_step_def upd split: if_splits)
  next
    case (Alloc_grow x)
    then show ?thesis using step lf_ok_counters[OF ok, of p' st'] P by (auto simp: lf_step_def)
  next
    case (Alloc_malloc x)
    then show ?thesis using step lf_ok_malloc[OF ok[unfolded Alloc_malloc] m] by (simp add: lf_step_def Let_def)
  next
    case (Alloc_next x old v)
    then have "v = p_ver st \<Longrightarrow> old = p_top st" using P by (simp add: seen_def)
    moreover have "p' = Alloc_cas x old (b_next st (addr_of old)) v" "st' = st" using Alloc_next step by (auto simp: lf_step_def)
    ultimately show ?thesis using lf_ok_read[OF ok, of p'] Alloc_next P by auto
  next
    case (Alloc_cas x old nx v)
    then show ?thesis using step lf_ok_Alloc_cas[of malloc x old nx v ps st] ok t lf_ok_read[OF ok, of "Alloc_top x"]
      by (auto simp: lf_step_def split: if_splits)
  next
    case (Alloc_use x b)
    then show ?thesis using step lf_ok_counters[OF ok, of p' st'] P by (auto simp: lf_step_def)
  next
    case (Push_data x n)
    then show ?thesis using step by (auto simp: lf_step_def intro!: lf_ok_n_data[OF ok m0])
  next
    case (Push_top x n)
    then show ?thesis using step P seen lf_ok_read[OF ok, of p'] by (auto simp: lf_step_def)
  next
    case (Push_link x n old v)
    then show ?thesis using step P by (auto simp: lf_step_def intro!: lf_ok_n_next[OF ok m0])
  next
    case (Push_cas x n old v)
    then show ?thesis using step P lf_ok_Push_cas[of malloc x n old v ps st t] ok t m0 lf_ok_read[OF ok, of "Push_top x n"]
      by (auto simp: lf_step_def split: if_splits)
  next
    case (Push_size x)
    then show ?thesis using step lf_ok_counters[OF ok, of p' st'] P by (auto simp: lf_step_def upd)
  next
    case Pop_top
    then show ?thesis using step seen Pop_empty_ok[OF ok] lf_ok_read[OF ok, of p'] lf_ok_counters[OF ok, of p' st']
      by (auto simp: lf_step_def upd split: if_splits)
  next
    case (Pop_next old v)
    then have "v = s_ver st \<Longrightarrow> old = s_top st" using P by (simp add: seen_def)
    moreover have "p' = Pop_cas old (n_next st (addr_of old)) v" "st' = st" using Pop_next step by (auto simp: lf_step_def)
    ultimately show ?thesis using lf_ok_read[OF ok, of p'] Pop_next P by auto
  next
    case (Pop_cas old nx v)
    then show ?thesis using step lf_ok_Pop_cas[of malloc old nx v ps st t] ok t lf_ok_read[OF ok, of Pop_top]
      by (auto simp: lf_step_def split: if_splits)
  next
    case (Pop_size n d)
    then show ?thesis using step P lf_ok_counters[OF ok, of p' st'] P by (auto simp: lf_step_def)
  next
    case (Pop_data n d)
    then show ?thesis using step P lf_ok_read[OF ok, of p'] by (auto simp: lf_step_def)
  next
    case (Free_top d b)
    then show ?thesis using step seen lf_ok_read[OF ok, of p'] by (auto simp: lf_step_def)
  next
    case (Free_link d b old v)
    then show ?thesis using step P by (auto simp: lf_step_def intro!: lf_ok_b_next[OF ok m0])
  next
    case (Free_cas d b old v)
    then show ?thesis using step lf_ok_Free_cas[of malloc d b old v ps st] ok t m0 lf_ok_read[OF ok, of "Free_top d b"]
      by (auto simp: lf_step_def split: if_splits)
  next
    case (Free_use d)
    then show ?thesis using step lf_ok_counters[OF ok, of p' st'] P by (auto simp: lf_step_def upd)
  qed
qed

text \<open>Each call takes effect exactly once, between its start and its return, and with its result.\<close>

lemma lf_step_results:
  assumes "of_thread t (lin st) = of_thread t (res st) @ pending p" and "pc_ok st p"
    and "lf_step malloc t p st = (p', st')"
  shows "of_thread t (lin st') = of_thread t (res st') @ pending p'"
    and "u \<noteq> t \<Longrightarrow> of_thread u (lin st') = of_thread u (lin st) \<and> of_thread u (res st') = of_thread u (res st)"
    and "mallocs st' \<le> Suc (mallocs st)"
  using assms by (cases p; auto simp: lf_step_def linearize_def return_def Let_def split: if_splits)+

subsection \<open>Runs\<close>

text \<open>The invariant of all threads is that of an additional idle one.\<close>

lemma lf_ok_split:
  assumes "t < length ps"
  shows "lf_ok malloc Idle ps st \<longleftrightarrow> lf_ok malloc (ps ! t) (other_threads t ps) st"
proof -
  note S = sum_list_split[OF assms]
  show ?thesis
    unfolding lf_ok_def shared_ok_def counts_ok_def S[where f = own] S[where f = due_size] S[where f = due_use] S[where f = due_capacity] set_split[OF assms]
    by (simp add: add.assoc)
qed

definition lf_inv :: "(nat \<Rightarrow> u64) \<Rightarrow> 'a lfconfig \<Rightarrow> bool" where
  "lf_inv malloc c \<longleftrightarrow> (case c of (ps, st) \<Rightarrow> lf_ok malloc Idle ps st \<and>
     (\<forall>t. of_thread t (lin st) = of_thread t (res st) @ (if t < length ps then pending (ps ! t) else [])))"

lemma lf_act_inv:
  assumes inv: "lf_inv malloc (ps, st)" and m: "malloc_ok malloc (Suc (mallocs st))"
    and time: "in_time_action a (ps, st)" and act: "lf_act malloc a (ps, st) = (ps', st')"
  shows "lf_inv malloc (ps', st') \<and> length ps' = length ps \<and> mallocs st' \<le> Suc (mallocs st)"
proof -
  have ok: "lf_ok malloc Idle ps st"
    and R: "\<And>t. of_thread t (lin st) = of_thread t (res st) @ (if t < length ps then pending (ps ! t) else [])"
    using inv by (simp_all add: lf_inv_def)
  show ?thesis
  proof (cases a)
    case (Start t c)
    show ?thesis
    proof (cases "t < length ps \<and> ps ! t = Idle")
      case True
      then have e: "ps' = ps[t := call_pc c]" "st' = st" and t: "t < length ps" "ps ! t = Idle" using act Start by auto
      have new: "own (call_pc c) = {#}" "due_size (call_pc c) = 0" "due_use (call_pc c) = 0" "due_capacity (call_pc c) = 0"
        "pc_ok st (call_pc c)" "pending (call_pc c) = []" by (cases c; simp)+
      have "lf_ok malloc Idle (other_threads t ps) st" using ok lf_ok_split[OF t(1), of malloc st] t(2) by simp
      then have "lf_ok malloc (call_pc c) (other_threads t ps) st" by (rule lf_ok_read) (simp_all add: new)
      then have "lf_ok malloc Idle ps' st" using lf_ok_split[of t ps' malloc st] t(1) by (simp add: e other_threads_update)
      moreover have "pending (ps' ! u) = pending (ps ! u)" if "u < length ps" for u
        using new(6) t that by (cases "u = t") (simp_all add: e)
      ultimately show ?thesis using R by (simp add: lf_inv_def e)
    qed (use inv act Start in auto)
  next
    case (Step t)
    show ?thesis
    proof (cases "t < length ps")
      case True
      obtain p st1 where s: "lf_step malloc t (ps ! t) st = (p, st1)" by (cases "lf_step malloc t (ps ! t) st")
      have e: "ps' = ps[t := p]" "st' = st1" and t: "t < length ps" using act Step True s by auto
      have old: "lf_ok malloc (ps ! t) (other_threads t ps) st" using ok lf_ok_split[OF t] by blast
      have "lf_ok malloc p (other_threads t ps) st1" by (rule lf_step_ok[OF old _ m s]) (use time Step t in simp)
      then have "lf_ok malloc Idle ps' st'" using lf_ok_split[of t ps' malloc st'] t by (simp add: e other_threads_update)
      moreover have P: "pc_ok st (ps ! t)" using old by (simp add: lf_ok_def)
      moreover have own: "of_thread t (lin st) = of_thread t (res st) @ pending (ps ! t)" using R[of t] t by simp
      moreover note L = lf_step_results[OF own P s]
      have "of_thread u (lin st') = of_thread u (res st') @ (if u < length ps' then pending (ps' ! u) else [])" for u
        using L(1) L(2)[of u] R[of u] t by (cases "u = t") (simp_all add: e)
      ultimately show ?thesis using L(3) by (simp add: lf_inv_def e)
    qed (use inv act Step in auto)
  qed
qed

lemma lf_run_inv:
  assumes "lf_inv malloc (ps, st)" and "malloc_ok malloc (mallocs st + length sched)" and "lf_timely malloc sched (ps, st)"
    and "lf_run malloc sched (ps, st) = (ps', st')"
  shows "lf_inv malloc (ps', st') \<and> length ps' = length ps"
  using assms
proof (induction sched arbitrary: ps st)
  case (Cons a sched)
  obtain ps1 st1 where a: "lf_act malloc a (ps, st) = (ps1, st1)" by (cases "lf_act malloc a (ps, st)")
  have m: "malloc_ok malloc (Suc (mallocs st))" by (rule malloc_ok_mono[OF Cons.prems(2)]) simp
  have t: "in_time_action a (ps, st)" "lf_timely malloc sched (ps1, st1)" using Cons.prems(3) a by simp_all
  note A = lf_act_inv[OF Cons.prems(1) m t(1) a]
  have "malloc_ok malloc (mallocs st1 + length sched)" by (rule malloc_ok_mono[OF Cons.prems(2)]) (use A in simp)
  then show ?case using Cons.IH[of ps1 st1] Cons.prems(4) A a t(2) by simp
qed simp

text \<open>A schedule of fewer than \<open>2 ^ 17\<close> actions is timely whatever its order.\<close>

lemma lf_act_version:
  assumes "lf_act malloc a (ps, st) = (ps', st')"
  shows "p_ver st' \<le> Suc (p_ver st) \<and> s_ver st' \<le> Suc (s_ver st)"
proof (cases a)
  case (Step t)
  obtain p st1 where s: "lf_step malloc t (ps ! t) st = (p, st1)" by (cases "lf_step malloc t (ps ! t) st")
  have "p_ver st1 \<le> Suc (p_ver st) \<and> s_ver st1 \<le> Suc (s_ver st)"
    using s by (cases "ps ! t"; auto simp: lf_step_def linearize_def return_def Let_def split: if_splits)
  then show ?thesis using assms Step s by (auto split: if_splits)
qed (use assms in \<open>auto split: if_splits\<close>)

lemma timely_early: "p_ver st < 2 ^ 17 \<Longrightarrow> s_ver st < 2 ^ 17 \<Longrightarrow> timely p st"
  by (cases p) (simp_all add: in_time_def)

lemma lf_timely_short:
  "p_ver st + length sched < 2 ^ 17 \<Longrightarrow> s_ver st + length sched < 2 ^ 17 \<Longrightarrow> lf_timely malloc sched (ps, st)"
proof (induction sched arbitrary: ps st)
  case (Cons a sched)
  obtain ps1 st1 where a: "lf_act malloc a (ps, st) = (ps1, st1)" by (cases "lf_act malloc a (ps, st)")
  have "in_time_action a (ps, st)" by (cases a) (use Cons.prems in \<open>simp_all add: timely_early\<close>)
  moreover have "lf_timely malloc sched (ps1, st1)"
    by (rule Cons.IH) (use lf_act_version[OF a] Cons.prems in simp_all)
  ultimately show ?case using a by simp
qed simp

lemma LockFreePool_fill_ok:
  assumes "shared_ok malloc fl [] Idle [] st" and "malloc_ok malloc (mallocs st + n)" and "p_ver st = 0" "unat (p_top st) < 2 ^ 47"
  shows "\<exists>fl'. shared_ok malloc fl' [] Idle [] (LockFreePool_fill malloc n st) \<and>
    mallocs (LockFreePool_fill malloc n st) = mallocs st + n \<and> p_ver (LockFreePool_fill malloc n st) = 0 \<and>
    s_size (LockFreePool_fill malloc n st) = s_size st \<and> p_useCount (LockFreePool_fill malloc n st) = p_useCount st \<and>
    p_capacity (LockFreePool_fill malloc n st) = p_capacity st \<and> lin (LockFreePool_fill malloc n st) = lin st \<and>
    res (LockFreePool_fill malloc n st) = res st"
  using assms
proof (induction n arbitrary: st fl)
  case (Suc n)
  let ?b = "malloc (mallocs st)"
  let ?st = "st\<lparr>mallocs := mallocs st + 1, b_next := (b_next st)(?b := p_top st), p_top := ?b\<rparr>"
  have m1: "malloc_ok malloc (Suc (mallocs st))" by (rule malloc_ok_mono[OF Suc.prems(2)]) simp
  then have b: "?b \<noteq> 0" "unat ?b < 2 ^ 47" by (auto simp: malloc_ok_def)
  have T: "top_ok (b_next st) (p_top st) 0 fl" and M: "mset fl = mset (map malloc [0..<mallocs st])"
    using Suc.prems(1,3) by (simp_all add: shared_ok_def)
  have "?b \<notin># mset fl" unfolding M using malloc_list[OF m1] by simp
  then have new: "?b \<notin> set fl" by simp
  have tag: "tag_of ?b = 0" using drop_bit_small[OF b(2)] by (simp add: tag_of_def)
  have top: "addr_of (p_top st) = p_top st" by (rule addr_of_small[OF Suc.prems(4)])
  have "chain ((b_next st)(?b := p_top st)) (p_top st) fl"
    using T top chain_write[OF new] unfolding top_ok_def by metis
  then have "top_ok (b_next ?st) ?b 0 (?b # fl)"
    using b tag addr_of_small[OF b(2)] by (simp add: top_ok_def)
  then have S: "shared_ok malloc (?b # fl) [] Idle [] ?st"
    using Suc.prems(1,3) M by (simp add: shared_ok_def)
  have m2: "malloc_ok malloc (mallocs ?st + n)" using Suc.prems(2) by simp
  from Suc.IH[OF S m2] Suc.prems(3) b(2) show ?case by (simp add: Let_def)
qed auto

lemma ctor_inv:
  assumes "malloc_ok malloc (capacity)"
  shows "lf_inv malloc (replicate n Idle, LockFreeStack_ctor malloc b0 n0 d0 capacity freeList)"
    and "mallocs (LockFreeStack_ctor malloc b0 n0 d0 capacity freeList) = capacity"
proof -
  let ?st0 = "\<lparr>p_top = 0, p_useCount = 0, p_capacity = of_nat capacity, p_freeList = freeList, s_top = 0, s_size = 0,
        b_next = b0, n_next = n0, n_data = d0, mallocs = 0, p_ver = 0, s_ver = 0, lin = [], res = []\<rparr>"
  have z: "tag_of 0 = 0" "addr_of 0 = 0" by (simp_all add: tag_of_def addr_of_take)
  have S0: "shared_ok malloc [] [] Idle [] ?st0" using z by (simp add: shared_ok_def top_ok_def)
  obtain fl where F: "shared_ok malloc fl [] Idle [] (LockFreePool_fill malloc capacity ?st0)"
    "mallocs (LockFreePool_fill malloc capacity ?st0) = capacity"
    "s_size (LockFreePool_fill malloc capacity ?st0) = 0" "p_useCount (LockFreePool_fill malloc capacity ?st0) = 0"
    "p_capacity (LockFreePool_fill malloc capacity ?st0) = of_nat capacity"
    "lin (LockFreePool_fill malloc capacity ?st0) = []" "res (LockFreePool_fill malloc capacity ?st0) = []"
    using LockFreePool_fill_ok[OF S0, of capacity] assms z by auto
  have idle: "sum_list (map own (replicate n Idle)) = {#}" "sum_list (map due_size (replicate n Idle)) = 0"
    "sum_list (map due_use (replicate n Idle)) = 0" "sum_list (map due_capacity (replicate n Idle)) = 0"
    by (induction n) simp_all
  have "lf_ok malloc Idle (replicate n Idle) (LockFreePool_fill malloc capacity ?st0)"
    by (rule lf_okI[of malloc fl "[]"])
      (use F idle in \<open>simp_all add: shared_ok_def counts_ok_def\<close>)
  then show "lf_inv malloc (replicate n Idle, LockFreeStack_ctor malloc b0 n0 d0 capacity freeList)"
    using F by (auto simp: lf_inv_def LockFreeStack_ctor_def)
  show "mallocs (LockFreeStack_ctor malloc b0 n0 d0 capacity freeList) = capacity"
    using F by (simp add: LockFreeStack_ctor_def)
qed

end
