(* ===== verification/LfStackProps.thy ===== *)
theory LfStackProps
  imports LfStackSafe
begin

text \<open>Properties of the lock-free stack and its pool under every schedule in which the tags do not come round (\<open>lf_timely\<close>).\<close>

subsection \<open>A schedule\<close>

definition sample_malloc :: "nat \<Rightarrow> u64" where
  "sample_malloc k = of_nat (16 * (k + 1))"

lemma sample_malloc_ok: "malloc_ok sample_malloc 100"
proof -
  have u: "unat (sample_malloc k) = 16 * (k + 1)" if "k < 100" for k
    using that unfolding sample_malloc_def unat_of_nat by (simp add: take_bit_nat_eq_self)
  have "inj_on sample_malloc {..<100}"
  proof (rule inj_onI)
    fix k l assume k: "k \<in> {..<100}" and l: "l \<in> {..<100}" and e: "sample_malloc k = sample_malloc l"
    have "16 * (k + 1) = 16 * (l + 1)" using u[of k] u[of l] k l unfolding e by (metis lessThan_iff)
    then show "k = l" by simp
  qed
  moreover have "sample_malloc k \<noteq> 0 \<and> unat (sample_malloc k) + 8 < 2 ^ 47" if "k < 100" for k
    using u[OF that] that by (auto simp: unat_eq_zero)
  ultimately show ?thesis by (simp add: malloc_ok_def)
qed

text \<open>Two pushes of two threads in lock step, so that one compare-and-swap on each top fails, and a pop.\<close>

definition sample_sched :: "nat action list" where
  "sample_sched = [Start 0 (Push 7), Start 1 (Push 8)] @ concat (replicate 16 [Step 0, Step 1]) @
     [Start 0 Pop] @ replicate 10 (Step 0)"

abbreviation sample_ctor :: "nat lfstack" where
  "sample_ctor \<equiv> LockFreeStack_ctor sample_malloc (\<lambda>_. 0) (\<lambda>_. 0) (\<lambda>_. 0) 1 True"

lemma sample_lf_run:
  "map_prod id (\<lambda>st. (lin st, res st, s_size st, p_useCount st, p_capacity st, mallocs st))
     (lf_run sample_malloc sample_sched (replicate 2 Idle, sample_ctor)) =
   ([Idle, Idle], [(0, Pushed 7), (1, Pushed 8), (0, Popped 8)], [(0, Pushed 7), (1, Pushed 8), (0, Popped 8)], 1, 1, 2, 2)"
  by code_simp

lemma fill_version:
  "p_ver (LockFreePool_fill malloc k st) = p_ver st" "s_ver (LockFreePool_fill malloc k st) = s_ver st"
  by (induction k arbitrary: st) (simp_all add: Let_def)

lemma timely_short:
  "length sched < 2 ^ 17 \<Longrightarrow> lf_timely malloc sched (ps, LockFreeStack_ctor malloc b0 n0 d0 capacity freeList)"
  by (rule lf_timely_short) (simp_all add: LockFreeStack_ctor_def fill_version)

lemma sample_timely: "lf_timely sample_malloc sample_sched (replicate 2 Idle, sample_ctor)"
  by (rule timely_short) (simp add: sample_sched_def length_concat sum_list_replicate)

subsection \<open>Linearizability\<close>

lemma reach_lf_inv:
  assumes "malloc_ok malloc (capacity + length sched)"
    and "lf_timely malloc sched (replicate n Idle, LockFreeStack_ctor malloc b0 n0 d0 capacity freeList)"
    and "lf_run malloc sched (replicate n Idle, LockFreeStack_ctor malloc b0 n0 d0 capacity freeList) = (ps, st)"
  shows "lf_inv malloc (ps, st)" and "length ps = n"
proof -
  have m: "malloc_ok malloc capacity" by (rule malloc_ok_mono[OF assms(1)]) simp
  note C = ctor_inv(1)[OF m, of n b0 n0 d0 freeList] ctor_inv(2)[OF m, of b0 n0 d0 freeList]
  have "malloc_ok malloc (mallocs (LockFreeStack_ctor malloc b0 n0 d0 capacity freeList) + length sched)"
    unfolding C(2) by (rule assms(1))
  from lf_run_inv[OF C(1) this assms(2,3)] show "lf_inv malloc (ps, st)" "length ps = n" by simp_all
qed

lemma sum_list_idle:
  fixes f :: "'a pc \<Rightarrow> 'c::comm_monoid_add"
  assumes "set ps \<subseteq> {Idle}" and "f Idle = 0"
  shows "sum_list (map f ps) = 0"
  using assms by (induction ps) auto

text \<open>
  C7. The lock-free stack behaves as a stack: with any number of threads that push and pop, and any schedule of their single
  memory accesses in which no thread is held up for \<open>2 ^ 17\<close> changes of a top between its read of that top and its
  compare-and-swap (the 17-bit tags do not come round; every schedule of fewer than \<open>2 ^ 17\<close> actions is one), the calls take effect one at a time in some order in which every pop gets
  what a list-shaped stack would give it (and reports an empty stack only when it is empty); each call takes effect
  between its start and its return and returns the result it had then, so for every thread the
  calls returned so far are its calls that have taken effect, in order, except for one at most that is
  about to return; and when no call is in progress \<open>GetSize\<close> and the pool's use count are the
  number of elements. (A failed push is one for which the pool may not grow and had no block.)
\<close>

theorem lockfree_stack_linearizable:
  assumes "malloc_ok malloc (capacity + length sched)"
    and "lf_timely malloc sched (replicate n Idle, LockFreeStack_ctor malloc b0 n0 d0 capacity freeList)"
    and "lf_run malloc sched (replicate n Idle, LockFreeStack_ctor malloc b0 n0 d0 capacity freeList) = (ps, st)"
  shows "\<exists>xs. replay (lin st) [] = Some xs \<and>
    (\<forall>t. \<exists>r. of_thread t (lin st) = of_thread t (res st) @ r \<and> length r \<le> 1) \<and>
    (set ps \<subseteq> {Idle} \<longrightarrow> (\<forall>t. of_thread t (lin st) = of_thread t (res st)) \<and>
      LockFreeStack_GetSize st = of_nat (length xs) \<and> LockFreePool_GetUseCount st = of_nat (length xs))"
proof -
  note R = reach_lf_inv[OF assms]
  then obtain fl sl where S: "shared_ok malloc fl sl Idle ps st" "counts_ok sl Idle ps st"
    and L: "\<And>t. of_thread t (lin st) = of_thread t (res st) @ (if t < n then pending (ps ! t) else [])"
    by (auto simp: lf_inv_def lf_ok_def)
  have one: "length (pending p) \<le> 1" for p :: "'a pc" by (cases p) simp_all
  have idle: "(\<forall>t. of_thread t (lin st) = of_thread t (res st)) \<and> s_size st = of_nat (length sl) \<and> p_useCount st = of_nat (length sl)"
    if "set ps \<subseteq> {Idle}"
  proof -
    have "ps ! t = Idle" if "t < n" for t using \<open>set ps \<subseteq> {Idle}\<close> that R(2) nth_mem[of t ps] by blast
    then have "\<forall>t. of_thread t (lin st) = of_thread t (res st)" using L by simp
    moreover have "sum_list (map due_size ps) = 0" "sum_list (map due_use ps) = 0" using that by (simp_all add: sum_list_idle)
    ultimately show ?thesis using S(2) by (simp add: counts_ok_def)
  qed
  show ?thesis
    unfolding LockFreeStack_GetSize_def LockFreePool_GetUseCount_def
  proof (intro exI conjI impI)
    show "replay (lin st) [] = Some (map (n_data st) sl)" using S(1) by (simp add: shared_ok_def)
    show "\<forall>t. \<exists>r. of_thread t (lin st) = of_thread t (res st) @ r \<and> length r \<le> 1" using L one by auto
    assume "set ps \<subseteq> {Idle}"
    note I = idle[OF this]
    show "\<forall>t. of_thread t (lin st) = of_thread t (res st)" using I by blast
    show "s_size st = of_nat (length (map (n_data st) sl))" "p_useCount st = of_nat (length (map (n_data st) sl))"
      unfolding length_map using I by blast+
  qed
qed

theorem lockfree_stack_linearizable_witness:
  "\<exists>xs. replay [(0, Pushed 7), (1, Pushed 8), (0, Popped 8)] [] = Some xs \<and>
    LockFreeStack_GetSize (snd (lf_run sample_malloc sample_sched (replicate 2 Idle, sample_ctor))) = of_nat (length xs)"
proof -
  obtain ps st where run: "lf_run sample_malloc sample_sched (replicate 2 Idle, sample_ctor) = (ps, st)"
    by (cases "lf_run sample_malloc sample_sched (replicate 2 Idle, sample_ctor)")
  have idle: "ps = [Idle, Idle]" and lin: "lin st = [(0, Pushed 7), (1, Pushed 8), (0, Popped 8)]"
    using sample_lf_run unfolding run by simp_all
  have "malloc_ok sample_malloc (1 + length sample_sched)"
    by (rule malloc_ok_mono[OF sample_malloc_ok]) (simp add: sample_sched_def length_concat sum_list_replicate)
  from lockfree_stack_linearizable[OF this sample_timely run] show ?thesis
    unfolding run lin snd_conv idle by auto
qed

lemma lf_run_mallocs':
  "lf_run malloc sched (ps, st) = (ps', st') \<Longrightarrow> mallocs st' \<le> mallocs st + length sched"
proof (induction sched arbitrary: ps st)
  case (Cons a sched)
  obtain ps1 st1 where a: "lf_act malloc a (ps, st) = (ps1, st1)" by (cases "lf_act malloc a (ps, st)")
  have "mallocs st1 \<le> Suc (mallocs st)"
  proof (cases a)
    case (Step t)
    obtain p st2 where s: "lf_step malloc t (ps ! t) st = (p, st2)" by (cases "lf_step malloc t (ps ! t) st")
    have "mallocs st2 \<le> Suc (mallocs st)"
      using s by (cases "ps ! t"; auto simp: lf_step_def linearize_def return_def Let_def split: if_splits)
    then show ?thesis using a Step s by (auto split: if_splits)
  qed (use a in \<open>auto split: if_splits\<close>)
  then show ?case using Cons.IH[of ps1 st1] Cons.prems a by simp
qed simp

lemma lf_run_mallocs:
  assumes "malloc_ok malloc (capacity + length sched)"
    and "lf_run malloc sched (replicate n Idle, LockFreeStack_ctor malloc b0 n0 d0 capacity freeList) = (ps, st)"
  shows "mallocs st \<le> capacity + length sched"
proof -
  have "malloc_ok malloc capacity" by (rule malloc_ok_mono[OF assms(1)]) simp
  from ctor_inv(2)[OF this, of b0 n0 d0 freeList] lf_run_mallocs'[OF assms(2)] show ?thesis by simp
qed

text \<open>
  C25. Under every schedule in which no thread is held up for \<open>2 ^ 17\<close> changes of a top between its read of it and its
  compare-and-swap, every block that the pool ever allocated is in exactly one place: in the pool's
  list of free blocks, in the stack, or in the hands of one thread. So no block is lost, none is
  handed to two threads or put into a list twice, and the writes of a thread go to a block that
  no list and no other thread has.
\<close>

theorem lockfree_pool_never_shares:
  assumes "malloc_ok malloc (capacity + length sched)"
    and "lf_timely malloc sched (replicate n Idle, LockFreeStack_ctor malloc b0 n0 d0 capacity freeList)"
    and "lf_run malloc sched (replicate n Idle, LockFreeStack_ctor malloc b0 n0 d0 capacity freeList) = (ps, st)"
  shows "\<exists>fl sl. chain (b_next st) (addr_of (p_top st)) fl \<and> chain (n_next st) (addr_of (s_top st)) sl \<and>
    sum_list (map own ps) + mset fl + mset (map (\<lambda>node. node - node_offset) sl) = mset (map malloc [0..<mallocs st]) \<and>
    distinct (map malloc [0..<mallocs st]) \<and>
    (\<forall>t < n. \<forall>u < n. t \<noteq> u \<longrightarrow> own (ps ! t) \<inter># own (ps ! u) = {#})"
proof -
  note R = reach_lf_inv[OF assms]
  have len: "mallocs st \<le> capacity + length sched" by (rule lf_run_mallocs[OF assms(1,3)])
  have m: "malloc_ok malloc (mallocs st)" by (rule malloc_ok_mono[OF assms(1) len])
  have ok: "lf_ok malloc Idle ps st" using R(1) by (simp add: lf_inv_def)
  then obtain fl sl where S: "shared_ok malloc fl sl Idle ps st" by (auto simp: lf_ok_def)
  have "own (ps ! t) \<inter># own (ps ! u) = {#}" if tu: "t < n" "u < n" "t \<noteq> u" for t u
  proof -
    have "lf_ok malloc (ps ! t) (other_threads t ps) st" using ok lf_ok_split[of t ps] tu R(2) by simp
    then obtain fl' sl' where S': "shared_ok malloc fl' sl' (ps ! t) (other_threads t ps) st" by (auto simp: lf_ok_def)
    have "ps ! u \<in> set (other_threads t ps)"
    proof (cases "u < t")
      case True
      then show ?thesis using tu R(2) by (auto simp: other_threads_def in_set_conv_nth)
    next
      case False
      then have "drop (Suc t) ps ! (u - Suc t) = ps ! u" "u - Suc t < length (drop (Suc t) ps)" using tu R(2) by auto
      then have "ps ! u \<in> set (drop (Suc t) ps)" by (metis nth_mem)
      then show ?thesis by (simp add: other_threads_def)
    qed
    then have "b \<notin># own (ps ! u)" if "b \<in># own (ps ! t)" for b using held(2)[OF S' m that] by blast
    then show ?thesis by (auto simp: disjunct_not_in)
  qed
  moreover have "distinct (map malloc [0..<mallocs st])" by (rule malloc_list[OF m])
  ultimately show ?thesis using S by (intro exI[of _ fl] exI[of _ sl]) (auto simp: shared_ok_def top_ok_def)
qed

theorem lockfree_pool_never_shares_witness:
  "\<exists>fl sl. mset fl + mset (map (\<lambda>node. node - node_offset) sl) = {#16, 32#} \<and>
    chain (n_next (snd (lf_run sample_malloc sample_sched (replicate 2 Idle, sample_ctor))))
      (addr_of (s_top (snd (lf_run sample_malloc sample_sched (replicate 2 Idle, sample_ctor))))) sl"
proof -
  obtain ps st where run: "lf_run sample_malloc sample_sched (replicate 2 Idle, sample_ctor) = (ps, st)"
    by (cases "lf_run sample_malloc sample_sched (replicate 2 Idle, sample_ctor)")
  have idle: "ps = [Idle, Idle]" and n: "mallocs st = 2"
    using sample_lf_run unfolding run by simp_all
  have "malloc_ok sample_malloc (1 + length sample_sched)"
    by (rule malloc_ok_mono[OF sample_malloc_ok]) (simp add: sample_sched_def length_concat sum_list_replicate)
  moreover have "mset (map sample_malloc [0..<2]) = {#16, 32#}" by (simp add: sample_malloc_def numeral_2_eq_2 add_mset_commute)
  ultimately show ?thesis
    using lockfree_pool_never_shares[OF _ sample_timely run] unfolding run snd_conv idle n by auto
qed

subsection \<open>Progress\<close>

text \<open>The steps that a thread has left when it runs alone. A top that was read before the last change costs another
  round.\<close>

fun steps_left :: "'a pc \<Rightarrow> 'a lfstack \<Rightarrow> nat" where
  "steps_left Idle st = 0"
| "steps_left (Alloc_top x) st = 9"
| "steps_left (Alloc_grow x) st = 8"
| "steps_left (Alloc_malloc x) st = 7"
| "steps_left (Alloc_next x old v) st = (if p_top st = old then 8 else 11)"
| "steps_left (Alloc_cas x old nx v) st = (if p_top st = old then 7 else 10)"
| "steps_left (Alloc_use x b) st = 6"
| "steps_left (Push_data x n) st = 5"
| "steps_left (Push_top x n) st = 4"
| "steps_left (Push_link x n old v) st = (if s_top st = old then 3 else 6)"
| "steps_left (Push_cas x n old v) st = (if s_top st = old then 2 else 5)"
| "steps_left (Push_size x) st = 1"
| "steps_left Pop_top st = 9"
| "steps_left (Pop_next old v) st = (if s_top st = old then 8 else 11)"
| "steps_left (Pop_cas old nx v) st = (if s_top st = old then 7 else 10)"
| "steps_left (Pop_size n d) st = 6"
| "steps_left (Pop_data n d) st = 5"
| "steps_left (Free_top d b) st = 4"
| "steps_left (Free_link d b old v) st = (if p_top st = old then 3 else 6)"
| "steps_left (Free_cas d b old v) st = (if p_top st = old then 2 else 5)"
| "steps_left (Free_use d) st = 1"

lemma lf_step_closer: "p \<noteq> Idle \<Longrightarrow> lf_step malloc t p st = (p', st') \<Longrightarrow> steps_left p' st' < steps_left p st"
  by (cases p; auto simp: lf_step_def linearize_def return_def Let_def split: if_splits)

fun solo :: "(nat \<Rightarrow> u64) \<Rightarrow> tid \<Rightarrow> nat \<Rightarrow> 'a pc \<times> 'a lfstack \<Rightarrow> 'a pc \<times> 'a lfstack" where
  "solo malloc t 0 c = c"
| "solo malloc t (Suc k) (p, st) = solo malloc t k (lf_step malloc t p st)"

lemma solo_Idle: "fst (solo malloc t k (Idle, st)) = Idle"
  by (induction k) (simp_all add: lf_step_def)

lemma solo_done: "steps_left p st \<le> k \<Longrightarrow> fst (solo malloc t k (p, st)) = Idle"
proof (induction k arbitrary: p st)
  case 0
  then show ?case by (cases p) (auto split: if_splits)
next
  case (Suc k)
  show ?case
  proof (cases "p = Idle")
    case True
    then show ?thesis using solo_Idle[of malloc t "Suc k" st] by simp
  next
    case False
    obtain p' st' where s: "lf_step malloc t p st = (p', st')" by (cases "lf_step malloc t p st")
    then have "steps_left p' st' \<le> k" using lf_step_closer[OF False s] Suc.prems by simp
    then show ?thesis using Suc.IH s by simp
  qed
qed

text \<open>
  C26. No thread can block another: whatever the state and wherever the other threads have stopped, a
  thread that goes on alone returns from its push or pop after at most 11 steps.
\<close>

theorem lockfree_stack_obstruction_free:
  fixes p :: "'a pc"
  shows "fst (solo malloc t 11 (p, st)) = Idle"
  by (rule solo_done) (cases p; simp)

end
