(* ===== verification/LfQueue.thy ===== *)
theory LfQueue
  imports LfStackSafe
begin

text \<open>
  \<^verbatim>\<open>LockFreeQueue.h\<close>, instruction by instruction. The calls of the node pool are single steps here:
  that its operations take effect one at a time and never share a block is what the theorems on
  the pool show for every schedule in which its tags do not come round.

  A call that runs without interference does what a queue does. With interference it need not: a thread that
  still holds an old tail can append to a node that has come back from the pool and that another
  thread has not linked yet (the long comment in \<open>Dequeue\<close> describes this); \<open>queue_dequeue_can_overlook\<close> in \<open>LfQueueProps\<close>
  shows an element that has been enqueued and that a later \<open>Dequeue\<close> does not find.
\<close>

subsection \<open>State\<close>

text \<open>\<open>q_free\<close> are the pool's free nodes, \<open>q_new k\<close> the node it allocates next if it may grow and
  has no free one.\<close>

record 'a lfqueue =
  q_head :: u64
  q_tail :: u64
  q_size :: u64
  q_next :: "u64 \<Rightarrow> u64"
  q_data :: "u64 \<Rightarrow> 'a"
  q_free :: "u64 list"
  q_grow :: bool
  q_new :: "nat \<Rightarrow> u64"
  q_mallocs :: nat

datatype 'a qpc =
    Enq_alloc 'a
  | Enq_data 'a u64
  | Enq_null u64
  | Enq_tail u64
  | Enq_next u64 u64
  | Enq_link u64 u64
  | Enq_check u64 u64
  | Enq_swing u64 u64
  | Enq_help u64 u64 u64
  | Enq_size
  | Deq_size
  | Deq_head
  | Deq_next u64
  | Deq_tail u64 u64
  | Deq_help u64 u64 u64
  | Deq_data u64 u64
  | Deq_cas u64 u64 'a
  | Deq_count u64 'a
  | Deq_free u64 'a
  | Enqueued bool
  | Dequeued "'a option"

subsection \<open>Operations\<close>

definition q_alloc :: "'a lfqueue \<Rightarrow> u64 option \<times> 'a lfqueue" where
  "q_alloc q =
     (case q_free q of
        node # rest \<Rightarrow> (Some node, q\<lparr>q_free := rest\<rparr>)
      | [] \<Rightarrow> if q_grow q then (Some (q_new q (q_mallocs q)), q\<lparr>q_mallocs := q_mallocs q + 1\<rparr>) else (None, q))"

fun LockFreeQueue_Enqueue :: "'a qpc \<Rightarrow> 'a lfqueue \<Rightarrow> 'a qpc \<times> 'a lfqueue" where
  "LockFreeQueue_Enqueue (Enq_alloc x) q =
     (case q_alloc q of (None, q) \<Rightarrow> (Enqueued False, q) | (Some node, q) \<Rightarrow> (Enq_data x node, q))"
| "LockFreeQueue_Enqueue (Enq_data x node) q = (Enq_null node, q\<lparr>q_data := (q_data q)(node := x)\<rparr>)"
| "LockFreeQueue_Enqueue (Enq_null node) q = (Enq_tail node, q\<lparr>q_next := (q_next q)(node := 0)\<rparr>)"
| "LockFreeQueue_Enqueue (Enq_tail node) q = (Enq_next node (q_tail q), q)"
| "LockFreeQueue_Enqueue (Enq_next node old_tail) q =
     (let next = q_next q (addr_of old_tail)
      in if next = 0 then (Enq_link node old_tail, q) else (Enq_help node old_tail next, q))"
| "LockFreeQueue_Enqueue (Enq_link node old_tail) q =
     (if q_next q (addr_of old_tail) = 0 then
        (Enq_check node old_tail, q\<lparr>q_next := (q_next q)(addr_of old_tail := node)\<rparr>)
      else (Enq_tail node, q))"
| "LockFreeQueue_Enqueue (Enq_check node old_tail) q =
     (if q_tail q = old_tail then (Enq_swing node old_tail, q) else (Enq_size, q))"
| "LockFreeQueue_Enqueue (Enq_swing node old_tail) q =
     (Enq_size, if q_tail q = old_tail then q\<lparr>q_tail := tagged node (next_cnt old_tail)\<rparr> else q)"
| "LockFreeQueue_Enqueue (Enq_help node old_tail next) q =
     (Enq_tail node, if q_tail q = old_tail then q\<lparr>q_tail := tagged next (next_cnt old_tail)\<rparr> else q)"
| "LockFreeQueue_Enqueue Enq_size q = (Enqueued True, q\<lparr>q_size := q_size q + 1\<rparr>)"
| "LockFreeQueue_Enqueue p q = (p, q)"

text \<open>A failed compare-and-swap of the head starts the loop again.\<close>

fun LockFreeQueue_Dequeue :: "'a qpc \<Rightarrow> 'a lfqueue \<Rightarrow> 'a qpc \<times> 'a lfqueue" where
  "LockFreeQueue_Dequeue Deq_size q = (if sint (q_size q) \<le> 0 then (Dequeued None, q) else (Deq_head, q))"
| "LockFreeQueue_Dequeue Deq_head q = (Deq_next (q_head q), q)"
| "LockFreeQueue_Dequeue (Deq_next old_head) q =
     (let next = q_next q (addr_of old_head)
      in if next = 0 then (Dequeued None, q) else (Deq_tail old_head next, q))"
| "LockFreeQueue_Dequeue (Deq_tail old_head next) q =
     (if old_head = q_tail q then (Deq_help old_head next (q_tail q), q) else (Deq_data old_head next, q))"
| "LockFreeQueue_Dequeue (Deq_help old_head next old_tail) q =
     (Deq_data old_head next, if q_tail q = old_tail then q\<lparr>q_tail := tagged next (next_cnt old_tail)\<rparr> else q)"
| "LockFreeQueue_Dequeue (Deq_data old_head next) q = (Deq_cas old_head next (q_data q next), q)"
| "LockFreeQueue_Dequeue (Deq_cas old_head next d) q =
     (if q_head q = old_head then (Deq_count (addr_of old_head) d, q\<lparr>q_head := tagged next (next_cnt old_head)\<rparr>)
      else (Deq_head, q))"
| "LockFreeQueue_Dequeue (Deq_count node d) q = (Deq_free node d, q\<lparr>q_size := q_size q - 1\<rparr>)"
| "LockFreeQueue_Dequeue (Deq_free node d) q = (Dequeued (Some d), q\<lparr>q_free := node # q_free q\<rparr>)"
| "LockFreeQueue_Dequeue p q = (p, q)"

definition q_step :: "'a qpc \<Rightarrow> 'a lfqueue \<Rightarrow> 'a qpc \<times> 'a lfqueue" where
  "q_step p q = (case LockFreeQueue_Enqueue p q of (p, q) \<Rightarrow> LockFreeQueue_Dequeue p q)"

definition LockFreeQueue_GetSize :: "'a lfqueue \<Rightarrow> u64" where
  "LockFreeQueue_GetSize q = q_size q"

text \<open>\<open>Front\<close> looks at the head twice; \<open>None\<close> is the crash.\<close>

definition LockFreeQueue_Front :: "'a lfqueue \<Rightarrow> 'a option run" where
  "LockFreeQueue_Front q =
     (let head = addr_of (q_head q); next = q_next q head
      in if head = 0 then None else if next = 0 then Some None else Some (Some (q_data q (q_next q head))))"

definition LockFreeQueue_ctor :: "(u64 \<Rightarrow> u64) \<Rightarrow> (u64 \<Rightarrow> 'a) \<Rightarrow> (nat \<Rightarrow> u64) \<Rightarrow> nat \<Rightarrow> bool \<Rightarrow> 'a lfqueue" where
  "LockFreeQueue_ctor n0 d0 new capacity free_list =
     (let nodes = rev (map new [0..<capacity + 1]); dummy = hd nodes
      in \<lparr>q_head = dummy, q_tail = dummy, q_size = 0, q_next = n0(dummy := 0), q_data = d0, q_free = tl nodes,
          q_grow = free_list, q_new = new, q_mallocs = capacity + 1\<rparr>)"

end
