(* ===== verification/LfQueueProps.thy ===== *)
theory LfQueueProps
  imports LfQueue NetState
begin

text \<open>
  A call of the lock-free queue that runs without interference, the contract of a bounded queue, and
  what the contract gives: the send queues of the sessions are lists.
\<close>

subsection \<open>The contract\<close>

datatype 'a queue_op = Put_elem 'a | Take_elem

text \<open>The result of a call is \<open>Some\<close> what it returns; \<open>None\<close> is a call that has not returned.\<close>

fun queue_run ::
  "('a \<Rightarrow> 'q \<Rightarrow> bool option \<times> 'q) \<Rightarrow> ('q \<Rightarrow> 'a option option \<times> 'q) \<Rightarrow> 'a queue_op list \<Rightarrow> 'q \<Rightarrow>
   (bool option + 'a option option) list" where
  "queue_run enq deq [] q = []"
| "queue_run enq deq (Put_elem x # ops) q = (case enq x q of (b, q) \<Rightarrow> Inl b # queue_run enq deq ops q)"
| "queue_run enq deq (Take_elem # ops) q = (case deq q of (r, q) \<Rightarrow> Inr r # queue_run enq deq ops q)"

definition list_enq :: "nat \<Rightarrow> 'a \<Rightarrow> 'a list \<Rightarrow> bool option \<times> 'a list" where
  "list_enq cap x xs = (if length xs < cap then (Some True, xs @ [x]) else (Some False, xs))"

definition list_deq :: "'a list \<Rightarrow> 'a option option \<times> 'a list" where
  "list_deq xs = (case xs of [] \<Rightarrow> (Some None, []) | x # xs \<Rightarrow> (Some (Some x), xs))"

locale bounded_queue =
  fixes inv :: "'q \<Rightarrow> bool"
    and cap :: nat
    and contents :: "'q \<Rightarrow> 'a list"
    and enq :: "'a \<Rightarrow> 'q \<Rightarrow> bool option \<times> 'q"
    and deq :: "'q \<Rightarrow> 'a option option \<times> 'q"
  assumes enq_room: "inv q \<Longrightarrow> length (contents q) < cap \<Longrightarrow>
      \<exists>q'. enq x q = (Some True, q') \<and> inv q' \<and> contents q' = contents q @ [x]"
    and enq_full: "inv q \<Longrightarrow> cap \<le> length (contents q) \<Longrightarrow> enq x q = (Some False, q)"
    and deq_some: "inv q \<Longrightarrow> contents q = x # xs \<Longrightarrow> \<exists>q'. deq q = (Some (Some x), q') \<and> inv q' \<and> contents q' = xs"
    and deq_none: "inv q \<Longrightarrow> contents q = [] \<Longrightarrow> deq q = (Some None, q)"
begin

lemma run_list: "inv q \<Longrightarrow> queue_run enq deq ops q = queue_run (list_enq cap) list_deq ops (contents q)"
proof (induction ops arbitrary: q)
  case (Cons op ops)
  show ?case
  proof (cases op)
    case (Put_elem x)
    show ?thesis
    proof (cases "length (contents q) < cap")
      case True
      from enq_room[OF Cons.prems True, of x] obtain q'
        where "enq x q = (Some True, q')" "inv q'" "contents q' = contents q @ [x]" by blast
      then show ?thesis using Cons.IH[of q'] True Put_elem by (simp add: list_enq_def)
    next
      case False
      then have "enq x q = (Some False, q)" using enq_full[OF Cons.prems] by simp
      then show ?thesis using Cons False Put_elem by (simp add: list_enq_def)
    qed
  next
    case Take_elem
    show ?thesis
    proof (cases "contents q")
      case Nil
      then show ?thesis using deq_none[OF Cons.prems Nil] Cons Take_elem by (simp add: list_deq_def)
    next
      case (Cons x xs)
      from deq_some[OF Cons.prems Cons] obtain q' where "deq q = (Some (Some x), q')" "inv q'" "contents q' = xs" by blast
      then show ?thesis using Cons.IH[of q'] Cons Take_elem by (simp add: list_deq_def)
    qed
  qed
qed simp

end

subsection \<open>A call without interference\<close>

fun q_solo :: "nat \<Rightarrow> 'a qpc \<times> 'a lfqueue \<Rightarrow> 'a qpc \<times> 'a lfqueue" where
  "q_solo 0 c = c"
| "q_solo (Suc n) (p, q) = q_solo n (q_step p q)"

text \<open>
  The number of steps is enough for both calls, as the theorem below shows; a call that has returned stays where it
  is, one that had not would give \<open>None\<close>.
\<close>

definition lfq_Enqueue :: "'a \<Rightarrow> 'a lfqueue \<Rightarrow> bool option \<times> 'a lfqueue" where
  "lfq_Enqueue x q =
     (case q_solo 9 (Enq_alloc x, q) of (p, q) \<Rightarrow> (case p of Enqueued b \<Rightarrow> Some b | _ \<Rightarrow> None, q))"

definition lfq_Dequeue :: "'a lfqueue \<Rightarrow> 'a option option \<times> 'a lfqueue" where
  "lfq_Dequeue q =
     (case q_solo 9 (Deq_size, q) of (p, q) \<Rightarrow> (case p of Dequeued r \<Rightarrow> Some r | _ \<Rightarrow> None, q))"

text \<open>The nodes from the head on; the first is the dummy.\<close>

fun q_walk :: "nat \<Rightarrow> (u64 \<Rightarrow> u64) \<Rightarrow> u64 \<Rightarrow> u64 list" where
  "q_walk 0 nx a = []"
| "q_walk (Suc n) nx a = (if a = 0 then [] else a # q_walk n nx (nx a))"

definition q_nodes :: "'a lfqueue \<Rightarrow> u64 list" where
  "q_nodes q = q_walk (Suc (unat (q_size q))) (q_next q) (addr_of (q_head q))"

definition q_list :: "'a lfqueue \<Rightarrow> 'a list" where
  "q_list q = map (q_data q) (tl (q_nodes q))"

definition q_inv :: "nat \<Rightarrow> 'a lfqueue \<Rightarrow> bool" where
  "q_inv cap q \<longleftrightarrow> (\<exists>ns. chain (q_next q) (addr_of (q_head q)) ns \<and> ns \<noteq> [] \<and> addr_of (q_tail q) = last ns \<and>
     unat (q_size q) = length (tl ns) \<and> distinct (ns @ q_free q) \<and> (\<forall>n \<in> set (q_free q). n \<noteq> 0 \<and> unat n < 2 ^ 47) \<and>
     length ns + length (q_free q) = Suc cap \<and> cap < 2 ^ 62 \<and> \<not> q_grow q)"

lemma sint_pos_u64:
  assumes "unat (w :: u64) < 2 ^ 62" and "0 < unat w"
  shows "\<not> sint w \<le> 0"
proof -
  have "uint w < 2 ^ 62" using assms(1) unfolding uint_nat by (metis of_nat_less_iff of_nat_numeral of_nat_power)
  then have "signed_take_bit 63 (uint w) = uint w"
    using uint_ge_0[of w] by (intro signed_take_bit_int_eq_self) (rule order_trans[of _ 0], simp_all)
  moreover have "0 < uint w" using assms(2) unfolding uint_nat by (simp only: of_nat_0_less_iff)
  ultimately show ?thesis by (simp add: sint_uint)
qed

lemma chain_walk: "chain nx a ns \<Longrightarrow> length ns = n \<Longrightarrow> q_walk n nx a = ns"
proof (induction ns arbitrary: a n)
  case Nil
  then show ?case by simp
next
  case (Cons x ns)
  then show ?case by (cases n) auto
qed

lemma q_nodes_eq:
  assumes "chain (q_next q) (addr_of (q_head q)) ns" and "ns \<noteq> []" and "unat (q_size q) = length (tl ns)"
  shows "q_nodes q = ns"
  unfolding q_nodes_def by (rule chain_walk[OF assms(1)]) (use assms(2,3) in \<open>cases ns; simp\<close>)

lemma chain_last: "chain nx a ns \<Longrightarrow> ns \<noteq> [] \<Longrightarrow> nx (last ns) = 0 \<and> last ns \<noteq> 0 \<and> unat (last ns) < 2 ^ 47"
  by (induction ns arbitrary: a) (auto split: if_splits)

lemma chain_append:
  assumes "chain nx a ns" and "ns \<noteq> []" and "distinct ns" and "n \<notin> set ns" and "n \<noteq> 0" and "unat n < 2 ^ 47" and "nx n = 0"
  shows "chain (nx(last ns := n)) a (ns @ [n])"
  using assms
proof (induction ns arbitrary: a)
  case (Cons x ns)
  show ?case
  proof (cases ns)
    case Nil
    then show ?thesis using Cons.prems by simp
  next
    case (Cons y ys)
    then have ne: "ns \<noteq> []" by simp
    then have "last ns \<noteq> x" using Cons.prems(3) last_in_set[OF ne] by auto
    then have e: "(nx(last ns := n)) x = nx x" "last (x # ns) = last ns" using ne by simp_all
    have "chain (nx(last ns := n)) (nx x) (ns @ [n])" by (rule Cons.IH) (use Cons.prems ne in simp_all)
    then show ?thesis unfolding e(2) using Cons.prems(1) e(1) by (simp del: fun_upd_apply)
  qed
qed simp

lemma Enqueue_room:
  assumes inv: "q_inv cap q" and free: "q_free q = n # rest"
  shows "\<exists>q'. q_solo 9 (Enq_alloc x, q) = (Enqueued True, q') \<and> q_inv cap q' \<and> q_list q' = q_list q @ [x]"
proof -
  obtain ns where N: "chain (q_next q) (addr_of (q_head q)) ns" "ns \<noteq> []" "addr_of (q_tail q) = last ns"
    "unat (q_size q) = length (tl ns)" "distinct (ns @ q_free q)" "\<forall>n \<in> set (q_free q). n \<noteq> 0 \<and> unat n < 2 ^ 47"
    "length ns + length (q_free q) = Suc cap" "cap < 2 ^ 62" "\<not> q_grow q"
    using inv by (auto simp: q_inv_def)
  have n: "n \<notin> set ns" "n \<noteq> 0" "unat n < 2 ^ 47" "n \<notin> set rest" using N(5,6) free by auto
  have d: "distinct ns" using N(5) by simp
  let ?l = "last ns"
  have l: "?l \<noteq> n" using N(2) n(1) by auto
  have z: "q_next q ?l = 0" using chain_last[OF N(1,2)] by simp
  let ?q' = "q\<lparr>q_free := rest, q_data := (q_data q)(n := x), q_next := (q_next q)(n := 0, ?l := n),
      q_tail := tagged n (next_cnt (q_tail q)), q_size := q_size q + 1\<rparr>"
  have run: "q_solo 9 (Enq_alloc x, q) = (Enqueued True, ?q')"
    using l z free N(3) by (simp add: eval_nat_numeral q_step_def q_alloc_def)
  have c: "chain ((q_next q)(n := 0)) (addr_of (q_head q)) ns" using N(1) chain_write[OF n(1)] by metis
  have C: "chain (q_next ?q') (addr_of (q_head ?q')) (ns @ [n])"
    using chain_append[OF c N(2) d n(1,2,3)] by simp
  have "length ns \<le> Suc cap" using N(7) by simp
  then have "length (tl ns) < 2 ^ 62" using N(8) by (cases ns) auto
  then have S: "unat (q_size ?q') = length (tl (ns @ [n]))"
    using N(2,4) by (simp add: unat_add_small tl_append2)
  have "addr_of (q_tail ?q') = n" using addr_of_tagged[OF n(3)] by simp
  then have "q_inv cap ?q'"
    unfolding q_inv_def using C S N(5-9) free n by (intro exI[of _ "ns @ [n]"]) auto
  moreover have "q_list ?q' = q_list q @ [x]"
  proof -
    have "map (q_data ?q') (tl (ns @ [n])) = map (q_data q) (tl ns) @ [x]"
      using N(2) n(1) by (cases ns) auto
    then show ?thesis
      unfolding q_list_def q_nodes_eq[OF N(1,2,4)] q_nodes_eq[OF C _ S, simplified] by simp
  qed
  ultimately show ?thesis using run by blast
qed

lemma Dequeue_none:
  assumes "q_inv cap q" and "q_list q = []"
  shows "q_solo 9 (Deq_size, q) = (Dequeued None, q)"
proof -
  obtain ns where N: "chain (q_next q) (addr_of (q_head q)) ns" "ns \<noteq> []" "unat (q_size q) = length (tl ns)"
    using assms(1) by (auto simp: q_inv_def)
  have "tl ns = []" using assms(2) q_nodes_eq[OF N] by (simp add: q_list_def)
  then have "q_size q = 0" using N(3) by (simp add: unat_eq_zero)
  then show ?thesis by (simp add: eval_nat_numeral q_step_def)
qed

lemma Dequeue_some:
  assumes inv: "q_inv cap q" and list: "q_list q = x # xs"
  shows "\<exists>q'. q_solo 9 (Deq_size, q) = (Dequeued (Some x), q') \<and> q_inv cap q' \<and> q_list q' = xs"
proof -
  obtain ns where N: "chain (q_next q) (addr_of (q_head q)) ns" "ns \<noteq> []" "addr_of (q_tail q) = last ns"
    "unat (q_size q) = length (tl ns)" "distinct (ns @ q_free q)" "\<forall>n \<in> set (q_free q). n \<noteq> 0 \<and> unat n < 2 ^ 47"
    "length ns + length (q_free q) = Suc cap" "cap < 2 ^ 62" "\<not> q_grow q"
    using inv by (auto simp: q_inv_def)
  have nodes: "q_nodes q = ns" by (rule q_nodes_eq[OF N(1,2,4)])
  obtain d n ms where ns: "ns = d # n # ms"
    using list N(2) unfolding q_list_def nodes by (cases ns; cases "tl ns") auto
  have data: "q_data q n = x" "map (q_data q) ms = xs" using list unfolding q_list_def nodes ns by simp_all
  have h: "addr_of (q_head q) = d" "q_next q d = n" "d \<noteq> 0" "n \<noteq> 0" "unat n < 2 ^ 47" "unat d < 2 ^ 47"
    "chain (q_next q) n (n # ms)" using N(1) ns by auto
  have "last ns \<noteq> d" using N(5) ns by (auto simp: last_in_set split: if_splits)
  then have ht: "q_head q \<noteq> q_tail q" using h(1) N(3) by auto
  have len: "length (tl ns) < 2 ^ 62" using N(7,8) ns by simp
  have b: "unat (q_size q) < 2 ^ 62" "0 < unat (q_size q)" using len N(4) ns by simp_all
  have pos: "\<not> sint (q_size q) \<le> 0" by (rule sint_pos_u64[OF b])
  let ?q' = "q\<lparr>q_head := tagged n (next_cnt (q_head q)), q_size := q_size q - 1, q_free := d # q_free q\<rparr>"
  have run: "q_solo 9 (Deq_size, q) = (Dequeued (Some x), ?q')"
    using pos h(1,2,4) ht data(1) by (simp add: eval_nat_numeral q_step_def)
  have H: "addr_of (q_head ?q') = n" using addr_of_tagged[OF h(5)] by simp
  have C: "chain (q_next ?q') (addr_of (q_head ?q')) (n # ms)" using h(7) unfolding H by simp
  have S: "unat (q_size ?q') = length (tl (n # ms))"
    using b(2) N(4) ns by (simp add: unat_sub_le)
  have T: "addr_of (q_tail ?q') = last (n # ms)" using N(3) ns by simp
  have "q_inv cap ?q'"
    unfolding q_inv_def by (intro exI[of _ "n # ms"] conjI) (use C S T N(5-9) ns h in auto)
  moreover have "q_list ?q' = xs" unfolding q_list_def q_nodes_eq[OF C _ S, simplified] using data(2) by simp
  ultimately show ?thesis using run by blast
qed

lemma q_list_length:
  assumes "q_inv cap q"
  shows "length (q_list q) + length (q_free q) = cap"
proof -
  obtain ns where N: "chain (q_next q) (addr_of (q_head q)) ns" "ns \<noteq> []" "unat (q_size q) = length (tl ns)"
    "length ns + length (q_free q) = Suc cap"
    using assms by (auto simp: q_inv_def)
  show ?thesis unfolding q_list_def q_nodes_eq[OF N(1-3)] using N(2,4) by (cases ns) auto
qed

interpretation lfq: bounded_queue "q_inv c" c q_list lfq_Enqueue lfq_Dequeue for c
proof
  fix q :: "'a lfqueue" and x assume A: "q_inv c q" "length (q_list q) < c"
  obtain n rest where "q_free q = n # rest" using q_list_length[OF A(1)] A(2) by (cases "q_free q") auto
  from Enqueue_room[OF A(1) this, of x] show "\<exists>q'. lfq_Enqueue x q = (Some True, q') \<and> q_inv c q' \<and> q_list q' = q_list q @ [x]"
    unfolding lfq_Enqueue_def by auto
next
  fix q :: "'a lfqueue" and x assume A: "q_inv c q" "c \<le> length (q_list q)"
  have "q_free q = []" "\<not> q_grow q" using q_list_length[OF A(1)] A by (auto simp: q_inv_def)
  then have "q_solo 9 (Enq_alloc x, q) = (Enqueued False, q)" by (simp add: eval_nat_numeral q_step_def q_alloc_def)
  then show "lfq_Enqueue x q = (Some False, q)" by (simp add: lfq_Enqueue_def)
next
  fix q :: "'a lfqueue" and x xs assume A: "q_inv c q" "q_list q = x # xs"
  from Dequeue_some[OF A] show "\<exists>q'. lfq_Dequeue q = (Some (Some x), q') \<and> q_inv c q' \<and> q_list q' = xs"
    unfolding lfq_Dequeue_def by auto
next
  fix q :: "'a lfqueue" assume A: "q_inv c q" "q_list q = []"
  from Dequeue_none[OF A] show "lfq_Dequeue q = (Some None, q)" by (simp add: lfq_Dequeue_def)
qed

lemma q_ctor:
  assumes "malloc_ok new (Suc cap)" and "cap < 2 ^ 62"
  shows "q_inv cap (LockFreeQueue_ctor n0 d0 new cap False)" and "q_list (LockFreeQueue_ctor n0 d0 new cap False) = []"
proof -
  let ?q = "LockFreeQueue_ctor n0 d0 new cap False" and ?d = "new cap"
  have ctor: "q_head ?q = ?d" "q_tail ?q = ?d" "q_size ?q = 0" "q_next ?q = n0(?d := 0)" "q_free ?q = rev (map new [0..<cap])"
    "\<not> q_grow ?q" by (simp_all add: LockFreeQueue_ctor_def Let_def)
  have D: "distinct (map new [0..<Suc cap])" by (rule malloc_list[OF assms(1)])
  have M: "new k \<noteq> 0 \<and> unat (new k) < 2 ^ 47" if "k < Suc cap" for k
    using assms(1) that by (auto simp: malloc_ok_def dest!: spec[of _ k])
  have d: "?d \<noteq> 0" "unat ?d < 2 ^ 47" "\<And>k. k < cap \<Longrightarrow> new k \<noteq> 0 \<and> unat (new k) < 2 ^ 47"
    using M by simp_all
  have C: "chain (q_next ?q) (addr_of (q_head ?q)) [?d]" using d addr_of_small[OF d(2)] by (simp add: ctor)
  have S: "unat (q_size ?q) = length (tl [?d])" by (simp add: ctor)
  show "q_inv cap ?q"
    unfolding q_inv_def
    by (intro exI[of _ "[?d]"] conjI C S) (use D d assms(2) addr_of_small[OF d(2)] in \<open>auto simp: ctor\<close>)
  show "q_list ?q = []" unfolding q_list_def q_nodes_eq[OF C _ S, simplified] by simp
qed

text \<open>
  C27. Calls of a new \<open>LockFreeQueue\<close> that do not overlap all return (within 9 steps), and they return what a list with room for \<open>cap\<close> elements
  returns: an enqueue succeeds exactly if there are fewer than \<open>cap\<close> elements, a dequeue returns the oldest element
  or reports an empty queue. With \<open>MAX_SENDQ\<close> this is the send queue of a session.
\<close>

theorem lockfree_queue_is_bounded_list:
  assumes "malloc_ok new (Suc cap)" and "cap < 2 ^ 62"
  shows "queue_run lfq_Enqueue lfq_Dequeue ops (LockFreeQueue_ctor n0 d0 new cap False) =
    queue_run (list_enq cap) list_deq ops []"
  using lfq.run_list[OF q_ctor(1)[OF assms]] unfolding q_ctor(2)[OF assms] .

definition sample_new :: "nat \<Rightarrow> u64" where
  "sample_new k = (if k = 0 then 16 else if k = 1 then 64 else 128)"

lemma sample_new_ok: "malloc_ok sample_new 3"
  by (auto simp: malloc_ok_def sample_new_def inj_on_def less_Suc_eq numeral_3_eq_3)

theorem lockfree_queue_is_bounded_list_witness:
  "queue_run lfq_Enqueue lfq_Dequeue [Put_elem 7, Put_elem 8, Put_elem 9, Take_elem, Take_elem, Take_elem]
     (LockFreeQueue_ctor (\<lambda>_. 0) (\<lambda>_. 0) sample_new 2 False) =
   [Inl (Some True), Inl (Some True), Inl (Some False), Inr (Some (Some (7 :: nat))), Inr (Some (Some 8)), Inr (Some None)]"
proof -
  have m: "malloc_ok sample_new (Suc 2)" using sample_new_ok by (simp add: numeral_3_eq_3 numeral_2_eq_2)
  have "(2 :: nat) < 2 ^ 62" by simp
  note lockfree_queue_is_bounded_list[OF m this,
    of "[Put_elem 7, Put_elem 8, Put_elem 9, Take_elem, Take_elem, Take_elem]" "\<lambda>_. 0" "\<lambda>_. 0 :: nat"]
  also have "queue_run (list_enq 2) list_deq [Put_elem 7, Put_elem 8, Put_elem 9, Take_elem, Take_elem, Take_elem] [] =
     [Inl (Some True), Inl (Some True), Inl (Some False), Inr (Some (Some (7 :: nat))), Inr (Some (Some 8)), Inr (Some None)]"
    by code_simp
  finally show ?thesis .
qed

subsection \<open>Overlapping calls\<close>

datatype 'a qact = Q_enq nat 'a | Q_deq nat | Q_step nat

fun q_act :: "'a qact \<Rightarrow> 'a qpc list \<times> 'a lfqueue \<Rightarrow> 'a qpc list \<times> 'a lfqueue" where
  "q_act (Q_enq t x) (ps, q) = (ps[t := Enq_alloc x], q)"
| "q_act (Q_deq t) (ps, q) = (ps[t := Deq_size], q)"
| "q_act (Q_step t) (ps, q) = (case q_step (ps ! t) q of (p, q) \<Rightarrow> (ps[t := p], q))"

text \<open>
  Thread 0 has a node for \<open>x\<close> and reads the tail; thread 1 enqueues \<open>y\<close> and dequeues it, so the old tail goes back to the
  pool; thread 2 takes that node for \<open>z\<close>; thread 0 appends to it and returns; thread 3 dequeues.
\<close>

definition lost_sight_sched :: "'a \<Rightarrow> 'a \<Rightarrow> 'a \<Rightarrow> 'a qact list" where
  "lost_sight_sched x y z = Q_enq 0 x # replicate 5 (Q_step 0) @ Q_enq 1 y # replicate 9 (Q_step 1) @
     Q_deq 1 # replicate 9 (Q_step 1) @ Q_enq 2 z # replicate 3 (Q_step 2) @ replicate 3 (Q_step 0) @
     Q_deq 3 # replicate 3 (Q_step 3)"

text \<open>Thread 2 goes on to its return, then the threads 3 and 1 dequeue.\<close>

definition regain_sight_sched :: "'a qact list" where
  "regain_sight_sched = replicate 6 (Q_step 2) @ Q_deq 3 # replicate 9 (Q_step 3) @ Q_deq 1 # replicate 9 (Q_step 1)"

lemma fold_q_solo:
  "t < length ps \<Longrightarrow> fold q_act (replicate n (Q_step t)) (ps, q) = (case q_solo n (ps ! t, q) of (p, q) \<Rightarrow> (ps[t := p], q))"
  by (induction n arbitrary: ps q) (auto split: prod.splits)

lemma overlook_run:
  assumes inv: "q_inv cap q" and empty: "q_list q = []" and cap: "2 \<le> cap"
  shows "\<exists>d n1 n2 q'. fold q_act (lost_sight_sched x y z) ([p0, p1, p2, p3], q) =
      ([Enqueued True, Dequeued (Some y), Enq_tail d, Dequeued None], q') \<and>
    q_size q' = 1 \<and> addr_of (q_head q') = n2 \<and> addr_of (q_tail q') = n2 \<and> q_next q' n2 = 0 \<and> q_next q' d = n1 \<and> q_next q' n1 = 0 \<and>
    q_data q' d = z \<and> q_data q' n1 = x \<and> distinct [0, d, n1, n2] \<and> unat d < 2 ^ 47 \<and> unat n1 < 2 ^ 47"
proof -
  obtain ns where N: "chain (q_next q) (addr_of (q_head q)) ns" "ns \<noteq> []" "addr_of (q_tail q) = last ns"
    "unat (q_size q) = length (tl ns)" "distinct (ns @ q_free q)" "\<forall>n \<in> set (q_free q). n \<noteq> 0 \<and> unat n < 2 ^ 47"
    "length ns + length (q_free q) = Suc cap" "cap < 2 ^ 62" "\<not> q_grow q"
    using inv by (auto simp: q_inv_def)
  have "tl ns = []" using empty q_nodes_eq[OF N(1,2,4)] by (simp add: q_list_def)
  then obtain d where ns: "ns = [d]" using N(2) by (cases ns) auto
  obtain n1 n2 rest where free: "q_free q = n1 # n2 # rest"
    using N(7) cap ns by (cases "q_free q"; cases "tl (q_free q)") auto
  have size: "q_size q = 0" using N(4) ns by (simp add: unat_eq_zero)
  have d: "addr_of (q_head q) = d" "addr_of (q_tail q) = d" "d \<noteq> 0" "q_next q d = 0" "unat d < 2 ^ 47" using N(1,3) ns by auto
  have n: "n1 \<noteq> 0" "n2 \<noteq> 0" "unat n1 < 2 ^ 47" "unat n2 < 2 ^ 47" using N(6) free by auto
  have ne: "n1 \<noteq> n2" "n1 \<noteq> d" "n2 \<noteq> d" using N(5) ns free by auto
  note a = addr_of_tagged[OF n(4)] addr_of_tagged[OF n(3)] addr_of_tagged[OF d(5)]
  have tl: "tagged n2 k \<noteq> q_tail q" "tagged n2 k \<noteq> q_head q" "q_head q \<noteq> tagged n2 k" for k
    using a(1)[of k] d(1,2) ne by metis+
  define q1 where "q1 = q\<lparr>q_free := n2 # rest, q_data := (q_data q)(n1 := x), q_next := (q_next q)(n1 := 0)\<rparr>"
  define q2 where "q2 = q1\<lparr>q_free := rest, q_data := (q_data q1)(n2 := y), q_next := (q_next q1)(n2 := 0, d := n2),
    q_tail := tagged n2 (next_cnt (q_tail q)), q_size := 1\<rparr>"
  define q3 where "q3 = q2\<lparr>q_head := tagged n2 (next_cnt (q_head q)), q_size := 0, q_free := d # rest\<rparr>"
  define q4 where "q4 = q3\<lparr>q_free := rest, q_data := (q_data q3)(d := z), q_next := (q_next q3)(d := 0)\<rparr>"
  define q5 where "q5 = q4\<lparr>q_next := (q_next q4)(d := n1), q_size := 1\<rparr>"
  have 1: "q_solo 5 (Enq_alloc x, q) = (Enq_link n1 (q_tail q), q1)"
    by (simp add: eval_nat_numeral q_step_def q_alloc_def free d ne q1_def)
  have 2: "q_solo 9 (Enq_alloc y, q1) = (Enqueued True, q2)"
    by (simp add: eval_nat_numeral q_step_def q_alloc_def d ne ne[symmetric] size q1_def q2_def)
  have 3: "q_solo 9 (Deq_size, q2) = (Dequeued (Some y), q3)"
    by (simp add: eval_nat_numeral q_step_def d n ne ne[symmetric] tl q1_def q2_def q3_def)
  have 4: "q_solo 3 (Enq_alloc z, q3) = (Enq_tail d, q4)"
    by (simp add: eval_nat_numeral q_step_def q_alloc_def q3_def q4_def)
  have 5: "q_solo 3 (Enq_link n1 (q_tail q), q4) = (Enqueued True, q5)"
    by (simp add: eval_nat_numeral q_step_def d tl q1_def q2_def q3_def q4_def q5_def)
  have 6: "q_solo 3 (Deq_size, q5) = (Dequeued None, q5)"
    by (simp add: eval_nat_numeral q_step_def a ne ne[symmetric] q1_def q2_def q3_def q4_def q5_def)
  have "fold q_act (lost_sight_sched x y z) ([p0, p1, p2, p3], q) =
      ([Enqueued True, Dequeued (Some y), Enq_tail d, Dequeued None], q5)"
    unfolding lost_sight_sched_def by (simp add: fold_q_solo 1 2 3 4 5 6 del: q_solo.simps fold_replicate)
  moreover have "q_size q5 = 1" "addr_of (q_head q5) = n2" "addr_of (q_tail q5) = n2" "q_next q5 n2 = 0" "q_next q5 d = n1"
    "q_next q5 n1 = 0" "q_data q5 d = z" "q_data q5 n1 = x"
    using ne by (simp_all add: q1_def q2_def q3_def q4_def q5_def a)
  moreover have "distinct [0, d, n1, n2]" using d n ne by auto
  ultimately show ?thesis using d(5) n(3) by blast
qed

lemma regain_run:
  assumes s: "q_size q = 1" "addr_of (q_head q) = n2" "addr_of (q_tail q) = n2" "q_next q n2 = 0" "q_next q d = n1" "q_next q n1 = 0"
    "q_data q d = z" "q_data q n1 = x" "distinct [0, d, n1, n2]" "unat d < 2 ^ 47" "unat n1 < 2 ^ 47"
  shows "fst (fold q_act regain_sight_sched ([p0, p1, Enq_tail d, p3], q)) =
    [p0, Dequeued (Some x), Enqueued True, Dequeued (Some z)]"
proof -
  note a = addr_of_tagged[OF s(10)] addr_of_tagged[OF s(11)]
  have h: "tagged d k \<noteq> q_head q" "q_head q \<noteq> tagged d k" for k using a(1)[of k] s(2,9) by auto
  have ne: "0 \<noteq> d" "0 \<noteq> n1" "d \<noteq> n1" "d \<noteq> n2" "n1 \<noteq> n2" using s(9) by auto
  show ?thesis
    unfolding regain_sight_sched_def
    by (simp add: eval_nat_numeral q_step_def s(1-8) ne ne[symmetric] a h)
qed

text \<open>
  C28. With calls that overlap this is not so, whatever the queue was before, provided it was empty and at rest with room for two: there
  is an order of the steps of four threads in which the enqueue of \<open>x\<close> has returned true, nobody has
  dequeued \<open>x\<close>, \<open>GetSize\<close> is 1, and yet a dequeue that starts then reports an empty queue; \<open>x\<close> hangs behind a node that another
  thread has not linked. It is not lost: once that thread has returned, two dequeues find its element and then
  \<open>x\<close>. (The code that drains a queue relies on no enqueue being in progress.)
\<close>

theorem queue_dequeue_can_overlook:
  assumes "q_inv cap q" and "q_list q = []" and "2 \<le> cap"
  shows "\<exists>p q'. fold q_act (lost_sight_sched x y z) ([p0, p1, p2, p3], q) =
      ([Enqueued True, Dequeued (Some y), p, Dequeued None], q') \<and> LockFreeQueue_GetSize q' = 1 \<and>
    fst (fold q_act regain_sight_sched ([Enqueued True, Dequeued (Some y), p, Dequeued None], q')) =
      [Enqueued True, Dequeued (Some x), Enqueued True, Dequeued (Some z)]"
proof -
  from overlook_run[OF assms, of x y z p0 p1 p2 p3] obtain d n1 n2 q' where
    R: "fold q_act (lost_sight_sched x y z) ([p0, p1, p2, p3], q) = ([Enqueued True, Dequeued (Some y), Enq_tail d, Dequeued None], q')"
    and S: "q_size q' = 1" "addr_of (q_head q') = n2" "addr_of (q_tail q') = n2" "q_next q' n2 = 0" "q_next q' d = n1" "q_next q' n1 = 0"
    "q_data q' d = z" "q_data q' n1 = x" "distinct [0, d, n1, n2]" "unat d < 2 ^ 47" "unat n1 < 2 ^ 47" by blast
  then show ?thesis using regain_run[OF S] by (auto simp: LockFreeQueue_GetSize_def)
qed

theorem queue_dequeue_can_overlook_witness:
  "case fold q_act (lost_sight_sched 5 1 7)
     (replicate 4 (Enqueued False), LockFreeQueue_ctor (\<lambda>_. 0) (\<lambda>_. 0 :: nat) sample_new 2 False) of
   (ps, q) \<Rightarrow> ps ! 0 = Enqueued True \<and> ps ! 1 = Dequeued (Some 1) \<and> ps ! 3 = Dequeued None \<and> LockFreeQueue_GetSize q = 1"
proof -
  have m: "malloc_ok sample_new (Suc 2)" using sample_new_ok by (simp add: numeral_3_eq_3 numeral_2_eq_2)
  have "(2 :: nat) < 2 ^ 62" by simp
  note C = q_ctor[OF m this, of "\<lambda>_. 0" "\<lambda>_. 0 :: nat"]
  have r: "replicate 4 p = [p, p, p, p]" for p :: "nat qpc" by (simp add: eval_nat_numeral)
  obtain p q' where "fold q_act (lost_sight_sched 5 1 7)
      ([Enqueued False, Enqueued False, Enqueued False, Enqueued False], LockFreeQueue_ctor (\<lambda>_. 0) (\<lambda>_. 0 :: nat) sample_new 2 False) =
      ([Enqueued True, Dequeued (Some 1), p, Dequeued None], q')" "LockFreeQueue_GetSize q' = 1"
    using queue_dequeue_can_overlook[OF C order_refl] by blast
  then show ?thesis unfolding r by (simp add: eval_nat_numeral)
qed

end
