(* ===== verification/SessionRef.thy ===== *)
theory SessionRef
  imports Interleave Net
begin

text \<open>
  The reference count of a session, instruction by instruction. The other theories on \<^verbatim>\<open>CNetServer\<close> run
  each handler as one step; here every thread's access to the count, the release flag and the
  session id is a step of its own, and a schedule interleaves the threads. The 64-bit word that
  \<open>releasePend\<close> reads and swaps is the pair of \<^verbatim>\<open>io_count\<close> and \<^verbatim>\<open>release_flag\<close>.

  A thread uses a session in one of three ways: a call that names it by id (\<open>SendPacket\<close>, \<open>DisconnectSession\<close>,
  the time-out scan), a completion of an operation that was started for it, or the accept
  that has just made it.
\<close>

subsection \<open>State and positions\<close>

text \<open>\<open>r_posts\<close> are the release requests in the completion port, \<open>r_ios\<close> the other operations and
  requests that the system owes the session, \<open>r_free\<close> tells whether its index is on the free stack.\<close>

record sref =
  r_io_count :: int
  r_release_flag :: bool
  r_session_id :: u32
  r_posts :: nat
  r_ios :: nat
  r_free :: bool

datatype spc =
    Idle
  | Call_inc u32
  | Call_flag u32
  | Call_id u32
  | Use u32
  | Io_inc u32
  | Io_start u32
  | Io_undo u32
  | Update
  | Pend_read
  | Pend_cas
  | Pend_inc
  | Pend_post
  | Release_clear
  | Release_push
  | Accept_inc
  | Accept_id u32
  | Accept_open u32

text \<open>What the schedule chooses: the next thing an idle thread does; whether a thread that uses the
  session starts another operation or is done; whether an operation that is started stays pending.\<close>

datatype schoice = C_call u32 | C_complete | C_release | C_accept u32 | C_io | C_go

subsection \<open>Steps\<close>

text \<open>\<open>updateIOCount\<close> and \<open>releasePend\<close>; a negative count is the crash.\<close>

definition dec_io :: "spc \<Rightarrow> sref \<Rightarrow> (spc \<times> sref) run" where
  "dec_io p s =
     (let temp = r_io_count s - 1; s = s\<lparr>r_io_count := temp\<rparr>
      in if temp = 0 then Some (Pend_read, s) else if temp < 0 then None else Some (p, s))"

fun release_steps :: "spc \<Rightarrow> sref \<Rightarrow> spc \<times> sref" where
  "release_steps Pend_read s = (if r_io_count s = 0 \<and> \<not> r_release_flag s then Pend_cas else Idle, s)"
| "release_steps Pend_cas s =
     (if r_io_count s = 0 \<and> \<not> r_release_flag s then (Pend_inc, s\<lparr>r_release_flag := True\<rparr>) else (Idle, s))"
| "release_steps Pend_inc s = (Pend_post, s\<lparr>r_io_count := r_io_count s + 1\<rparr>)"
| "release_steps Pend_post s = (Idle, s\<lparr>r_posts := r_posts s + 1\<rparr>)"
| "release_steps Release_clear s = (Release_push, s\<lparr>r_session_id := 0\<rparr>)"
| "release_steps Release_push s = (Update, s\<lparr>r_free := True\<rparr>)"
| "release_steps p s = (p, s)"

fun accept_steps :: "spc \<Rightarrow> u32 \<Rightarrow> sref \<Rightarrow> spc \<times> sref" where
  "accept_steps Accept_inc new_id s = (Accept_id new_id, s\<lparr>r_io_count := r_io_count s + 1\<rparr>)"
| "accept_steps (Accept_id new_id) _ s = (Accept_open new_id, s\<lparr>r_session_id := new_id\<rparr>)"
| "accept_steps (Accept_open new_id) _ s = (Use new_id, s\<lparr>r_release_flag := False\<rparr>)"
| "accept_steps p _ s = (p, s)"

fun idle_steps :: "schoice \<Rightarrow> sref \<Rightarrow> spc \<times> sref" where
  "idle_steps (C_call sid) s = (Call_inc sid, s)"
| "idle_steps C_complete s = (if 0 < r_ios s then (Use (r_session_id s), s\<lparr>r_ios := r_ios s - 1\<rparr>) else (Idle, s))"
| "idle_steps C_release s = (if 0 < r_posts s then (Release_clear, s\<lparr>r_posts := r_posts s - 1\<rparr>) else (Idle, s))"
| "idle_steps (C_accept new_id) s = (if r_free s then (Accept_inc, s\<lparr>r_free := False\<rparr>) else (Idle, s))"
| "idle_steps _ s = (Idle, s)"

fun use_steps :: "schoice \<Rightarrow> spc \<Rightarrow> sref \<Rightarrow> spc \<times> sref" where
  "use_steps ch (Call_inc sid) s = (Call_flag sid, s\<lparr>r_io_count := r_io_count s + 1\<rparr>)"
| "use_steps ch (Call_flag sid) s = (if r_release_flag s then Update else Call_id sid, s)"
| "use_steps ch (Call_id sid) s = (if r_session_id s = sid then Use sid else Update, s)"
| "use_steps ch (Use sid) s = (if ch = C_io then Io_inc sid else Update, s)"
| "use_steps ch (Io_inc sid) s = (Io_start sid, s\<lparr>r_io_count := r_io_count s + 1\<rparr>)"
| "use_steps ch (Io_start sid) s = (if ch = C_io then (Use sid, s\<lparr>r_ios := r_ios s + 1\<rparr>) else (Io_undo sid, s))"
| "use_steps ch p s = (p, s)"

definition sref_step :: "schoice \<Rightarrow> spc \<Rightarrow> sref \<Rightarrow> (spc \<times> sref) run" where
  "sref_step ch p s =
     (case p of
        Idle \<Rightarrow> Some (idle_steps ch s)
      | Update \<Rightarrow> dec_io Idle s
      | Io_undo sid \<Rightarrow> dec_io (Use sid) s
      | Pend_read \<Rightarrow> Some (release_steps p s)
      | Pend_cas \<Rightarrow> Some (release_steps p s)
      | Pend_inc \<Rightarrow> Some (release_steps p s)
      | Pend_post \<Rightarrow> Some (release_steps p s)
      | Release_clear \<Rightarrow> Some (release_steps p s)
      | Release_push \<Rightarrow> Some (release_steps p s)
      | Accept_inc \<Rightarrow> Some (accept_steps p (case ch of C_accept new_id \<Rightarrow> new_id | _ \<Rightarrow> 0) s)
      | Accept_id _ \<Rightarrow> Some (accept_steps p 0 s)
      | Accept_open _ \<Rightarrow> Some (accept_steps p 0 s)
      | _ \<Rightarrow> Some (use_steps ch p s))"

fun sref_run :: "(nat \<times> schoice) list \<Rightarrow> spc list \<times> sref \<Rightarrow> (spc list \<times> sref) run" where
  "sref_run [] c = Some c"
| "sref_run ((t, ch) # sched) (ps, s) =
     (if t < length ps then
        (case sref_step ch (ps ! t) s of None \<Rightarrow> None | Some (p, s) \<Rightarrow> sref_run sched (ps[t := p], s))
      else sref_run sched (ps, s))"

text \<open>A session as \<open>Start\<close> makes it.\<close>

definition sref_init :: sref where
  "sref_init = \<lparr>r_io_count = 0, r_release_flag = True, r_session_id = 0, r_posts = 0, r_ios = 0, r_free = True\<rparr>"

subsection \<open>Invariant\<close>

text \<open>The counts a thread holds; whether it holds the duty to release or to reopen the session; whether it is
  about to look whether it has to release it.\<close>

fun pins :: "spc \<Rightarrow> nat" where
  "pins (Call_flag _) = 1"
| "pins (Call_id _) = 1"
| "pins (Use _) = 1"
| "pins (Io_inc _) = 1"
| "pins (Io_start _) = 2"
| "pins (Io_undo _) = 2"
| "pins Update = 1"
| "pins Pend_post = 1"
| "pins Release_clear = 1"
| "pins Release_push = 1"
| "pins (Accept_id _) = 1"
| "pins (Accept_open _) = 1"
| "pins _ = 0"

fun duty :: "spc \<Rightarrow> nat" where
  "duty Pend_inc = 1"
| "duty Pend_post = 1"
| "duty Release_clear = 1"
| "duty Release_push = 1"
| "duty Accept_inc = 1"
| "duty (Accept_id _) = 1"
| "duty (Accept_open _) = 1"
| "duty _ = 0"

fun looks :: "spc \<Rightarrow> nat" where
  "looks Pend_read = 1"
| "looks Pend_cas = 1"
| "looks _ = 0"

fun in_use :: "spc \<Rightarrow> u32 option" where
  "in_use (Use sid) = Some sid"
| "in_use (Io_inc sid) = Some sid"
| "in_use (Io_start sid) = Some sid"
| "in_use (Io_undo sid) = Some sid"
| "in_use _ = None"

fun spc_ok :: "sref \<Rightarrow> spc \<Rightarrow> bool" where
  "spc_ok s (Call_id _) \<longleftrightarrow> \<not> r_release_flag s"
| "spc_ok s (Accept_open sid) \<longleftrightarrow> r_session_id s = sid"
| "spc_ok s p \<longleftrightarrow> (\<forall>sid. in_use p = Some sid \<longrightarrow> \<not> r_release_flag s \<and> r_session_id s = sid)"

definition sref_ok :: "spc list \<Rightarrow> sref \<Rightarrow> bool" where
  "sref_ok ps s \<longleftrightarrow>
     r_io_count s = int (sum_list (map pins ps) + r_posts s + r_ios s) \<and>
     sum_list (map duty ps) + r_posts s + of_bool (r_free s) = of_bool (r_release_flag s) \<and>
     (0 < r_ios s \<longrightarrow> \<not> r_release_flag s) \<and>
     (\<not> r_release_flag s \<and> r_io_count s = 0 \<longrightarrow> 0 < sum_list (map looks ps)) \<and>
     (\<forall>p \<in> set ps. spc_ok s p)"

text \<open>The same from the point of view of a thread at \<open>p\<close>; \<open>ps\<close> are the others.\<close>

definition sref_view :: "spc \<Rightarrow> spc list \<Rightarrow> sref \<Rightarrow> bool" where
  "sref_view p ps s \<longleftrightarrow>
     r_io_count s = int (pins p + sum_list (map pins ps) + r_posts s + r_ios s) \<and>
     duty p + sum_list (map duty ps) + r_posts s + of_bool (r_free s) = of_bool (r_release_flag s) \<and>
     (0 < r_ios s \<longrightarrow> \<not> r_release_flag s) \<and>
     (\<not> r_release_flag s \<and> r_io_count s = 0 \<longrightarrow> 0 < looks p + sum_list (map looks ps)) \<and>
     spc_ok s p \<and> (\<forall>q \<in> set ps. spc_ok s q)"

lemma sref_ok_view:
  assumes "t < length ps"
  shows "sref_ok ps s \<longleftrightarrow> sref_view (ps ! t) (other_threads t ps) s"
  unfolding sref_ok_def sref_view_def sum_list_split[OF assms, of pins] sum_list_split[OF assms, of duty]
    sum_list_split[OF assms, of looks] set_split[OF assms]
  by (simp add: add.assoc)

lemma member_le_sum: "q \<in> set ps \<Longrightarrow> f q \<le> sum_list (map f ps)" for f :: "'b \<Rightarrow> nat"
  by (induction ps) auto

text \<open>What keeps the knowledge of the other threads.\<close>

lemma spc_ok_stable:
  assumes "spc_ok s q" and "pins q = 0 \<or> r_release_flag s \<or> r_release_flag s' = r_release_flag s"
    and "duty q = 0 \<and> r_release_flag s \<or> r_session_id s' = r_session_id s"
  shows "spc_ok s' q"
  using assms by (cases q) auto

lemma sref_viewI:
  assumes old: "sref_view p ps s"
    and "r_io_count s' = int (pins p' + sum_list (map pins ps) + r_posts s' + r_ios s')"
    and "duty p' + sum_list (map duty ps) + r_posts s' + of_bool (r_free s') = of_bool (r_release_flag s')"
    and "0 < r_ios s' \<Longrightarrow> \<not> r_release_flag s'"
    and "\<not> r_release_flag s' \<Longrightarrow> r_io_count s' = 0 \<Longrightarrow> 0 < looks p' + sum_list (map looks ps)"
    and "spc_ok s' p'"
    and "sum_list (map pins ps) = 0 \<or> r_release_flag s \<or> r_release_flag s' = r_release_flag s"
    and "sum_list (map duty ps) = 0 \<and> r_release_flag s \<or> r_session_id s' = r_session_id s"
  shows "sref_view p' ps s'"
proof -
  have "spc_ok s' q" if q: "q \<in> set ps" for q
  proof (rule spc_ok_stable)
    show "spc_ok s q" using old q by (simp add: sref_view_def)
    show "pins q = 0 \<or> r_release_flag s \<or> r_release_flag s' = r_release_flag s"
      using assms(7) member_le_sum[OF q, of pins] by (auto simp del: sum_list_eq_0_iff)
    show "duty q = 0 \<and> r_release_flag s \<or> r_session_id s' = r_session_id s"
      using assms(8) member_le_sum[OF q, of duty] by (auto simp del: sum_list_eq_0_iff)
  qed
  then show ?thesis using assms(2-6) by (simp add: sref_view_def)
qed

lemma sref_step_ok:
  assumes old: "sref_view p ps s"
  shows "\<exists>p' s'. sref_step ch p s = Some (p', s') \<and> sref_view p' ps s'"
proof -
  have A: "r_io_count s = int (pins p + sum_list (map pins ps) + r_posts s + r_ios s)"
    "duty p + sum_list (map duty ps) + r_posts s + of_bool (r_free s) = of_bool (r_release_flag s)"
    "0 < r_ios s \<Longrightarrow> \<not> r_release_flag s"
    "\<not> r_release_flag s \<Longrightarrow> r_io_count s = 0 \<Longrightarrow> 0 < looks p + sum_list (map looks ps)" "spc_ok s p"
    using old by (simp_all add: sref_view_def)
  have B: "sum_list (map duty ps) = 0 \<and> r_posts s = 0 \<and> \<not> r_free s \<and> r_release_flag s" if "duty p = 1"
    using A(2) that by (cases "r_release_flag s"; cases "r_free s") (simp_all del: sum_list_eq_0_iff)
  show ?thesis
  proof (cases p)
    case Idle
    then show ?thesis using A
      by (cases ch) (auto simp: sref_step_def intro!: sref_viewI[OF old] split: if_splits simp del: sum_list_eq_0_iff)
  next
    case (Call_inc sid)
    then show ?thesis using A B by (auto simp: sref_step_def intro!: sref_viewI[OF old] simp del: sum_list_eq_0_iff)
  next
    case (Call_flag sid)
    then show ?thesis using A B by (auto simp: sref_step_def intro!: sref_viewI[OF old] simp del: sum_list_eq_0_iff)
  next
    case (Call_id sid)
    then show ?thesis using A B by (auto simp: sref_step_def intro!: sref_viewI[OF old] simp del: sum_list_eq_0_iff)
  next
    case (Use sid)
    then show ?thesis using A B by (auto simp: sref_step_def intro!: sref_viewI[OF old] simp del: sum_list_eq_0_iff)
  next
    case (Io_inc sid)
    then show ?thesis using A B by (auto simp: sref_step_def intro!: sref_viewI[OF old] simp del: sum_list_eq_0_iff)
  next
    case (Io_start sid)
    then show ?thesis using A B by (auto simp: sref_step_def intro!: sref_viewI[OF old] simp del: sum_list_eq_0_iff)
  next
    case (Io_undo sid)
    then show ?thesis using A B by (auto simp: sref_step_def dec_io_def Let_def intro!: sref_viewI[OF old] simp del: sum_list_eq_0_iff)
  next
    case Update
    then show ?thesis using A B by (auto simp: sref_step_def dec_io_def Let_def intro!: sref_viewI[OF old] simp del: sum_list_eq_0_iff)
  next
    case Pend_read
    then show ?thesis using A B by (auto simp: sref_step_def intro!: sref_viewI[OF old] simp del: sum_list_eq_0_iff)
  next
    case Pend_cas
    then show ?thesis using A B by (auto simp: sref_step_def intro!: sref_viewI[OF old] simp del: sum_list_eq_0_iff)
  next
    case Pend_inc
    then show ?thesis using A B by (auto simp: sref_step_def intro!: sref_viewI[OF old] split: if_splits simp del: sum_list_eq_0_iff)
  next
    case Pend_post
    then show ?thesis using A B by (auto simp: sref_step_def intro!: sref_viewI[OF old] split: if_splits simp del: sum_list_eq_0_iff)
  next
    case Release_clear
    then show ?thesis using A B by (auto simp: sref_step_def intro!: sref_viewI[OF old] split: if_splits simp del: sum_list_eq_0_iff)
  next
    case Release_push
    then show ?thesis using A B by (auto simp: sref_step_def intro!: sref_viewI[OF old] split: if_splits simp del: sum_list_eq_0_iff)
  next
    case Accept_inc
    then show ?thesis using A B by (auto simp: sref_step_def intro!: sref_viewI[OF old] split: if_splits simp del: sum_list_eq_0_iff)
  next
    case (Accept_id sid)
    then show ?thesis using A B by (auto simp: sref_step_def intro!: sref_viewI[OF old] split: if_splits simp del: sum_list_eq_0_iff)
  next
    case (Accept_open sid)
    then show ?thesis using A B by (auto simp: sref_step_def intro!: sref_viewI[OF old] split: if_splits simp del: sum_list_eq_0_iff)
  qed
qed

lemma sref_run_ok: "sref_ok ps s \<Longrightarrow> \<exists>ps' s'. sref_run sched (ps, s) = Some (ps', s') \<and> sref_ok ps' s' \<and> length ps' = length ps"
proof (induction sched arbitrary: ps s)
  case (Cons a sched)
  obtain t ch where a: "a = (t, ch)" by (cases a)
  show ?case
  proof (cases "t < length ps")
    case True
    obtain p' s' where step: "sref_step ch (ps ! t) s = Some (p', s')" "sref_view p' (other_threads t ps) s'"
      using sref_step_ok[OF Cons.prems[unfolded sref_ok_view[OF True]]] by blast
    have "sref_ok (ps[t := p']) s'" using sref_ok_view[of t "ps[t := p']" s'] step(2) True by (simp add: other_threads_update)
    then show ?thesis using Cons.IH[of "ps[t := p']" s'] step(1) True a by auto
  qed (use Cons a in auto)
qed auto

lemma sref_init_ok: "sref_ok (replicate n Idle) sref_init"
proof -
  have "sum_list (map f (replicate n Idle)) = 0" if "f Idle = (0 :: nat)" for f
    by (rule sum_list_all_zero) (use that in auto)
  then show ?thesis by (simp add: sref_ok_def sref_init_def)
qed

subsection \<open>Properties\<close>

text \<open>
  C8. The reference counting of sessions is safe under every interleaving of the threads' atomic accesses. The
  count never goes below zero. While a thread uses a session that it found by its id, the
  session is not released and not given to another client. At every moment the duty to release or to reopen a
  released session is in exactly one place (a thread, one request in the completion port, or the
  free stack), so a session is released once. And when no thread is at work and nothing is
  outstanding, the index is on the free stack: no session is lost.
\<close>

theorem session_reference_count_safe:
  "\<exists>ps s. sref_run sched (replicate n Idle, sref_init) = Some (ps, s) \<and>
    0 \<le> r_io_count s \<and>
    (\<forall>p \<in> set ps. \<forall>sid. in_use p = Some sid \<longrightarrow> \<not> r_release_flag s \<and> r_session_id s = sid) \<and>
    sum_list (map duty ps) + r_posts s + of_bool (r_free s) = of_bool (r_release_flag s) \<and>
    (set ps \<subseteq> {Idle} \<and> r_ios s = 0 \<and> r_posts s = 0 \<longrightarrow> r_free s)"
proof -
  obtain ps s where run: "sref_run sched (replicate n Idle, sref_init) = Some (ps, s)" and ok: "sref_ok ps s"
    using sref_run_ok[OF sref_init_ok] by blast
  have use: "\<not> r_release_flag s \<and> r_session_id s = sid" if "p \<in> set ps" "in_use p = Some sid" for p sid
  proof -
    have "spc_ok s p" using ok that(1) by (simp add: sref_ok_def)
    then show ?thesis using that(2) by (cases p) auto
  qed
  have free: "r_free s" if "set ps \<subseteq> {Idle}" "r_ios s = 0" "r_posts s = 0"
  proof -
    have "sum_list (map pins ps) = 0" "sum_list (map duty ps) = 0" "sum_list (map looks ps) = 0"
      by (rule sum_list_all_zero; use that(1) in auto)+
    then show ?thesis using ok that(2,3) unfolding sref_ok_def by (cases "r_free s"; cases "r_release_flag s") simp_all
  qed
  show ?thesis using run ok use free unfolding sref_ok_def by auto
qed

text \<open>Two threads race to release: the accept's own count and the last completion go at the same time as a call with
  the id.\<close>

definition race_sched :: "(nat \<times> schoice) list" where
  "race_sched = [(0, C_accept 7), (0, C_accept 7), (0, C_go), (0, C_go), (1, C_call 7), (1, C_go), (0, C_go), (0, C_go),
     (1, C_go), (1, C_go), (0, C_go), (1, C_go), (1, C_go), (1, C_go), (1, C_go), (1, C_go), (1, C_go), (1, C_go), (2, C_release), (2, C_go), (2, C_go),
     (2, C_go), (2, C_go)]"

theorem session_reference_count_safe_witness:
  "\<exists>s. sref_run race_sched (replicate 3 Idle, sref_init) = Some ([Idle, Idle, Idle], s) \<and> r_free s \<and> 0 \<le> r_io_count s"
proof -
  have "map_option (\<lambda>(ps, s). (ps, r_ios s, r_posts s)) (sref_run race_sched (replicate 3 Idle, sref_init)) =
      Some ([Idle, Idle, Idle], 0, 0)"
    by code_simp
  then obtain s where s: "sref_run race_sched (replicate 3 Idle, sref_init) = Some ([Idle, Idle, Idle], s)" "r_ios s = 0" "r_posts s = 0"
    by auto
  with session_reference_count_safe[of race_sched 3] show ?thesis by auto
qed

end
