(* ===== verification/SessionRefNet.thy ===== *)
theory SessionRefNet
  imports SessionRef ServerProps
begin

text \<open>The reference count of the one-step server model and of the interleaved one agree.\<close>

text \<open>The view of a session of the server as a counted reference; \<open>k\<close> operations are outstanding.\<close>

definition sref_of :: "nat \<Rightarrow> nat \<Rightarrow> 'a net_scheme \<Rightarrow> sref" where
  "sref_of k i st = \<lparr>r_io_count = s_io_count (sess st i), r_release_flag = s_release_flag (sess st i),
     r_session_id = s_session_id (sess st i), r_posts = count_list (n_posts st) (Post i RELEASE_PEND), r_ios = k,
     r_free = (of_nat i \<in> set (n_empty st))\<rparr>"

fun sref_alone :: "nat \<Rightarrow> spc \<times> sref \<Rightarrow> (spc \<times> sref) run" where
  "sref_alone 0 c = Some c"
| "sref_alone (Suc n) (p, s) = (case sref_step C_go p s of None \<Rightarrow> None | Some c \<Rightarrow> sref_alone n c)"

text \<open>
  A check of the two models against each other: the one-step \<open>updateIOCount\<close> of the server model is what the atomic steps do when no
  other thread comes between.
\<close>

lemma updateIOCount_is_its_steps:
  assumes "i < length (n_sessions st)"
  shows "map_option (\<lambda>(_, st'). (Idle, sref_of k i st')) (CNetServer_updateIOCount i st) =
    sref_alone 5 (Update, sref_of k i st)"
  using assms
  by (auto simp: eval_nat_numeral sref_step_def dec_io_def Let_def CNetServer_updateIOCount_def CNetServer_releasePend_def
      sref_of_def upd_sess_def post_def io_inc_def)

end
