(* ===== verification/ObjPool.thy ===== *)
theory ObjPool
  imports PoolSpec
begin

text \<open>
  \<^verbatim>\<open>ObjectPool.h\<close>: a pool that doubles when all its objects are out. As in the model of
  \<^verbatim>\<open>MemoryPoolTls\<close> the free list is the list of its blocks, the constructor's indeterminate
  \<open>top\<close> is the empty list, following it is the failure \<open>None\<close>, and new blocks are numbered from \<open>op_fresh\<close> on. The
  calls are not synchronised by the class; its users call them under \<open>Lock\<close>. The capacity and the use count are of
  type \<^verbatim>\<open>int\<close>: doubling a capacity of \<open>2 ^ 30\<close> or more overflows, and the array of the negative size that follows cannot be
  made, so \<open>Alloc\<close> ends the process there.
\<close>

definition PAD :: u32 where "PAD = 0xABCDABCD"

record objpool =
  op_top :: "addr list"
  op_capacity :: int
  op_use_count :: int
  op_pool :: "addr list"
  op_placement_new :: bool
  op_front_pad :: "addr \<Rightarrow> u32"
  op_back_pad :: "addr \<Rightarrow> u32"
  op_fresh :: addr

text \<open>The loop of the constructor and of \<open>Alloc\<close>: \<open>n\<close> new blocks, each entered in the array and put on the top.\<close>

fun ObjectPool_make :: "nat \<Rightarrow> objpool \<Rightarrow> objpool" where
  "ObjectPool_make 0 p = p"
| "ObjectPool_make (Suc n) p =
     (let temp = op_fresh p
      in ObjectPool_make n (p\<lparr>op_front_pad := (op_front_pad p)(temp := PAD), op_back_pad := (op_back_pad p)(temp := PAD),
           op_top := temp # op_top p, op_pool := op_pool p @ [temp], op_fresh := temp + 1\<rparr>))"

definition ObjectPool_ctor :: "(addr \<Rightarrow> u32) \<Rightarrow> int \<Rightarrow> bool \<Rightarrow> objpool" where
  "ObjectPool_ctor mem capacity placement_new =
     ObjectPool_make (nat capacity)
       \<lparr>op_top = [], op_capacity = capacity, op_use_count = 0, op_pool = [], op_placement_new = placement_new,
        op_front_pad = mem, op_back_pad = mem, op_fresh = 1\<rparr>"

definition ObjectPool_Alloc :: "objpool \<Rightarrow> (addr \<times> objpool) run" where
  "ObjectPool_Alloc p =
     (if op_use_count p = op_capacity p \<and> 2 ^ 31 \<le> op_capacity p * 2 then None
      else let p = (if op_use_count p = op_capacity p then
                 let new_capa = op_capacity p * 2
                 in (ObjectPool_make (nat (new_capa - op_capacity p)) p)\<lparr>op_capacity := new_capa\<rparr>
               else p)
      in case op_top p of
           [] \<Rightarrow> None
         | ret # rest \<Rightarrow> Some (ret, p\<lparr>op_top := rest, op_use_count := op_use_count p + 1\<rparr>))"

definition ObjectPool_Free :: "addr \<Rightarrow> objpool \<Rightarrow> (bool \<times> objpool) run" where
  "ObjectPool_Free data p =
     (if op_front_pad p data \<noteq> PAD \<or> op_back_pad p data \<noteq> PAD then None
      else Some (True, p\<lparr>op_top := data # op_top p, op_use_count := op_use_count p - 1\<rparr>))"

definition ObjectPool_GetCapacity :: "objpool \<Rightarrow> int" where
  "ObjectPool_GetCapacity p = op_capacity p"

definition ObjectPool_GetUseCount :: "objpool \<Rightarrow> int" where
  "ObjectPool_GetUseCount p = op_use_count p"

text \<open>The blocks that the destructor gives back to the system.\<close>

definition ObjectPool_dtor :: "objpool \<Rightarrow> addr list" where
  "ObjectPool_dtor p = take (nat (op_capacity p)) (op_pool p)"

subsection \<open>Invariant\<close>

definition op_inv :: "objpool \<Rightarrow> addr set \<Rightarrow> bool" where
  "op_inv p L \<longleftrightarrow> 0 < op_capacity p \<and> int (length (op_pool p)) = op_capacity p \<and> distinct (op_pool p) \<and>
     (\<forall>a \<in> set (op_pool p). 0 < a \<and> a < op_fresh p \<and> op_front_pad p a = PAD \<and> op_back_pad p a = PAD) \<and>
     distinct (op_top p) \<and> set (op_top p) \<inter> L = {} \<and> set (op_top p) \<union> L = set (op_pool p) \<and>
     op_use_count p = int (card L) \<and> 0 < op_fresh p"

text \<open>The part of the invariant that holds while blocks are being made.\<close>

definition op_blocks :: "objpool \<Rightarrow> bool" where
  "op_blocks p \<longleftrightarrow> distinct (op_pool p) \<and> distinct (op_top p) \<and> 0 < op_fresh p \<and> set (op_top p) \<subseteq> set (op_pool p) \<and>
     (\<forall>a \<in> set (op_pool p). 0 < a \<and> a < op_fresh p \<and> op_front_pad p a = PAD \<and> op_back_pad p a = PAD)"

lemma ObjectPool_make_ok:
  assumes "op_blocks p"
  shows "op_blocks (ObjectPool_make n p) \<and> length (op_pool (ObjectPool_make n p)) = length (op_pool p) + n \<and>
    length (op_top (ObjectPool_make n p)) = length (op_top p) + n \<and>
    set (op_pool (ObjectPool_make n p)) - set (op_top (ObjectPool_make n p)) = set (op_pool p) - set (op_top p) \<and>
    op_use_count (ObjectPool_make n p) = op_use_count p \<and> op_capacity (ObjectPool_make n p) = op_capacity p"
  using assms
proof (induction n arbitrary: p)
  case (Suc n)
  let ?t = "op_fresh p"
  let ?p = "p\<lparr>op_front_pad := (op_front_pad p)(?t := PAD), op_back_pad := (op_back_pad p)(?t := PAD),
     op_top := ?t # op_top p, op_pool := op_pool p @ [?t], op_fresh := ?t + 1\<rparr>"
  have new: "?t \<notin> set (op_pool p)" "?t \<notin> set (op_top p)" using Suc.prems by (auto simp: op_blocks_def)
  have "op_blocks ?p" using Suc.prems new by (auto simp: op_blocks_def)
  from Suc.IH[OF this] new show ?case by (auto simp: Let_def)
qed simp

lemma op_inv_blocks:
  "op_inv p L \<longleftrightarrow> op_blocks p \<and> 0 < op_capacity p \<and> int (length (op_pool p)) = op_capacity p \<and>
     L = set (op_pool p) - set (op_top p) \<and> op_use_count p = int (card L)"
  unfolding op_inv_def op_blocks_def by blast

lemma card_out:
  assumes "op_blocks p"
  shows "card (set (op_pool p) - set (op_top p)) + length (op_top p) = length (op_pool p)"
proof -
  have "card (set (op_pool p) - set (op_top p)) = card (set (op_pool p)) - card (set (op_top p))"
    using assms by (intro card_Diff_subset) (auto simp: op_blocks_def)
  moreover have "card (set (op_top p)) \<le> card (set (op_pool p))"
    using assms by (intro card_mono) (auto simp: op_blocks_def)
  ultimately show ?thesis using assms by (simp add: op_blocks_def distinct_card)
qed

lemma op_take:
  assumes "op_inv p L" and "op_top p = a # rest"
  shows "a \<noteq> 0" and "a \<notin> L" and "op_inv (p\<lparr>op_top := rest, op_use_count := op_use_count p + 1\<rparr>) (insert a L)"
proof -
  have B: "op_blocks p" "L = set (op_pool p) - set (op_top p)" "op_use_count p = int (card L)"
    using assms(1) by (auto simp: op_inv_blocks)
  then show a: "a \<noteq> 0" "a \<notin> L" using assms(2) by (auto simp: op_blocks_def)
  have "finite L" using B(2) by simp
  then have "card (insert a L) = card L + 1" using a(2) by simp
  then show "op_inv (p\<lparr>op_top := rest, op_use_count := op_use_count p + 1\<rparr>) (insert a L)"
    using assms B by (auto simp: op_inv_blocks op_blocks_def)
qed

text \<open>All objects are out and the pool cannot double.\<close>

definition op_full :: "objpool \<Rightarrow> bool" where
  "op_full p \<longleftrightarrow> op_use_count p = op_capacity p \<and> 2 ^ 31 \<le> op_capacity p * 2"

lemma ObjectPool_Alloc_full: "op_full p \<Longrightarrow> ObjectPool_Alloc p = None"
  by (simp add: ObjectPool_Alloc_def op_full_def)

lemma ObjectPool_Alloc_ok:
  assumes inv: "op_inv p L" and go: "\<not> op_full p"
  shows "\<exists>a p'. ObjectPool_Alloc p = Some (a, p') \<and> a \<noteq> 0 \<and> a \<notin> L \<and> op_inv p' (insert a L)"
proof -
  let ?n = "nat (op_capacity p * 2 - op_capacity p)"
  let ?g = "(ObjectPool_make ?n p)\<lparr>op_capacity := op_capacity p * 2\<rparr>"
  define q where "q = (if op_use_count p = op_capacity p then ?g else p)"
  have B: "op_blocks p" "0 < op_capacity p" "int (length (op_pool p)) = op_capacity p" "L = set (op_pool p) - set (op_top p)"
    "op_use_count p = int (card L)" using inv by (auto simp: op_inv_blocks)
  have room: "op_inv q L \<and> op_top q \<noteq> []"
  proof (cases "op_use_count p = op_capacity p")
    case True
    note M = ObjectPool_make_ok[OF B(1), of ?n]
    have "op_blocks ?g" using M by (simp add: op_blocks_def)
    then have "op_inv ?g L" using M B by (auto simp: op_inv_blocks)
    moreover have "op_top ?g \<noteq> []" using M B(2) by (auto simp flip: length_0_conv)
    ultimately show ?thesis using True by (simp add: q_def)
  next
    case False
    then have "op_top p \<noteq> []" using card_out[OF B(1)] B(3-5) by auto
    then show ?thesis using False inv by (simp add: q_def)
  qed
  then obtain a rest where top: "op_top q = a # rest" by (cases "op_top q") auto
  have "ObjectPool_Alloc p = Some (a, q\<lparr>op_top := rest, op_use_count := op_use_count q + 1\<rparr>)"
    unfolding ObjectPool_Alloc_def Let_def q_def[symmetric] using top go by (simp add: op_full_def)
  then show ?thesis using op_take[of q L a rest] room top by blast
qed

lemma ObjectPool_Free_ok:
  assumes "op_inv p L" and "a \<in> L"
  shows "\<exists>p'. ObjectPool_Free a p = Some (True, p') \<and> op_inv p' (L - {a})"
proof -
  have B: "op_blocks p" "0 < op_capacity p" "int (length (op_pool p)) = op_capacity p" "L = set (op_pool p) - set (op_top p)"
    "op_use_count p = int (card L)" using assms(1) by (auto simp: op_inv_blocks)
  have a: "a \<in> set (op_pool p)" "a \<notin> set (op_top p)" using assms(2) B(4) by auto
  have "finite L" using B(4) by simp
  then have "0 < card L" "card (L - {a}) = card L - 1" using assms(2) by (auto simp: card_gt_0_iff)
  then have "op_inv (p\<lparr>op_top := a # op_top p, op_use_count := op_use_count p - 1\<rparr>) (L - {a})"
    using B a by (auto simp: op_inv_blocks op_blocks_def)
  moreover have "op_front_pad p a = PAD" "op_back_pad p a = PAD" using B(1) a(1) by (auto simp: op_blocks_def)
  ultimately show ?thesis by (simp add: ObjectPool_Free_def)
qed

interpretation objects: limited_pool op_inv op_full "\<lambda>t. ObjectPool_Alloc" "\<lambda>t. ObjectPool_Free"
  by unfold_locales (use ObjectPool_Alloc_ok ObjectPool_Alloc_full ObjectPool_Free_ok in blast)+

lemma ObjectPool_ctor_inv:
  assumes "0 < capacity"
  shows "op_inv (ObjectPool_ctor mem capacity placement_new) {}"
proof -
  let ?p0 = "\<lparr>op_top = [], op_capacity = capacity, op_use_count = 0, op_pool = [], op_placement_new = placement_new,
        op_front_pad = mem, op_back_pad = mem, op_fresh = 1\<rparr>"
  have "op_blocks ?p0" by (simp add: op_blocks_def)
  note M = ObjectPool_make_ok[OF this, of "nat capacity"]
  show ?thesis using M assms unfolding op_inv_blocks ObjectPool_ctor_def by auto
qed

text \<open>
  C29. An \<open>ObjectPool\<close> made for at least one object never hands out an object that is out, through any
  number of doublings, and it fails only at an \<open>Alloc\<close> that comes when \<open>2 ^ 30\<close> objects or more are out and are all it has
  (there the doubled capacity no longer fits an \<^verbatim>\<open>int\<close>, and every such call fails). Otherwise \<open>GetUseCount\<close> counts the objects
  that are out, and the destructor gives back every
  block that was ever made, each once. (Made for none, it follows the indeterminate top on the first call.)
\<close>

theorem object_pool_never_shares:
  assumes "0 < capacity" and "capacity < 2 ^ 31"
    and "pool_client (\<lambda>t. ObjectPool_Alloc) (\<lambda>t. ObjectPool_Free) ops (ObjectPool_ctor mem capacity pn) {}"
  shows "case pool_run (\<lambda>t. ObjectPool_Alloc) (\<lambda>t. ObjectPool_Free) ops (ObjectPool_ctor mem capacity pn) {} of
      Some (p, L) \<Rightarrow> ObjectPool_GetUseCount p = int (card L) \<and> distinct (ObjectPool_dtor p) \<and>
        set (ObjectPool_dtor p) = L \<union> set (op_top p) \<and> int (length (ObjectPool_dtor p)) = ObjectPool_GetCapacity p \<and>
        ObjectPool_Alloc (ObjectPool_ctor mem 0 pn) = None
    | None \<Rightarrow> \<exists>ops1 t ops2 p L. ops = ops1 @ Alloc t # ops2 \<and>
        pool_run (\<lambda>t. ObjectPool_Alloc) (\<lambda>t. ObjectPool_Free) ops1 (ObjectPool_ctor mem capacity pn) {} = Some (p, L) \<and>
        2 ^ 30 \<le> card L \<and> ObjectPool_GetCapacity p = int (card L) \<and> ObjectPool_Alloc p = None"
proof -
  have none: "ObjectPool_Alloc (ObjectPool_ctor mem 0 pn) = None" by (simp add: ObjectPool_Alloc_def ObjectPool_ctor_def)
  have cnt: "op_use_count p = int (card L)" if "op_inv p L" for p L using that by (simp add: op_inv_def)
  have gone: "distinct (ObjectPool_dtor p)" "set (ObjectPool_dtor p) = L \<union> set (op_top p)"
    "int (length (ObjectPool_dtor p)) = op_capacity p" if "op_inv p L" for p L
  proof -
    have len: "int (length (op_pool p)) = op_capacity p" using that by (simp add: op_inv_def)
    then have d: "ObjectPool_dtor p = op_pool p" by (auto simp: ObjectPool_dtor_def)
    show "distinct (ObjectPool_dtor p)" "set (ObjectPool_dtor p) = L \<union> set (op_top p)"
      "int (length (ObjectPool_dtor p)) = op_capacity p"
      unfolding d using that by (auto simp: op_inv_def)
  qed
  have full: "2 ^ 30 \<le> card L \<and> op_capacity p = int (card L)" if "op_inv p L" "op_full p" for p L
    using cnt[OF that(1)] that(2) by (simp add: op_full_def)
  let ?run = "\<lambda>ops. pool_run (\<lambda>t. ObjectPool_Alloc) (\<lambda>t. ObjectPool_Free) ops (ObjectPool_ctor mem capacity pn) {}"
  note R = objects.run_or_full[OF ObjectPool_ctor_inv[OF assms(1)] assms(3)]
  show ?thesis
    unfolding ObjectPool_GetUseCount_def ObjectPool_GetCapacity_def
  proof (cases "?run ops")
    case None
    with R obtain ops1 t ops2 p L where S: "ops = ops1 @ Alloc t # ops2" "?run ops1 = Some (p, L)" and F: "op_inv p L" "op_full p"
      by auto
    show "case ?run ops of
        Some (p, L) \<Rightarrow> op_use_count p = int (card L) \<and> distinct (ObjectPool_dtor p) \<and>
          set (ObjectPool_dtor p) = L \<union> set (op_top p) \<and> int (length (ObjectPool_dtor p)) = op_capacity p \<and>
          ObjectPool_Alloc (ObjectPool_ctor mem 0 pn) = None
      | None \<Rightarrow> \<exists>ops1 t ops2 p L. ops = ops1 @ Alloc t # ops2 \<and> ?run ops1 = Some (p, L) \<and>
          2 ^ 30 \<le> card L \<and> op_capacity p = int (card L) \<and> ObjectPool_Alloc p = None"
      unfolding None option.case using S full[OF F] ObjectPool_Alloc_full[OF F(2)] by blast
  next
    case (Some r)
    with R obtain p L where S: "?run ops = Some (p, L)" "op_inv p L" by auto
    show "case ?run ops of
        Some (p, L) \<Rightarrow> op_use_count p = int (card L) \<and> distinct (ObjectPool_dtor p) \<and>
          set (ObjectPool_dtor p) = L \<union> set (op_top p) \<and> int (length (ObjectPool_dtor p)) = op_capacity p \<and>
          ObjectPool_Alloc (ObjectPool_ctor mem 0 pn) = None
      | None \<Rightarrow> \<exists>ops1 t ops2 p L. ops = ops1 @ Alloc t # ops2 \<and> ?run ops1 = Some (p, L) \<and>
          2 ^ 30 \<le> card L \<and> op_capacity p = int (card L) \<and> ObjectPool_Alloc p = None"
      unfolding S(1) option.case prod.case using cnt[OF S(2)] gone[OF S(2)] none by blast
  qed
qed

theorem object_pool_never_shares_witness:
  "case pool_run (\<lambda>t. ObjectPool_Alloc) (\<lambda>t. ObjectPool_Free) [Alloc 1, Alloc 1, Alloc 2, Free 2 1, Alloc 1]
     (ObjectPool_ctor (\<lambda>_. 0) 1 False) {} of None \<Rightarrow> False | Some (p, L) \<Rightarrow> ObjectPool_GetUseCount p = int (card L)"
proof -
  let ?ops = "[Alloc 1, Alloc 1, Alloc 2, Free 2 1, Alloc 1]"
  have c: "pool_client (\<lambda>t. ObjectPool_Alloc) (\<lambda>t. ObjectPool_Free) ?ops (ObjectPool_ctor (\<lambda>_. 0) 1 False) {}"
    by code_simp
  have "map_option snd (pool_run (\<lambda>t. ObjectPool_Alloc) (\<lambda>t. ObjectPool_Free) ?ops (ObjectPool_ctor (\<lambda>_. 0) 1 False) {}) \<noteq> None"
    by code_simp
  then obtain p L where R: "pool_run (\<lambda>t. ObjectPool_Alloc) (\<lambda>t. ObjectPool_Free) ?ops (ObjectPool_ctor (\<lambda>_. 0) 1 False) {} = Some (p, L)"
    by auto
  show ?thesis using object_pool_never_shares[OF _ _ c] unfolding R by simp
qed

end
