(* ===== verification/Lan.thy ===== *)
theory Lan
  imports Net
begin

text \<open>
  \<^verbatim>\<open>CLanClient.cpp\<close>: the client half of the network library, one connection to a server in the local
  network. A client works on two states: its own members (\<open>lan\<close>), and those of the rest of the
  process that it shares, the packet pool, the log and the system's answers in the record of \<^verbatim>\<open>CNetServer\<close>.

  As in the model of the server the completion port is a list of posts, a step is what one thread
  does between two completions, and \<open>None\<close> is the end of the process. The port exists from the first
  \<open>Connect\<close> on; a post before that is lost. The static \<^verbatim>\<open>id_generator\<close> of \<open>connectSession\<close> is a member here,
  as a process has one client.
\<close>

subsection \<open>State\<close>

datatype lan_post = Lan_post ePost | Lan_null ePost | Lan_exit

record lan =
  l_isConnected :: bool
  l_isInit :: bool
  l_iocpWorkerNum :: int
  l_iocpActiveNum :: int
  l_nagle :: bool
  l_serverPort :: u16
  l_serverIp :: string
  l_logQueue :: "addr list"
  l_serverSock :: u64
  l_recvQ :: ring
  l_sendQ :: "addr list"
  l_sessionId :: u32
  l_ioCount :: int
  l_releaseFlag :: bool
  l_disconnect :: bool
  l_sendFlag :: bool
  l_sentPacketCnt :: int
  l_sentPacket :: "addr list"
  l_id_generator :: u32
  l_posts :: "lan_post list"
  l_recv_io :: bool
  l_send_io :: bool
  l_open :: bool
  l_workers :: nat
  l_waiting :: bool

text \<open>The last fields are the system's: posts, operations in progress, whether the socket is open, the
  number of worker threads, and whether a thread waits for them to end in \<open>releaseClient\<close>.\<close>

type_synonym 'a client = "lan \<times> 'a net_scheme"

definition MAX_WSABUF :: nat where "MAX_WSABUF = 30"

text \<open>\<open>rel\<close>, \<open>sid\<close>, \<open>gen\<close> and \<open>sent\<close> are what the members that the constructor leaves alone hold.\<close>

definition CLanClient_ctor :: "bytes \<Rightarrow> bool \<Rightarrow> u32 \<Rightarrow> addr list \<Rightarrow> lan" where
  "CLanClient_ctor mem rel sid sent =
     \<lparr>l_isConnected = False, l_isInit = False, l_iocpWorkerNum = 0, l_iocpActiveNum = 0, l_nagle = False,
      l_serverPort = 0, l_serverIp = [], l_logQueue = [], l_serverSock = 0, l_recvQ = RingBuffer_ctor 2000 mem,
      l_sendQ = [], l_sessionId = sid, l_ioCount = 0, l_releaseFlag = rel, l_disconnect = True, l_sendFlag = False,
      l_sentPacketCnt = 0, l_sentPacket = sent, l_id_generator = 0, l_posts = [], l_recv_io = False,
      l_send_io = False, l_open = False, l_workers = 0, l_waiting = False\<rparr>"

definition lan_post :: "lan_post \<Rightarrow> lan \<Rightarrow> lan" where
  "lan_post p l = (if l_isInit l then l\<lparr>l_posts := l_posts l @ [p]\<rparr> else l)"

subsection \<open>Reference count and disconnection\<close>

definition CLanClient_releasePend :: "lan \<Rightarrow> lan" where
  "CLanClient_releasePend l =
     (if l_ioCount l = 0 \<and> \<not> l_releaseFlag l
      then lan_post (Lan_post RELEASE_PEND) (l\<lparr>l_releaseFlag := True, l_ioCount := l_ioCount l + 1\<rparr>)
      else l)"

definition CLanClient_updateIOCount :: "lan \<Rightarrow> (int \<times> lan) run" where
  "CLanClient_updateIOCount l =
     (let temp = l_ioCount l - 1; l = l\<lparr>l_ioCount := temp\<rparr>
      in if temp = 0 then Some (temp, CLanClient_releasePend l) else if temp < 0 then None else Some (temp, l))"

definition CLanClient_disconnectSession :: "lan \<Rightarrow> lan" where
  "CLanClient_disconnectSession l =
     (if \<not> l_disconnect l
      then lan_post (Lan_post CANCEL_IO) (l\<lparr>l_disconnect := True, l_ioCount := l_ioCount l + 1\<rparr>)
      else l)"

subsection \<open>Logging\<close>

definition CLanClient_Log :: "string \<Rightarrow> en_LOG_LEVEL \<Rightarrow> string \<Rightarrow> 'a client \<Rightarrow> 'a client run" where
  "CLanClient_Log szType logLevel msg = (\<lambda>(l, st). do {
     (log, lg) \<leftarrow> CLog_Alloc (n_tid st) (n_syslog st);
     let (e, st) = ask st;
     (ret, lg) \<leftarrow> CLog_Write log szType logLevel msg (e_tm e) lg;
     let st = st\<lparr>n_syslog := lg\<rparr>;
     Some (if ret then lan_post (Lan_null LOG_PEND) (l\<lparr>l_logQueue := l_logQueue l @ [log]\<rparr>) else l, st)
   })"

definition CLanClient_LogHex :: "string \<Rightarrow> en_LOG_LEVEL \<Rightarrow> string \<Rightarrow> bytes \<Rightarrow> 'a client \<Rightarrow> 'a client run" where
  "CLanClient_LogHex szType logLevel szLog pByte = (\<lambda>(l, st). do {
     (log, lg) \<leftarrow> CLog_Alloc (n_tid st) (n_syslog st);
     let (e, st) = ask st;
     (ret, lg) \<leftarrow> CLog_WriteHex log szType logLevel szLog pByte (e_tm e) lg;
     let st = st\<lparr>n_syslog := lg\<rparr>;
     Some (if ret then lan_post (Lan_null LOG_PEND) (l\<lparr>l_logQueue := l_logQueue l @ [log]\<rparr>) else l, st)
   })"

definition CLanClient_writeLog :: "'a client \<Rightarrow> 'a client run" where
  "CLanClient_writeLog = (\<lambda>(l, st).
     (case l_logQueue l of [] \<Rightarrow> None
      | log # rest \<Rightarrow> do {
          let (e, st) = ask st;
          lg \<leftarrow> CLog_WriteFile log (e_opened e) (e_tm e) (n_syslog st);
          lg \<leftarrow> CLog_Free (n_tid st) log lg;
          Some (l\<lparr>l_logQueue := rest\<rparr>, st\<lparr>n_syslog := lg\<rparr>)
        }))"

subsection \<open>Sending\<close>

definition CLanClient_sendPend :: "lan \<Rightarrow> lan" where
  "CLanClient_sendPend l =
     (if \<not> l_sendFlag l
      then lan_post (Lan_post SEND_PEND) (l\<lparr>l_sendFlag := True, l_ioCount := l_ioCount l + 1\<rparr>)
      else l)"

text \<open>The two loops over packets: \<open>sendPost\<close> takes \<open>n\<close> packets out of the queue into \<open>m_sentPacket\<close>, from
  entry \<open>cnt\<close> on, and sets their headers; the packets of a list give up one reference each.\<close>

fun lan_take :: "nat \<Rightarrow> nat \<Rightarrow> 'a client \<Rightarrow> 'a client" where
  "lan_take 0 cnt (l, st) = (l, st)"
| "lan_take (Suc n) cnt (l, st) =
     (case l_sendQ l of [] \<Rightarrow> (l, st)
      | packet # q \<Rightarrow>
          lan_take n (Suc cnt) (l\<lparr>l_sendQ := q, l_sentPacket := (l_sentPacket l)[cnt := packet]\<rparr>,
            st\<lparr>n_packets := (n_packets st)(packet := fst (CPacket_GetBufferPtrLan (n_packets st packet)))\<rparr>))"

fun lan_SubRefs :: "addr list \<Rightarrow> 'a net_scheme \<Rightarrow> 'a net_scheme run" where
  "lan_SubRefs [] st = Some st"
| "lan_SubRefs (packet # ps) st = do { st \<leftarrow> Packet_SubRef packet st; lan_SubRefs ps st }"

text \<open>The loop that goes down from \<open>m_sentPacketCnt\<close>.\<close>

definition lan_sent :: "lan \<Rightarrow> addr list" where
  "lan_sent l = rev (take (nat (l_sentPacketCnt l)) (l_sentPacket l))"

definition lan_send_result :: "'a client \<Rightarrow> 'a client run" where
  "lan_send_result = (\<lambda>(l, st). do {
     let (e, st) = ask st;
     case e_io e of
       Io_error error_code \<Rightarrow> do {
         (l, st) \<leftarrow> (if error_code \<noteq> WSAECONNRESET
               then CLanClient_Log ''SYS'' enLOG_LEVEL_ERROR (''Send Failed ['' @ fmt_d (sint error_code) @ ''] session'') (l, st)
               else Some (l, st));
         (_, l) \<leftarrow> CLanClient_updateIOCount (CLanClient_disconnectSession l);
         Some (l, st)
       }
     | _ \<Rightarrow> Some (l\<lparr>l_send_io := True\<rparr>, st)
   })"

definition CLanClient_sendPost :: "'a client \<Rightarrow> 'a client run" where
  "CLanClient_sendPost = (\<lambda>(l, st).
     (if \<not> l_disconnect l \<and> \<not> l_sendFlag l then
        if l_sendQ l = [] then Some (l\<lparr>l_sendFlag := False\<rparr>, st)
        else
          let l = l\<lparr>l_sendFlag := True, l_ioCount := l_ioCount l + 1\<rparr>;
              buf_cnt = min (length (l_sendQ l)) MAX_WSABUF;
              (l, st) = lan_take buf_cnt 0 (l, st)
          in lan_send_result (l\<lparr>l_sentPacketCnt := int buf_cnt\<rparr>, st)
      else Some (l, st)))"

definition CLanClient_trySend :: "'a client \<Rightarrow> 'a client run" where
  "CLanClient_trySend = (\<lambda>(l, st).
     (let l = l\<lparr>l_sendFlag := False\<rparr>
      in if l_sendQ l \<noteq> [] then do {
           (l, st) \<leftarrow> CLanClient_sendPost (l, st);
           Some (CLanClient_sendPend l, st)
         } else Some (l, st)))"

text \<open>The id that \<open>SendPacket\<close> compares is the one it has just read: between the two reads nothing happens in
  a step of this model.\<close>

definition CLanClient_SendPacket :: "addr \<Rightarrow> 'a client \<Rightarrow> (bool \<times> 'a client) run" where
  "CLanClient_SendPacket packet = (\<lambda>(l, st). do {
     let sid = l_sessionId l;
     let l = l\<lparr>l_ioCount := l_ioCount l + 1\<rparr>;
     (ret, l, st) \<leftarrow>
       (if \<not> l_releaseFlag l \<and> \<not> l_disconnect l \<and> l_sessionId l = sid then
          let st = Packet_AddRef packet st
          in case send_q_Enqueue packet (l_sendQ l) of
               Some q \<Rightarrow> Some (True, CLanClient_sendPend (l\<lparr>l_sendQ := q\<rparr>), st)
             | None \<Rightarrow> do {
                 st \<leftarrow> Packet_SubRef packet st;
                 (l, st) \<leftarrow> CLanClient_Log ''SYS'' enLOG_LEVEL_ERROR ''Full Send Q'' (l, st);
                 Some (False, l, st)
               }
        else Some (False, l, st));
     (_, l) \<leftarrow> CLanClient_updateIOCount l;
     Some (ret, l, st)
   })"

subsection \<open>Receiving\<close>

definition CLanClient_recvPost :: "'a client \<Rightarrow> (bool \<times> 'a client) run" where
  "CLanClient_recvPost = (\<lambda>(l, st).
     (if \<not> l_disconnect l then do {
        let l = l\<lparr>l_ioCount := l_ioCount l + 1\<rparr>;
        let (e, st) = ask st;
        case e_io e of
          Io_error error_code \<Rightarrow> do {
            (l, st) \<leftarrow> (if error_code \<noteq> WSAECONNRESET
                  then CLanClient_Log ''SYS'' enLOG_LEVEL_ERROR (''Recv Failed ['' @ fmt_d (sint error_code) @ ''] session'') (l, st)
                  else Some (l, st));
            (_, l) \<leftarrow> CLanClient_updateIOCount (CLanClient_disconnectSession l);
            Some (False, l, st)
          }
        | _ \<Rightarrow> Some (True, l\<lparr>l_recv_io := True\<rparr>, st)
      } else Some (False, l, st)))"

text \<open>What the derived class supplies.\<close>

record 's lan_callbacks =
  L_OnRecv :: "addr \<Rightarrow> 's \<Rightarrow> 's run"
  L_OnEnterServerJoin :: "'s \<Rightarrow> 's run"
  L_OnLeaveServer :: "'s \<Rightarrow> 's run"
  L_OnError :: "u32 \<Rightarrow> string \<Rightarrow> 's \<Rightarrow> 's run"

text \<open>One whole message: into a packet, to \<open>OnRecv\<close>, and the packet back.\<close>

definition lan_recv_packet :: "bytes \<Rightarrow> u16 \<Rightarrow> packet \<Rightarrow> packet" where
  "lan_recv_packet bs len p =
     (let (p, off) = CPacket_GetBufferPtrLan p
      in fst (CPacket_MoveWritePos (uint len) (p\<lparr>pk_hidden := splice off bs (pk_hidden p)\<rparr>)))"

definition lan_recv_message :: "'a client lan_callbacks \<Rightarrow> u16 \<Rightarrow> 'a client \<Rightarrow> 'a client run" where
  "lan_recv_message cb len = (\<lambda>(l, st). do {
     (packet, st) \<leftarrow> Packet_Alloc st;
     let (rb, _, bs) = RingBuffer_Dequeue (l_recvQ l) (ucast len + of_nat lan_header_size);
     let st = st\<lparr>n_packets := (n_packets st)(packet := lan_recv_packet bs len (n_packets st packet))\<rparr>;
     (l, st) \<leftarrow> L_OnRecv cb packet (l\<lparr>l_recvQ := rb\<rparr>, st);
     st \<leftarrow> Packet_Free packet st;
     Some (l, st)
   })"

text \<open>The receive loop. A message takes at least two bytes out of the ring, so fuel larger than the ring is enough.\<close>

fun lan_recv_loop :: "'a client lan_callbacks \<Rightarrow> nat \<Rightarrow> 'a client \<Rightarrow> 'a client run" where
  "lan_recv_loop cb 0 (l, st) = None"
| "lan_recv_loop cb (Suc fuel) (l, st) =
     (let rb = l_recvQ l; (n, hb) = RingBuffer_Peek rb (of_nat lan_header_size)
      in if n \<noteq> of_nat lan_header_size then Some (l, st)
         else
           let len = lan_header_len hb
           in if (ucast len :: u64) + of_nat lan_header_size > scast (RingBuffer_GetFillSize rb) then Some (l, st)
              else do {
                let l = (if uint len > sint (RingBuffer_GetEmptySize rb) then CLanClient_disconnectSession l else l);
                (l, st) \<leftarrow> lan_recv_message cb len (l, st);
                lan_recv_loop cb fuel (l, st)
              })"

definition lan_recv_complete :: "'a client lan_callbacks \<Rightarrow> u32 \<Rightarrow> 'a client \<Rightarrow> 'a client run" where
  "lan_recv_complete cb cbTransferred = (\<lambda>(l, st). do {
     let l = l\<lparr>l_recvQ := RingBuffer_MoveRear (l_recvQ l) cbTransferred\<rparr>;
     (l, st) \<leftarrow> lan_recv_loop cb (Suc (unat (RingBuffer_GetFillSize (l_recvQ l)))) (l, st);
     (_, l, st) \<leftarrow> CLanClient_recvPost (l, st);
     Some (l, st)
   })"

definition lan_send_complete :: "'a client \<Rightarrow> 'a client run" where
  "lan_send_complete = (\<lambda>(l, st).
     (if l_sentPacketCnt l = 0 then None
      else do {
        st \<leftarrow> lan_SubRefs (lan_sent l) st;
        CLanClient_trySend (l\<lparr>l_sentPacketCnt := 0\<rparr>, st)
      }))"

subsection \<open>Release\<close>

definition CLanClient_release :: "'a client lan_callbacks \<Rightarrow> 'a client \<Rightarrow> 'a client run" where
  "CLanClient_release cb = (\<lambda>(l, st).
     (if \<not> l_disconnect l then None
      else do {
        (l, st) \<leftarrow> L_OnLeaveServer cb (l, st);
        let l = l\<lparr>l_sessionId := 0\<rparr>;
        st \<leftarrow> lan_SubRefs (l_sendQ l) st;
        let l = l\<lparr>l_sendQ := []\<rparr>;
        st \<leftarrow> lan_SubRefs (lan_sent l) st;
        Some (l\<lparr>l_open := False, l_serverSock := INVALID_SOCKET\<rparr>, st)
      }))"

subsection \<open>Completions\<close>

definition lan_completion :: "'a client lan_callbacks \<Rightarrow> u32 \<Rightarrow> overlapped \<Rightarrow> 'a client \<Rightarrow> 'a client run" where
  "lan_completion cb cbTransferred ov = (\<lambda>(l, st).
     (if cbTransferred = 0 \<or> l_disconnect l then
        (case ov of
           Ov_post SEND_PEND \<Rightarrow> CLanClient_trySend (l, st)
         | Ov_post RELEASE_PEND \<Rightarrow> CLanClient_release cb (l, st)
         | Ov_post CANCEL_IO \<Rightarrow> Some (l, st)
         | _ \<Rightarrow> Some (CLanClient_disconnectSession l, st))
      else
        (case ov of
           Ov_recv \<Rightarrow> lan_recv_complete cb cbTransferred (l, st)
         | Ov_send \<Rightarrow> lan_send_complete (l, st)
         | _ \<Rightarrow> None)))"

text \<open>One pass of \<open>runIoThread\<close>; a completion is for the session (\<open>c_session\<close> is not \<open>None\<close>) or for none.\<close>

definition CLanClient_runIoThread_body ::
  "'a client lan_callbacks \<Rightarrow> completion \<Rightarrow> 'a client \<Rightarrow> ('a client \<times> bool) run" where
  "CLanClient_runIoThread_body cb c = (\<lambda>(l, st).
     (if c_overlapped c = Ov_null \<and> c_session c = None then Some ((l, st), False)
      else do {
        (l, st) \<leftarrow> (case c_error c of None \<Rightarrow> Some (l, st)
              | Some error_code \<Rightarrow>
                  if error_code = ERROR_NETNAME_DELETED \<or> error_code = ERROR_OPERATION_ABORTED then Some (l, st)
                  else CLanClient_Log ''SYS'' enLOG_LEVEL_ERROR
                    (''GQCS return 0 ['' @ fmt_d (sint error_code) @ ''] session id : '' @ fmt_d (uint (l_sessionId l)) @
                     '' Count '' @ fmt_d 0) (l, st));
        if c_bytes c = 0 \<and> c_session c = None then do {
          (l, st) \<leftarrow> (if c_overlapped c = Ov_post LOG_PEND then CLanClient_writeLog (l, st)
                else CLanClient_Log ''SYS'' enLOG_LEVEL_ERROR ''fault Post Queue '' (l, st));
          Some ((l, st), True)
        } else do {
          (l, st) \<leftarrow> lan_completion cb (c_bytes c) (c_overlapped c) (l, st);
          (_, l) \<leftarrow> CLanClient_updateIOCount l;
          Some ((l, st), True)
        }
      }))"

subsection \<open>Connecting\<close>

text \<open>\<open>ok\<close> is whether \<^verbatim>\<open>connect\<close> succeeds. The last argument of an error is the code the system gives.\<close>

definition CLanClient_connectSession :: "'a client lan_callbacks \<Rightarrow> bool \<Rightarrow> u32 \<Rightarrow> 'a client \<Rightarrow> (bool \<times> 'a client) run" where
  "CLanClient_connectSession cb ok err = (\<lambda>(l, st).
     (if \<not> ok then do {
        (l, st) \<leftarrow> L_OnError cb err ''connect failed'' (l, st);
        Some (False, l\<lparr>l_open := False\<rparr>, st)
      } else do {
        let l = l\<lparr>l_ioCount := l_ioCount l + 1, l_sessionId := l_id_generator l, l_id_generator := l_id_generator l + 1,
                  l_sendFlag := False, l_sentPacketCnt := 0, l_disconnect := False,
                  l_recvQ := RingBuffer_ClearBuffer (l_recvQ l), l_releaseFlag := False\<rparr>;
        (l, st) \<leftarrow> L_OnEnterServerJoin cb (l, st);
        (_, l, st) \<leftarrow> CLanClient_recvPost (l, st);
        (_, l) \<leftarrow> CLanClient_updateIOCount l;
        Some (True, l, st)
      }))"

text \<open>\<open>releaseClient\<close> up to its wait for the workers, and what follows when they have ended.\<close>

definition CLanClient_releaseClient :: "lan \<Rightarrow> lan" where
  "CLanClient_releaseClient l =
     l\<lparr>l_posts := l_posts l @ replicate (nat (l_iocpWorkerNum l)) Lan_exit, l_waiting := True\<rparr>"

definition CLanClient_released :: "lan \<Rightarrow> lan" where
  "CLanClient_released l = l\<lparr>l_isConnected := False, l_waiting := False\<rparr>"

text \<open>\<open>sys\<close> is what the system says: whether the port and the threads are made, the socket if there is one,
  whether the connection is made, and the error code.\<close>

definition CLanClient_Connect ::
  "'a client lan_callbacks \<Rightarrow> string \<Rightarrow> u16 \<Rightarrow> int \<Rightarrow> int \<Rightarrow> bool \<Rightarrow> bool \<times> u64 option \<times> bool \<times> u32 \<Rightarrow>
   'a client \<Rightarrow> (bool \<times> 'a client) run" where
  "CLanClient_Connect cb serverIp port iocpWorker iocpActive nagle sys = (\<lambda>(l, st).
     (case sys of (handles, sock, ok, err) \<Rightarrow>
        if l_isConnected l then do {
          (l, st) \<leftarrow> L_OnError cb 90 ''Connected already'' (l, st);
          Some (False, l, st)
        } else if 16 \<le> length serverIp then None
        else do {
          let l = l\<lparr>l_nagle := nagle, l_serverIp := serverIp, l_serverPort := port, l_iocpActiveNum := iocpActive,
                    l_iocpWorkerNum := iocpWorker\<rparr>;
          l \<leftarrow> (if l_isInit l then Some l
               else if \<not> handles \<or> iocpWorker < 0 then None
               else Some (l\<lparr>l_workers := nat iocpWorker, l_isInit := True\<rparr>));
          (ret, l, st) \<leftarrow>
            (case sock of
               None \<Rightarrow> do {
                 (l, st) \<leftarrow> L_OnError cb err ''socket failed'' (l\<lparr>l_serverSock := INVALID_SOCKET\<rparr>, st);
                 Some (False, l, st)
               }
             | Some s \<Rightarrow> do {
                 (ret, l, st) \<leftarrow> CLanClient_connectSession cb ok err (l\<lparr>l_serverSock := s, l_open := True\<rparr>, st);
                 Some (ret, l\<lparr>l_isConnected := True\<rparr>, st)
               });
          Some (ret, if ret then l else CLanClient_releaseClient l, st)
        }))"

definition CLanClient_Disconnect :: "'a client lan_callbacks \<Rightarrow> 'a client \<Rightarrow> 'a client run" where
  "CLanClient_Disconnect cb = (\<lambda>(l, st).
     (if \<not> l_isConnected l then L_OnError cb 98 ''Not Running Yet'' (l, st)
      else Some (CLanClient_releaseClient (CLanClient_disconnectSession l), st)))"

definition CLanClient_Show :: "'a client \<Rightarrow> u32" where
  "CLanClient_Show = (\<lambda>(l, st). ucast (MemoryPoolTls_GetUseSize (n_pool st)))"

end
