(* ===== verification/LanInv.thy ===== *)
theory LanInv
  imports Lan NetRes
begin

text \<open>
  The invariant of the client of the monitor server and the proof that its operations keep it and do
  not fail. \<open>E\<close> are the references to packets and \<open>EL\<close> the log records that the rest of the
  process and the running step hold.

  An \<open>lctx\<close> describes the running step: the references it holds to the session, whether it is processing a
  receive, whether it has packets in \<open>m_sentPacket\<close> that are not handed over yet, whether it is releasing the
  session, and the number of log posts it has taken.
\<close>

record lctx =
  y_pins :: nat
  y_recv :: bool
  y_snd :: bool
  y_rel :: bool
  y_log :: nat

definition no_lctx :: lctx where
  "no_lctx = \<lparr>y_pins = 0, y_recv = False, y_snd = False, y_rel = False, y_log = 0\<rparr>"

abbreviation Y :: "nat \<Rightarrow> bool \<Rightarrow> bool \<Rightarrow> bool \<Rightarrow> nat \<Rightarrow> lctx" where
  "Y pins recv own relc lg \<equiv> \<lparr>y_pins = pins, y_recv = recv, y_snd = own, y_rel = relc, y_log = lg\<rparr>"

abbreviation cp :: "ePost \<Rightarrow> lan \<Rightarrow> nat" where
  "cp k l \<equiv> count_list (l_posts l) (Lan_post k)"

subsection \<open>The session\<close>

definition lan_shape :: "lan \<Rightarrow> bool" where
  "lan_shape l \<longleftrightarrow> l_isInit l \<and> rb_inv (l_recvQ l) \<and> rb_capacity (l_recvQ l) = 2000 \<and>
     length (l_sendQ l) \<le> MAX_SENDQ \<and> length (l_sentPacket l) = 200 \<and>
     0 \<le> l_sentPacketCnt l \<and> l_sentPacketCnt l \<le> 30 \<and> distinct (l_logQueue l) \<and>
     (\<forall>k. Lan_post k \<in> set (l_posts l) \<longrightarrow> k \<in> {SEND_PEND, CANCEL_IO, RELEASE_PEND}) \<and>
     (\<forall>k. Lan_null k \<in> set (l_posts l) \<longrightarrow> k = LOG_PEND)"

text \<open>The flags and the count, over what they depend on: the number of posts of the three kinds, the operations in
  progress, the flags, whether the queue is empty, the number of sent packets, and the running step.\<close>

definition lan_core :: "int \<Rightarrow> nat \<Rightarrow> nat \<Rightarrow> nat \<Rightarrow> bool \<Rightarrow> bool \<Rightarrow> bool \<Rightarrow> bool \<Rightarrow> bool \<Rightarrow> bool \<Rightarrow> int \<Rightarrow>
    nat \<Rightarrow> bool \<Rightarrow> bool \<Rightarrow> bool \<Rightarrow> bool" where
  "lan_core io sp ca re rio sio flag disc rls none sent pins recv own relc \<longleftrightarrow>
     io = int (sp + ca + re + of_bool rio + of_bool sio + pins) \<and>
     sp + of_bool sio + of_bool own \<le> (of_bool flag :: nat) \<and>
     ca \<le> of_bool disc \<and> re + of_bool relc \<le> of_bool rls \<and>
     (\<not> rls \<and> io = 0 \<longrightarrow> disc \<and> none \<and> sent = 0) \<and>
     (rls \<longrightarrow> disc \<and> \<not> rio \<and> \<not> sio \<and> sp = 0 \<and> ca = 0) \<and>
     (rls \<and> re = 0 \<and> \<not> relc \<longrightarrow> none) \<and>
     (\<not> disc \<longrightarrow> rio \<or> recv) \<and> (sio \<longrightarrow> 0 < sent) \<and> (\<not> disc \<and> \<not> sio \<and> \<not> own \<longrightarrow> sent = 0) \<and>
     (recv \<longrightarrow> \<not> rls \<and> \<not> rio \<and> 0 < pins) \<and> (own \<longrightarrow> \<not> rls \<and> 0 < pins)"

definition lan_ok :: "lctx \<Rightarrow> lan \<Rightarrow> bool" where
  "lan_ok c l \<longleftrightarrow> lan_shape l \<and>
     lan_core (l_ioCount l) (cp SEND_PEND l) (cp CANCEL_IO l) (cp RELEASE_PEND l) (l_recv_io l) (l_send_io l)
       (l_sendFlag l) (l_disconnect l) (l_releaseFlag l) (l_sendQ l = []) (l_sentPacketCnt l)
       (y_pins c) (y_recv c) (y_snd c) (y_rel c) \<and>
     length (l_logQueue l) = count_list (l_posts l) (Lan_null LOG_PEND) + y_log c"

text \<open>The packets the client holds: those in its queue and those of a send that has not been cleaned up.\<close>

definition lan_released :: "lctx \<Rightarrow> lan \<Rightarrow> bool" where
  "lan_released c l \<longleftrightarrow> l_releaseFlag l \<and> cp RELEASE_PEND l = 0 \<and> \<not> y_rel c"

definition lan_owned :: "lctx \<Rightarrow> lan \<Rightarrow> addr multiset" where
  "lan_owned c l = mset (l_sendQ l) + (if lan_released c l then {#} else mset (lan_sent l))"

definition lan_res :: "addr multiset \<Rightarrow> addr set \<Rightarrow> addr list \<Rightarrow> 'a net_scheme \<Rightarrow> bool" where
  "lan_res R EL logs st \<longleftrightarrow> pk_ok (n_pool st) (n_packets st) R \<and> lg_inv (n_syslog st) (EL \<union> set logs) \<and>
     EL \<inter> set logs = {}"

definition lan_inv :: "lctx \<Rightarrow> addr multiset \<Rightarrow> addr set \<Rightarrow> 'a client \<Rightarrow> bool" where
  "lan_inv c E EL = (\<lambda>(l, st). lan_ok c l \<and> lan_res (E + lan_owned c l) EL (l_logQueue l) st)"

text \<open>What the client leaves alone of the rest of the process, and what the operations below a completion leave
  alone of the client.\<close>

definition net_rest :: "'a net_scheme \<Rightarrow> (addr \<Rightarrow> packet) \<Rightarrow> mempool \<Rightarrow> syslog \<Rightarrow> 'a net_scheme" where
  "net_rest st = (\<lambda>packets pool lg. st\<lparr>n_packets := packets, n_pool := pool, n_syslog := lg, n_time := 0\<rparr>)"

definition lan_frame :: "'a client \<Rightarrow> 'a client \<Rightarrow> bool" where
  "lan_frame = (\<lambda>(l, st) (l', st').
     net_rest st' = net_rest st \<and>
     l_recvQ l' = l_recvQ l \<and> l_id_generator l' = l_id_generator l \<and> l_workers l' = l_workers l \<and>
     l_iocpWorkerNum l' = l_iocpWorkerNum l \<and> l_waiting l' = l_waiting l \<and> l_isConnected l' = l_isConnected l)"

lemma lan_frame_refl [simp, intro]: "lan_frame x x"
  by (cases x) (simp add: lan_frame_def)

lemma lan_frame_trans: "lan_frame x y \<Longrightarrow> lan_frame y z \<Longrightarrow> lan_frame x z"
  by (simp add: lan_frame_def split_def)

lemma lan_post_simps [simp]:
  "l_isInit (lan_post p l) = l_isInit l" "l_recvQ (lan_post p l) = l_recvQ l" "l_sendQ (lan_post p l) = l_sendQ l"
  "l_ioCount (lan_post p l) = l_ioCount l" "l_releaseFlag (lan_post p l) = l_releaseFlag l"
  "l_disconnect (lan_post p l) = l_disconnect l" "l_sendFlag (lan_post p l) = l_sendFlag l"
  "l_sentPacketCnt (lan_post p l) = l_sentPacketCnt l" "l_sentPacket (lan_post p l) = l_sentPacket l"
  "l_recv_io (lan_post p l) = l_recv_io l" "l_send_io (lan_post p l) = l_send_io l"
  "l_logQueue (lan_post p l) = l_logQueue l" "l_id_generator (lan_post p l) = l_id_generator l"
  "l_workers (lan_post p l) = l_workers l" "l_iocpWorkerNum (lan_post p l) = l_iocpWorkerNum l"
  "l_waiting (lan_post p l) = l_waiting l" "l_isConnected (lan_post p l) = l_isConnected l"
  "lan_sent (lan_post p l) = lan_sent l" "l_open (lan_post p l) = l_open l"
  "l_isInit l \<Longrightarrow> l_posts (lan_post p l) = l_posts l @ [p]"
  by (simp_all add: lan_post_def lan_sent_def)

lemma lan_sent_upd [simp]:
  "lan_sent (l\<lparr>l_ioCount := n\<rparr>) = lan_sent l" "lan_sent (l\<lparr>l_releaseFlag := b\<rparr>) = lan_sent l"
  "lan_sent (l\<lparr>l_disconnect := b\<rparr>) = lan_sent l" "lan_sent (l\<lparr>l_sendFlag := b\<rparr>) = lan_sent l"
  "lan_sent (l\<lparr>l_sendQ := q\<rparr>) = lan_sent l" "lan_sent (l\<lparr>l_posts := ps\<rparr>) = lan_sent l"
  "lan_sent (l\<lparr>l_logQueue := q\<rparr>) = lan_sent l" "lan_sent (l\<lparr>l_recv_io := b\<rparr>) = lan_sent l"
  "lan_sent (l\<lparr>l_send_io := b\<rparr>) = lan_sent l" "lan_sent (l\<lparr>l_recvQ := r\<rparr>) = lan_sent l"
  "lan_sent (l\<lparr>l_sentPacketCnt := 0\<rparr>) = []"
  by (simp_all add: lan_sent_def)

lemma lan_shape_upd [simp]:
  "lan_shape (l\<lparr>l_ioCount := n\<rparr>) = lan_shape l" "lan_shape (l\<lparr>l_releaseFlag := b\<rparr>) = lan_shape l"
  "lan_shape (l\<lparr>l_disconnect := b\<rparr>) = lan_shape l" "lan_shape (l\<lparr>l_sendFlag := b\<rparr>) = lan_shape l"
  "lan_shape (l\<lparr>l_recv_io := b\<rparr>) = lan_shape l" "lan_shape (l\<lparr>l_send_io := b\<rparr>) = lan_shape l"
  by (simp_all add: lan_shape_def)

lemma lan_shape_post [simp]:
  "lan_shape l \<Longrightarrow> k \<in> {SEND_PEND, CANCEL_IO, RELEASE_PEND} \<Longrightarrow> lan_shape (lan_post (Lan_post k) l)"
  "lan_shape l \<Longrightarrow> lan_shape (lan_post (Lan_null LOG_PEND) l)"
  by (auto simp: lan_shape_def)

lemma lan_okD:
  assumes "lan_ok c l"
  shows "lan_shape l" and "l_isInit l" and "rb_inv (l_recvQ l)" and "rb_capacity (l_recvQ l) = 2000"
    and "lan_core (l_ioCount l) (cp SEND_PEND l) (cp CANCEL_IO l) (cp RELEASE_PEND l) (l_recv_io l) (l_send_io l)
       (l_sendFlag l) (l_disconnect l) (l_releaseFlag l) (l_sendQ l = []) (l_sentPacketCnt l)
       (y_pins c) (y_recv c) (y_snd c) (y_rel c)"
    and "length (l_logQueue l) = count_list (l_posts l) (Lan_null LOG_PEND) + y_log c"
  using assms by (auto simp: lan_ok_def lan_shape_def)

lemma lan_core_pos:
  assumes "lan_core io sp ca re rio sio flag disc rls none sent pins recv own relc" and "0 < pins"
  shows "1 \<le> io"
  using assms by (simp add: lan_core_def)

lemma lan_core_less:
  assumes "lan_core io sp ca re rio sio flag disc rls none sent pins recv own relc" and "0 < pins"
    and "recv \<or> own \<Longrightarrow> 1 < pins" and "io \<noteq> 1 \<or> rls"
  shows "lan_core (io - 1) sp ca re rio sio flag disc rls none sent (pins - 1) recv own relc"
proof -
  obtain p where p: "pins = Suc p" using assms(2) gr0_implies_Suc by blast
  have rp: "recv \<longrightarrow> 0 < p" "own \<longrightarrow> 0 < p" using assms(3) p by auto
  show ?thesis
    using assms(1,4) rp unfolding lan_core_def p by (cases rls; simp)
qed

lemma lan_core_last:
  assumes "lan_core 1 sp ca re rio sio flag disc False none sent pins recv own relc" and "0 < pins"
    and "recv \<or> own \<Longrightarrow> 1 < pins"
  shows "lan_core 1 sp ca (Suc re) rio sio flag disc True none sent (pins - 1) recv own relc" and "re = 0" and "\<not> relc" and "pins = 1"
proof -
  have le: "1 = int (sp + ca + re + of_bool rio + of_bool sio + pins)" using assms(1) unfolding lan_core_def by blast
  then have "sp + ca + re + of_bool rio + of_bool sio + pins = 1" by linarith
  then have z: "sp = 0" "ca = 0" "pins = 1" "of_bool rio = (0::nat)" "of_bool sio = (0::nat)" using assms(2) by linarith+
  then have io: "\<not> rio" "\<not> sio" by simp_all
  have "\<not> recv" "\<not> own" using assms(3) z(3) by auto
  moreover show re: "re = 0" "\<not> relc" using assms(1) by (cases relc; simp add: lan_core_def)+
  ultimately show "lan_core 1 sp ca (Suc re) rio sio flag disc True none sent (pins - 1) recv own relc" "pins = 1"
    using assms(1) z io by (simp_all add: lan_core_def)
qed

lemma lan_core_disconnect:
  assumes "lan_core io sp ca re rio sio flag False rls none sent pins recv own relc"
  shows "lan_core (io + 1) sp (Suc ca) re rio sio flag True rls none sent pins recv own relc"
proof -
  have "\<not> rls" using assms by (auto simp: lan_core_def)
  with assms show ?thesis by (simp add: lan_core_def)
qed

lemma lan_core_sendPend:
  assumes "lan_core io sp ca re rio sio False disc False none sent pins recv own relc"
  shows "lan_core (io + 1) (Suc sp) ca re rio sio True disc False none sent pins recv own relc"
  using assms by (simp add: lan_core_def)

subsection \<open>The count\<close>

lemma lan_updateIOCount:
  assumes ok: "lan_ok c l" and p: "0 < y_pins c" and r: "y_recv c \<or> y_snd c \<Longrightarrow> 1 < y_pins c"
  obtains t l' where "CLanClient_updateIOCount l = Some (t, l')" "lan_ok (c\<lparr>y_pins := y_pins c - 1\<rparr>) l'"
    "lan_owned (c\<lparr>y_pins := y_pins c - 1\<rparr>) l' = lan_owned c l" "l_logQueue l' = l_logQueue l"
    "lan_frame (l, st) (l', st)" "1 < y_pins c \<longrightarrow> l_releaseFlag l' = l_releaseFlag l"
proof -
  let ?l = "l\<lparr>l_ioCount := l_ioCount l - 1\<rparr>" and ?c = "c\<lparr>y_pins := y_pins c - 1\<rparr>"
  note D = lan_okD[OF ok]
  note pos = lan_core_pos[OF D(5) p]
  show ?thesis
  proof (cases "l_ioCount l = 1 \<and> \<not> l_releaseFlag l")
    case False
    then have f: "l_ioCount l \<noteq> 1 \<or> l_releaseFlag l" by simp
    have "lan_ok ?c ?l"
      using D(1,6) lan_core_less[OF D(5) p r f] by (simp add: lan_ok_def)
    moreover have "CLanClient_updateIOCount l = Some (l_ioCount l - 1, ?l)"
      using pos f by (auto simp: CLanClient_updateIOCount_def CLanClient_releasePend_def Let_def)
    ultimately show ?thesis
      by (intro that[of "l_ioCount l - 1" ?l]) (simp_all add: lan_owned_def lan_released_def lan_frame_def)
  next
    case True
    let ?l' = "lan_post (Lan_post RELEASE_PEND) (l\<lparr>l_releaseFlag := True, l_ioCount := 1\<rparr>)"
    from True have io: "l_ioCount l = 1" "l_releaseFlag l = False" by auto
    note L = lan_core_last[OF D(5)[unfolded io] p r]
    have "lan_ok ?c ?l'" using D(1,2,6) L(1) by (simp add: lan_ok_def)
    moreover have "CLanClient_updateIOCount l = Some (0, ?l')"
      using True by (simp add: CLanClient_updateIOCount_def CLanClient_releasePend_def Let_def)
    moreover have "lan_owned ?c ?l' = lan_owned c l"
      using True D(2) by (simp add: lan_owned_def lan_released_def)
    moreover have "\<not> 1 < y_pins c" using L(4) by simp
    ultimately show ?thesis
      using True by (intro that[of 0 ?l']) (simp_all add: lan_frame_def)
  qed
qed

lemma lan_disconnect_ok:
  assumes ok: "lan_ok c l"
  shows "lan_ok c (CLanClient_disconnectSession l)" and "lan_owned c (CLanClient_disconnectSession l) = lan_owned c l"
    and "l_logQueue (CLanClient_disconnectSession l) = l_logQueue l"
    and "lan_frame (l, st) (CLanClient_disconnectSession l, st)"
    and "l_disconnect (CLanClient_disconnectSession l)"
    and "l_releaseFlag (CLanClient_disconnectSession l) = l_releaseFlag l"
    and "l_sendFlag (CLanClient_disconnectSession l) = l_sendFlag l"
proof -
  note D = lan_okD[OF ok]
  show "lan_ok c (CLanClient_disconnectSession l)"
  proof (cases "l_disconnect l")
    case False
    then have d: "l_disconnect l = False" by simp
    show ?thesis using D(1,2,6) d lan_core_disconnect[OF D(5)[unfolded d]]
      by (simp add: lan_ok_def CLanClient_disconnectSession_def)
  qed (use ok in \<open>simp add: CLanClient_disconnectSession_def\<close>)
  show "lan_owned c (CLanClient_disconnectSession l) = lan_owned c l"
    using D(2) by (simp add: CLanClient_disconnectSession_def lan_owned_def lan_released_def)
qed (simp_all add: CLanClient_disconnectSession_def lan_frame_def)

lemma lan_sendPend_ok:
  assumes ok: "lan_ok c l" and r: "\<not> l_releaseFlag l"
  shows "lan_ok c (CLanClient_sendPend l)" and "lan_owned c (CLanClient_sendPend l) = lan_owned c l"
    and "l_logQueue (CLanClient_sendPend l) = l_logQueue l" and "lan_frame (l, st) (CLanClient_sendPend l, st)"
    and "\<not> l_releaseFlag (CLanClient_sendPend l)"
proof -
  note D = lan_okD[OF ok]
  show "lan_ok c (CLanClient_sendPend l)"
  proof (cases "l_sendFlag l")
    case False
    with r have d: "l_sendFlag l = False" "l_releaseFlag l = False" by simp_all
    show ?thesis using D(1,2,6) d lan_core_sendPend[OF D(5)[unfolded d]]
      by (simp add: lan_ok_def CLanClient_sendPend_def)
  qed (use ok in \<open>simp add: CLanClient_sendPend_def\<close>)
  show "lan_owned c (CLanClient_sendPend l) = lan_owned c l"
    using D(2) by (simp add: CLanClient_sendPend_def lan_owned_def lan_released_def)
qed (use r in \<open>simp_all add: CLanClient_sendPend_def lan_frame_def\<close>)


subsection \<open>Logging\<close>

lemma lan_inv_upd:
  assumes "lan_inv c E EL (l, st)" and "lan_ok c' l'" and "lan_owned c' l' = lan_owned c l" and "l_logQueue l' = l_logQueue l"
  shows "lan_inv c' E EL (l', st)"
  using assms by (simp add: lan_inv_def)

lemma lan_invD:
  assumes "lan_inv c E EL (l, st)"
  shows "lan_ok c l" and "lan_res (E + lan_owned c l) EL (l_logQueue l) st"
  using assms by (simp_all add: lan_inv_def)

abbreviation lan_logged :: "addr \<Rightarrow> lan \<Rightarrow> lan" where
  "lan_logged a l \<equiv> lan_post (Lan_null LOG_PEND) (l\<lparr>l_logQueue := l_logQueue l @ [a]\<rparr>)"

lemma lan_logged_ok:
  assumes ok: "lan_ok c l" and a: "a \<notin> set (l_logQueue l)"
  shows "lan_ok c (lan_logged a l)" and "lan_owned c (lan_logged a l) = lan_owned c l"
proof -
  note D = lan_okD[OF ok]
  have "lan_shape (lan_logged a l)" using D(1,2) a by (auto simp: lan_shape_def)
  then show "lan_ok c (lan_logged a l)" using D(2,5,6) by (simp add: lan_ok_def)
  show "lan_owned c (lan_logged a l) = lan_owned c l"
    using D(2) by (simp add: lan_owned_def lan_released_def)
qed

lemma lan_Log_inv:
  assumes inv: "lan_inv c E EL (l, st)" and ty: "length szType \<le> 10" and tx: "length msg < 1024"
  shows "wpx C (CLanClient_Log szType lev msg (l, st))
    (\<lambda>(l', st'). lan_inv c E EL (l', st') \<and> lan_frame (l, st) (l', st') \<and> (\<exists>a. l' = lan_logged a l))"
proof -
  note R = lan_invD(2)[OF inv, unfolded lan_res_def]
  from R have "lg_inv (n_syslog st) (EL \<union> set (l_logQueue l))" by simp
  then obtain a lg1 lg2 where A: "CLog_Alloc (n_tid st) (n_syslog st) = Some (a, lg1)" "a \<notin> EL \<union> set (l_logQueue l)"
      and B: "CLog_Write a szType lev msg (e_tm (n_env st (n_time st))) lg1 = Some (True, lg2)"
      "lg_inv lg2 (insert a (EL \<union> set (l_logQueue l)))"
    by (rule log_written[OF _ ty tx])
  let ?l = "lan_logged a l" and ?st = "st\<lparr>n_time := n_time st + 1, n_syslog := lg2\<rparr>"
  have "lan_inv c E EL (?l, ?st)"
    using R A(2) B(2) lan_logged_ok[OF lan_invD(1)[OF inv], of a]
    by (simp add: lan_inv_def lan_res_def insert_commute)
  moreover have "lan_frame (l, st) (?l, ?st)" by (simp add: lan_frame_def net_rest_def)
  moreover have "CLanClient_Log szType lev msg (l, st) = Some (?l, ?st)"
    using A(1) B(1) by (simp add: CLanClient_Log_def ask_def)
  ultimately show ?thesis by auto
qed

lemma lan_writeLog_fails: "\<not> e_opened (n_env st (n_time st)) \<Longrightarrow> CLanClient_writeLog (l, st) = None"
  by (simp add: CLanClient_writeLog_def ask_def CLog_WriteFile_def split: list.split)

lemma lan_writeLog_inv:
  assumes inv: "lan_inv (c\<lparr>y_log := Suc n\<rparr>) E EL (l, st)"
  shows "wpx (C \<or> \<not> e_opened (n_env st (n_time st))) (CLanClient_writeLog (l, st))
    (\<lambda>(l', st'). lan_inv (c\<lparr>y_log := n\<rparr>) E EL (l', st') \<and> lan_frame (l, st) (l', st'))"
proof (cases "e_opened (n_env st (n_time st))")
  case False
  then show ?thesis by (simp add: lan_writeLog_fails)
next
  case True
  note R = lan_invD(2)[OF inv, unfolded lan_res_def] and D = lan_okD[OF lan_invD(1)[OF inv]]
  obtain a q where q: "l_logQueue l = a # q" using D(6) by (cases "l_logQueue l") auto
  from D(1) q have dist: "a \<notin> set q" "distinct q" by (auto simp: lan_shape_def)
  from R q have lg: "lg_inv (n_syslog st) (EL \<union> set (l_logQueue l))" "a \<notin> EL" by auto
  from q have aL: "a \<in> EL \<union> set (l_logQueue l)" by simp
  obtain lg1 lg2 where
    W: "CLog_WriteFile a True (e_tm (n_env st (n_time st))) (n_syslog st) = Some lg1" "CLog_Free (n_tid st) a lg1 = Some lg2"
      "lg_inv lg2 (EL \<union> set (l_logQueue l) - {a})" by (rule log_filed[OF lg(1) aL])
  have set: "EL \<union> set (l_logQueue l) - {a} = EL \<union> set q" using q dist lg(2) by auto
  let ?l = "l\<lparr>l_logQueue := q\<rparr>" and ?st = "st\<lparr>n_time := n_time st + 1, n_syslog := lg2\<rparr>"
  have "lan_ok (c\<lparr>y_log := n\<rparr>) ?l" using D q dist(2) by (auto simp: lan_ok_def lan_shape_def)
  moreover have "lan_owned (c\<lparr>y_log := n\<rparr>) ?l = lan_owned (c\<lparr>y_log := Suc n\<rparr>) l"
    by (simp add: lan_owned_def lan_released_def)
  ultimately have "lan_inv (c\<lparr>y_log := n\<rparr>) E EL (?l, ?st)"
    using R W(3) q unfolding set by (simp add: lan_inv_def lan_res_def)
  moreover have "CLanClient_writeLog (l, st) = Some (?l, ?st)"
    using R W q True by (simp add: CLanClient_writeLog_def ask_def)
  ultimately show ?thesis by (simp add: lan_frame_def net_rest_def)
qed

subsection \<open>Packets\<close>

lemma lan_Packet_Alloc:
  assumes "lan_inv c E EL (l, st)"
  shows "wpx C (Packet_Alloc st) (\<lambda>(a, st'). lan_inv c (add_mset a E) EL (l, st') \<and> lan_frame (l, st) (l, st') \<and>
    a \<notin># E + lan_owned c l \<and> pk_fresh (n_packets st' a))"
proof -
  note R = lan_invD(2)[OF assms, unfolded lan_res_def]
  then have pk: "pk_ok (n_pool st) (n_packets st) (E + lan_owned c l)" by simp
  obtain a pool where A:
    "Packet_Alloc st = Some (a, st\<lparr>n_packets := (n_packets st)(a := CPacket_Clear (n_packets st a)), n_pool := pool\<rparr>)"
    "a \<notin># E + lan_owned c l" "pk_fresh (CPacket_Clear (n_packets st a))"
    "pk_ok pool ((n_packets st)(a := CPacket_Clear (n_packets st a))) (add_mset a (E + lan_owned c l))"
    by (rule Packet_Alloc_pk[OF pk])
  with R lan_invD(1)[OF assms] show ?thesis by (simp add: lan_inv_def lan_res_def lan_frame_def net_rest_def)
qed

lemma lan_Packet_SubRef:
  assumes inv: "lan_inv c (add_mset a E) EL (l, st)"
  shows "wpx C (Packet_SubRef a st) (\<lambda>st'. lan_inv c E EL (l, st') \<and> lan_frame (l, st) (l, st'))"
proof -
  note R = lan_invD(2)[OF inv, unfolded lan_res_def]
  then have pk: "pk_ok (n_pool st) (n_packets st) (add_mset a (E + lan_owned c l))" by simp
  obtain pool where S:
    "Packet_SubRef a st = Some (st\<lparr>n_packets := (n_packets st)(a := (n_packets st a)\<lparr>pk_ref_cnt := pk_ref_cnt (n_packets st a) - 1\<rparr>),
       n_pool := pool\<rparr>)"
    "pk_ok pool ((n_packets st)(a := (n_packets st a)\<lparr>pk_ref_cnt := pk_ref_cnt (n_packets st a) - 1\<rparr>)) (E + lan_owned c l)"
    using Packet_SubRef_pk[OF pk, of a] by auto
  with R lan_invD(1)[OF inv] show ?thesis by (simp add: lan_inv_def lan_res_def lan_frame_def net_rest_def)
qed

lemma lan_Packet_AddRef:
  assumes inv: "lan_inv c E EL (l, st)" and a: "a \<in># E"
  shows "lan_inv c (add_mset a E) EL (l, Packet_AddRef a st)" and "lan_frame (l, st) (l, Packet_AddRef a st)"
proof -
  note R = lan_invD(2)[OF inv, unfolded lan_res_def]
  then have pk: "pk_ok (n_pool st) (n_packets st) (E + lan_owned c l)" by simp
  have "a \<in># E + lan_owned c l" using a by simp
  from pk_ok_AddRef[OF pk this] show "lan_inv c (add_mset a E) EL (l, Packet_AddRef a st)"
    using R lan_invD(1)[OF inv] by (simp add: lan_inv_def lan_res_def Packet_AddRef_def)
  show "lan_frame (l, st) (l, Packet_AddRef a st)" by (simp add: lan_frame_def net_rest_def Packet_AddRef_def)
qed

lemma lan_SubRefs_inv:
  assumes "lan_inv c (E + mset ps) EL (l, st)"
  shows "wpx C (lan_SubRefs ps st) (\<lambda>st'. lan_inv c E EL (l, st') \<and> lan_frame (l, st) (l, st'))"
  using assms
proof (induction ps arbitrary: st)
  case (Cons a ps)
  have "lan_inv c (add_mset a (E + mset ps)) EL (l, st)" using Cons.prems by simp
  note S = lan_Packet_SubRef[OF this, of C]
  show ?case unfolding lan_SubRefs.simps wpx_bind
    by (rule wpx_mono[OF S]) (auto intro!: wpx_mono[OF Cons.IH] elim: lan_frame_trans)
qed simp


subsection \<open>Sending\<close>

lemma lan_core_pin:
  assumes "lan_core io sp ca re rio sio flag disc rls none sent pins recv own relc"
  shows "lan_core (io + 1) sp ca re rio sio flag disc rls none sent (pins + 1) recv own relc"
  using assms unfolding lan_core_def by (cases rls; simp)

lemma lan_pin_ok:
  assumes "lan_ok c l"
  shows "lan_ok (c\<lparr>y_pins := y_pins c + 1\<rparr>) (l\<lparr>l_ioCount := l_ioCount l + 1\<rparr>)"
    and "lan_owned (c\<lparr>y_pins := y_pins c + 1\<rparr>) (l\<lparr>l_ioCount := l_ioCount l + 1\<rparr>) = lan_owned c l"
  using lan_okD[OF assms] lan_core_pin[OF lan_okD(5)[OF assms]]
  by (simp_all add: lan_ok_def lan_owned_def lan_released_def)

lemma lan_core_fill:
  assumes "lan_core io sp ca re rio sio flag disc rls none sent pins recv own relc" and "\<not> rls" and "0 < pins"
  shows "lan_core io sp ca re rio sio flag disc rls none' sent pins recv own relc"
  using assms by (auto simp: lan_core_def)

lemma lan_queue_ok:
  assumes ok: "lan_ok c l" and "\<not> l_releaseFlag l" and "0 < y_pins c" and "length q \<le> MAX_SENDQ"
  shows "lan_ok c (l\<lparr>l_sendQ := q\<rparr>)"
    and "lan_owned c (l\<lparr>l_sendQ := q\<rparr>) + mset (l_sendQ l) = lan_owned c l + mset q"
  using lan_okD[OF ok] lan_core_fill[OF lan_okD(5)[OF ok] assms(2,3), of "q = []"] assms(2,4)
  by (auto simp: lan_ok_def lan_shape_def lan_owned_def lan_released_def)

text \<open>Dropping a reference.\<close>

lemma lan_unpin:
  assumes inv: "lan_inv c E EL (l, st)" and "0 < y_pins c" and r: "y_recv c \<or> y_snd c \<Longrightarrow> 1 < y_pins c"
  shows "wpx C (CLanClient_updateIOCount l) (\<lambda>(t, l'). lan_inv (c\<lparr>y_pins := y_pins c - 1\<rparr>) E EL (l', st) \<and>
    lan_frame (l, st) (l', st) \<and> (1 < y_pins c \<longrightarrow> l_releaseFlag l' = l_releaseFlag l))"
proof -
  obtain t l' where U: "CLanClient_updateIOCount l = Some (t, l')" "lan_ok (c\<lparr>y_pins := y_pins c - 1\<rparr>) l'"
      "lan_owned (c\<lparr>y_pins := y_pins c - 1\<rparr>) l' = lan_owned c l" "l_logQueue l' = l_logQueue l"
      "lan_frame (l, st) (l', st)" "1 < y_pins c \<longrightarrow> l_releaseFlag l' = l_releaseFlag l"
    by (rule lan_updateIOCount[OF lan_invD(1)[OF inv] assms(2) r, where st = st])
  then have "lan_inv (c\<lparr>y_pins := y_pins c - 1\<rparr>) E EL (l', st)" by (intro lan_inv_upd[OF inv])
  with U show ?thesis by simp
qed

lemma lan_pinned:
  assumes "lan_ok c l" and "y_recv c \<or> y_snd c"
  shows "0 < y_pins c" and "\<not> l_releaseFlag l"
  using lan_okD(5)[OF assms(1)] assms(2) by (auto simp: lan_core_def)

lemma lan_SendPacket_inv:
  assumes inv: "lan_inv c E EL (l, st)" and p: "packet \<in># E"
  shows "wpx C (CLanClient_SendPacket packet (l, st)) (\<lambda>(ret, l', st'). lan_inv c E EL (l', st') \<and> lan_frame (l, st) (l', st'))"
proof -
  let ?l = "l\<lparr>l_ioCount := l_ioCount l + 1\<rparr>" and ?c = "c\<lparr>y_pins := y_pins c + 1\<rparr>"
  note P = lan_pin_ok[OF lan_invD(1)[OF inv]]
  have inv1: "lan_inv ?c E EL (?l, st)" by (rule lan_inv_upd[OF inv P]) simp
  have fr1: "lan_frame (l, st) (?l, st)" by (simp add: lan_frame_def)
  have unpin: "wpx C (CLanClient_updateIOCount l2) (\<lambda>(t, l'). lan_inv c E EL (l', st2) \<and> lan_frame (l, st) (l', st2))"
    if "lan_inv ?c E EL (l2, st2)" "lan_frame (l, st) (l2, st2)" for l2 st2
    by (rule wpx_mono[OF lan_unpin[OF that(1)]])
      (use lan_pinned(1)[OF lan_invD(1)[OF inv]] that(2) in \<open>auto elim: lan_frame_trans\<close>)
  show ?thesis
  proof (cases "\<not> l_releaseFlag l \<and> \<not> l_disconnect l")
    case False
    then show ?thesis using unpin[OF inv1 fr1]
      by (auto simp: CLanClient_SendPacket_def Let_def split_def)
  next
    case True
    let ?st = "Packet_AddRef packet st"
    note A = lan_Packet_AddRef[OF inv1 p]
    have fr2: "lan_frame (l, st) (?l, ?st)" by (rule lan_frame_trans[OF fr1 A(2)])
    show ?thesis
    proof (cases "send_q_Enqueue packet (l_sendQ l)")
      case (Some q)
      then have q: "q = l_sendQ l @ [packet]" "length q \<le> MAX_SENDQ" by (auto simp: send_q_Enqueue_def split: if_splits)
      note Q = lan_queue_ok[OF lan_invD(1)[OF A(1)], of q]
      have ok: "lan_ok ?c (?l\<lparr>l_sendQ := q\<rparr>)" using Q(1) True q by simp
      have own: "lan_owned ?c (?l\<lparr>l_sendQ := q\<rparr>) = add_mset packet (lan_owned ?c ?l)"
        using Q(2) True q by (simp add: lan_owned_def lan_released_def)
      have inv2: "lan_inv ?c E EL (?l\<lparr>l_sendQ := q\<rparr>, ?st)"
        using A(1) ok own by (simp add: lan_inv_def)
      note S = lan_sendPend_ok[OF ok]
      have inv3: "lan_inv ?c E EL (CLanClient_sendPend (?l\<lparr>l_sendQ := q\<rparr>), ?st)"
        by (rule lan_inv_upd[OF inv2]) (use S True in simp_all)
      have fr3: "lan_frame (?l, ?st) (?l\<lparr>l_sendQ := q\<rparr>, ?st)" by (simp add: lan_frame_def)
      have fr4: "lan_frame (?l\<lparr>l_sendQ := q\<rparr>, ?st) (CLanClient_sendPend (?l\<lparr>l_sendQ := q\<rparr>), ?st)"
        by (rule S(4)) (use True in simp)
      show ?thesis
        using unpin[OF inv3] lan_frame_trans[OF lan_frame_trans[OF fr2 fr3] fr4] Some True
        by (auto simp: CLanClient_SendPacket_def Let_def split_def)
    next
      case None
      note S = lan_Packet_SubRef[OF A(1), of C]
      have log: "wpx C (CLanClient_Log ''SYS'' enLOG_LEVEL_ERROR ''Full Send Q'' (?l, st2))
          (\<lambda>(l', st'). lan_inv ?c E EL (l', st') \<and> lan_frame (?l, st2) (l', st'))" if "lan_inv ?c E EL (?l, st2)" for st2
        by (rule wpx_mono[OF lan_Log_inv[OF that]]) auto
      have "wpx C (Packet_SubRef packet ?st)
          (\<lambda>st'. wpx C (CLanClient_Log ''SYS'' enLOG_LEVEL_ERROR ''Full Send Q'' (?l, st'))
            (\<lambda>(l', st'). lan_inv ?c E EL (l', st') \<and> lan_frame (l, st) (l', st')))"
        by (rule wpx_mono[OF S]) (auto intro!: wpx_mono[OF log] intro: lan_frame_trans[OF fr2] elim: lan_frame_trans)
      then have "wpx C (Packet_SubRef packet ?st)
          (\<lambda>st'. wpx C (CLanClient_Log ''SYS'' enLOG_LEVEL_ERROR ''Full Send Q'' (?l, st'))
            (\<lambda>(l2, st2). wpx C (CLanClient_updateIOCount l2)
              (\<lambda>(t, l'). lan_inv c E EL (l', st2) \<and> lan_frame (l, st) (l', st2))))"
        by (elim wpx_mono) (auto elim!: wpx_mono intro!: unpin)
      then show ?thesis using None True by (simp add: CLanClient_SendPacket_def Let_def split_def)
    qed
  qed
qed


lemma lan_take_eq:
  assumes "n \<le> length (l_sendQ l)" and "cnt + n \<le> length (l_sentPacket l)"
  shows "fst (lan_take n cnt (l, st)) = l\<lparr>l_sendQ := drop n (l_sendQ l),
     l_sentPacket := splice cnt (take n (l_sendQ l)) (l_sentPacket l)\<rparr>"
  using assms
proof (induction n arbitrary: cnt l st)
  case (Suc n)
  then obtain a q where q: "l_sendQ l = a # q" by (cases "l_sendQ l") auto
  have "splice (Suc cnt) (take n q) ((l_sentPacket l)[cnt := a]) = splice cnt (a # take n q) (l_sentPacket l)"
    using splice_splice_adjacent[of cnt "[a]" "take n q" "l_sentPacket l"] Suc.prems q
    by (simp add: splice_def upd_conv_take_nth_drop)
  then show ?case using Suc.IH[of "l\<lparr>l_sendQ := q, l_sentPacket := (l_sentPacket l)[cnt := a]\<rparr>" "Suc cnt"] Suc.prems q
    by simp
qed (simp add: splice_def)

lemma GetBufferPtrLan_packet:
  assumes "pk_inv p"
  shows "pk_inv (fst (CPacket_GetBufferPtrLan p))"
    and "pk_buffer_size (fst (CPacket_GetBufferPtrLan p)) = pk_buffer_size p"
    and "pk_ref_cnt (fst (CPacket_GetBufferPtrLan p)) = pk_ref_cnt p"
  using assms by (simp_all add: CPacket_GetBufferPtrLan_def pk_inv_def net_header_size_def lan_header_size_def)

lemma lan_res_header:
  assumes "lan_res R EL logs st"
  shows "lan_res R EL logs (st\<lparr>n_packets := (n_packets st)(a := fst (CPacket_GetBufferPtrLan (n_packets st a)))\<rparr>)"
proof -
  have "pk_inv (n_packets st a)" "pk_buffer_size (n_packets st a) = eBUFFER_DEFAULT" "pk_ok (n_pool st) (n_packets st) R"
    using assms by (auto simp: lan_res_def pk_ok_def)
  with assms show ?thesis by (simp add: lan_res_def pk_ok_upd GetBufferPtrLan_packet)
qed

lemma lan_take_res:
  assumes "lan_res R EL logs st"
  shows "lan_res R EL logs (snd (lan_take n cnt (l, st))) \<and> net_rest (snd (lan_take n cnt (l, st))) = net_rest st"
  using assms
proof (induction n arbitrary: cnt l st)
  case (Suc n)
  then show ?case using lan_res_header[OF Suc.prems] by (cases "l_sendQ l") (simp_all add: net_rest_def)
qed simp

text \<open>The packets of the queue move to \<open>m_sentPacket\<close>.\<close>

lemma lan_core_send:
  assumes "lan_core io sp ca re rio sio False False rls none sent pins recv own relc"
  shows "lan_core (io + 1) sp ca re rio sio True False rls none' (int (Suc n)) (pins + 1) recv True relc" and "sent = 0" and "\<not> rls"
proof -
  have r: "\<not> rls" "sp = 0" "\<not> sio" "\<not> own" using assms by (auto simp: lan_core_def)
  then show "lan_core (io + 1) sp ca re rio sio True False rls none' (int (Suc n)) (pins + 1) recv True relc"
    using assms by (simp add: lan_core_def)
  show "sent = 0" "\<not> rls" using assms r by (auto simp: lan_core_def)
qed

lemma lan_send_taken:
  assumes inv: "lan_inv c E EL (l, st)" and f: "\<not> l_sendFlag l" "\<not> l_disconnect l" and q: "l_sendQ l \<noteq> []"
  defines "n \<equiv> min (length (l_sendQ l)) MAX_WSABUF"
  obtains l2 st2 where "lan_take n 0 (l\<lparr>l_sendFlag := True, l_ioCount := l_ioCount l + 1\<rparr>, st) = (l2, st2)"
    "lan_inv (c\<lparr>y_pins := y_pins c + 1, y_snd := True\<rparr>) E EL (l2\<lparr>l_sentPacketCnt := int n\<rparr>, st2)"
    "lan_frame (l, st) (l2\<lparr>l_sentPacketCnt := int n\<rparr>, st2)" "\<not> l_disconnect l2" "\<not> l_releaseFlag l2" "\<not> y_snd c"
proof -
  note D = lan_okD[OF lan_invD(1)[OF inv]]
  let ?l = "l\<lparr>l_sendFlag := True, l_ioCount := l_ioCount l + 1\<rparr>" and ?c = "c\<lparr>y_pins := y_pins c + 1, y_snd := True\<rparr>"
  have "0 < n" using q by (simp add: n_def MAX_WSABUF_def)
  then obtain m where m: "n = Suc m" "n \<le> length (l_sendQ l)" "n \<le> 30"
    by (cases n) (auto simp: n_def MAX_WSABUF_def)
  obtain l2 st2 where t: "lan_take n 0 (?l, st) = (l2, st2)" by (cases "lan_take n 0 (?l, st)")
  have len: "length (l_sentPacket l) = 200" using D(1) by (simp add: lan_shape_def)
  have l2: "l2 = ?l\<lparr>l_sendQ := drop n (l_sendQ l), l_sentPacket := splice 0 (take n (l_sendQ l)) (l_sentPacket l)\<rparr>"
    using lan_take_eq[of n ?l 0 st] t m len by simp
  let ?l2 = "l2\<lparr>l_sentPacketCnt := int n\<rparr>"
  have f': "l_sendFlag l = False" "l_disconnect l = False" using f by simp_all
  note core = lan_core_send(1)[OF D(5)[unfolded f'], of "drop n (l_sendQ l) = []" m]
  have r: "l_releaseFlag l = False" "l_sentPacketCnt l = 0" "\<not> y_snd c"
    using lan_core_send(2,3)[OF D(5)[unfolded f']] D(5) f' by (auto simp: lan_core_def)
  have "lan_shape ?l2"
    using D(1) m len by (auto simp: lan_shape_def l2 dest: in_set_dropD)
  then have ok: "lan_ok ?c ?l2" using core D(6) m f' by (simp add: lan_ok_def l2)
  have "mset (take n (l_sendQ l)) + mset (drop n (l_sendQ l)) = mset (l_sendQ l)"
    by (metis append_take_drop_id mset_append)
  moreover have "nat (1 + int m) = Suc m" by linarith
  ultimately have own: "lan_owned ?c ?l2 = lan_owned c l"
    using m r by (simp add: lan_owned_def lan_released_def l2 lan_sent_def splice_def add.commute)
  note T = conjunct1[OF lan_take_res[OF lan_invD(2)[OF inv], of n 0 ?l]]
    and rest = conjunct2[OF lan_take_res[OF lan_invD(2)[OF inv], of n 0 ?l]]
  have "lan_inv ?c E EL (?l2, st2)"
    using ok T t own by (simp add: lan_inv_def) (simp add: l2)
  moreover have "lan_frame (l, st) (?l2, st2)" using rest t by (simp add: lan_frame_def l2)
  ultimately show ?thesis using that[OF t] f' r by (simp add: l2)
qed


lemma lan_core_sent:
  assumes "lan_core io sp ca re rio sio flag disc rls none sent (Suc pins) False True relc" and "0 < sent"
  shows "lan_core io sp ca re rio True flag disc rls none sent pins False False relc"
proof -
  have "\<not> sio" "\<not> rls" using assms by (cases sio; cases flag; simp add: lan_core_def)+
  then show ?thesis using assms by (simp add: lan_core_def)
qed

lemma lan_core_giveup:
  assumes "lan_core io sp ca re rio sio flag True rls none sent pins recv own relc"
  shows "lan_core io sp ca re rio sio flag True rls none sent pins False False relc"
proof -
  have "sp + of_bool sio \<le> (of_bool flag :: nat)" using assms by (cases own) (simp_all add: lan_core_def)
  with assms show ?thesis by (simp add: lan_core_def)
qed

lemma lan_giveup_ok:
  assumes ok: "lan_ok (Y n r s q g) l" and d: "l_disconnect l"
  shows "lan_ok (Y n False False q g) l"
proof -
  from d have d': "l_disconnect l = True" by simp
  show ?thesis using lan_okD[OF ok] lan_core_giveup[OF lan_okD(5)[OF ok, unfolded d']] d by (simp add: lan_ok_def)
qed

lemma lan_owned_Y: "lan_owned (Y n r s q g) l = lan_owned (Y n' r' s' q g') l"
  by (simp add: lan_owned_def lan_released_def)

lemma lan_owned_flags [simp]:
  "lan_owned c (l\<lparr>l_send_io := b\<rparr>) = lan_owned c l" "lan_owned c (l\<lparr>l_recv_io := b\<rparr>) = lan_owned c l"
  "lan_owned c (l\<lparr>l_ioCount := n\<rparr>) = lan_owned c l" "lan_owned c (l\<lparr>l_sendFlag := b\<rparr>) = lan_owned c l"
  "lan_owned c (l\<lparr>l_recvQ := r\<rparr>) = lan_owned c l" "lan_owned c (l\<lparr>l_disconnect := b\<rparr>) = lan_owned c l"
  by (simp_all add: lan_owned_def lan_released_def)

lemma lan_inv_step:
  assumes "lan_inv (Y n r s q g) E EL (l, st)" and "lan_ok (Y n' r' s' q g') l'"
    and "lan_owned (Y n r s q g) l' = lan_owned (Y n r s q g) l" and "l_logQueue l' = l_logQueue l"
  shows "lan_inv (Y n' r' s' q g') E EL (l', st)"
  using assms lan_owned_Y by (metis lan_inv_upd)

text \<open>A send or receive that failed at once: report, disconnect, drop the reference.\<close>

definition lan_fail :: "string \<Rightarrow> u32 \<Rightarrow> 'a client \<Rightarrow> 'a client run" where
  "lan_fail msg error_code = (\<lambda>(l, st). do {
     (l, st) \<leftarrow> (if error_code \<noteq> WSAECONNRESET then CLanClient_Log ''SYS'' enLOG_LEVEL_ERROR msg (l, st) else Some (l, st));
     (_, l) \<leftarrow> CLanClient_updateIOCount (CLanClient_disconnectSession l);
     Some (l, st)
   })"

lemma lan_fail_inv:
  assumes inv: "lan_inv (Y (Suc n) r s q g) E EL (l, st)" and tx: "length msg < 1024"
  shows "wpx C (lan_fail msg error_code (l, st)) (\<lambda>(l', st'). lan_inv (Y n False False q g) E EL (l', st') \<and>
    lan_frame (l, st) (l', st') \<and> (0 < n \<longrightarrow> l_releaseFlag l' = l_releaseFlag l))"
proof -
  let ?c = "Y (Suc n) r s q g" and ?c' = "Y (Suc n) False False q g"
  have log: "wpx C (if error_code \<noteq> WSAECONNRESET then CLanClient_Log ''SYS'' enLOG_LEVEL_ERROR msg (l, st) else Some (l, st))
      (\<lambda>(l', st'). lan_inv ?c E EL (l', st') \<and> lan_frame (l, st) (l', st') \<and> l_releaseFlag l' = l_releaseFlag l)"
    using inv by (auto intro!: wpx_mono[OF lan_Log_inv[OF inv]] tx)
  have rest: "wpx C (CLanClient_updateIOCount (CLanClient_disconnectSession l1))
      (\<lambda>(t, l'). lan_inv (Y n False False q g) E EL (l', st1) \<and> lan_frame (l, st) (l', st1) \<and>
        (0 < n \<longrightarrow> l_releaseFlag l' = l_releaseFlag l))"
    if i: "lan_inv ?c E EL (l1, st1)" "lan_frame (l, st) (l1, st1)" "l_releaseFlag l1 = l_releaseFlag l" for l1 st1
  proof -
    note K = lan_disconnect_ok[OF lan_invD(1)[OF i(1)]]
    have i2: "lan_inv ?c' E EL (CLanClient_disconnectSession l1, st1)"
      by (rule lan_inv_upd[OF i(1) lan_giveup_ok[OF K(1,5)]]) (use K lan_owned_Y in metis)+
    have fr: "lan_frame (l, st) (CLanClient_disconnectSession l1, st1)" by (rule lan_frame_trans[OF i(2) K(4)])
    show ?thesis
      by (rule wpx_mono[OF lan_unpin[OF i2]]) (use fr K(6) i(3) in \<open>auto elim: lan_frame_trans\<close>)
  qed
  show ?thesis unfolding lan_fail_def
    by (simp add: split_def) (use log rest in \<open>auto simp: split_def elim!: wpx_mono\<close>)
qed

lemma lan_send_result_inv:
  assumes inv: "lan_inv (Y (Suc n) False True q g) E EL (l, st)" and k: "0 < l_sentPacketCnt l" and n: "0 < n"
  shows "wpx C (lan_send_result (l, st)) (\<lambda>(l', st'). lan_inv (Y n False False q g) E EL (l', st') \<and>
    lan_frame (l, st) (l', st') \<and> l_releaseFlag l' = l_releaseFlag l)"
proof -
  let ?st = "st\<lparr>n_time := n_time st + 1\<rparr>" and ?e = "n_env st (n_time st)"
  have inv1: "lan_inv (Y (Suc n) False True q g) E EL (l, ?st)" using inv by (simp add: lan_inv_def lan_res_def)
  have fr1: "lan_frame (l, st) (l, ?st)" by (simp add: lan_frame_def net_rest_def)
  show ?thesis
  proof (cases "e_io ?e")
    case (Io_error x)
    have "lan_send_result (l, st) = lan_fail (''Send Failed ['' @ fmt_d (sint x) @ ''] session'') x (l, ?st)"
      using Io_error by (simp add: lan_send_result_def lan_fail_def ask_def)
    then show ?thesis
    proof (rule ssubst)
      show "wpx C (lan_fail (''Send Failed ['' @ fmt_d (sint x) @ ''] session'') x (l, ?st))
        (\<lambda>(l', st'). lan_inv (Y n False False q g) E EL (l', st') \<and> lan_frame (l, st) (l', st') \<and> l_releaseFlag l' = l_releaseFlag l)"
        by (rule wpx_mono[OF lan_fail_inv[OF inv1 log_text]]) (use n lan_frame_trans[OF fr1] in auto)
    qed
  next
    case Io_pending
    have "lan_ok (Y n False False q g) (l\<lparr>l_send_io := True\<rparr>)"
      using lan_okD[OF lan_invD(1)[OF inv]] lan_core_sent[of _ _ _ _ _ _ _ _ _ _ _ n, OF _ k] by (simp add: lan_ok_def)
    from lan_inv_step[OF inv1 this] show ?thesis using Io_pending
      by (simp add: lan_send_result_def ask_def lan_frame_def net_rest_def)
  next
    case Io_ok
    have "lan_ok (Y n False False q g) (l\<lparr>l_send_io := True\<rparr>)"
      using lan_okD[OF lan_invD(1)[OF inv]] lan_core_sent[of _ _ _ _ _ _ _ _ _ _ _ n, OF _ k] by (simp add: lan_ok_def)
    from lan_inv_step[OF inv1 this] show ?thesis using Io_ok
      by (simp add: lan_send_result_def ask_def lan_frame_def net_rest_def)
  qed
qed


lemma lan_sendPost_inv:
  assumes inv: "lan_inv (Y n False False q g) E EL (l, st)" and n: "0 < n" and r: "\<not> l_releaseFlag l"
  shows "wpx C (CLanClient_sendPost (l, st)) (\<lambda>(l', st'). lan_inv (Y n False False q g) E EL (l', st') \<and>
    lan_frame (l, st) (l', st') \<and> \<not> l_releaseFlag l')"
proof (cases "\<not> l_disconnect l \<and> \<not> l_sendFlag l")
  case False
  then show ?thesis using inv r by (auto simp: CLanClient_sendPost_def)
next
  case True
  show ?thesis
  proof (cases "l_sendQ l = []")
    case True
    moreover have "l\<lparr>l_sendFlag := False\<rparr> = l" using \<open>\<not> l_disconnect l \<and> \<not> l_sendFlag l\<close> by simp
    ultimately show ?thesis using inv r by (simp add: CLanClient_sendPost_def)
  next
    case False
    let ?n = "min (length (l_sendQ l)) MAX_WSABUF"
    obtain l2 st2 where T: "lan_take ?n 0 (l\<lparr>l_sendFlag := True, l_ioCount := l_ioCount l + 1\<rparr>, st) = (l2, st2)"
      "lan_inv (Y (Suc n) False True q g) E EL (l2\<lparr>l_sentPacketCnt := int ?n\<rparr>, st2)"
      "lan_frame (l, st) (l2\<lparr>l_sentPacketCnt := int ?n\<rparr>, st2)" "\<not> l_releaseFlag l2"
      by (rule lan_send_taken[OF inv _ _ False]) (use True that in \<open>auto simp del: of_nat_min\<close>)
    have pos: "0 < l_sentPacketCnt (l2\<lparr>l_sentPacketCnt := int ?n\<rparr>)" using False by (simp add: MAX_WSABUF_def)
    have "CLanClient_sendPost (l, st) = lan_send_result (l2\<lparr>l_sentPacketCnt := int ?n\<rparr>, st2)"
      using True False T(1) by (simp add: CLanClient_sendPost_def Let_def)
    then show ?thesis
      using T(4) by (auto intro!: wpx_mono[OF lan_send_result_inv[OF T(2) pos n]] lan_frame_trans[OF T(3)])
  qed
qed

text \<open>\<open>l\<close> here is the client whose send flag \<open>trySend\<close> resets.\<close>

lemma lan_trySend_inv:
  assumes inv: "lan_inv (Y n False False q g) E EL (l\<lparr>l_sendFlag := False\<rparr>, st)" and n: "0 < n" and r: "\<not> l_releaseFlag l"
  shows "wpx C (CLanClient_trySend (l, st)) (\<lambda>(l', st'). lan_inv (Y n False False q g) E EL (l', st') \<and>
    lan_frame (l, st) (l', st') \<and> \<not> l_releaseFlag l')"
proof -
  have fr: "lan_frame (l, st) (l\<lparr>l_sendFlag := False\<rparr>, st)" by (simp add: lan_frame_def)
  have r': "\<not> l_releaseFlag (l\<lparr>l_sendFlag := False\<rparr>)" using r by simp
  have pend: "lan_inv (Y n False False q g) E EL (CLanClient_sendPend l1, st1) \<and> lan_frame (l, st) (CLanClient_sendPend l1, st1) \<and>
      \<not> l_releaseFlag (CLanClient_sendPend l1)"
    if "lan_inv (Y n False False q g) E EL (l1, st1)" "lan_frame (l\<lparr>l_sendFlag := False\<rparr>, st) (l1, st1)" "\<not> l_releaseFlag l1" for l1 st1
  proof -
    note S = lan_sendPend_ok[OF lan_invD(1)[OF that(1)] that(3)]
    show ?thesis using lan_inv_upd[OF that(1) S(1,2,3)] S(4,5) lan_frame_trans[OF fr] lan_frame_trans[OF that(2)] by blast
  qed
  show ?thesis
  proof (cases "l_sendQ l = []")
    case True
    then show ?thesis using inv fr r by (simp add: CLanClient_trySend_def)
  next
    case False
    then show ?thesis
      using pend by (auto simp: CLanClient_trySend_def Let_def split_def intro!: wpx_mono[OF lan_sendPost_inv[OF inv n r']])
  qed
qed

subsection \<open>Receiving\<close>

lemma lan_core_received:
  assumes "lan_core io sp ca re rio sio flag disc rls none sent (Suc pins) True False relc"
  shows "lan_core io sp ca re True sio flag disc rls none sent pins False False relc"
proof -
  have "\<not> rio" "\<not> rls" using assms by (auto simp: lan_core_def)
  then show ?thesis using assms by (simp add: lan_core_def)
qed

lemma lan_recvPost_inv:
  assumes inv: "lan_inv (Y n True False q g) E EL (l, st)"
  shows "wpx C (CLanClient_recvPost (l, st)) (\<lambda>(ret, l', st'). lan_inv (Y n False False q g) E EL (l', st') \<and>
    lan_frame (l, st) (l', st'))"
proof (cases "l_disconnect l")
  case True
  have "lan_inv (Y n False False q g) E EL (l, st)"
    by (rule lan_inv_upd[OF inv lan_giveup_ok[OF lan_invD(1)[OF inv] True]]) (use lan_owned_Y in auto)
  then show ?thesis using True by (simp add: CLanClient_recvPost_def)
next
  case False
  let ?l = "l\<lparr>l_ioCount := l_ioCount l + 1\<rparr>" and ?st = "st\<lparr>n_time := n_time st + 1\<rparr>" and ?e = "n_env st (n_time st)"
  have "lan_inv (Y (Suc n) True False q g) E EL (?l, st)"
    by (rule lan_inv_upd[OF inv]) (use lan_pin_ok[OF lan_invD(1)[OF inv]] lan_owned_Y in auto)
  then have inv1: "lan_inv (Y (Suc n) True False q g) E EL (?l, ?st)" by (simp add: lan_inv_def lan_res_def)
  have fr1: "lan_frame (l, st) (?l, ?st)" by (simp add: lan_frame_def net_rest_def)
  have started: "lan_inv (Y n False False q g) E EL (?l\<lparr>l_recv_io := True\<rparr>, ?st) \<and> lan_frame (l, st) (?l\<lparr>l_recv_io := True\<rparr>, ?st)"
  proof -
    have "lan_ok (Y n False False q g) (?l\<lparr>l_recv_io := True\<rparr>)"
      using lan_okD[OF lan_invD(1)[OF inv1]] lan_core_received[of "l_ioCount ?l"] by (simp add: lan_ok_def)
    from lan_inv_step[OF inv1 this] show ?thesis by (simp add: lan_frame_def net_rest_def)
  qed
  show ?thesis
  proof (cases "e_io ?e")
    case (Io_error x)
    have "CLanClient_recvPost (l, st) = map_option (\<lambda>(l, st). (False, l, st))
        (lan_fail (''Recv Failed ['' @ fmt_d (sint x) @ ''] session'') x (?l, ?st))"
      using Io_error False by (simp add: CLanClient_recvPost_def lan_fail_def ask_def split_def bind_map_option comp_def map_option_bind)
    then show ?thesis
    proof (rule ssubst)
      show "wpx C (map_option (\<lambda>(l, st). (False, l, st)) (lan_fail (''Recv Failed ['' @ fmt_d (sint x) @ ''] session'') x (?l, ?st)))
        (\<lambda>(ret, l', st'). lan_inv (Y n False False q g) E EL (l', st') \<and> lan_frame (l, st) (l', st'))"
        unfolding wpx_map
        by (rule wpx_mono[OF lan_fail_inv[OF inv1 log_text]]) (use lan_frame_trans[OF fr1] in auto)
    qed
  qed (use False started in \<open>simp_all add: CLanClient_recvPost_def ask_def\<close>)
qed

end
