(* ===== verification/LanSafe.thy ===== *)
theory LanSafe
  imports LanInv
begin

text \<open>
  The client of the monitor server, continued: receiving, the contract of the derived class, release and the
  completions keep the invariant.
\<close>

subsection \<open>The head of the receive ring\<close>

lemma lan_head_list:
  assumes rb: "rb_inv rb" "rb_capacity rb = 2000"
  shows "length (rb_list rb) < 2 \<Longrightarrow> RingBuffer_Peek rb (of_nat lan_header_size) = (0, [])"
    and "2 \<le> length (rb_list rb) \<Longrightarrow> RingBuffer_Peek rb (of_nat lan_header_size) = (of_nat lan_header_size, take 2 (rb_list rb))"
    and "(ucast (len :: u16) :: u64) + of_nat lan_header_size > scast (RingBuffer_GetFillSize rb) \<longleftrightarrow> length (rb_list rb) < unat len + 2"
    and "uint len > sint (RingBuffer_GetEmptySize rb) \<longleftrightarrow> 2000 < length (rb_list rb) + unat len"
proof -
  have fill: "unat (RingBuffer_GetFillSize rb) = length (rb_list rb)" "length (rb_list rb) \<le> 2000"
      "unat (RingBuffer_GetEmptySize rb) = 2000 - length (rb_list rb)"
    using rb_sizes[OF rb(1)] rb(2) by simp_all
  have b16: "unat len < 2 ^ 16" using unsigned_less[of len] by simp
  show "RingBuffer_Peek rb (of_nat lan_header_size) = (0, [])" if "length (rb_list rb) < 2"
    by (rule rb_Peek_fail[OF rb(1)]) (use that in \<open>simp_all add: lan_header_size_def\<close>)
  show "RingBuffer_Peek rb (of_nat lan_header_size) = (of_nat lan_header_size, take 2 (rb_list rb))" if "2 \<le> length (rb_list rb)"
    using rb_Peek_ok[OF rb(1), of "of_nat lan_header_size"] that by (simp add: lan_header_size_def)
  have l64: "unat ((ucast len :: u64) + 2) = unat len + 2"
    using b16 by (subst unat_add_small) (simp_all add: unat_ucast_u16_u64)
  have f64: "unat (scast (RingBuffer_GetFillSize rb) :: u64) = length (rb_list rb)"
    using fill by (subst unat_scast_u32_u64) simp_all
  show "(ucast len :: u64) + of_nat lan_header_size > scast (RingBuffer_GetFillSize rb) \<longleftrightarrow> length (rb_list rb) < unat len + 2"
    using l64 f64 by (simp add: word_less_nat_alt lan_header_size_def)
  have "sint (RingBuffer_GetEmptySize rb) = int (2000 - length (rb_list rb))"
    using fill sint_unat[of "RingBuffer_GetEmptySize rb"] by simp
  then show "uint len > sint (RingBuffer_GetEmptySize rb) \<longleftrightarrow> 2000 < length (rb_list rb) + unat len"
    unfolding uint_nat using fill(2) by (simp only: of_nat_less_iff) linarith
qed

lemma lan_dequeue:
  assumes rb: "rb_inv rb" "rb_capacity rb = 2000" and l: "unat (len :: u16) + 2 \<le> length (rb_list rb)"
  obtains rb' where "RingBuffer_Dequeue rb (ucast len + of_nat lan_header_size) =
      (rb', ucast len + of_nat lan_header_size, take (unat len + 2) (rb_list rb))"
    "rb_inv rb'" "rb_capacity rb' = 2000" "rb_list rb' = drop (unat len + 2) (rb_list rb)"
proof -
  have b16: "unat len < 2 ^ 16" using unsigned_less[of len] by simp
  have l32: "unat ((ucast len :: u32) + 2) = unat len + 2"
    using b16 by (subst unat_add_small) (simp_all add: unat_ucast_u16_u32)
  show ?thesis
    by (rule rb_Dequeue_ok[OF rb(1), of "ucast len + 2"]) (use l32 l rb(2) that in \<open>simp_all add: lan_header_size_def\<close>)
qed

lemma lan_recv_packet_inv:
  assumes f: "pk_fresh p" and n: "length bs = unat len + 2" "unat len < 2000"
  shows "pk_inv (lan_recv_packet bs len p)" and "pk_buffer_size (lan_recv_packet bs len p) = eBUFFER_DEFAULT"
    and "pk_ref_cnt (lan_recv_packet bs len p) = pk_ref_cnt p"
proof -
  have "uint len < 2000" "0 \<le> uint len" unfolding uint_nat using n by linarith+
  with f n show "pk_inv (lan_recv_packet bs len p)" "pk_buffer_size (lan_recv_packet bs len p) = eBUFFER_DEFAULT"
    "pk_ref_cnt (lan_recv_packet bs len p) = pk_ref_cnt p"
    by (auto simp: lan_recv_packet_def CPacket_GetBufferPtrLan_def CPacket_MoveWritePos_def pk_fresh_def pk_inv_def
        net_header_size_def lan_header_size_def eBUFFER_DEFAULT_def Let_def)
qed

subsection \<open>The contract of the derived class\<close>

text \<open>Its functions keep the invariant in whatever step they are called, do not fail and leave the receive ring alone.\<close>

locale lan_client =
  fixes cb :: "'a client lan_callbacks"
  assumes recv: "\<And>c E EL l st packet. lan_inv c E EL (l, st) \<Longrightarrow> packet \<in># E \<Longrightarrow>
      wpx False (L_OnRecv cb packet (l, st)) (\<lambda>(l', st'). lan_inv c E EL (l', st') \<and> lan_frame (l, st) (l', st'))"
    and join: "\<And>c E EL l st. lan_inv c E EL (l, st) \<Longrightarrow>
      wpx False (L_OnEnterServerJoin cb (l, st)) (\<lambda>(l', st'). lan_inv c E EL (l', st') \<and> lan_frame (l, st) (l', st'))"
    and leave: "\<And>c E EL l st. lan_inv c E EL (l, st) \<Longrightarrow>
      wpx False (L_OnLeaveServer cb (l, st)) (\<lambda>(l', st'). lan_inv c E EL (l', st') \<and> lan_frame (l, st) (l', st') \<and>
        l_disconnect l' = l_disconnect l \<and> l_sendQ l' = l_sendQ l \<and> l_releaseFlag l' = l_releaseFlag l)"
    and error: "\<And>c E EL l st code msg. lan_inv c E EL (l, st) \<Longrightarrow>
      wpx False (L_OnError cb code msg (l, st)) (\<lambda>(l', st'). lan_inv c E EL (l', st') \<and> lan_frame (l, st) (l', st'))"
begin

lemma lan_recv_message_inv:
  assumes inv: "lan_inv (Y n True False q g) E EL (l, st)" and len: "unat len + 2 \<le> length (rb_list (l_recvQ l))"
  shows "wpx False (lan_recv_message cb len (l, st)) (\<lambda>(l', st'). lan_inv (Y n True False q g) E EL (l', st') \<and>
    lan_frame (l\<lparr>l_recvQ := l_recvQ l'\<rparr>, st) (l', st') \<and> length (rb_list (l_recvQ l')) < length (rb_list (l_recvQ l)))"
proof -
  let ?c = "Y n True False q g"
  note D = lan_okD[OF lan_invD(1)[OF inv]]
  obtain rb' where rb: "RingBuffer_Dequeue (l_recvQ l) (ucast len + of_nat lan_header_size) =
      (rb', ucast len + of_nat lan_header_size, take (unat len + 2) (rb_list (l_recvQ l)))"
    "rb_inv rb'" "rb_capacity rb' = 2000" "rb_list rb' = drop (unat len + 2) (rb_list (l_recvQ l))"
    by (rule lan_dequeue[OF D(3,4) len])
  define bs where "bs = take (unat len + 2) (rb_list (l_recvQ l))"
  let ?l = "l\<lparr>l_recvQ := rb'\<rparr>"
  let ?filled = "\<lambda>a st. st\<lparr>n_packets := (n_packets st)(a := lan_recv_packet bs len (n_packets st a))\<rparr>"
  have l2000: "length (rb_list (l_recvQ l)) \<le> 2000" using rb_sizes(4)[OF D(3)] D(4) by simp
  have bs: "length bs = unat len + 2" "unat len < 2000" using len l2000 by (simp_all add: bs_def)
  have short: "length (rb_list rb') < length (rb_list (l_recvQ l))" using len rb(4) by simp
  have okl: "lan_ok ?c ?l" using D(1,5,6) rb(2,3) by (simp add: lan_ok_def lan_shape_def)
  have step: "wpx False (L_OnRecv cb a (?l, ?filled a st1)) (\<lambda>(l2, st2). wpx False (Packet_Free a st2)
      (\<lambda>st3. lan_inv ?c E EL (l2, st3) \<and> lan_frame (?l, st) (l2, st3)))"
    if A: "lan_inv ?c (add_mset a E) EL (l, st1)" "lan_frame (l, st) (l, st1)" "pk_fresh (n_packets st1 a)" for a st1
  proof -
    note R = lan_invD(2)[OF A(1), unfolded lan_res_def]
    note K = lan_recv_packet_inv[OF A(3) bs]
    have "pk_ok (n_pool st1) ((n_packets st1)(a := lan_recv_packet bs len (n_packets st1 a))) (add_mset a E + lan_owned ?c l)"
      by (rule pk_ok_upd) (use R K in auto)
    then have inv2: "lan_inv ?c (add_mset a E) EL (?l, ?filled a st1)"
      using R okl by (simp add: lan_inv_def lan_res_def)
    have fr2: "lan_frame (?l, st) (?l, ?filled a st1)" using A(2) by (simp add: lan_frame_def net_rest_def)
    have free: "wpx False (Packet_Free a st2) (\<lambda>st3. lan_inv ?c E EL (l2, st3) \<and> lan_frame (?l, st) (l2, st3))"
      if "lan_inv ?c (add_mset a E) EL (l2, st2)" "lan_frame (?l, ?filled a st1) (l2, st2)" for l2 st2
      unfolding Packet_Free_def
      by (rule wpx_mono[OF lan_Packet_SubRef[OF that(1)]]) (use lan_frame_trans[OF fr2 that(2)] in \<open>auto elim: lan_frame_trans\<close>)
    show ?thesis by (rule wpx_mono[OF recv[OF inv2]]) (use free in auto)
  qed
  have "lan_recv_message cb len (l, st) = do {
      (a, st) \<leftarrow> Packet_Alloc st;
      (l, st) \<leftarrow> L_OnRecv cb a (?l, ?filled a st);
      st \<leftarrow> Packet_Free a st;
      Some (l, st)
    }"
    by (simp add: lan_recv_message_def rb(1) bs_def)
  then show ?thesis
  proof (rule ssubst)
    have post: "lan_frame (l\<lparr>l_recvQ := l_recvQ l2\<rparr>, st) (l2, st3) \<and> length (rb_list (l_recvQ l2)) < length (rb_list (l_recvQ l))"
      if "lan_frame (?l, st) (l2, st3)" for l2 st3
      using that short by (simp add: lan_frame_def)
    let ?Q = "\<lambda>l' st'. lan_inv ?c E EL (l', st') \<and> lan_frame (l\<lparr>l_recvQ := l_recvQ l'\<rparr>, st) (l', st') \<and>
          length (rb_list (l_recvQ l')) < length (rb_list (l_recvQ l))"
    have step': "wpx False (L_OnRecv cb a (?l, ?filled a st1)) (\<lambda>r. wpx False (Packet_Free a (snd r)) (\<lambda>st3. ?Q (fst r) st3))"
      if "lan_inv ?c (add_mset a E) EL (l, st1)" "lan_frame (l, st) (l, st1)" "pk_fresh (n_packets st1 a)" for a st1
      by (rule wpx_mono[OF step[OF that]], simp only: split_def, erule wpx_mono) (use post in blast)
    show "wpx False (do { (a, st) \<leftarrow> Packet_Alloc st; (l, st) \<leftarrow> L_OnRecv cb a (?l, ?filled a st);
         st \<leftarrow> Packet_Free a st; Some (l, st) }) (\<lambda>(l', st'). ?Q l' st')"
      unfolding wpx_bind split_def wpx_Some fst_conv snd_conv
      by (rule wpx_mono[OF lan_Packet_Alloc[OF inv]]) (rule step', simp_all add: split_def)
  qed
qed

lemma lan_recv_loop_inv:
  assumes inv: "lan_inv (Y n True False q g) E EL (l, st)" and fuel: "length (rb_list (l_recvQ l)) < fuel"
  shows "wpx False (lan_recv_loop cb fuel (l, st)) (\<lambda>(l', st'). lan_inv (Y n True False q g) E EL (l', st') \<and>
    lan_frame (l\<lparr>l_recvQ := l_recvQ l'\<rparr>, st) (l', st'))"
  using assms
proof (induction fuel arbitrary: l st)
  case (Suc fuel)
  let ?c = "Y n True False q g"
  note D = lan_okD[OF lan_invD(1)[OF Suc.prems(1)]]
  note H = lan_head_list[OF D(3,4)]
  show ?case
  proof (cases "length (rb_list (l_recvQ l)) < 2")
    case True
    then show ?thesis using Suc.prems(1) H(1) by (simp add: lan_header_size_def)
  next
    case False
    define len where "len = lan_header_len (take 2 (rb_list (l_recvQ l)))"
    show ?thesis
    proof (cases "length (rb_list (l_recvQ l)) < unat len + 2")
      case True
      then show ?thesis using Suc.prems(1) False H(2) H(3)[of len] by (simp add: len_def Let_def)
    next
      case enough: False
      define l1 where "l1 = (if uint len > sint (RingBuffer_GetEmptySize (l_recvQ l)) then CLanClient_disconnectSession l else l)"
      note K = lan_disconnect_ok[OF lan_invD(1)[OF Suc.prems(1)]]
      have inv1: "lan_inv ?c E EL (l1, st)"
        using Suc.prems(1) lan_inv_upd[OF Suc.prems(1) K(1,2,3)] by (simp add: l1_def)
      have fr1: "lan_frame (l, st) (l1, st)" by (auto simp: l1_def K(4))
      then have q1: "l_recvQ l1 = l_recvQ l" by (simp add: lan_frame_def)
      have run: "lan_recv_loop cb (Suc fuel) (l, st) = do { (l, st) \<leftarrow> lan_recv_message cb len (l1, st); lan_recv_loop cb fuel (l, st) }"
        using False enough H(2) H(3)[of len] by (simp add: len_def [symmetric] l1_def Let_def)
      have "unat len + 2 \<le> length (rb_list (l_recvQ l1))" using enough q1 by simp
      note M = lan_recv_message_inv[OF inv1 this]
      have again: "wpx False (lan_recv_loop cb fuel (l2, st2)) (\<lambda>(l', st'). lan_inv ?c E EL (l', st') \<and>
          lan_frame (l\<lparr>l_recvQ := l_recvQ l'\<rparr>, st) (l', st'))"
        if "lan_inv ?c E EL (l2, st2)" "lan_frame (l1\<lparr>l_recvQ := l_recvQ l2\<rparr>, st) (l2, st2)"
          "length (rb_list (l_recvQ l2)) < length (rb_list (l_recvQ l1))" for l2 st2
        by (rule wpx_mono[OF Suc.IH[OF that(1)]]) (use that(2,3) fr1 q1 Suc.prems(2) in \<open>auto simp: lan_frame_def\<close>)
      show ?thesis unfolding run wpx_bind split_def
        by (rule wpx_mono[OF M]) (use again in \<open>auto simp: split_def\<close>)
    qed
  qed
qed simp

text \<open>The end of a receive: \<open>d\<close> is what the system has written.\<close>

lemma lan_recv_complete_inv:
  assumes inv: "lan_inv (Y n True False q g) E EL (l, st)" and d: "length d \<le> seg_total (recv_segments (l_recvQ l))"
  shows "wpx False (lan_recv_complete cb (of_nat (length d))
      (l\<lparr>l_recvQ := (l_recvQ l)\<lparr>rb_buf := seg_write (recv_segments (l_recvQ l)) d (rb_buf (l_recvQ l))\<rparr>\<rparr>, st))
    (\<lambda>(l', st'). lan_inv (Y n False False q g) E EL (l', st') \<and> lan_frame (l\<lparr>l_recvQ := l_recvQ l'\<rparr>, st) (l', st'))"
proof -
  let ?c = "Y n True False q g"
  note D = lan_okD[OF lan_invD(1)[OF inv]]
  define rb where "rb = RingBuffer_MoveRear ((l_recvQ l)\<lparr>rb_buf := seg_write (recv_segments (l_recvQ l)) d (rb_buf (l_recvQ l))\<rparr>) (of_nat (length d))"
  have room: "length d \<le> rb_capacity (l_recvQ l) - length (rb_list (l_recvQ l))"
    using d recv_segments_total[OF D(3)] by simp
  have "unat (of_nat (length d) :: u32) = length d"
    using room D(4) by (simp only: unat_of_nat) (simp add: take_bit_nat_eq_self)
  note R = rb_MoveRear[OF D(3) room this, folded rb_def]
  let ?l = "l\<lparr>l_recvQ := rb\<rparr>"
  have "lan_ok ?c ?l" using D(1,4,5,6) R(1,3) by (simp add: lan_ok_def lan_shape_def)
  then have inv1: "lan_inv ?c E EL (?l, st)" by (rule lan_inv_upd[OF inv]) simp_all
  have fuel: "length (rb_list (l_recvQ ?l)) < Suc (unat (RingBuffer_GetFillSize rb))"
    using rb_sizes(1)[OF R(1)] by simp
  have post: "wpx False (CLanClient_recvPost (l1, st1)) (\<lambda>r. lan_inv (Y n False False q g) E EL (fst (snd r), snd (snd r)) \<and>
      lan_frame (l\<lparr>l_recvQ := l_recvQ (fst (snd r))\<rparr>, st) (fst (snd r), snd (snd r)))"
    if "lan_inv ?c E EL (l1, st1)" "lan_frame (?l\<lparr>l_recvQ := l_recvQ l1\<rparr>, st) (l1, st1)" for l1 st1
    by (rule wpx_mono[OF lan_recvPost_inv[OF that(1)]]) (use that(2) in \<open>auto simp: lan_frame_def split_def\<close>)
  have "lan_recv_complete cb (of_nat (length d))
      (l\<lparr>l_recvQ := (l_recvQ l)\<lparr>rb_buf := seg_write (recv_segments (l_recvQ l)) d (rb_buf (l_recvQ l))\<rparr>\<rparr>, st) =
    lan_recv_loop cb (Suc (unat (RingBuffer_GetFillSize rb))) (?l, st) \<bind>
      (\<lambda>(l, st). CLanClient_recvPost (l, st) \<bind> (\<lambda>(_, l, st). Some (l, st)))"
    by (simp add: lan_recv_complete_def rb_def [symmetric] Let_def del: lan_recv_loop.simps)
  then show ?thesis
  proof (rule ssubst)
    show "wpx False (lan_recv_loop cb (Suc (unat (RingBuffer_GetFillSize rb))) (?l, st) \<bind>
        (\<lambda>(l, st). CLanClient_recvPost (l, st) \<bind> (\<lambda>(_, l, st). Some (l, st))))
      (\<lambda>(l', st'). lan_inv (Y n False False q g) E EL (l', st') \<and> lan_frame (l\<lparr>l_recvQ := l_recvQ l'\<rparr>, st) (l', st'))"
      unfolding wpx_bind split_def wpx_Some fst_conv snd_conv
      by (rule wpx_mono[OF lan_recv_loop_inv[OF inv1 fuel]]) (rule post, simp_all add: split_def)
  qed
qed

end

subsection \<open>The end of a send\<close>

lemma lan_core_sendDone:
  assumes "lan_core io sp ca re rio sio flag False rls none sent pins False True relc"
  shows "lan_core io sp ca re rio sio False False rls none 0 pins False False relc" and "\<not> rls" and "0 < pins"
proof -
  have r: "\<not> sio" "sp = 0" "\<not> rls" "0 < pins" using assms by (cases sio; cases flag; simp add: lan_core_def)+
  then show "lan_core io sp ca re rio sio False False rls none 0 pins False False relc"
    using assms by (simp add: lan_core_def)
  show "\<not> rls" "0 < pins" using r by simp_all
qed

lemma lan_send_complete_inv:
  assumes inv: "lan_inv (Y n False True q g) E EL (l, st)" and d: "\<not> l_disconnect l" and k: "l_sentPacketCnt l \<noteq> 0"
  shows "wpx C (lan_send_complete (l, st)) (\<lambda>(l', st'). lan_inv (Y n False False q g) E EL (l', st') \<and> lan_frame (l, st) (l', st'))"
proof -
  note D = lan_okD[OF lan_invD(1)[OF inv]]
  let ?l = "l\<lparr>l_sentPacketCnt := 0\<rparr>"
  from d have d': "l_disconnect l = False" by simp
  have D5: "lan_core (l_ioCount l) (cp SEND_PEND l) (cp CANCEL_IO l) (cp RELEASE_PEND l) (l_recv_io l) (l_send_io l)
       (l_sendFlag l) False (l_releaseFlag l) (l_sendQ l = []) (l_sentPacketCnt l) n False True q"
    using D(5) d' by simp
  note core = lan_core_sendDone[OF D5]
  let ?m = "?l\<lparr>l_sendFlag := False\<rparr>"
  have ok: "lan_ok (Y n False False q g) ?m"
    using D(1,6) core(1) d' by (simp add: lan_ok_def lan_shape_def)
  have own: "lan_owned (Y n False True q g) l = lan_owned (Y n False False q g) ?m + mset (lan_sent l)"
    using core(2) by (simp add: lan_owned_def lan_released_def)
  have inv0: "lan_inv (Y n False False q g) (E + mset (lan_sent l)) EL (?m, st)"
    using inv ok own by (simp add: lan_inv_def ac_simps)
  have fr: "lan_frame (l, st) (?m, st)" "lan_frame (?m, st1) (?l, st1)" for st1 by (simp_all add: lan_frame_def)
  have r: "\<not> l_releaseFlag ?l" using core(2) by simp
  have sent: "wpx C (CLanClient_trySend (?l, st1)) (\<lambda>(l', st'). lan_inv (Y n False False q g) E EL (l', st') \<and> lan_frame (l, st) (l', st'))"
    if "lan_inv (Y n False False q g) E EL (?m, st1)" "lan_frame (?m, st) (?m, st1)" for st1
    by (rule wpx_mono[OF lan_trySend_inv[OF that(1) core(3) r]])
      (use lan_frame_trans[OF lan_frame_trans[OF fr(1) that(2)] fr(2)] in \<open>auto elim: lan_frame_trans\<close>)
  show ?thesis
    using k by (simp add: lan_send_complete_def) (rule wpx_mono[OF lan_SubRefs_inv[OF inv0]], use sent in auto)
qed

subsection \<open>Release\<close>

lemma lan_core_release:
  assumes "lan_core io sp ca re rio sio flag disc True none sent pins False False True"
  shows "lan_core io sp ca re rio sio flag disc True True sent pins False False False" and "re = 0" and "disc"
  using assms by (auto simp: lan_core_def)

context lan_client
begin

lemma lan_release_inv:
  assumes inv: "lan_inv (Y n False False True g) E EL (l, st)" and r: "l_releaseFlag l"
  shows "wpx False (CLanClient_release cb (l, st)) (\<lambda>(l', st'). lan_inv (Y n False False False g) E EL (l', st') \<and>
    lan_frame (l, st) (l', st') \<and> l_releaseFlag l' \<and> l_sendQ l' = [] \<and> \<not> l_open l')"
proof -
  let ?c = "Y n False False True g" and ?c' = "Y n False False False g"
  from r have r': "l_releaseFlag l = True" by simp
  have disc: "l_disconnect l"
    using lan_core_release(3)[OF lan_okD(5)[OF lan_invD(1)[OF inv], unfolded r', simplified]] .
  have rest: "wpx False (lan_SubRefs (l_sendQ l1) st1) (\<lambda>st2. wpx False (lan_SubRefs (lan_sent l1) st2) (\<lambda>st3.
      lan_inv ?c' E EL (l1\<lparr>l_sessionId := 0, l_sendQ := [], l_open := False, l_serverSock := INVALID_SOCKET\<rparr>, st3) \<and>
      lan_frame (l, st) (l1\<lparr>l_sessionId := 0, l_sendQ := [], l_open := False, l_serverSock := INVALID_SOCKET\<rparr>, st3)))"
    if i: "lan_inv ?c E EL (l1, st1)" "lan_frame (l, st) (l1, st1)" "l_releaseFlag l1" "l_sendQ l1 = l_sendQ l" for l1 st1
  proof -
    note D = lan_okD[OF lan_invD(1)[OF i(1)]]
    from i(3) have r1: "l_releaseFlag l1 = True" by simp
    note core = lan_core_release[OF D(5)[unfolded r1, simplified]]
    let ?l = "l1\<lparr>l_sessionId := 0, l_sendQ := [], l_open := False, l_serverSock := INVALID_SOCKET\<rparr>"
    have ok: "lan_ok ?c' ?l" using D(1,6) core(1) r1 by (simp add: lan_ok_def lan_shape_def)
    have own: "lan_owned ?c l1 = mset (l_sendQ l1) + mset (lan_sent l1)" "lan_owned ?c' ?l = {#}"
      using r1 core(2) by (simp_all add: lan_owned_def lan_released_def)
    have j: "lan_inv ?c' ((E + mset (lan_sent l1)) + mset (l_sendQ l1)) EL (?l, st1)"
      using i(1) ok own by (simp add: lan_inv_def ac_simps)
    have fr: "lan_frame (l, st) (?l, st1)" using i(2) by (simp add: lan_frame_def)
    have k: "wpx False (lan_SubRefs (lan_sent l1) st2) (\<lambda>st3. lan_inv ?c' E EL (?l, st3) \<and> lan_frame (l, st) (?l, st3))"
      if "lan_inv ?c' (E + mset (lan_sent l1)) EL (?l, st2)" "lan_frame (?l, st1) (?l, st2)" for st2
      by (rule wpx_mono[OF lan_SubRefs_inv[OF that(1)]]) (use lan_frame_trans[OF fr that(2)] in \<open>auto elim: lan_frame_trans\<close>)
    show ?thesis by (rule wpx_mono[OF lan_SubRefs_inv[OF j]]) (use k in auto)
  qed
  have "CLanClient_release cb (l, st) = do {
      (l, st) \<leftarrow> L_OnLeaveServer cb (l, st);
      st \<leftarrow> lan_SubRefs (l_sendQ l) st;
      st \<leftarrow> lan_SubRefs (lan_sent l) st;
      Some (l\<lparr>l_sessionId := 0, l_sendQ := [], l_open := False, l_serverSock := INVALID_SOCKET\<rparr>, st)
    }"
    using disc by (simp add: CLanClient_release_def Let_def lan_sent_def)
  then show ?thesis
    by (simp add: split_def) (rule wpx_mono[OF leave[OF inv]], use rest r in \<open>auto simp: split_def elim!: wpx_mono\<close>)
qed

end

end
