(* ===== verification/Monitor.thy ===== *)
theory Monitor
  imports Lan ServerStart
begin

text \<open>
  \<^verbatim>\<open>MonitorClient.cpp\<close>, the client of the monitor server, and the part of \<^verbatim>\<open>ChatServer.cpp\<close> that uses it: a
  chat server and its member \<^verbatim>\<open>m_monitorCli\<close> are a pair of states.
\<close>

subsection \<open>MonitorClient\<close>

text \<open>A new packet, filled, sent and given up.\<close>

definition monitor_send :: "(packet \<Rightarrow> packet) \<Rightarrow> 'a client \<Rightarrow> 'a client run" where
  "monitor_send fill = (\<lambda>(l, st). do {
     (send_packet, st) \<leftarrow> Packet_Alloc st;
     let st = st\<lparr>n_packets := (n_packets st)(send_packet := fill (n_packets st send_packet))\<rparr>;
     (_, l, st) \<leftarrow> CLanClient_SendPacket send_packet (l, st);
     st \<leftarrow> Packet_Free send_packet st;
     Some (l, st)
   })"

definition login_fill :: "packet \<Rightarrow> packet" where
  "login_fill p = CPacket_put (3 :: u32) (CPacket_put (en_PACKET_TYPE_value en_PACKET_SS_MONITOR_LOGIN) p)"

definition data_fill :: "u8 \<Rightarrow> u32 \<Rightarrow> u32 \<Rightarrow> packet \<Rightarrow> packet" where
  "data_fill data_type data_val time_stamp p =
     CPacket_put time_stamp (CPacket_put data_val (CPacket_put data_type
       (CPacket_put (en_PACKET_TYPE_value en_PACKET_SS_MONITOR_DATA_UPDATE) p)))"

definition MonitorClient_OnEnterServerJoin :: "'a client \<Rightarrow> 'a client run" where
  "MonitorClient_OnEnterServerJoin = monitor_send login_fill"

definition MonitorClient_SendMonitorData :: "u8 \<Rightarrow> u32 \<Rightarrow> u32 \<Rightarrow> 'a client \<Rightarrow> 'a client run" where
  "MonitorClient_SendMonitorData data_type data_val time_stamp = monitor_send (data_fill data_type data_val time_stamp)"

definition MonitorClient_OnLeaveServer :: "'a client \<Rightarrow> 'a client run" where
  "MonitorClient_OnLeaveServer x = Some x"

definition MonitorClient_OnRecv :: "addr \<Rightarrow> 'a client \<Rightarrow> 'a client run" where
  "MonitorClient_OnRecv packet x = Some x"

definition MonitorClient_OnError :: "u32 \<Rightarrow> string \<Rightarrow> 'a client \<Rightarrow> 'a client run" where
  "MonitorClient_OnError errorcode msg x = Some x"

definition MonitorClient_IsConnected :: "'a client \<Rightarrow> bool" where
  "MonitorClient_IsConnected = (\<lambda>(l, st). l_isConnected l)"

definition monitor_callbacks :: "'a client lan_callbacks" where
  "monitor_callbacks = \<lparr>L_OnRecv = MonitorClient_OnRecv, L_OnEnterServerJoin = MonitorClient_OnEnterServerJoin,
     L_OnLeaveServer = MonitorClient_OnLeaveServer, L_OnError = MonitorClient_OnError\<rparr>"

subsection \<open>ChatServer\<close>

definition ChatServer_ConnectMonitor ::
  "monitor_config \<Rightarrow> bool \<times> u64 option \<times> bool \<times> u32 \<Rightarrow> 'a client \<Rightarrow> (bool \<times> 'a client) run" where
  "ChatServer_ConnectMonitor mc sys x =
     (if \<not> MonitorClient_IsConnected x
      then CLanClient_Connect monitor_callbacks (mc_ip mc) (mc_port mc) (mc_worker mc) (mc_active mc) True sys x
      else Some (False, x))"

text \<open>\<open>cpu\<close> and \<open>mem\<close> are the processor and memory figures of \<^verbatim>\<open>CCpuUsage\<close> and \<^verbatim>\<open>CPDH\<close>.\<close>

definition monitor_report :: "u32 \<Rightarrow> u32 \<Rightarrow> u32 \<Rightarrow> chat_server \<Rightarrow> (monitor_data \<times> u32) list" where
  "monitor_report use_pool cpu mem st =
     [(dfMONITOR_DATA_TYPE_CHAT_SERVER_RUN, 1), (dfMONITOR_DATA_TYPE_CHAT_SERVER_CPU, cpu),
      (dfMONITOR_DATA_TYPE_CHAT_SERVER_MEM, mem), (dfMONITOR_DATA_TYPE_CHAT_SESSION, CNetServer_GetSessionCount st),
      (dfMONITOR_DATA_TYPE_CHAT_PLAYER, c_loginCnt (chat st)), (dfMONITOR_DATA_TYPE_CHAT_UPDATE_TPS, c_collectMsgTPS (chat st)),
      (dfMONITOR_DATA_TYPE_CHAT_PACKET_POOL, use_pool)]"

fun send_reports :: "u32 \<Rightarrow> (monitor_data \<times> u32) list \<Rightarrow> 'a client \<Rightarrow> 'a client run" where
  "send_reports time_stamp [] x = Some x"
| "send_reports time_stamp ((data_type, data_val) # rs) x = do {
     x \<leftarrow> MonitorClient_SendMonitorData (monitor_data_value data_type) data_val time_stamp x;
     send_reports time_stamp rs x
   }"

text \<open>The members that are sent are read one by one; nothing in between changes them in a step.\<close>

definition ChatServer_SendMonitor :: "u32 \<Rightarrow> u32 \<Rightarrow> u32 \<Rightarrow> lan \<times> chat_server \<Rightarrow> (lan \<times> chat_server) run" where
  "ChatServer_SendMonitor cpu mem time_stamp = (\<lambda>(l, st).
     send_reports time_stamp (monitor_report (MemoryPoolTls_GetUseSize (n_pool st)) cpu mem st) (l, st))"

definition ChatServer_Stop :: "lan \<times> chat_server \<Rightarrow> (lan \<times> chat_server) run" where
  "ChatServer_Stop x = do {
     (l, st) \<leftarrow> (if MonitorClient_IsConnected x then CLanClient_Disconnect monitor_callbacks x else Some x);
     st \<leftarrow> CNetServer_Stop chat_callbacks st;
     Some (l, st)
   }"

text \<open>The figures of \<open>Show\<close>: those of the network library, and connections, logins, duplicate logins, messages per
  second and users.\<close>

definition ChatServer_Show :: "chat_server \<Rightarrow> ((u64 \<times> u32 \<times> u32 \<times> u32 \<times> u32 \<times> u32) \<times> u32 \<times> u32 \<times> u32 \<times> u32 \<times> nat) \<times> chat_server" where
  "ChatServer_Show st =
     (case CNetServer_Show st of (net, st) \<Rightarrow>
        ((net, c_connectCnt (chat st), c_loginCnt (chat st), c_duplicateLogin (chat st), c_collectMsgTPS (chat st),
          card (dom (c_userMap (chat st)))), st))"

text \<open>\<open>Start\<close> with the connection it makes at the end.\<close>

definition ChatServer_Start_Connect ::
  "string option \<Rightarrow> (nat \<Rightarrow> int) \<Rightarrow> string \<Rightarrow> bool \<Rightarrow> (nat \<Rightarrow> bytes \<times> bytes) \<Rightarrow> bool \<times> u64 option \<times> bool \<times> u32 \<Rightarrow>
   lan \<times> chat_server \<Rightarrow> (bool \<times> lan \<times> chat_server) run" where
  "ChatServer_Start_Connect file uninit junk handles mem sys = (\<lambda>(l, st). do {
     (ret, mc, st) \<leftarrow> ChatServer_Start file uninit junk handles mem st;
     case mc of
       None \<Rightarrow> Some (ret, l, st)
     | Some mc \<Rightarrow> do {
         (_, x) \<leftarrow> ChatServer_ConnectMonitor mc sys (l, st);
         Some (ret, x)
       }
   })"

end
