(* ===== verification/LanRun.thy ===== *)
theory LanRun
  imports LanSafe Monitor
begin

text \<open>
  Runs of the client of the monitor server: what can happen to it, one event at a time, and what holds
  in every state it can reach.
\<close>

subsection \<open>Events\<close>

text \<open>
  Calls of the program (connect, disconnect, send a report), the end of the wait in \<open>releaseClient\<close>, and what a worker
  takes from the port: the end of a receive with the bytes that came, the end of a send, the \<open>k\<close>-th post. A report can be
  sent at any time, a call of \<open>Connect\<close> or \<open>Disconnect\<close> comes while no thread waits in \<open>releaseClient\<close> (the wait is a part of these
  calls), and an event of the port needs a worker. \<open>lan_event_ok\<close> says which events can happen.

  \<open>lan_in_scope\<close> is a restriction: most of what follows is about a client that is connected again only after everything of its
  earlier connection has been let go of (the reference count is zero; a \<open>Connect\<close> while it is connected is refused and
  allowed), and that sends no report before its first \<open>Connect\<close>. The code does not ensure either: after a \<open>Connect\<close> with operations of the old
  connection outstanding the count and \<open>m_sentPacketCnt\<close> no longer fit them.
\<close>

datatype lan_event =
    Lan_connect string u16 int int bool "bool \<times> u64 option \<times> bool \<times> u32"
  | Lan_disconnect
  | Lan_released
  | Lan_report u8 u32 u32
  | Lan_recv bytes "u32 option"
  | Lan_sent u32 "u32 option"
  | Lan_take nat

definition lan_take_post :: "nat \<Rightarrow> lan \<Rightarrow> lan" where
  "lan_take_post k l = l\<lparr>l_posts := take k (l_posts l) @ drop (Suc k) (l_posts l)\<rparr>"

fun lan_event_ok :: "lan \<Rightarrow> lan_event \<Rightarrow> bool" where
  "lan_event_ok l (Lan_connect ip port worker active nagle sys) \<longleftrightarrow>
     \<not> l_waiting l"
| "lan_event_ok l Lan_disconnect \<longleftrightarrow> \<not> l_waiting l"
| "lan_event_ok l Lan_released \<longleftrightarrow> l_waiting l \<and> l_workers l = 0"
| "lan_event_ok l (Lan_report data_type data_val time_stamp) \<longleftrightarrow> True"
| "lan_event_ok l (Lan_recv d err) \<longleftrightarrow> l_recv_io l \<and> 0 < l_workers l \<and> length d \<le> seg_total (recv_segments (l_recvQ l))"
| "lan_event_ok l (Lan_sent n err) \<longleftrightarrow> l_send_io l \<and> 0 < l_workers l"
| "lan_event_ok l (Lan_take k) \<longleftrightarrow> k < length (l_posts l) \<and> 0 < l_workers l"

fun lan_in_scope :: "lan \<Rightarrow> lan_event \<Rightarrow> bool" where
  "lan_in_scope l (Lan_connect ip port worker active nagle sys) \<longleftrightarrow> l_isConnected l \<or> l_ioCount l = 0"
| "lan_in_scope l (Lan_report data_type data_val time_stamp) \<longleftrightarrow> l_isInit l"
| "lan_in_scope l ev \<longleftrightarrow> True"

fun lan_post_completion :: "lan_post \<Rightarrow> completion" where
  "lan_post_completion (Lan_post p) = \<lparr>c_error = None, c_bytes = 0, c_session = Some 0, c_overlapped = Ov_post p\<rparr>"
| "lan_post_completion (Lan_null p) = \<lparr>c_error = None, c_bytes = 0, c_session = None, c_overlapped = Ov_post p\<rparr>"
| "lan_post_completion Lan_exit = \<lparr>c_error = None, c_bytes = 0, c_session = None, c_overlapped = Ov_null\<rparr>"

text \<open>A worker that is told to end leaves one worker less.\<close>

definition lan_worker :: "completion \<Rightarrow> 'a client \<Rightarrow> 'a client run" where
  "lan_worker c x = do {
     ((l, st), goes_on) \<leftarrow> CLanClient_runIoThread_body monitor_callbacks c x;
     Some (if goes_on then l else l\<lparr>l_workers := l_workers l - 1\<rparr>, st)
   }"

definition lan_kernel_write :: "bytes \<Rightarrow> lan \<Rightarrow> lan" where
  "lan_kernel_write d l =
     l\<lparr>l_recvQ := (l_recvQ l)\<lparr>rb_buf := seg_write (recv_segments (l_recvQ l)) d (rb_buf (l_recvQ l))\<rparr>\<rparr>"

fun lan_step :: "lan_event \<Rightarrow> 'a client \<Rightarrow> 'a client run" where
  "lan_step (Lan_connect ip port worker active nagle sys) x =
     map_option snd (CLanClient_Connect monitor_callbacks ip port worker active nagle sys x)"
| "lan_step Lan_disconnect x = CLanClient_Disconnect monitor_callbacks x"
| "lan_step Lan_released (l, st) = Some (CLanClient_released l, st)"
| "lan_step (Lan_report data_type data_val time_stamp) x = MonitorClient_SendMonitorData data_type data_val time_stamp x"
| "lan_step (Lan_recv d err) (l, st) =
     lan_worker \<lparr>c_error = err, c_bytes = of_nat (length d), c_session = Some 0, c_overlapped = Ov_recv\<rparr>
       (lan_kernel_write d (l\<lparr>l_recv_io := False\<rparr>), st)"
| "lan_step (Lan_sent n err) (l, st) =
     lan_worker \<lparr>c_error = err, c_bytes = n, c_session = Some 0, c_overlapped = Ov_send\<rparr> (l\<lparr>l_send_io := False\<rparr>, st)"
| "lan_step (Lan_take k) (l, st) = lan_worker (lan_post_completion (l_posts l ! k)) (lan_take_post k l, st)"

text \<open>
  What ends the process: a \<open>Connect\<close> with an address of 16 characters or more, one for which the port or the threads
  cannot be made, and a log file that cannot be opened.
\<close>

fun lan_ends :: "lan_event \<Rightarrow> 'a client \<Rightarrow> bool" where
  "lan_ends (Lan_connect ip port worker active nagle sys) (l, st) \<longleftrightarrow>
     \<not> l_isConnected l \<and> (16 \<le> length ip \<or> \<not> l_isInit l \<and> (\<not> fst sys \<or> worker < 0))"
| "lan_ends (Lan_take k) (l, st) \<longleftrightarrow> l_posts l ! k = Lan_null LOG_PEND \<and> \<not> e_opened (n_env st (n_time st))"
| "lan_ends ev (l, st) \<longleftrightarrow> False"

text \<open>A run of the events that \<open>ok\<close> admits in the state reached; the others are skipped.\<close>

fun lan_run :: "(lan \<Rightarrow> lan_event \<Rightarrow> bool) \<Rightarrow> lan_event list \<Rightarrow> 'a client \<Rightarrow> 'a client run" where
  "lan_run ok [] x = Some x"
| "lan_run ok (ev # evs) x = (if ok (fst x) ev then do { x \<leftarrow> lan_step ev x; lan_run ok evs x } else lan_run ok evs x)"

definition lan_regular :: "lan \<Rightarrow> lan_event \<Rightarrow> bool" where
  "lan_regular l ev \<longleftrightarrow> lan_event_ok l ev \<and> lan_in_scope l ev"

abbreviation lan_run_events :: "lan_event list \<Rightarrow> 'a client \<Rightarrow> 'a client run" where
  "lan_run_events \<equiv> lan_run lan_regular"

subsection \<open>The derived class keeps its contract\<close>

lemma monitor_send_inv:
  assumes inv: "lan_inv c E EL (l, st)"
    and fill: "\<And>p. pk_fresh p \<Longrightarrow> pk_inv (fill p) \<and> pk_buffer_size (fill p) = eBUFFER_DEFAULT \<and> pk_ref_cnt (fill p) = 1"
  shows "wpx C (monitor_send fill (l, st)) (\<lambda>(l', st'). lan_inv c E EL (l', st') \<and> lan_frame (l, st) (l', st'))"
proof -
  let ?filled = "\<lambda>a st. st\<lparr>n_packets := (n_packets st)(a := fill (n_packets st a))\<rparr>"
  have free: "wpx C (Packet_Free a st2) (\<lambda>st3. lan_inv c E EL (l2, st3) \<and> lan_frame (l, st) (l2, st3))"
    if "lan_inv c (add_mset a E) EL (l2, st2)" "lan_frame (l, st) (l2, st2)" for a l2 st2
    unfolding Packet_Free_def
    by (rule wpx_mono[OF lan_Packet_SubRef[OF that(1)]]) (use lan_frame_trans[OF that(2)] in auto)
  have send: "wpx C (CLanClient_SendPacket a (l, ?filled a st1)) (\<lambda>r. wpx C (Packet_Free a (snd (snd r)))
      (\<lambda>st3. lan_inv c E EL (fst (snd r), st3) \<and> lan_frame (l, st) (fst (snd r), st3)))"
    if A: "lan_inv c (add_mset a E) EL (l, st1)" "lan_frame (l, st) (l, st1)" "pk_fresh (n_packets st1 a)" for a st1
  proof -
    note R = lan_invD(2)[OF A(1), unfolded lan_res_def]
    have "pk_ok (n_pool st1) ((n_packets st1)(a := fill (n_packets st1 a))) (add_mset a E + lan_owned c l)"
      by (rule pk_ok_upd) (use R fill[OF A(3)] A(3) in \<open>auto simp: pk_fresh_def\<close>)
    then have inv2: "lan_inv c (add_mset a E) EL (l, ?filled a st1)"
      using R lan_invD(1)[OF A(1)] by (simp add: lan_inv_def lan_res_def)
    have fr2: "lan_frame (l, st) (l, ?filled a st1)" using A(2) by (simp add: lan_frame_def net_rest_def)
    have "a \<in># add_mset a E" by simp
    from lan_SendPacket_inv[OF inv2 this] show ?thesis
      by (rule wpx_mono) (simp only: split_def, rule free, simp_all add: split_def lan_frame_trans[OF fr2])
  qed
  have "monitor_send fill (l, st) = do {
      (a, st) \<leftarrow> Packet_Alloc st; r \<leftarrow> CLanClient_SendPacket a (l, ?filled a st);
      st \<leftarrow> Packet_Free a (snd (snd r)); Some (fst (snd r), st) }"
    by (simp add: monitor_send_def split_def Let_def)
  then show ?thesis
  proof (rule ssubst)
    show "wpx C (do { (a, st) \<leftarrow> Packet_Alloc st; r \<leftarrow> CLanClient_SendPacket a (l, ?filled a st);
        st \<leftarrow> Packet_Free a (snd (snd r)); Some (fst (snd r), st) })
      (\<lambda>(l', st'). lan_inv c E EL (l', st') \<and> lan_frame (l, st) (l', st'))"
      unfolding wpx_bind split_def wpx_Some fst_conv snd_conv
      by (rule wpx_mono[OF lan_Packet_Alloc[OF inv]]) (rule send, simp_all add: split_def)
  qed
qed

lemma login_fill_ok:
  assumes "pk_fresh p"
  shows "pk_holds (le_bytes 2 (20001 :: u16) @ le_bytes 4 (3 :: u32)) (login_fill p)"
proof -
  have "pk_holds (le_bytes 2 (20001 :: u16)) (CPacket_put (20001 :: u16) p)"
    using pk_holds_put[OF pk_holds_fresh[OF assms], of "20001 :: u16"] by simp
  from pk_holds_put[OF this, of "3 :: u32"] show ?thesis by (simp add: login_fill_def)
qed

lemma data_fill_ok:
  assumes "pk_fresh p"
  shows "pk_holds (le_bytes 2 (20002 :: u16) @ le_bytes 1 ty @ le_bytes 4 v @ le_bytes 4 tm) (data_fill ty v tm p)"
proof -
  have "pk_holds (le_bytes 2 (20002 :: u16)) (CPacket_put (20002 :: u16) p)"
    using pk_holds_put[OF pk_holds_fresh[OF assms], of "20002 :: u16"] by simp
  from pk_holds_put[OF this, of ty] have "pk_holds (le_bytes 2 (20002 :: u16) @ le_bytes 1 ty) (CPacket_put ty (CPacket_put (20002 :: u16) p))"
    by simp
  from pk_holds_put[OF pk_holds_put[OF this, of v], of tm] show ?thesis by (simp add: data_fill_def)
qed

interpretation monitor: lan_client monitor_callbacks
proof unfold_locales
  fix c E EL l st
  assume inv: "lan_inv c E EL (l, st :: 'a net_scheme)"
  show "wpx False (L_OnEnterServerJoin monitor_callbacks (l, st)) (\<lambda>(l', st'). lan_inv c E EL (l', st') \<and> lan_frame (l, st) (l', st'))"
    unfolding monitor_callbacks_def MonitorClient_OnEnterServerJoin_def lan_callbacks.simps
    by (rule monitor_send_inv[OF inv]) (use login_fill_ok in \<open>auto simp: pk_holds_def eBUFFER_DEFAULT_def\<close>)
qed (auto simp: monitor_callbacks_def MonitorClient_OnRecv_def MonitorClient_OnLeaveServer_def MonitorClient_OnError_def)

lemma report_inv:
  assumes "lan_inv c E EL (l, st)"
  shows "wpx C (MonitorClient_SendMonitorData ty v tm (l, st)) (\<lambda>(l', st'). lan_inv c E EL (l', st') \<and> lan_frame (l, st) (l', st'))"
  unfolding MonitorClient_SendMonitorData_def
  by (rule monitor_send_inv[OF assms]) (use data_fill_ok in \<open>auto simp: pk_holds_def eBUFFER_DEFAULT_def\<close>)

subsection \<open>Taking an event into a step\<close>

lemma lan_core_take_recv:
  assumes "lan_core io sp ca re True sio flag disc rls none sent 0 False False False"
  shows "lan_core io sp ca re False sio flag disc rls none sent 1 True False False"
proof -
  have "\<not> rls" using assms by (auto simp: lan_core_def)
  with assms show ?thesis by (simp add: lan_core_def)
qed

lemma lan_core_take_send:
  assumes "lan_core io (Suc sp) ca re rio sio flag disc rls none sent 0 False False False"
  shows "lan_core io sp ca re rio sio False disc rls none sent 1 False False False" and "\<not> rls"
proof -
  show r: "\<not> rls" using assms by (auto simp: lan_core_def)
  have "Suc sp + of_bool sio \<le> (of_bool flag :: nat)" using assms by (simp add: lan_core_def)
  then have z: "sp = 0" "sio = False" "flag = True" by (cases flag; cases sio; simp)+
  from r have r': "rls = False" by simp
  have "io = int (Suc 0 + ca + re + of_bool rio + of_bool False + 0)" using assms z unfolding lan_core_def by blast
  then have io: "io = int (0 + ca + re + of_bool rio + of_bool False + 1)" by linarith
  show "lan_core io sp ca re rio sio False disc rls none sent 1 False False False"
    unfolding z r' lan_core_def
    by (insert assms[unfolded z r' lan_core_def], intro conjI io; elim conjE; thin_tac "io = _"; simp)
qed

lemma lan_core_take_cancel:
  assumes "lan_core io sp (Suc ca) re rio sio flag disc rls none sent 0 False False False"
  shows "lan_core io sp ca re rio sio flag disc rls none sent 1 False False False"
proof -
  have "\<not> rls" "ca = 0" "disc" using assms by (cases disc; auto simp: lan_core_def)+
  with assms show ?thesis by (simp add: lan_core_def)
qed

lemma lan_core_take_release:
  assumes "lan_core io sp ca (Suc re) rio sio flag disc rls none sent 0 False False False"
  shows "lan_core io sp ca re rio sio flag disc rls none sent 1 False False True" and "rls" and "re = 0"
proof -
  show r: "rls" "re = 0" using assms by (cases rls; simp add: lan_core_def)+
  with assms show "lan_core io sp ca re rio sio flag disc rls none sent 1 False False True"
    by (simp add: lan_core_def)
qed

lemma lan_core_take_sent:
  assumes "lan_core io sp ca re rio True flag disc rls none sent 0 False False False"
  shows "lan_core io sp ca re rio False flag disc rls none sent 1 False True False" and "sent \<noteq> 0" and "\<not> rls"
proof -
  show r: "\<not> rls" "sent \<noteq> 0" using assms unfolding lan_core_def by blast+
  have "sp + 1 \<le> (of_bool flag :: nat)" using assms by (simp add: lan_core_def)
  then have "sp = 0" "flag" by (cases flag; simp)+
  with r assms show "lan_core io sp ca re rio False flag disc rls none sent 1 False True False"
    by (simp add: lan_core_def)
qed

lemma take_post_other:
  assumes "k < length ps" and "ps ! k \<noteq> x"
  shows "count_list (take k ps @ drop (Suc k) ps) x = count_list ps x"
  using count_list_take_post[OF assms(1), of x] assms(2) by simp

lemma take_post_this:
  assumes "k < length ps" and "ps ! k = x"
  shows "count_list ps x = Suc (count_list (take k ps @ drop (Suc k) ps) x)"
  using count_list_take_post[OF assms(1), of x] assms(2) by simp

lemma lan_shape_take:
  assumes "lan_shape l"
  shows "lan_shape (lan_take_post k l)"
  using assms by (auto simp: lan_shape_def lan_take_post_def dest: in_set_takeD in_set_dropD)

lemma lan_take_post_simps [simp]:
  "l_recvQ (lan_take_post k l) = l_recvQ l" "l_sendQ (lan_take_post k l) = l_sendQ l" "l_ioCount (lan_take_post k l) = l_ioCount l"
  "l_releaseFlag (lan_take_post k l) = l_releaseFlag l" "l_disconnect (lan_take_post k l) = l_disconnect l"
  "l_sendFlag (lan_take_post k l) = l_sendFlag l" "l_sentPacketCnt (lan_take_post k l) = l_sentPacketCnt l"
  "l_recv_io (lan_take_post k l) = l_recv_io l" "l_send_io (lan_take_post k l) = l_send_io l"
  "l_logQueue (lan_take_post k l) = l_logQueue l" "lan_sent (lan_take_post k l) = lan_sent l"
  "l_posts (lan_take_post k l) = take k (l_posts l) @ drop (Suc k) (l_posts l)"
  by (simp_all add: lan_take_post_def lan_sent_def)

lemma lan_take_inv:
  assumes inv: "lan_inv no_lctx E EL (l, st)" and k: "k < length (l_posts l)"
  shows "l_posts l ! k = Lan_post SEND_PEND \<Longrightarrow>
      lan_inv (Y 1 False False False 0) E EL ((lan_take_post k l)\<lparr>l_sendFlag := False\<rparr>, st) \<and> \<not> l_releaseFlag l"
    and "l_posts l ! k = Lan_post CANCEL_IO \<Longrightarrow> lan_inv (Y 1 False False False 0) E EL (lan_take_post k l, st)"
    and "l_posts l ! k = Lan_post RELEASE_PEND \<Longrightarrow> lan_inv (Y 1 False False True 0) E EL (lan_take_post k l, st) \<and> l_releaseFlag l"
    and "l_posts l ! k = Lan_null LOG_PEND \<Longrightarrow> lan_inv (Y 0 False False False 1) E EL (lan_take_post k l, st)"
    and "l_posts l ! k = Lan_exit \<Longrightarrow> lan_inv no_lctx E EL (lan_take_post k l, st)"
proof -
  note D = lan_okD[OF lan_invD(1)[OF inv], unfolded no_lctx_def lctx.simps]
  note sh = lan_shape_take[OF D(1), of k]
  note o = take_post_other[OF k] and t = take_post_this[OF k]
  have step: "lan_inv (Y n False False q g) E EL (l', st)"
    if "lan_ok (Y n False False q g) l'" "lan_owned (Y n False False q g) l' = lan_owned no_lctx l" "l_logQueue l' = l_logQueue l" for n q g l'
    by (rule lan_inv_upd[OF inv that])
  show "lan_inv (Y 1 False False False 0) E EL ((lan_take_post k l)\<lparr>l_sendFlag := False\<rparr>, st) \<and> \<not> l_releaseFlag l"
    if p: "l_posts l ! k = Lan_post SEND_PEND"
  proof
    show "\<not> l_releaseFlag l" using lan_core_take_send(2)[OF D(5)[unfolded t[OF p]]] .
    show "lan_inv (Y 1 False False False 0) E EL ((lan_take_post k l)\<lparr>l_sendFlag := False\<rparr>, st)"
      by (rule step) (use D(6) sh lan_core_take_send(1)[OF D(5)[unfolded t[OF p]]] p o in
          \<open>simp_all add: lan_ok_def lan_owned_def lan_released_def no_lctx_def\<close>)
  qed
  show "lan_inv (Y 1 False False False 0) E EL (lan_take_post k l, st)" if p: "l_posts l ! k = Lan_post CANCEL_IO"
    by (rule step) (use D(6) sh lan_core_take_cancel[OF D(5)[unfolded t[OF p]]] p o in
        \<open>simp_all add: lan_ok_def lan_owned_def lan_released_def no_lctx_def\<close>)
  show "lan_inv (Y 1 False False True 0) E EL (lan_take_post k l, st) \<and> l_releaseFlag l" if p: "l_posts l ! k = Lan_post RELEASE_PEND"
  proof
    note c = lan_core_take_release[OF D(5)[unfolded t[OF p]]]
    show "l_releaseFlag l" by (rule c(2))
    from c(2) have r: "l_releaseFlag l = True" by simp
    show "lan_inv (Y 1 False False True 0) E EL (lan_take_post k l, st)"
      by (rule step) (use D(6) sh c(1)[unfolded r] r p o t[OF p] in \<open>simp_all add: lan_ok_def lan_owned_def lan_released_def no_lctx_def\<close>)
  qed
  show "lan_inv (Y 0 False False False 1) E EL (lan_take_post k l, st)" if p: "l_posts l ! k = Lan_null LOG_PEND"
    by (rule step) (use D(5,6) sh p o t[OF p] in \<open>simp_all add: lan_ok_def lan_owned_def lan_released_def no_lctx_def\<close>)
  show "lan_inv no_lctx E EL (lan_take_post k l, st)" if p: "l_posts l ! k = Lan_exit"
    unfolding no_lctx_def
    by (rule step) (use D(5,6) sh p o in \<open>simp_all add: lan_ok_def lan_owned_def lan_released_def no_lctx_def\<close>)
qed

lemma lan_recv_taken:
  assumes inv: "lan_inv no_lctx E EL (l, st)" and "l_recv_io l"
  shows "lan_inv (Y 1 True False False 0) E EL (l\<lparr>l_recv_io := False\<rparr>, st)"
proof -
  note D = lan_okD[OF lan_invD(1)[OF inv], unfolded no_lctx_def lctx.simps]
  from assms(2) have r: "l_recv_io l = True" by simp
  show ?thesis
    by (rule lan_inv_upd[OF inv])
      (use D(1,6) lan_core_take_recv[OF D(5)[unfolded r]] in \<open>simp_all add: lan_ok_def lan_owned_def lan_released_def no_lctx_def\<close>)
qed

lemma lan_sent_taken:
  assumes inv: "lan_inv no_lctx E EL (l, st)" and "l_send_io l"
  shows "lan_inv (Y 1 False True False 0) E EL (l\<lparr>l_send_io := False\<rparr>, st)" and "l_sentPacketCnt l \<noteq> 0"
proof -
  note D = lan_okD[OF lan_invD(1)[OF inv], unfolded no_lctx_def lctx.simps]
  from assms(2) have r: "l_send_io l = True" by simp
  note c = lan_core_take_sent[OF D(5)[unfolded r]]
  show "lan_inv (Y 1 False True False 0) E EL (l\<lparr>l_send_io := False\<rparr>, st)"
    by (rule lan_inv_upd[OF inv])
      (use D(1,6) c in \<open>simp_all add: lan_ok_def lan_owned_def lan_released_def no_lctx_def\<close>)
  show "l_sentPacketCnt l \<noteq> 0" by (rule c(2))
qed

subsection \<open>A worker\<close>

text \<open>What a worker leaves alone: everything of \<open>lan_frame\<close> but the receive ring.\<close>

definition lan_kept :: "'a client \<Rightarrow> 'a client \<Rightarrow> bool" where
  "lan_kept = (\<lambda>(l, st) x. lan_frame (l\<lparr>l_recvQ := l_recvQ (fst x)\<rparr>, st) x)"

lemma lan_kept_refl [simp, intro]: "lan_kept x x"
  by (cases x) (simp add: lan_kept_def)

lemma lan_kept_trans: "lan_kept x y \<Longrightarrow> lan_kept y z \<Longrightarrow> lan_kept x z"
  by (simp add: lan_kept_def lan_frame_def split_def)

lemma lan_frame_kept: "lan_frame x y \<Longrightarrow> lan_kept x y"
  by (simp add: lan_kept_def lan_frame_def split_def)

lemma lan_finish:
  assumes inv: "lan_inv (Y 1 False False False 0) E EL (l, st)" and k: "lan_kept x (l, st)"
  shows "wpx C (CLanClient_updateIOCount l) (\<lambda>r. lan_inv no_lctx E EL (snd r, st) \<and> lan_kept x (snd r, st))"
  by (rule wpx_mono[OF lan_unpin[OF inv]])
    (auto simp: no_lctx_def intro: lan_kept_trans[OF k lan_frame_kept])

lemma lan_kernel_write_inv:
  assumes inv: "lan_inv c E EL (l, st)" and d: "length d \<le> seg_total (recv_segments (l_recvQ l))"
  shows "lan_inv c E EL (lan_kernel_write d l, st)" and "lan_kept (l, st) (lan_kernel_write d l, st)"
proof -
  note D = lan_okD[OF lan_invD(1)[OF inv]]
  have "lan_shape (lan_kernel_write d l)"
    using D(1,4) rb_written[OF D(3) d] by (simp add: lan_shape_def lan_kernel_write_def rb_capacity_def)
  then have "lan_ok c (lan_kernel_write d l)" using D(5,6) by (simp add: lan_ok_def lan_kernel_write_def)
  then show "lan_inv c E EL (lan_kernel_write d l, st)"
    by (rule lan_inv_upd[OF inv]) (simp_all add: lan_kernel_write_def)
  show "lan_kept (l, st) (lan_kernel_write d l, st)" by (simp add: lan_kept_def lan_kernel_write_def)
qed

lemma lan_disconnect_inv:
  assumes inv: "lan_inv (Y n r s q g) E EL (l, st)"
  shows "lan_inv (Y n False False q g) E EL (CLanClient_disconnectSession l, st)"
    and "lan_frame (l, st) (CLanClient_disconnectSession l, st)"
proof -
  note K = lan_disconnect_ok[OF lan_invD(1)[OF inv]]
  show "lan_inv (Y n False False q g) E EL (CLanClient_disconnectSession l, st)"
    by (rule lan_inv_upd[OF inv lan_giveup_ok[OF K(1,5)]]) (use K lan_owned_Y in metis)+
  show "lan_frame (l, st) (CLanClient_disconnectSession l, st)" by (rule K(4))
qed

lemma lan_inv_giveup:
  assumes inv: "lan_inv (Y n r s q g) E EL (l, st)" and "l_disconnect l"
  shows "lan_inv (Y n False False q g) E EL (l, st)"
  by (rule lan_inv_upd[OF inv lan_giveup_ok[OF lan_invD(1)[OF inv] assms(2)]]) (use lan_owned_Y in auto)

text \<open>What a worker does first when the system reports an error.\<close>

definition lan_gqcs_log :: "completion \<Rightarrow> 'a client \<Rightarrow> 'a client run" where
  "lan_gqcs_log c = (\<lambda>(l, st).
     (case c_error c of None \<Rightarrow> Some (l, st)
      | Some error_code \<Rightarrow>
          if error_code = ERROR_NETNAME_DELETED \<or> error_code = ERROR_OPERATION_ABORTED then Some (l, st)
          else CLanClient_Log ''SYS'' enLOG_LEVEL_ERROR
            (''GQCS return 0 ['' @ fmt_d (sint error_code) @ ''] session id : '' @ fmt_d (uint (l_sessionId l)) @
             '' Count '' @ fmt_d 0) (l, st)))"

lemma body_unfold:
  assumes "c_session c = Some i"
  shows "CLanClient_runIoThread_body cb c x = do {
      x \<leftarrow> lan_gqcs_log c x;
      x \<leftarrow> lan_completion cb (c_bytes c) (c_overlapped c) x;
      t \<leftarrow> CLanClient_updateIOCount (fst x);
      Some ((snd t, snd x), True) }"
  using assms by (cases x) (simp add: CLanClient_runIoThread_body_def lan_gqcs_log_def split_def)

lemma lan_gqcs_log_inv:
  assumes inv: "lan_inv c E EL (l, st)"
  shows "wpx C (lan_gqcs_log cc (l, st)) (\<lambda>(l', st'). lan_inv c E EL (l', st') \<and> lan_frame (l, st) (l', st') \<and>
    l_sentPacketCnt l' = l_sentPacketCnt l)"
proof (cases "c_error cc")
  case (Some e)
  have t: "length (''GQCS return 0 ['' @ fmt_d (sint e) @ ''] session id : '' @ fmt_d (uint (l_sessionId l)) @
             '' Count '' @ fmt_d 0) < 1024" (is "length ?msg < _")
    by (rule log_text3) simp_all
  have "wpx C (CLanClient_Log ''SYS'' enLOG_LEVEL_ERROR ?msg (l, st)) (\<lambda>(l', st'). lan_inv c E EL (l', st') \<and>
      lan_frame (l, st) (l', st') \<and> l_sentPacketCnt l' = l_sentPacketCnt l)"
    by (rule wpx_mono[OF lan_Log_inv[OF inv _ t]]) auto
  then show ?thesis using Some inv by (simp add: lan_gqcs_log_def)
qed (use inv in \<open>simp add: lan_gqcs_log_def\<close>)

lemma lan_gqcs_log_write:
  "lan_gqcs_log c (lan_kernel_write d l, st) = map_option (\<lambda>(l', st'). (lan_kernel_write d l', st')) (lan_gqcs_log c (l, st))"
  by (auto simp: lan_gqcs_log_def lan_kernel_write_def CLanClient_Log_def ask_def lan_post_def split_def map_option_bind
      split: option.splits intro!: Option.bind_cong)

context lan_client
begin

abbreviation settles :: "addr multiset \<Rightarrow> addr set \<Rightarrow> 'a client \<Rightarrow> 'a client \<Rightarrow> bool" where
  "settles E EL x0 x \<equiv> lan_inv (Y 1 False False False 0) E EL x \<and> lan_kept x0 x"

lemma completion_recv:
  assumes inv: "lan_inv (Y 1 True False False 0) E EL (l, st)" and d: "length d \<le> seg_total (recv_segments (l_recvQ l))"
  shows "wpx False (lan_completion cb (of_nat (length d)) Ov_recv (lan_kernel_write d l, st)) (settles E EL (l, st))"
proof (cases "(of_nat (length d) :: u32) = 0 \<or> l_disconnect l")
  case True
  note W = lan_kernel_write_inv[OF inv d]
  have "l_disconnect (lan_kernel_write d l) = l_disconnect l" by (simp add: lan_kernel_write_def)
  then show ?thesis
    using True lan_disconnect_inv[OF W(1)] lan_kept_trans[OF W(2) lan_frame_kept]
    by (simp add: lan_completion_def)
next
  case False
  then show ?thesis
    by (simp add: lan_completion_def lan_kernel_write_def)
      (rule wpx_mono[OF lan_recv_complete_inv[OF inv d]], auto simp: lan_kept_def)
qed

lemma completion_sent:
  assumes inv: "lan_inv (Y 1 False True False 0) E EL (l, st)" and k: "l_sentPacketCnt l \<noteq> 0"
  shows "wpx False (lan_completion cb n Ov_send (l, st)) (settles E EL (l, st))"
proof (cases "n = 0 \<or> l_disconnect l")
  case True
  then show ?thesis
    using lan_disconnect_inv[OF inv] lan_frame_kept by (auto simp: lan_completion_def)
next
  case False
  then show ?thesis
    by (simp add: lan_completion_def)
      (rule wpx_mono[OF lan_send_complete_inv[OF inv _ k]], auto intro: lan_frame_kept)
qed

lemma completion_send_pend:
  assumes inv: "lan_inv (Y 1 False False False 0) E EL (l\<lparr>l_sendFlag := False\<rparr>, st)" and r: "\<not> l_releaseFlag l"
  shows "wpx False (lan_completion cb 0 (Ov_post SEND_PEND) (l, st)) (settles E EL (l, st))"
  by (simp add: lan_completion_def)
    (rule wpx_mono[OF lan_trySend_inv[OF inv _ r]], auto intro: lan_frame_kept)

lemma completion_release:
  assumes inv: "lan_inv (Y 1 False False True 0) E EL (l, st)" and r: "l_releaseFlag l"
  shows "wpx False (lan_completion cb 0 (Ov_post RELEASE_PEND) (l, st)) (settles E EL (l, st))"
  by (simp add: lan_completion_def)
    (rule wpx_mono[OF lan_release_inv[OF inv r]], auto intro: lan_frame_kept)

lemma completion_cancel:
  assumes inv: "lan_inv (Y 1 False False False 0) E EL (l, st)"
  shows "wpx False (lan_completion cb 0 (Ov_post CANCEL_IO) (l, st)) (settles E EL (l, st))"
  using inv by (auto simp: lan_completion_def)

text \<open>A completion for the session: the log of an error, the completion of the operation, then the reference it held is
  dropped.\<close>

lemma body_session:
  assumes "c_session c = Some i"
    and log: "wpx False (lan_gqcs_log c x) (\<lambda>y. wpx False (lan_completion cb (c_bytes c) (c_overlapped c) y) (settles E EL x0))"
  shows "wpx False (CLanClient_runIoThread_body cb c x) (\<lambda>r. snd r \<and> lan_inv no_lctx E EL (fst r) \<and> lan_kept x0 (fst r))"
proof -
  have fin: "wpx False (CLanClient_updateIOCount (fst r)) (\<lambda>t. lan_inv no_lctx E EL (snd t, snd r) \<and> lan_kept x0 (snd t, snd r))"
    if "settles E EL x0 r" for r
    by (rule lan_finish) (use that in simp_all)
  have "wpx False (lan_gqcs_log c x) (\<lambda>y. wpx False (lan_completion cb (c_bytes c) (c_overlapped c) y)
      (\<lambda>r. wpx False (CLanClient_updateIOCount (fst r)) (\<lambda>t. lan_inv no_lctx E EL (snd t, snd r) \<and> lan_kept x0 (snd t, snd r))))"
    by (rule wpx_mono[OF log], erule wpx_mono, rule fin)
  then show ?thesis using assms(1)
    by (simp add: body_unfold split_def)
qed

lemma worker_recv:
  assumes inv: "lan_inv no_lctx E EL (l, st)" and "l_recv_io l" and d: "length d \<le> seg_total (recv_segments (l_recvQ l))"
  shows "wpx False (CLanClient_runIoThread_body cb
      \<lparr>c_error = err, c_bytes = of_nat (length d), c_session = Some 0, c_overlapped = Ov_recv\<rparr>
      (lan_kernel_write d (l\<lparr>l_recv_io := False\<rparr>), st))
    (\<lambda>r. snd r \<and> lan_inv no_lctx E EL (fst r) \<and> lan_kept (l, st) (fst r))"
proof (rule body_session, simp)
  let ?l = "l\<lparr>l_recv_io := False\<rparr>" and ?c = "\<lparr>c_error = err, c_bytes = of_nat (length d), c_session = Some 0, c_overlapped = Ov_recv\<rparr>"
  note T = lan_recv_taken[OF inv assms(2)]
  have k0: "lan_kept (l, st) (?l, st)" by (simp add: lan_kept_def lan_frame_def)
  have c: "wpx False (lan_completion cb (of_nat (length d)) Ov_recv (lan_kernel_write d l1, st1)) (settles E EL (l, st))"
    if "lan_inv (Y 1 True False False 0) E EL (l1, st1)" "lan_frame (?l, st) (l1, st1)" for l1 st1
  proof -
    have "l_recvQ l1 = l_recvQ l" using that(2) by (simp add: lan_frame_def)
    with d have "length d \<le> seg_total (recv_segments (l_recvQ l1))" by simp
    from completion_recv[OF that(1) this] show ?thesis
      by (rule wpx_mono) (blast intro: lan_kept_trans[OF k0] lan_kept_trans[OF lan_frame_kept[OF that(2)]])
  qed
  have "wpx False (lan_gqcs_log ?c (?l, st)) (\<lambda>(l1, st1).
      wpx False (lan_completion cb (of_nat (length d)) Ov_recv (lan_kernel_write d l1, st1)) (settles E EL (l, st)))"
    by (rule wpx_mono[OF lan_gqcs_log_inv[OF T]]) (use c in auto)
  then show "wpx False (lan_gqcs_log ?c (lan_kernel_write d ?l, st))
      (\<lambda>y. wpx False (lan_completion cb (c_bytes ?c) (c_overlapped ?c) y) (settles E EL (l, st)))"
    by (simp add: lan_gqcs_log_write split_def)
qed

lemma worker_sent:
  assumes inv: "lan_inv no_lctx E EL (l, st)" and "l_send_io l"
  shows "wpx False (CLanClient_runIoThread_body cb
      \<lparr>c_error = err, c_bytes = n, c_session = Some 0, c_overlapped = Ov_send\<rparr> (l\<lparr>l_send_io := False\<rparr>, st))
    (\<lambda>r. snd r \<and> lan_inv no_lctx E EL (fst r) \<and> lan_kept (l, st) (fst r))"
proof (rule body_session, simp)
  let ?l = "l\<lparr>l_send_io := False\<rparr>" and ?c = "\<lparr>c_error = err, c_bytes = n, c_session = Some 0, c_overlapped = Ov_send\<rparr>"
  note T = lan_sent_taken[OF inv assms(2)]
  have k0: "lan_kept (l, st) (?l, st)" by (simp add: lan_kept_def lan_frame_def)
  have c: "wpx False (lan_completion cb n Ov_send (l1, st1)) (settles E EL (l, st))"
    if "lan_inv (Y 1 False True False 0) E EL (l1, st1)" "lan_frame (?l, st) (l1, st1)" "l_sentPacketCnt l1 = l_sentPacketCnt l" for l1 st1
    by (rule wpx_mono[OF completion_sent[OF that(1)]])
      (use T(2) that(3) in \<open>auto intro: lan_kept_trans[OF k0] lan_kept_trans[OF lan_frame_kept[OF that(2)]]\<close>)
  show "wpx False (lan_gqcs_log ?c (?l, st)) (\<lambda>y. wpx False (lan_completion cb (c_bytes ?c) (c_overlapped ?c) y) (settles E EL (l, st)))"
    by (rule wpx_mono[OF lan_gqcs_log_inv[OF T(1)]]) (use c in auto)
qed

lemma worker_post:
  assumes inv: "lan_inv no_lctx E EL (l, st)" and k: "k < length (l_posts l)"
  shows "wpx (lan_ends (Lan_take k) (l, st)) (CLanClient_runIoThread_body cb (lan_post_completion (l_posts l ! k)) (lan_take_post k l, st))
    (\<lambda>r. lan_inv no_lctx E EL (fst r) \<and> lan_kept (l, st) (fst r))"
proof -
  note T = lan_take_inv[OF inv k]
  have k0: "lan_kept (l, st) (lan_take_post k l, st)" by (simp add: lan_kept_def lan_frame_def lan_take_post_def)
  have sess: "wpx False (CLanClient_runIoThread_body cb (lan_post_completion (Lan_post p)) (lan_take_post k l, st))
      (\<lambda>r. lan_inv no_lctx E EL (fst r) \<and> lan_kept (l, st) (fst r))"
    if "wpx False (lan_completion cb 0 (Ov_post p) (lan_take_post k l, st)) (settles E EL (lan_take_post k l, st))" for p
    by (rule wpx_mono[OF body_session[where i = 0 and E = E and EL = EL and ?x0.0 = "(lan_take_post k l, st)"]])
      (use that in \<open>auto simp: lan_gqcs_log_def intro: lan_kept_trans[OF k0]\<close>)
  have sh: "lan_shape l" by (rule lan_okD(1)[OF lan_invD(1)[OF inv]])
  show ?thesis
  proof (cases "l_posts l ! k")
    case (Lan_post p)
    with k sh have "p = SEND_PEND \<or> p = CANCEL_IO \<or> p = RELEASE_PEND" by (auto simp: lan_shape_def in_set_conv_nth)
    then show ?thesis
    proof (elim disjE)
      assume p: "p = SEND_PEND"
      show ?thesis unfolding Lan_post p
        by (rule wpx_weaken[OF sess FalseE], rule completion_send_pend) (use T(1) Lan_post p in auto)
    next
      assume p: "p = CANCEL_IO"
      show ?thesis unfolding Lan_post p
        by (rule wpx_weaken[OF sess FalseE], rule completion_cancel) (use T(2) Lan_post p in auto)
    next
      assume p: "p = RELEASE_PEND"
      show ?thesis unfolding Lan_post p
        by (rule wpx_weaken[OF sess FalseE], rule completion_release) (use T(3) Lan_post p in auto)
    qed
  next
    case (Lan_null p)
    with k sh have p: "p = LOG_PEND" by (auto simp: lan_shape_def in_set_conv_nth)
    have "lan_inv (no_lctx\<lparr>y_log := Suc 0\<rparr>) E EL (lan_take_post k l, st)"
      using T(4) Lan_null p by (simp add: no_lctx_def)
    from lan_writeLog_inv[OF this, of False] have "wpx (lan_ends (Lan_take k) (l, st)) (CLanClient_writeLog (lan_take_post k l, st))
        (\<lambda>r. lan_inv no_lctx E EL r \<and> lan_kept (l, st) r)"
      unfolding lan_ends.simps Lan_null p simp_thms
      by (rule wpx_mono) (auto simp: no_lctx_def intro: lan_kept_trans[OF k0] lan_frame_kept)
    then show ?thesis using Lan_null p by (simp add: CLanClient_runIoThread_body_def split_def)
  next
    case Lan_exit
    then show ?thesis using T(5) k0 by (simp add: CLanClient_runIoThread_body_def)
  qed
qed

end

subsection \<open>Connecting\<close>

text \<open>A client that has not been connected yet.\<close>

definition lan_fresh :: "lan \<Rightarrow> bool" where
  "lan_fresh l \<longleftrightarrow> \<not> l_isInit l \<and> \<not> l_isConnected l \<and> \<not> l_waiting l \<and> rb_inv (l_recvQ l) \<and> rb_capacity (l_recvQ l) = 2000 \<and>
     l_sendQ l = [] \<and> l_logQueue l = [] \<and> l_ioCount l = 0 \<and> l_disconnect l \<and> \<not> l_sendFlag l \<and> l_sentPacketCnt l = 0 \<and>
     length (l_sentPacket l) = 200 \<and> l_posts l = [] \<and> \<not> l_recv_io l \<and> \<not> l_send_io l"

lemma CLanClient_ctor_fresh:
  assumes "2001 \<le> length mem" and "length sent = 200"
  shows "lan_fresh (CLanClient_ctor mem rel sid sent)"
  using assms rb_ctor[of 2000 mem] by (simp add: lan_fresh_def CLanClient_ctor_def)

definition lan_state :: "addr multiset \<Rightarrow> addr set \<Rightarrow> 'a client \<Rightarrow> bool" where
  "lan_state E EL = (\<lambda>(l, st). lan_fresh l \<and> lan_res E EL [] st \<or> lan_inv no_lctx E EL (l, st))"

lemma lan_sent_open [simp]:
  "lan_sent (l\<lparr>l_open := b\<rparr>) = lan_sent l" "lan_sent (l\<lparr>l_isConnected := b\<rparr>) = lan_sent l"
  "lan_sent (l\<lparr>l_serverSock := s\<rparr>) = lan_sent l" "lan_sent (l\<lparr>l_waiting := b\<rparr>) = lan_sent l"
  "lan_sent (l\<lparr>l_workers := n\<rparr>) = lan_sent l"
  by (simp_all add: lan_sent_def)

lemma lan_upd_open:
  assumes "lan_inv c E EL (l, st)"
  shows "lan_inv c E EL (l\<lparr>l_open := b\<rparr>, st)" and "lan_inv c E EL (l\<lparr>l_isConnected := b\<rparr>, st)"
    and "lan_inv c E EL (l\<lparr>l_serverSock := s\<rparr>, st)" and "lan_inv c E EL (l\<lparr>l_waiting := b\<rparr>, st)"
    and "lan_inv c E EL (l\<lparr>l_workers := n\<rparr>, st)"
proof -
  note D = lan_okD[OF lan_invD(1)[OF assms], unfolded lan_shape_def]
  show "lan_inv c E EL (l\<lparr>l_open := b\<rparr>, st)" "lan_inv c E EL (l\<lparr>l_isConnected := b\<rparr>, st)"
    "lan_inv c E EL (l\<lparr>l_serverSock := s\<rparr>, st)" "lan_inv c E EL (l\<lparr>l_waiting := b\<rparr>, st)"
    "lan_inv c E EL (l\<lparr>l_workers := n\<rparr>, st)"
    by (rule lan_inv_upd[OF assms]; use D in \<open>simp add: lan_ok_def lan_shape_def lan_owned_def lan_released_def\<close>)+
qed

lemma lan_releaseClient_inv:
  assumes "lan_inv c E EL (l, st)"
  shows "lan_inv c E EL (CLanClient_releaseClient l, st)"
proof -
  note D = lan_okD[OF lan_invD(1)[OF assms]]
  have n: "count_list (replicate n Lan_exit) (Lan_post p) = 0" "count_list (replicate n Lan_exit) (Lan_null p) = 0" for n p
    by (induction n) simp_all
  have sh: "lan_shape (CLanClient_releaseClient l)" using D(1) by (auto simp: lan_shape_def CLanClient_releaseClient_def)
  show ?thesis
    by (rule lan_inv_upd[OF assms])
      (use sh D(5,6) n in \<open>simp_all add: lan_ok_def lan_owned_def lan_released_def CLanClient_releaseClient_def lan_sent_def\<close>)
qed

text \<open>A client with the parameters of \<open>Connect\<close>, one whose port and workers have been made as well, and one that has
  just been connected.\<close>

definition lan_config :: "string \<Rightarrow> u16 \<Rightarrow> int \<Rightarrow> int \<Rightarrow> bool \<Rightarrow> lan \<Rightarrow> lan" where
  "lan_config ip port worker active nagle l =
     l\<lparr>l_nagle := nagle, l_serverIp := ip, l_serverPort := port, l_iocpActiveNum := active, l_iocpWorkerNum := worker\<rparr>"

definition lan_initial :: "string \<Rightarrow> u16 \<Rightarrow> int \<Rightarrow> int \<Rightarrow> bool \<Rightarrow> lan \<Rightarrow> lan" where
  "lan_initial ip port worker active nagle l =
     l\<lparr>l_nagle := nagle, l_serverIp := ip, l_serverPort := port, l_iocpActiveNum := active, l_iocpWorkerNum := worker,
       l_workers := nat worker, l_isInit := True\<rparr>"

definition lan_connected :: "lan \<Rightarrow> lan" where
  "lan_connected l =
     l\<lparr>l_ioCount := l_ioCount l + 1, l_sessionId := l_id_generator l, l_id_generator := l_id_generator l + 1,
       l_sendFlag := False, l_sentPacketCnt := 0, l_disconnect := False, l_recvQ := RingBuffer_ClearBuffer (l_recvQ l),
       l_releaseFlag := False\<rparr>"

lemma lan_config_inv:
  assumes "lan_inv c E EL (l, st)"
  shows "lan_inv c E EL (lan_config ip port worker active nagle l, st)"
proof -
  note D = lan_okD[OF lan_invD(1)[OF assms], unfolded lan_shape_def]
  show ?thesis unfolding lan_config_def
    by (rule lan_inv_upd[OF assms]; use D in \<open>simp add: lan_ok_def lan_shape_def lan_owned_def lan_released_def lan_sent_def\<close>)
qed

lemma lan_initial_inv:
  assumes "lan_fresh l" and "lan_res E EL [] st"
  shows "lan_inv no_lctx E EL (lan_initial ip port worker active nagle l, st)"
proof -
  have "lan_core 0 0 0 0 False False False True (l_releaseFlag l) True 0 0 False False False" by (simp add: lan_core_def)
  then show ?thesis
    using assms by (simp add: lan_fresh_def lan_inv_def lan_ok_def lan_shape_def no_lctx_def lan_owned_def lan_released_def
        lan_sent_def lan_initial_def)
qed

text \<open>With a count of zero nothing of an earlier connection is left.\<close>

lemma lan_idle:
  assumes "lan_inv no_lctx E EL (l, st)" and "l_ioCount l = 0"
  shows "cp SEND_PEND l = 0" "cp CANCEL_IO l = 0" "cp RELEASE_PEND l = 0" "\<not> l_recv_io l" "\<not> l_send_io l" "l_sendQ l = []"
    "lan_owned no_lctx l = {#}"
proof -
  note D = lan_okD(5)[OF lan_invD(1)[OF assms(1)], unfolded no_lctx_def lctx.simps lan_core_def assms(2)]
  have "int (cp SEND_PEND l + cp CANCEL_IO l + cp RELEASE_PEND l + of_bool (l_recv_io l) + of_bool (l_send_io l) + 0) = 0"
    using D by metis
  then have z: "cp SEND_PEND l = 0" "cp CANCEL_IO l = 0" "cp RELEASE_PEND l = 0" "of_bool (l_recv_io l) = (0 :: nat)"
      "of_bool (l_send_io l) = (0 :: nat)" by linarith+
  then show "cp SEND_PEND l = 0" "cp CANCEL_IO l = 0" "cp RELEASE_PEND l = 0" "\<not> l_recv_io l" "\<not> l_send_io l" by simp_all
  have q: "l_sendQ l = []" "\<not> l_releaseFlag l \<longrightarrow> l_sentPacketCnt l = 0" using D z(3) by (cases "l_releaseFlag l"; simp)+
  then show "l_sendQ l = []" by simp
  show "lan_owned no_lctx l = {#}" using q z(3) by (auto simp: lan_owned_def lan_released_def lan_sent_def no_lctx_def)
qed

lemma lan_connected_inv:
  assumes inv: "lan_inv no_lctx E EL (l, st)" and idle: "l_ioCount l = 0"
  shows "lan_inv (Y 1 True False False 0) E EL (lan_connected l, st)"
proof -
  note D = lan_okD[OF lan_invD(1)[OF inv], unfolded no_lctx_def lctx.simps] and Z = lan_idle[OF inv idle]
  have core: "lan_core 1 0 0 0 False False False False False True 0 1 True False False" by (simp add: lan_core_def)
  have "lan_shape (lan_connected l)" using D(1,3,4) rb_ClearBuffer[OF D(3)] by (simp add: lan_shape_def lan_connected_def)
  then have "lan_ok (Y 1 True False False 0) (lan_connected l)" using D(6) Z idle core by (simp add: lan_ok_def lan_connected_def)
  then show ?thesis
    by (rule lan_inv_upd[OF inv]) (use Z in \<open>simp_all add: lan_owned_def lan_released_def lan_sent_def lan_connected_def\<close>)
qed

text \<open>\<open>Connect\<close> from the socket on.\<close>

definition lan_dial :: "'a client lan_callbacks \<Rightarrow> u64 option \<Rightarrow> bool \<Rightarrow> u32 \<Rightarrow> 'a client \<Rightarrow> (bool \<times> 'a client) run" where
  "lan_dial cb sock ok err = (\<lambda>(l, st).
     (case sock of
        None \<Rightarrow> do {
          (l, st) \<leftarrow> L_OnError cb err ''socket failed'' (l\<lparr>l_serverSock := INVALID_SOCKET\<rparr>, st);
          Some (False, CLanClient_releaseClient l, st)
        }
      | Some s \<Rightarrow> do {
          (ret, l, st) \<leftarrow> CLanClient_connectSession cb ok err (l\<lparr>l_serverSock := s, l_open := True\<rparr>, st);
          Some (ret, if ret then l\<lparr>l_isConnected := True\<rparr> else CLanClient_releaseClient (l\<lparr>l_isConnected := True\<rparr>), st)
        }))"

lemma Connect_dials:
  assumes "\<not> l_isConnected l" and "length ip < 16" and "l_isInit l \<or> handles \<and> 0 \<le> worker"
  shows "CLanClient_Connect cb ip port worker active nagle (handles, sock, ok, err) (l, st) =
    lan_dial cb sock ok err ((if l_isInit l then lan_config else lan_initial) ip port worker active nagle l, st)"
  using assms
  by (auto simp: CLanClient_Connect_def lan_dial_def lan_config_def lan_initial_def split_def split: option.split intro!: Option.bind_cong)

lemma Connect_ends:
  assumes "lan_ends (Lan_connect ip port worker active nagle sys) (l, st)"
  shows "CLanClient_Connect cb ip port worker active nagle sys (l, st) = None"
  using assms by (cases sys) (auto simp: CLanClient_Connect_def)

context lan_client
begin

lemma connectSession_inv:
  assumes inv: "lan_inv no_lctx E EL (l, st)" and idle: "l_ioCount l = 0"
  shows "wpx False (CLanClient_connectSession cb ok err (l, st)) (\<lambda>(ret, l', st'). lan_inv no_lctx E EL (l', st'))"
proof (cases ok)
  case False
  then show ?thesis
    by (simp add: CLanClient_connectSession_def split_def)
      (rule wpx_mono[OF error[OF inv]], use lan_upd_open in \<open>auto simp: split_def\<close>)
next
  case True
  note i1 = lan_connected_inv[OF inv idle]
  have c: "wpx False (CLanClient_recvPost x) (\<lambda>r. wpx False (CLanClient_updateIOCount (fst (snd r))) (\<lambda>t.
      lan_inv no_lctx E EL (snd t, snd (snd r))))" if "lan_inv (Y 1 True False False 0) E EL x" for x
  proof (cases x)
    case (Pair l1 st1)
    have f: "wpx False (CLanClient_updateIOCount l2) (\<lambda>t. lan_inv no_lctx E EL (snd t, st2))"
      if "lan_inv (Y 1 False False False 0) E EL (l2, st2)" for l2 st2
      by (rule wpx_mono[OF lan_finish[OF that lan_kept_refl]]) simp
    show ?thesis unfolding Pair
      by (rule wpx_mono[OF lan_recvPost_inv[OF that[unfolded Pair]]], simp only: split_def, rule f, simp)
  qed
  have "CLanClient_connectSession cb ok err (l, st) = do {
      x \<leftarrow> L_OnEnterServerJoin cb (lan_connected l, st); r \<leftarrow> CLanClient_recvPost x; t \<leftarrow> CLanClient_updateIOCount (fst (snd r));
      Some (True, snd t, snd (snd r)) }"
    using True by (simp add: CLanClient_connectSession_def lan_connected_def split_def)
  then show ?thesis
    by simp (rule wpx_mono[OF join[OF i1]], simp only: split_def prod.collapse, rule c, simp)
qed

lemma dial_inv:
  assumes inv: "lan_inv no_lctx E EL (l, st)" and idle: "l_ioCount l = 0"
  shows "wpx False (lan_dial cb sock ok err (l, st)) (\<lambda>(ret, x). lan_inv no_lctx E EL x)"
proof (cases sock)
  case None
  show ?thesis using None
    by (simp add: lan_dial_def split_def)
      (rule wpx_mono[OF error[OF lan_upd_open(3)[OF inv, of INVALID_SOCKET]]], use lan_releaseClient_inv in \<open>auto simp: split_def\<close>)
next
  case (Some s)
  note i = lan_upd_open(1)[OF lan_upd_open(3)[OF inv, of s], of True]
  show ?thesis using Some
    by (simp add: lan_dial_def split_def)
      (rule wpx_mono[OF connectSession_inv[OF i]], use idle in \<open>auto simp: split_def intro!: lan_releaseClient_inv lan_upd_open(2)\<close>)
qed

text \<open>A \<open>Connect\<close> that is not refused and not fatal, with nothing outstanding.\<close>

lemma Connect_inv:
  assumes l: "lan_fresh l \<and> lan_res E EL [] st \<or> lan_inv no_lctx E EL (l, st) \<and> l_ioCount l = 0 \<and> \<not> l_isConnected l"
    and go: "\<not> lan_ends (Lan_connect ip port worker active nagle sys) (l, st)"
  shows "wpx False (CLanClient_Connect cb ip port worker active nagle sys (l, st)) (\<lambda>(ret, x). lan_inv no_lctx E EL x)"
proof -
  obtain handles sock ok err where sys: "sys = (handles, sock, ok, err)" by (cases sys)
  have c: "\<not> l_isConnected l" using l by (auto simp: lan_fresh_def)
  then have g: "length ip < 16" "l_isInit l \<or> handles \<and> 0 \<le> worker" using go by (auto simp: sys)
  let ?l = "(if l_isInit l then lan_config else lan_initial) ip port worker active nagle l"
  have "lan_inv no_lctx E EL (?l, st) \<and> l_ioCount ?l = 0"
  proof (cases "l_isInit l")
    case True
    then have "lan_inv no_lctx E EL (l, st)" "l_ioCount l = 0" using l by (auto simp: lan_fresh_def)
    with True show ?thesis using lan_config_inv by (simp add: lan_config_def)
  next
    case False
    then have "lan_fresh l \<and> lan_res E EL [] st" using l lan_okD(2) by (auto dest: lan_invD(1))
    then have "lan_inv no_lctx E EL (lan_initial ip port worker active nagle l, st)" "l_ioCount l = 0"
      using lan_initial_inv by (blast, simp add: lan_fresh_def)
    with False show ?thesis by (simp add: lan_initial_def)
  qed
  then show ?thesis unfolding sys Connect_dials[OF c g] using dial_inv by blast
qed

end

subsection \<open>Every state it can reach\<close>

text \<open>
  By events that can happen and are in scope. The rest of the process may do what it likes with the packets and the
  log as long as it leaves the client's.
\<close>

inductive lan_reach :: "addr multiset \<Rightarrow> addr set \<Rightarrow> 'a client \<Rightarrow> bool" where
  lan_new: "2001 \<le> length mem \<Longrightarrow> length sent = 200 \<Longrightarrow> lan_res E EL [] st \<Longrightarrow>
    lan_reach E EL (CLanClient_ctor mem rel sid sent, st)"
| lan_stepped: "lan_reach E EL x \<Longrightarrow> lan_regular (fst x) ev \<Longrightarrow> lan_step ev x = Some x' \<Longrightarrow> lan_reach E EL x'"
| lan_others: "lan_reach E EL (l, st) \<Longrightarrow> lan_res (E' + lan_owned no_lctx l) EL' (l_logQueue l) st' \<Longrightarrow> lan_reach E' EL' (l, st')"

lemma lan_worker_inv:
  assumes "wpx C (CLanClient_runIoThread_body monitor_callbacks c x) K" and "\<And>r. K r \<Longrightarrow> lan_inv no_lctx E EL (fst r)"
  shows "wpx C (lan_worker c x) (lan_state E EL)"
  unfolding lan_worker_def wpx_bind
  by (rule wpx_mono[OF assms(1)], drule assms(2)) (auto simp: split_def lan_state_def lan_upd_open)

lemma lan_step_ends:
  assumes "lan_ends ev x"
  shows "lan_step ev x = None"
proof (cases x)
  case (Pair l st)
  show ?thesis
  proof (cases ev)
    case (Lan_connect ip port worker active nagle sys)
    then show ?thesis using assms Connect_ends Pair by (simp del: lan_ends.simps)
  next
    case (Lan_take k)
    then show ?thesis using assms
      by (simp add: Pair lan_worker_def CLanClient_runIoThread_body_def lan_writeLog_fails)
  qed (use assms Pair in simp_all)
qed

lemma lan_OnError [simp]: "L_OnError monitor_callbacks code msg x = Some x"
  by (simp add: monitor_callbacks_def MonitorClient_OnError_def)

lemma lan_step_inv:
  assumes x: "lan_state E EL x" and ok: "lan_regular (fst x) ev"
  shows "wpx (lan_ends ev x) (lan_step ev x) (lan_state E EL)"
proof (cases x)
  case (Pair l st)
  have init: "lan_inv no_lctx E EL (l, st)" if "\<not> lan_fresh l" using x that by (simp add: Pair lan_state_def)
  show ?thesis
  proof (cases ev)
    case (Lan_connect ip port worker active nagle sys)
    show ?thesis
    proof (cases "lan_ends ev x")
      case True
      then show ?thesis using lan_step_ends[of ev x] by simp
    next
      case go: False
      show ?thesis
      proof (cases "l_isConnected l")
        case True
        then show ?thesis using x by (cases sys) (simp add: Lan_connect Pair CLanClient_Connect_def)
      next
        case False
        with ok have "l_ioCount l = 0" by (simp add: Lan_connect Pair lan_regular_def)
        then have "lan_fresh l \<and> lan_res E EL [] st \<or> lan_inv no_lctx E EL (l, st) \<and> l_ioCount l = 0 \<and> \<not> l_isConnected l"
          using x False by (auto simp: Pair lan_state_def)
        from monitor.Connect_inv[OF this go[unfolded Lan_connect Pair]] show ?thesis
          unfolding Lan_connect Pair lan_step.simps wpx_map
          by (rule wpx_mono[OF wpx_weaken[OF _ FalseE]]) (auto simp: lan_state_def)
      qed
    qed
  next
    case Lan_disconnect
    show ?thesis
    proof (cases "l_isConnected l")
      case True
      then have "lan_inv no_lctx E EL (l, st)" by (intro init) (simp add: lan_fresh_def)
      from lan_releaseClient_inv[OF lan_disconnect_inv(1)[OF this[unfolded no_lctx_def]]] show ?thesis
        using True by (simp add: Lan_disconnect Pair CLanClient_Disconnect_def lan_state_def no_lctx_def)
    next
      case False
      then show ?thesis using x by (simp add: Lan_disconnect Pair CLanClient_Disconnect_def)
    qed
  next
    case Lan_released
    with ok have "l_waiting l" by (simp add: Pair lan_regular_def)
    then have "lan_inv no_lctx E EL (l, st)" by (intro init) (simp add: lan_fresh_def)
    from lan_upd_open(4)[OF lan_upd_open(2)[OF this]] show ?thesis
      by (simp add: Lan_released Pair CLanClient_released_def lan_state_def)
  next
    case (Lan_report ty v tm)
    with ok have "l_isInit l" by (simp add: Pair lan_regular_def)
    then have "lan_inv no_lctx E EL (l, st)" by (intro init) (simp add: lan_fresh_def)
    from report_inv[OF this] show ?thesis unfolding Lan_report Pair lan_step.simps
      by (rule wpx_mono) (auto simp: lan_state_def)
  next
    case (Lan_recv d err)
    with ok have r: "l_recv_io l" "length d \<le> seg_total (recv_segments (l_recvQ l))" by (simp_all add: Pair lan_regular_def)
    then have "lan_inv no_lctx E EL (l, st)" by (intro init) (simp add: lan_fresh_def)
    from monitor.worker_recv[OF this r] show ?thesis unfolding Lan_recv Pair lan_step.simps
      by (rule wpx_weaken[OF lan_worker_inv FalseE]) simp
  next
    case (Lan_sent n err)
    with ok have r: "l_send_io l" by (simp add: Pair lan_regular_def)
    then have "lan_inv no_lctx E EL (l, st)" by (intro init) (simp add: lan_fresh_def)
    from monitor.worker_sent[OF this r] show ?thesis unfolding Lan_sent Pair lan_step.simps
      by (rule wpx_weaken[OF lan_worker_inv FalseE]) simp
  next
    case (Lan_take k)
    with ok have k: "k < length (l_posts l)" by (simp add: Pair lan_regular_def)
    then have "lan_inv no_lctx E EL (l, st)" by (intro init) (auto simp: lan_fresh_def)
    from monitor.worker_post[OF this k] show ?thesis unfolding Lan_take Pair lan_step.simps
      by (rule lan_worker_inv) simp
  qed
qed

lemma lan_reach_state: "lan_reach E EL x \<Longrightarrow> lan_state E EL x"
proof (induction rule: lan_reach.induct)
  case (lan_new mem sent E EL st rel sid)
  then show ?case by (simp add: lan_state_def CLanClient_ctor_fresh)
next
  case (lan_stepped E EL x ev x')
  from lan_step_inv[OF lan_stepped.IH lan_stepped.hyps(2)] lan_stepped.hyps(3) show ?case by simp
next
  case (lan_others E EL l st E' EL' st')
  moreover have "lan_owned no_lctx l = {#}" "l_logQueue l = []" if "lan_fresh l"
    using that by (simp_all add: lan_fresh_def lan_owned_def lan_sent_def)
  ultimately have "lan_fresh l \<and> lan_res E' EL' [] st' \<or> lan_inv no_lctx E' EL' (l, st')"
    by (auto simp: lan_state_def lan_inv_def)
  then show ?case by (simp add: lan_state_def)
qed

end
