(* ===== verification/LanProps.thy ===== *)
theory LanProps
  imports LanRun Server
begin

text \<open>
  What holds in every state the client of the monitor server can reach, with a client that belongs
  to a chat server that has just started as the example.
\<close>

subsection \<open>A sample\<close>

definition sample_lan :: lan where
  "sample_lan = CLanClient_ctor (replicate 2001 0) False 0 (replicate 200 0)"

lemma booted_lan_res:
  assumes "booted st"
  shows "lan_res (queued (n_sessions st)) (set (n_logQueue st)) [] st"
  using net_invD[OF reach_inv(1)[OF assms, of "[]" st]] by (simp add: lan_res_def log_ok_def)

lemma sample_lan_res: "lan_res {#} {} [] sample_server"
proof -
  have "queued (n_sessions sample_server) = {#}" "n_logQueue sample_server = []"
    by (auto simp: sample_server_def started_def queued_def Session_ctor_def ChatServer_init_def ChatServer_ctor_def
        CNetServer_ctor_def upd_chat_def)
  then show ?thesis using booted_lan_res[OF sample_booted] by simp
qed

subsection \<open>Sending reports\<close>

lemma sendPend_twice:
  assumes "0 < l_ioCount l"
  shows "CLanClient_updateIOCount (CLanClient_sendPend (l\<lparr>l_ioCount := l_ioCount l + 1, l_sendQ := q\<rparr>)) =
    Some (l_ioCount (CLanClient_sendPend l), CLanClient_sendPend (l\<lparr>l_sendQ := q\<rparr>))"
  using assms by (cases l) (auto simp: CLanClient_updateIOCount_def CLanClient_sendPend_def lan_post_def Let_def)

lemma monitor_send_effect:
  assumes inv: "lan_inv c E EL (l, st)" and d: "\<not> l_disconnect l" and io: "0 < l_ioCount l" and room: "length (l_sendQ l) < MAX_SENDQ"
    and fill: "\<And>p. pk_fresh p \<Longrightarrow> pk_ref_cnt (fill p) = 1"
  obtains a p st' where "monitor_send fill (l, st) = Some (CLanClient_sendPend (l\<lparr>l_sendQ := l_sendQ l @ [a]\<rparr>), st')"
    "pk_fresh p" "n_packets st' = (n_packets st)(a := fill p)" "a \<notin># lan_owned c l"
proof -
  have r: "\<not> l_releaseFlag l" using lan_okD(5)[OF lan_invD(1)[OF inv]] d by (auto simp: lan_core_def)
  obtain a st1 where A: "Packet_Alloc st = Some (a, st1)" "a \<notin># E + lan_owned c l" "pk_fresh (n_packets st1 a)"
      "n_packets st1 = (n_packets st)(a := CPacket_Clear (n_packets st a))"
    using lan_Packet_Alloc[OF inv, of False]
    by (auto simp: wpx_total Packet_Alloc_def bind_Some_iff)
  let ?p = "fill (n_packets st1 a)"
  have ref: "pk_ref_cnt ?p = 1" by (rule fill[OF A(3)])
  have same: "?p\<lparr>pk_ref_cnt := 1\<rparr> = ?p" using ref by (cases ?p) simp
  let ?st = "st1\<lparr>n_packets := (n_packets st1)(a := ?p)\<rparr>"
  have "CLanClient_SendPacket a (l, ?st) = Some (True, CLanClient_sendPend (l\<lparr>l_sendQ := l_sendQ l @ [a]\<rparr>), Packet_AddRef a ?st)"
    using d r room sendPend_twice[OF io]
    by (simp add: CLanClient_SendPacket_def send_q_Enqueue_def Let_def)
  moreover have "Packet_Free a (Packet_AddRef a ?st) = Some ?st"
    using ref by (simp add: Packet_Free_def Packet_SubRef_def Packet_AddRef_def CPacket_SubRef_def CPacket_AddRef_def Let_def same)
  ultimately have "monitor_send fill (l, st) = Some (CLanClient_sendPend (l\<lparr>l_sendQ := l_sendQ l @ [a]\<rparr>), ?st)"
    using A(1) by (simp add: monitor_send_def Let_def)
  then show ?thesis using A by (intro that[of a ?st "n_packets st1 a"]) auto
qed

lemma lan_wire_holds:
  assumes "pk_holds d p"
  shows "lan_wire p = le_bytes 2 (of_nat (length d) :: u16) @ d"
proof -
  note I = pk_inv_facts[of p]
  have p: "pk_inv p" "pk_read_pos p = 0" "pk_data p = d" using assms by (simp_all add: pk_holds_def)
  have n: "nat (pk_data_size p) = length d" "pk_data_size p = int (length d)" using length_pk_data[OF p(1)] I(6)[OF p(1)] p(3) by simp_all
  have len: "length (pk_hidden p) = nat (pk_buffer_size p) + 5" "length d \<le> nat (pk_buffer_size p)"
    using I[OF p(1)] n p(2) by auto
  have "drop 3 (splice 3 (le_bytes 2 (of_nat (length d) :: u16)) (pk_hidden p)) =
      le_bytes 2 (of_nat (length d) :: u16) @ drop 5 (pk_hidden p)"
    using len(1) by (simp add: splice_def)
  moreover have "d = take (length d) (drop 5 (pk_hidden p))"
    using p by (simp add: pk_data_def net_header_size_def n)
  ultimately show ?thesis
    using n by (simp add: lan_wire_def CPacket_GetBufferPtrLan_def CPacket_GetDataSizeLan_def net_header_size_def lan_header_size_def nat_add_distrib)
qed

text \<open>What sending a list of reports does to the queue.\<close>

lemma send_reports_effect:
  assumes "lan_inv no_lctx E EL (l, st)" and "\<not> l_disconnect l" and "length (l_sendQ l) + length rs \<le> MAX_SENDQ"
  shows "\<exists>as l' st'. send_reports tm rs (l, st) = Some (l', st') \<and> l_sendQ l' = l_sendQ l @ as \<and>
    map (\<lambda>a. lan_wire (n_packets st' a)) as =
      map (\<lambda>(ty, v). le_bytes 2 (11 :: u16) @ le_bytes 2 (20002 :: u16) @ le_bytes 1 (monitor_data_value ty) @ le_bytes 4 v @ le_bytes 4 tm) rs \<and>
    (\<forall>a \<in> set (l_sendQ l). n_packets st' a = n_packets st a) \<and>
    \<not> l_disconnect l' \<and> (rs \<noteq> [] \<longrightarrow> l_sendFlag l')"
  using assms
proof (induction rs arbitrary: l st)
  case (Cons r rs)
  obtain ty v where r: "r = (ty, v)" by (cases r)
  note D = lan_okD(5)[OF lan_invD(1)[OF Cons.prems(1)], unfolded no_lctx_def lctx.simps]
  have io: "0 < l_ioCount l" using D Cons.prems(2) by (auto simp: lan_core_def)
  let ?fill = "data_fill (monitor_data_value ty) v tm"
  have ref: "pk_ref_cnt (?fill p) = 1" if "pk_fresh p" for p using data_fill_ok[OF that] by (simp add: pk_holds_def)
  have room: "length (l_sendQ l) < MAX_SENDQ" using Cons.prems(3) by simp
  obtain a p st1 where S: "monitor_send ?fill (l, st) = Some (CLanClient_sendPend (l\<lparr>l_sendQ := l_sendQ l @ [a]\<rparr>), st1)"
    "pk_fresh p" "n_packets st1 = (n_packets st)(a := ?fill p)" "a \<notin># lan_owned no_lctx l"
    by (rule monitor_send_effect[OF Cons.prems(1,2) io room ref])
  let ?l = "CLanClient_sendPend (l\<lparr>l_sendQ := l_sendQ l @ [a]\<rparr>)"
  have L: "l_sendQ ?l = l_sendQ l @ [a]" "l_disconnect ?l = l_disconnect l" "l_sendFlag ?l" by (simp_all add: CLanClient_sendPend_def)
  have inv: "lan_inv no_lctx E EL (?l, st1)"
    using report_inv[OF Cons.prems(1), of False "monitor_data_value ty" v tm] S(1)
    by (simp add: MonitorClient_SendMonitorData_def)
  have step: "MonitorClient_SendMonitorData (monitor_data_value ty) v tm (l, st) = Some (?l, st1)"
    using S(1) by (simp add: MonitorClient_SendMonitorData_def)
  have sendflag: "l_sendFlag l'" if "send_reports tm [] (?l, st1) = Some (l', st')" for l' st' using that L(3) by simp
  obtain as l' st' where I: "send_reports tm rs (?l, st1) = Some (l', st')" "l_sendQ l' = l_sendQ ?l @ as"
    "map (\<lambda>a. lan_wire (n_packets st' a)) as =
      map (\<lambda>(ty, v). le_bytes 2 (11 :: u16) @ le_bytes 2 (20002 :: u16) @ le_bytes 1 (monitor_data_value ty) @ le_bytes 4 v @ le_bytes 4 tm) rs"
    "\<forall>a \<in> set (l_sendQ ?l). n_packets st' a = n_packets st1 a" "\<not> l_disconnect l'" "rs \<noteq> [] \<longrightarrow> l_sendFlag l'"
    using Cons.IH[OF inv] Cons.prems(2,3) L by auto
  have a: "a \<notin> set (l_sendQ l)" using S(4) by (simp add: lan_owned_def)
  have w: "lan_wire (n_packets st' a) = le_bytes 2 (11 :: u16) @ le_bytes 2 (20002 :: u16) @ le_bytes 1 (monitor_data_value ty) @ le_bytes 4 v @ le_bytes 4 tm"
    using I(4) L(1) S(3) lan_wire_holds[OF data_fill_ok[OF S(2), of "monitor_data_value ty" v tm]] by simp
  have f: "l_sendFlag l'" using I(1,6) sendflag by (cases "rs = []") auto
  have old: "\<forall>b \<in> set (l_sendQ l). n_packets st' b = n_packets st b" using I(4) L(1) S(3) a by auto
  show ?case
    by (intro exI[of _ "a # as"] exI[of _ l'] exI[of _ st'])
      (use step I(1,2,3,5) L(1) w f old in \<open>simp add: r\<close>)
qed simp

subsection \<open>A client that is never released\<close>

definition lan_stuck :: "addr list \<Rightarrow> lan \<Rightarrow> bool" where
  "lan_stuck q l \<longleftrightarrow> l_isInit l \<and> l_disconnect l \<and> l_sendQ l = q \<and> q \<noteq> [] \<and> Lan_post SEND_PEND \<in> set (l_posts l)"

lemma count_list_pos: "0 < count_list xs x \<longleftrightarrow> x \<in> set xs"
  using count_list_0_iff[of xs x] by linarith

lemma stuck_core:
  assumes "lan_inv no_lctx E EL (l, st)" and "lan_stuck q l"
  shows "\<not> l_releaseFlag l" and "\<not> l_send_io l" and "0 < l_ioCount l" and "l_recv_io l \<Longrightarrow> 1 < l_ioCount l"
    and "Lan_post CANCEL_IO \<in> set (l_posts l) \<Longrightarrow> 1 < l_ioCount l" and "Lan_post RELEASE_PEND \<notin> set (l_posts l)"
proof -
  note D = lan_okD(5)[OF lan_invD(1)[OF assms(1)], unfolded no_lctx_def lctx.simps lan_core_def]
  have sp: "0 < cp SEND_PEND l" using assms(2) by (simp add: lan_stuck_def count_list_pos)
  have b: "of_bool b \<le> (1 :: nat)" for b by (cases b) simp_all
  show r: "\<not> l_releaseFlag l" using D sp by auto
  have "cp SEND_PEND l + of_bool (l_send_io l) \<le> 1" using D b[of "l_sendFlag l"] by linarith
  then show "\<not> l_send_io l" using sp by (cases "l_send_io l") simp_all
  have io: "l_ioCount l = int (cp SEND_PEND l + cp CANCEL_IO l + cp RELEASE_PEND l + of_bool (l_recv_io l) + of_bool (l_send_io l) + 0)"
    using D by blast
  then show "0 < l_ioCount l" using sp by linarith
  show "1 < l_ioCount l" if "l_recv_io l" using io sp that by simp
  show "1 < l_ioCount l" if "Lan_post CANCEL_IO \<in> set (l_posts l)"
  proof -
    have "0 < cp CANCEL_IO l" using that by (simp add: count_list_pos)
    then show ?thesis using io sp by linarith
  qed
  have "cp RELEASE_PEND l = 0" using D r by simp
  then show "Lan_post RELEASE_PEND \<notin> set (l_posts l)" by (simp add: count_list_0_iff)
qed

lemma lan_Log_shape:
  assumes "CLanClient_Log ty lev msg (l, st) = Some x"
  shows "fst x = l \<or> (\<exists>a. fst x = lan_logged a l)"
  using assms by (cases "fst x = l") (auto simp: CLanClient_Log_def ask_def bind_Some_iff split: if_splits)

lemma lan_gqcs_log_shape:
  assumes "lan_gqcs_log c (l, st) = Some x"
  shows "fst x = l \<or> (\<exists>a. fst x = lan_logged a l)"
  using assms by (auto simp: lan_gqcs_log_def split: option.splits if_splits dest: lan_Log_shape)

lemma stuck_unpin:
  assumes "1 < l_ioCount l" and "lan_stuck q l"
  shows "CLanClient_updateIOCount l = Some (l_ioCount l - 1, l\<lparr>l_ioCount := l_ioCount l - 1\<rparr>)"
    and "lan_stuck q (l\<lparr>l_ioCount := l_ioCount l - 1\<rparr>)"
  using assms by (simp_all add: CLanClient_updateIOCount_def lan_stuck_def Let_def)

lemma stuck_session:
  assumes "c_session c = Some i" and "CLanClient_runIoThread_body cb c x = Some (y, b)"
    and "\<And>z. lan_gqcs_log c x = Some z \<Longrightarrow> \<exists>w. lan_completion cb (c_bytes c) (c_overlapped c) z = Some w \<and> lan_stuck q (fst w) \<and> 1 < l_ioCount (fst w)"
  shows "lan_stuck q (fst y) \<and> b"
  using assms stuck_unpin by (fastforce simp: body_unfold bind_Some_iff)

lemma stuck_body_posts:
  assumes inv: "lan_inv no_lctx E EL (l, st)" and S: "lan_stuck q l" and k: "k < length (l_posts l)"
    and run: "CLanClient_runIoThread_body cb (lan_post_completion (l_posts l ! k)) (lan_take_post k l, st) = Some (y, b)"
  shows "lan_stuck q (fst y)"
proof -
  note C = stuck_core[OF inv S]
  have sh: "lan_shape l" by (rule lan_okD(1)[OF lan_invD(1)[OF inv]])
  have keep: "lan_stuck q (lan_take_post k l)" if "l_posts l ! k \<noteq> Lan_post SEND_PEND"
    using S take_post_other[OF k that] unfolding lan_stuck_def lan_take_post_simps count_list_pos[symmetric]
    by (simp add: lan_take_post_def)
  have mem: "l_posts l ! k \<in> set (l_posts l)" using k by simp
  show ?thesis
  proof (cases "l_posts l ! k")
    case (Lan_post p)
    have "p \<noteq> RELEASE_PEND" using C(6) mem Lan_post by auto
    then have "p = SEND_PEND \<or> p = CANCEL_IO" using sh mem Lan_post by (auto simp: lan_shape_def)
    then have "\<exists>w. lan_completion cb 0 (Ov_post p) (lan_take_post k l, st) = Some w \<and> lan_stuck q (fst w) \<and> 1 < l_ioCount (fst w)"
    proof
      assume p: "p = SEND_PEND"
      show ?thesis using S C(3)
        by (auto simp: p lan_completion_def CLanClient_trySend_def CLanClient_sendPost_def CLanClient_sendPend_def lan_stuck_def
            lan_take_post_def lan_post_def)
    next
      assume p: "p = CANCEL_IO"
      have "1 < l_ioCount l" using C(5) mem Lan_post p by auto
      then show ?thesis using keep Lan_post p by (simp add: lan_completion_def)
    qed
    then show ?thesis using stuck_session[OF _ run, of 0 q] Lan_post by (auto simp: lan_gqcs_log_def)
  next
    case (Lan_null p)
    then have "p = LOG_PEND" using sh mem by (auto simp: lan_shape_def)
    then show ?thesis using run keep Lan_null
      by (auto simp: CLanClient_runIoThread_body_def CLanClient_writeLog_def ask_def lan_stuck_def bind_Some_iff split: list.splits)
  next
    case Lan_exit
    then show ?thesis using run keep by (auto simp: CLanClient_runIoThread_body_def)
  qed
qed

lemma stuck_report:
  fixes st :: "'a net_scheme"
  assumes inv: "lan_inv no_lctx E EL (l, st)" and S: "lan_stuck q l" and run: "monitor_send fill (l, st) = Some x"
  shows "lan_stuck q (fst x)"
proof -
  note C = stuck_core[OF inv S]
  have "CLanClient_SendPacket a (l, st1) = Some (False, l, st1)" for a and st1 :: "'a net_scheme"
    using S C(3) by (auto simp: CLanClient_SendPacket_def lan_stuck_def CLanClient_updateIOCount_def Let_def)
  then show ?thesis using run S by (auto simp: monitor_send_def bind_Some_iff)
qed

lemma stuck_step:
  assumes inv: "lan_inv no_lctx E EL (l, st)" and S: "lan_stuck q l" and ok: "lan_regular l ev"
    and run: "lan_step ev (l, st) = Some x"
  shows "lan_stuck q (fst x)"
proof (cases ev)
  case (Lan_connect ip port worker active nagle sys)
  then have "l_isConnected l" using stuck_core(3)[OF inv S] ok by (simp add: lan_regular_def)
  then show ?thesis using S run Lan_connect by (cases sys) (auto simp: CLanClient_Connect_def)
next
  case Lan_disconnect
  then show ?thesis using S ok run
    by (auto simp: CLanClient_Disconnect_def CLanClient_disconnectSession_def CLanClient_releaseClient_def lan_stuck_def split: if_splits)
next
  case Lan_released
  then show ?thesis using S run by (auto simp: CLanClient_released_def lan_stuck_def)
next
  case Lan_report
  then show ?thesis using stuck_report[OF inv S] run by (simp add: MonitorClient_SendMonitorData_def)
next
  case (Lan_recv d err)
  let ?c = "\<lparr>c_error = err, c_bytes = of_nat (length d) :: u32, c_session = Some (0 :: nat), c_overlapped = Ov_recv\<rparr>"
  let ?l = "lan_kernel_write d (l\<lparr>l_recv_io := False\<rparr>)"
  have io: "1 < l_ioCount l" using stuck_core(4)[OF inv S] ok Lan_recv by (simp add: lan_regular_def)
  have c: "\<exists>w. lan_completion monitor_callbacks (c_bytes ?c) (c_overlapped ?c) z = Some w \<and> lan_stuck q (fst w) \<and> 1 < l_ioCount (fst w)"
    if "lan_gqcs_log ?c (?l, st) = Some z" for z
    using lan_gqcs_log_shape[OF that] S io
    by (cases z) (auto simp: lan_completion_def CLanClient_disconnectSession_def lan_stuck_def lan_kernel_write_def lan_post_def)
  show ?thesis using run stuck_session[OF _ _ c, of 0]
    by (auto simp: Lan_recv lan_worker_def bind_Some_iff lan_stuck_def)
next
  case Lan_sent
  then show ?thesis using stuck_core(2)[OF inv S] ok by (simp add: lan_regular_def)
next
  case (Lan_take k)
  then show ?thesis using run ok stuck_body_posts[OF inv S]
    by (auto simp: lan_worker_def bind_Some_iff lan_stuck_def lan_regular_def)
qed

lemma net_rest_env:
  assumes "net_rest st' = net_rest st"
  shows "n_env st' = n_env st"
proof -
  have "n_env (net_rest st' p q r) = n_env (net_rest st p q r)" for p q r using assms by simp
  then show ?thesis by (simp add: net_rest_def)
qed

lemma lan_kept_env: "lan_kept x y \<Longrightarrow> n_env (snd y) = n_env (snd x)"
  by (rule net_rest_env) (auto simp: lan_kept_def lan_frame_def split_def)

lemma stuck_env:
  assumes inv: "lan_inv no_lctx E EL (l, st)" and S: "lan_stuck q l" and ok: "lan_regular l ev"
    and run: "lan_step ev (l, st) = Some x"
  shows "n_env (snd x) = n_env st"
proof (cases ev)
  case (Lan_connect ip port worker active nagle sys)
  then have "l_isConnected l" using stuck_core(3)[OF inv S] ok by (simp add: lan_regular_def)
  then show ?thesis using run Lan_connect by (cases sys) (auto simp: CLanClient_Connect_def)
next
  case Lan_disconnect
  then show ?thesis using run by (auto simp: CLanClient_Disconnect_def split: if_splits)
next
  case Lan_released
  then show ?thesis using run by auto
next
  case (Lan_report ty v tm)
  then have "lan_frame (l, st) x" using run wpx_SomeE[OF report_inv[OF inv]] by (cases x) auto
  from lan_kept_env[OF lan_frame_kept[OF this]] show ?thesis by simp
next
  case (Lan_recv d err)
  then have r: "l_recv_io l" "length d \<le> seg_total (recv_segments (l_recvQ l))" using ok by (simp_all add: lan_regular_def)
  from run obtain r where
    R: "CLanClient_runIoThread_body monitor_callbacks \<lparr>c_error = err, c_bytes = of_nat (length d), c_session = Some 0, c_overlapped = Ov_recv\<rparr>
      (lan_kernel_write d (l\<lparr>l_recv_io := False\<rparr>), st) = Some r" "snd x = snd (fst r)"
    by (auto simp: Lan_recv lan_worker_def bind_Some_iff)
  have "lan_kept (l, st) (fst r)" using wpx_SomeE[OF monitor.worker_recv[OF inv r] R(1)] by simp
  from lan_kept_env[OF this] R(2) show ?thesis by simp
next
  case (Lan_sent n err)
  then show ?thesis using stuck_core(2)[OF inv S] ok by (simp add: lan_regular_def)
next
  case (Lan_take k)
  then have k: "k < length (l_posts l)" using ok by (simp add: lan_regular_def)
  from run obtain r where
    R: "CLanClient_runIoThread_body monitor_callbacks (lan_post_completion (l_posts l ! k)) (lan_take_post k l, st) = Some r" "snd x = snd (fst r)"
    by (auto simp: Lan_take lan_worker_def bind_Some_iff)
  have "lan_kept (l, st) (fst r)" using wpx_SomeE[OF monitor.worker_post[OF inv k] R(1)] by simp
  from lan_kept_env[OF this] R(2) show ?thesis by simp
qed

lemma lan_run_reach:
  "lan_run_events evs x = Some x' \<Longrightarrow> lan_reach E EL x \<Longrightarrow> lan_reach E EL x'"
  by (induction evs arbitrary: x) (auto split: if_splits bind_splits intro: lan_stepped)

lemma lan_run_append:
  "lan_run ok (evs @ evs') x = Option.bind (lan_run ok evs x) (lan_run ok evs')"
proof (induction evs arbitrary: x)
  case (Cons ev evs)
  then show ?case by (cases "lan_step ev x") simp_all
qed simp

lemma stuck_reach:
  assumes "lan_reach E EL x" and "lan_stuck q (fst x)"
  shows "lan_inv no_lctx E EL x"
  using lan_reach_state[OF assms(1)] assms(2) by (auto simp: lan_state_def lan_stuck_def lan_fresh_def)

lemma stuck_run:
  assumes "lan_reach E EL x" and "lan_stuck q (fst x)" and "lan_run_events evs x = Some x'"
  shows "lan_stuck q (fst x')"
  using assms
proof (induction evs arbitrary: x)
  case (Cons ev evs)
  show ?case
  proof (cases "lan_regular (fst x) ev")
    case True
    obtain l st where x: "x = (l, st)" by (cases x)
    from Cons.prems(3) True obtain y where y: "lan_step ev x = Some y" "lan_run_events evs y = Some x'"
      by (auto simp: bind_Some_iff)
    have "lan_stuck q (fst y)"
      using stuck_step[of E EL l st q ev y] stuck_reach[OF Cons.prems(1,2)] Cons.prems(2) True y(1) x by simp
    from Cons.IH[OF lan_stepped[OF Cons.prems(1) True y(1)] this y(2)] show ?thesis .
  qed (use Cons in simp)
qed simp

lemma stuck_run_total:
  assumes "lan_reach E EL x" and "lan_stuck q (fst x)" and "\<forall>t. e_opened (n_env (snd x) t)"
  shows "lan_run_events evs x \<noteq> None"
  using assms
proof (induction evs arbitrary: x)
  case (Cons ev evs)
  show ?case
  proof (cases "lan_regular (fst x) ev")
    case True
    obtain l st where x: "x = (l, st)" by (cases x)
    note inv = stuck_reach[OF Cons.prems(1,2), unfolded x] and S = Cons.prems(2)[unfolded x fst_conv]
    have "\<not> lan_ends ev x"
      using True stuck_core(3)[OF inv S] Cons.prems(3) by (cases ev) (auto simp: x lan_regular_def)
    then obtain y where y: "lan_step ev x = Some y"
      using lan_step_inv[OF lan_reach_state[OF Cons.prems(1)] True] by (auto simp: wpx_total)
    have "lan_stuck q (fst y)" "n_env (snd y) = n_env (snd x)"
      using stuck_step[OF inv S _ y[unfolded x]] stuck_env[OF inv S _ y[unfolded x]] True by (simp_all add: x)
    from Cons.IH[OF lan_stepped[OF Cons.prems(1) True y] this(1)] this(2) Cons.prems(3) y True show ?thesis by simp
  qed (use Cons in simp)
qed simp

subsection \<open>Connecting and losing the connection\<close>

lemma connect_effect:
  assumes l: "lan_fresh l" and res: "lan_res E EL [] st" and io: "\<And>t. e_io (n_env st t) = Io_pending"
    and ip: "length ip < 16" and w: "0 \<le> worker"
  obtains a p l' st' where
    "CLanClient_Connect monitor_callbacks ip port worker active nagle (True, Some s, True, err) (l, st) = Some (True, l', st')"
    "l_sendQ l' = [a]" "l_posts l' = [Lan_post SEND_PEND]" "\<not> l_disconnect l'" "l_recv_io l'" "l_ioCount l' = 2"
    "l_isInit l'" "l_workers l' = nat worker" "n_packets st' = (n_packets st)(a := login_fill p)" "pk_fresh p" "n_env st' = n_env st"
proof -
  define l0 where "l0 = (lan_initial ip port worker active nagle l)\<lparr>l_serverSock := s, l_open := True\<rparr>"
  note F = l[unfolded lan_fresh_def]
  have idle: "l_posts l0 = []" "\<not> l_recv_io l0" "\<not> l_send_io l0" "l_ioCount l0 = 0" "l_sendQ l0 = []" "l_sentPacketCnt l0 = 0"
    "l_isInit l0" "l_workers l0 = nat worker"
    using F by (simp_all add: l0_def lan_initial_def)
  have inv0: "lan_inv no_lctx E EL (l0, st)"
    unfolding l0_def by (rule lan_upd_open(1)[OF lan_upd_open(3)[OF lan_initial_inv[OF l res]]])
  let ?c = "lan_connected l0"
  note inv = lan_connected_inv[OF inv0 idle(4)]
  have C: "\<not> l_disconnect ?c" "l_sendQ ?c = []" "l_ioCount ?c = 1" "\<not> l_sendFlag ?c" "l_posts ?c = []" "l_isInit ?c" "l_workers ?c = nat worker"
    using idle by (simp_all add: lan_connected_def)
  have ref: "pk_ref_cnt (login_fill p) = 1" if "pk_fresh p" for p using login_fill_ok[OF that] by (simp add: pk_holds_def)
  obtain a p st1 where S: "monitor_send login_fill (?c, st) = Some (CLanClient_sendPend (?c\<lparr>l_sendQ := l_sendQ ?c @ [a]\<rparr>), st1)"
    "pk_fresh p" "n_packets st1 = (n_packets st)(a := login_fill p)"
    by (rule monitor_send_effect[OF inv C(1) _ _ ref]) (use C in \<open>auto simp: MAX_SENDQ_def\<close>)
  let ?l = "CLanClient_sendPend (?c\<lparr>l_sendQ := [a]\<rparr>)"
  have fr: "lan_frame (?c, st) (?l, st1)"
    using monitor.join[OF inv] S(1) C(2)
    by (simp add: monitor_callbacks_def MonitorClient_OnEnterServerJoin_def)
  then have "net_rest st1 = net_rest st" by (simp add: lan_frame_def)
  then have env: "n_env st1 = n_env st" by (rule net_rest_env)
  have L: "l_ioCount ?l = 2" "l_posts ?l = [Lan_post SEND_PEND]" "\<not> l_disconnect ?l" "l_sendQ ?l = [a]" "l_isInit ?l" "l_workers ?l = nat worker"
    using C by (simp_all add: CLanClient_sendPend_def)
  let ?l2 = "?l\<lparr>l_ioCount := 3, l_recv_io := True\<rparr>" and ?st2 = "st1\<lparr>n_time := n_time st1 + 1\<rparr>"
  have r: "CLanClient_recvPost (?l, st1) = Some (True, ?l2, ?st2)"
    using L env io by (simp add: CLanClient_recvPost_def ask_def)
  have u: "CLanClient_updateIOCount ?l2 = Some (2, ?l2\<lparr>l_ioCount := 2\<rparr>)" by (simp add: CLanClient_updateIOCount_def Let_def)
  have "CLanClient_connectSession monitor_callbacks True err (l0, st) = Some (True, ?l2\<lparr>l_ioCount := 2\<rparr>, ?st2)"
    using S(1) C(2) r u
    by (simp add: CLanClient_connectSession_def lan_connected_def[symmetric] monitor_callbacks_def MonitorClient_OnEnterServerJoin_def)
  then have "CLanClient_Connect monitor_callbacks ip port worker active nagle (True, Some s, True, err) (l, st) =
      Some (True, (?l2\<lparr>l_ioCount := 2\<rparr>)\<lparr>l_isConnected := True\<rparr>, ?st2)"
    using F ip w by (simp add: CLanClient_Connect_def l0_def lan_initial_def)
  then show ?thesis by (rule that) (use L S env in simp_all)
qed

text \<open>The server closes the connection before the login packet has been sent.\<close>

lemma closed_at_once:
  assumes l: "lan_fresh l" and res: "lan_res E EL [] st" and io: "\<And>t. e_io (n_env st t) = Io_pending"
    and ip: "length ip < 16" and w: "0 < worker"
  obtains a x where "lan_run_events [Lan_connect ip port worker active nagle (True, Some s, True, err), Lan_recv [] None] (l, st) = Some x"
    "lan_stuck [a] (fst x)" "n_env (snd x) = n_env st"
proof -
  obtain a p l' st' where C:
    "CLanClient_Connect monitor_callbacks ip port worker active nagle (True, Some s, True, err) (l, st) = Some (True, l', st')"
    "l_sendQ l' = [a]" "l_posts l' = [Lan_post SEND_PEND]" "\<not> l_disconnect l'" "l_recv_io l'" "l_ioCount l' = 2"
    "l_isInit l'" "l_workers l' = nat worker" "n_packets st' = (n_packets st)(a := login_fill p)" "pk_fresh p" "n_env st' = n_env st"
    by (rule connect_effect[OF l res io ip less_imp_le[OF w]])
  have ok: "lan_regular l (Lan_connect ip port worker active nagle (True, Some s, True, err))"
    "lan_regular l' (Lan_recv [] None)"
    using l ip w C by (simp_all add: lan_fresh_def lan_regular_def)
  have "\<exists>y. lan_step (Lan_recv [] None) (l', st') = Some y \<and> lan_stuck [a] (fst y) \<and> n_env (snd y) = n_env st"
    using C by (auto simp: lan_worker_def CLanClient_runIoThread_body_def lan_completion_def CLanClient_disconnectSession_def
        lan_kernel_write_def CLanClient_updateIOCount_def lan_stuck_def lan_post_def Let_def)
  then obtain y where "lan_step (Lan_recv [] None) (l', st') = Some y" "lan_stuck [a] (fst y)" "n_env (snd y) = n_env st" by blast
  then show ?thesis using ok C(1) by (intro that[of y a]) (simp_all del: lan_step.simps(5))
qed

subsection \<open>What no worker touches\<close>

text \<open>The calls of the program only add posts and operations; taking them away is for the workers.\<close>

definition lan_grows :: "lan \<Rightarrow> lan \<Rightarrow> bool" where
  "lan_grows l l' \<longleftrightarrow> l_workers l' = l_workers l \<and> l_isInit l' = l_isInit l \<and> (\<exists>ps. l_posts l' = l_posts l @ ps) \<and>
     (l_recv_io l \<longrightarrow> l_recv_io l') \<and> l_send_io l' = l_send_io l"

lemma grows_refl [simp, intro]: "lan_grows l l"
  by (simp add: lan_grows_def)

lemma grows_trans: "lan_grows l m \<Longrightarrow> lan_grows m n \<Longrightarrow> lan_grows l n"
  by (auto simp: lan_grows_def)

lemma grows_post: "lan_grows l l' \<Longrightarrow> lan_grows l (lan_post p l')"
  by (auto simp: lan_grows_def lan_post_def)

lemma grows_fields:
  "lan_grows l l' \<Longrightarrow> lan_grows l (l'\<lparr>l_ioCount := n\<rparr>)" "lan_grows l l' \<Longrightarrow> lan_grows l (l'\<lparr>l_logQueue := q\<rparr>)"
  "lan_grows l l' \<Longrightarrow> lan_grows l (l'\<lparr>l_sendQ := q\<rparr>)" "lan_grows l l' \<Longrightarrow> lan_grows l (l'\<lparr>l_recv_io := True\<rparr>)"
  "lan_grows l l' \<Longrightarrow> lan_grows l (l'\<lparr>l_isConnected := b\<rparr>)" "lan_grows l l' \<Longrightarrow> lan_grows l (l'\<lparr>l_open := b\<rparr>)"
  "lan_grows l l' \<Longrightarrow> lan_grows l (l'\<lparr>l_serverSock := s\<rparr>)" "lan_grows l l' \<Longrightarrow> lan_grows l (l'\<lparr>l_sendFlag := b\<rparr>)"
  "lan_grows l l' \<Longrightarrow> lan_grows l (l'\<lparr>l_disconnect := b\<rparr>)" "lan_grows l l' \<Longrightarrow> lan_grows l (l'\<lparr>l_releaseFlag := b\<rparr>)"
  "lan_grows l l' \<Longrightarrow> lan_grows l (CLanClient_releaseClient l')" "lan_grows l l' \<Longrightarrow> lan_grows l (CLanClient_released l')"
  "lan_grows l l' \<Longrightarrow> lan_grows l (lan_connected l')" "lan_grows l l' \<Longrightarrow> lan_grows l (lan_config ip port worker active nagle l')"
  by (auto simp: lan_grows_def CLanClient_releaseClient_def CLanClient_released_def lan_connected_def lan_config_def)

lemma grows_sendPend: "lan_grows l l' \<Longrightarrow> lan_grows l (CLanClient_sendPend l')"
  by (simp add: CLanClient_sendPend_def grows_post grows_fields)

lemma grows_disconnect: "lan_grows l l' \<Longrightarrow> lan_grows l (CLanClient_disconnectSession l')"
  by (simp add: CLanClient_disconnectSession_def grows_post grows_fields)

lemma grows_update: "CLanClient_updateIOCount l' = Some (t, l'') \<Longrightarrow> lan_grows l l' \<Longrightarrow> lan_grows l l''"
  by (auto simp: CLanClient_updateIOCount_def CLanClient_releasePend_def Let_def split: if_splits intro!: grows_post grows_fields)

lemma grows_Log: "CLanClient_Log ty lev msg (l', st) = Some (l'', st'') \<Longrightarrow> lan_grows l l' \<Longrightarrow> lan_grows l l''"
  by (auto simp: CLanClient_Log_def ask_def bind_Some_iff split: if_splits intro!: grows_post grows_fields)

lemma grows_SendPacket:
  assumes "CLanClient_SendPacket a (l', st) = Some (ret, l'', st'')" and "lan_grows l l'"
  shows "lan_grows l l''"
proof -
  have "lan_grows l (l'\<lparr>l_ioCount := l_ioCount l' + 1\<rparr>)" using assms(2) by (rule grows_fields)
  with assms(1) show ?thesis
    by (auto simp: CLanClient_SendPacket_def Let_def bind_Some_iff split: if_splits option.splits
        elim!: grows_update grows_Log intro!: grows_sendPend grows_fields)
qed

lemma grows_recvPost:
  assumes "CLanClient_recvPost (l', st) = Some (ret, l'', st'')" and "lan_grows l l'"
  shows "lan_grows l l''"
proof -
  have "lan_grows l (l'\<lparr>l_ioCount := l_ioCount l' + 1\<rparr>)" using assms(2) by (rule grows_fields)
  with assms show ?thesis
    by (auto simp: CLanClient_recvPost_def ask_def Let_def bind_Some_iff split: if_splits io_result.splits
        elim!: grows_update grows_Log intro!: grows_disconnect grows_fields(4))
qed

lemma grows_send: "monitor_send fill (l', st) = Some (l'', st'') \<Longrightarrow> lan_grows l l' \<Longrightarrow> lan_grows l l''"
  by (auto simp: monitor_send_def bind_Some_iff dest!: grows_SendPacket)

lemma grows_session:
  assumes "CLanClient_connectSession monitor_callbacks ok err (l', st) = Some (ret, l'', st'')" and "lan_grows l l'"
  shows "lan_grows l l''" and "ret = ok"
proof -
  show "ret = ok" using assms(1) by (auto simp: CLanClient_connectSession_def bind_Some_iff split: if_splits)
  have join: "L_OnEnterServerJoin monitor_callbacks x = monitor_send login_fill x" for x :: "'a client"
    by (cases x) (simp add: monitor_callbacks_def MonitorClient_OnEnterServerJoin_def)
  show "lan_grows l l''"
  proof (cases ok)
    case True
    then obtain l1 st1 r l2 st2 t where J: "monitor_send login_fill (lan_connected l', st) = Some (l1, st1)"
      and R: "CLanClient_recvPost (l1, st1) = Some (r, l2, st2)" and U: "CLanClient_updateIOCount l2 = Some (t, l'')"
      using assms(1) by (auto simp: CLanClient_connectSession_def lan_connected_def join bind_Some_iff)
    show ?thesis
      by (rule grows_update[OF U grows_recvPost[OF R grows_send[OF J grows_fields(13)[OF assms(2)]]]])
  next
    case False
    then show ?thesis using assms by (auto simp: CLanClient_connectSession_def intro!: grows_fields)
  qed
qed

lemma grows_dial:
  assumes "lan_dial monitor_callbacks sock ok err (l', st) = Some (ret, l'', st'')" and "lan_grows l l'"
  shows "lan_grows l l''" and "ret \<Longrightarrow> l_isConnected l''" and "sock \<noteq> None \<Longrightarrow> ret = ok"
proof -
  have "lan_grows l l'' \<and> (ret \<longrightarrow> l_isConnected l'') \<and> (sock \<noteq> None \<longrightarrow> ret = ok)"
  proof (cases sock)
    case None
    then show ?thesis using assms by (auto simp: lan_dial_def intro!: grows_fields)
  next
    case (Some s)
    have g: "lan_grows l (l'\<lparr>l_serverSock := s, l_open := True\<rparr>)" using assms(2) by (simp add: grows_fields)
    from assms(1) Some obtain l1 where
      C: "CLanClient_connectSession monitor_callbacks ok err (l'\<lparr>l_serverSock := s, l_open := True\<rparr>, st) = Some (ret, l1, st'')"
      "l'' = (if ret then l1\<lparr>l_isConnected := True\<rparr> else CLanClient_releaseClient (l1\<lparr>l_isConnected := True\<rparr>))"
      by (auto simp: lan_dial_def bind_Some_iff)
    have "lan_grows l l1" "ret = ok" using grows_session[OF C(1) g] by simp_all
    then show ?thesis unfolding C(2) by (simp add: grows_fields)
  qed
  then show "lan_grows l l''" "ret \<Longrightarrow> l_isConnected l''" "sock \<noteq> None \<Longrightarrow> ret = ok" by simp_all
qed

lemma Connect_grows:
  assumes run: "CLanClient_Connect monitor_callbacks ip port worker active nagle (handles, sock, ok, err) (l, st) = Some (ret, l', st')"
    and init: "l_isInit l"
  shows "lan_grows l l'" and "\<not> l_isConnected l \<Longrightarrow> ret \<Longrightarrow> l_isConnected l'" and "\<not> l_isConnected l \<Longrightarrow> sock \<noteq> None \<Longrightarrow> ret = ok"
proof -
  have "lan_grows l l' \<and> (\<not> l_isConnected l \<and> ret \<longrightarrow> l_isConnected l') \<and> (\<not> l_isConnected l \<and> sock \<noteq> None \<longrightarrow> ret = ok)"
  proof (cases "l_isConnected l")
    case True
    then show ?thesis using run by (auto simp: CLanClient_Connect_def)
  next
    case False
    have ip: "length ip < 16" using run False by (auto simp: CLanClient_Connect_def split: if_splits)
    have d: "lan_dial monitor_callbacks sock ok err (lan_config ip port worker active nagle l, st) = Some (ret, l', st')"
      unfolding run[symmetric] by (subst Connect_dials[OF False ip]) (use run init False ip in \<open>simp_all add: CLanClient_Connect_def\<close>)
    note G = grows_dial[OF d grows_fields(14)[OF grows_refl]]
    show ?thesis using G by blast
  qed
  then show "lan_grows l l'" "\<not> l_isConnected l \<Longrightarrow> ret \<Longrightarrow> l_isConnected l'" "\<not> l_isConnected l \<Longrightarrow> sock \<noteq> None \<Longrightarrow> ret = ok"
    by simp_all
qed

lemma grows_step:
  assumes ok: "lan_event_ok l ev" and w: "l_workers l = 0" "l_isInit l" and run: "lan_step ev (l, st) = Some x"
  shows "lan_grows l (fst x)"
proof (cases ev)
  case (Lan_connect ip port worker active nagle sys)
  obtain handles sock ok err where sys: "sys = (handles, sock, ok, err)" by (cases sys)
  from run obtain ret l' st' where
    "CLanClient_Connect monitor_callbacks ip port worker active nagle (handles, sock, ok, err) (l, st) = Some (ret, l', st')" "x = (l', st')"
    by (auto simp: Lan_connect sys)
  then show ?thesis using Connect_grows(1) w(2) by simp
next
  case Lan_disconnect
  then show ?thesis using run by (auto simp: CLanClient_Disconnect_def intro!: grows_fields(11) grows_disconnect split: if_splits)
next
  case Lan_released
  then show ?thesis using run by (auto simp: grows_fields)
next
  case Lan_report
  then show ?thesis using run by (cases x) (auto simp: MonitorClient_SendMonitorData_def elim: grows_send)
qed (use ok w in simp_all)

lemma grows_run:
  "lan_run lan_event_ok evs x = Some x' \<Longrightarrow> l_workers (fst x) = 0 \<Longrightarrow> l_isInit (fst x) \<Longrightarrow> lan_grows (fst x) (fst x')"
proof (induction evs arbitrary: x)
  case (Cons ev evs)
  show ?case
  proof (cases "lan_event_ok (fst x) ev")
    case True
    then obtain y where y: "lan_step ev x = Some y" "lan_run lan_event_ok evs y = Some x'"
      using Cons.prems(1) by (auto simp: bind_Some_iff)
    have g: "lan_grows (fst x) (fst y)" using grows_step[of "fst x" ev "snd x" y] True Cons.prems(2,3) y(1) by simp
    then have "l_workers (fst y) = 0" "l_isInit (fst y)" using Cons.prems(2,3) by (simp_all add: lan_grows_def)
    from grows_trans[OF g Cons.IH[OF y(2) this]] show ?thesis .
  qed (use Cons in simp)
qed simp

lemma report_goes_on: "\<not> lan_ends (Lan_report ty v tm) x"
  by (cases x) simp

lemma connect_goes_on:
  assumes "lan_reach E EL x" and "lan_regular (fst x) (Lan_connect ip port worker active nagle sys)"
    and "\<not> lan_ends (Lan_connect ip port worker active nagle sys) x"
  obtains ret l' st' where "CLanClient_Connect monitor_callbacks ip port worker active nagle sys x = Some (ret, l', st')"
  using lan_step_inv[OF lan_reach_state[OF assms(1)] assms(2)] assms(3) by (auto simp: wpx_total)

subsection \<open>A sample run\<close>

definition sample_lan_events :: "lan_event list" where
  "sample_lan_events = [Lan_connect ''127.0.0.1'' 5000 1 1 True (True, Some 9, True, 0), Lan_recv [] None]"

definition sample_client :: "lan \<times> chat_server" where
  "sample_client = the (lan_run_events sample_lan_events (sample_lan, sample_server))"

lemma sample_env_pending: "e_io (n_env sample_server t) = Io_pending"
  by (simp add: sample_server_def started_def ChatServer_init_def ChatServer_ctor_def CNetServer_ctor_def upd_chat_def sample_env_def)

lemma sample_lan_fresh: "lan_fresh sample_lan"
  unfolding sample_lan_def by (rule CLanClient_ctor_fresh) simp_all

lemma sample_lan_new: "lan_reach {#} {} (sample_lan, sample_server)"
  unfolding sample_lan_def by (rule lan_new[OF _ _ sample_lan_res]) simp_all

lemma sample_client_run:
  obtains a where "lan_reach {#} {} sample_client" "lan_stuck [a] (fst sample_client)"
    "lan_run_events sample_lan_events (sample_lan, sample_server) = Some sample_client"
    "\<forall>t. e_opened (n_env (snd sample_client) t)"
proof -
  obtain a x where x: "lan_run_events sample_lan_events (sample_lan, sample_server) = Some x" "lan_stuck [a] (fst x)"
    "n_env (snd x) = n_env sample_server"
    unfolding sample_lan_events_def
    by (rule closed_at_once[OF sample_lan_fresh sample_lan_res sample_env_pending, where ip = "''127.0.0.1''" and port = 5000 and
          worker = 1 and active = 1 and nagle = True and s = 9 and err = 0]) simp_all
  then have "sample_client = x" by (simp add: sample_client_def)
  moreover have "e_opened (n_env sample_server t)" for t
    by (simp add: sample_server_def started_def ChatServer_init_def ChatServer_ctor_def CNetServer_ctor_def upd_chat_def sample_env_def)
  ultimately show ?thesis using x that lan_run_reach[OF x(1) sample_lan_new] by auto
qed

definition sample_connected :: "lan \<times> chat_server" where
  "sample_connected = the (lan_step (Lan_connect ''127.0.0.1'' 5000 1 1 True (True, Some 9, True, 0)) (sample_lan, sample_server))"

lemma sample_connected_run:
  "lan_reach {#} {} sample_connected" "l_isInit (fst sample_connected)" "\<not> l_disconnect (fst sample_connected)"
  "length (l_sendQ (fst sample_connected)) = 1"
proof -
  let ?ev = "Lan_connect ''127.0.0.1'' 5000 1 1 True (True, Some 9, True, 0)"
  obtain a p l' st' where C:
    "CLanClient_Connect monitor_callbacks ''127.0.0.1'' 5000 1 1 True (True, Some 9, True, 0) (sample_lan, sample_server) = Some (True, l', st')"
    "l_sendQ l' = [a]" "l_posts l' = [Lan_post SEND_PEND]" "\<not> l_disconnect l'" "l_recv_io l'" "l_ioCount l' = 2"
    "l_isInit l'" "l_workers l' = nat 1" "n_packets st' = (n_packets sample_server)(a := login_fill p)" "pk_fresh p"
    "n_env st' = n_env sample_server"
    by (rule connect_effect[OF sample_lan_fresh sample_lan_res sample_env_pending, where ip = "''127.0.0.1''" and port = 5000 and
          worker = 1 and active = 1 and nagle = True and s = 9 and err = 0]) simp_all
  have s: "lan_step ?ev (sample_lan, sample_server) = Some (l', st')" using C(1) by simp
  have ok: "lan_regular (fst (sample_lan, sample_server)) ?ev" using sample_lan_fresh by (simp add: lan_fresh_def lan_regular_def)
  have e: "sample_connected = (l', st')" unfolding sample_connected_def s by simp
  show "lan_reach {#} {} sample_connected" unfolding e by (rule lan_stepped[OF sample_lan_new ok s])
  show "l_isInit (fst sample_connected)" "\<not> l_disconnect (fst sample_connected)" "length (l_sendQ (fst sample_connected)) = 1"
    using C by (simp_all add: e)
qed

subsection \<open>Properties\<close>

text \<open>
  C30. As long as the program calls \<open>Connect\<close> anew only when nothing of the earlier connection is outstanding (a call
  while it is connected is refused) and sends no report before its first \<open>Connect\<close>, exactly three things end the process in
  a step of the client, in every reachable state: a \<open>Connect\<close> with an address of 16 characters or more, a first \<open>Connect\<close>
  for which the system makes no port or threads, and the write of a log record whose file cannot be opened. Everything else that
  the monitor server, the system or the rest of the process does completes and leads to a reachable state.
\<close>

theorem client_never_fails:
  assumes "lan_reach E EL x" and "lan_event_ok (fst x) ev" and "lan_in_scope (fst x) ev"
  shows "(lan_step ev x = None \<longleftrightarrow> lan_ends ev x) \<and> (\<forall>x'. lan_step ev x = Some x' \<longrightarrow> lan_reach E EL x')"
proof -
  have r: "lan_regular (fst x) ev" using assms(2,3) by (simp add: lan_regular_def)
  have "lan_step ev x = None \<Longrightarrow> lan_ends ev x" using lan_step_inv[OF lan_reach_state[OF assms(1)] r] by simp
  then show ?thesis using lan_step_ends lan_stepped[OF assms(1) r] by blast
qed

theorem client_never_fails_witness:
  "lan_step (Lan_report 1 2 3) sample_client \<noteq> None \<and> lan_step (Lan_connect (replicate 16 CHR ''1'') 5000 1 1 True (True, None, True, 0)) (sample_lan, sample_server) = None"
proof -
  obtain a where s: "lan_reach {#} {} sample_client" "lan_stuck [a] (fst sample_client)" by (rule sample_client_run)
  then have ok: "lan_event_ok (fst sample_client) (Lan_report 1 2 3)" "lan_in_scope (fst sample_client) (Lan_report 1 2 3)"
    by (simp_all add: lan_stuck_def)
  have "\<not> lan_ends (Lan_report 1 2 3) sample_client" by (rule report_goes_on)
  moreover have "\<not> l_isConnected sample_lan" "\<not> l_waiting sample_lan" "l_ioCount sample_lan = 0"
    using sample_lan_fresh by (simp_all add: lan_fresh_def)
  ultimately show ?thesis
    using client_never_fails[OF s(1) ok]
      client_never_fails[OF sample_lan_new, of "Lan_connect (replicate 16 CHR ''1'') 5000 1 1 True (True, None, True, 0)"] by simp
qed

text \<open>
  C31. As long as \<open>Connect\<close> is called anew only when nothing of the earlier connection is outstanding and no report comes before
  the first \<open>Connect\<close>, the reference count of the client's session is between events the number of operations the system owes
  it, at most three, and a session marked for release has no operation in progress and has been disconnected.
\<close>

theorem client_count_is_outstanding:
  assumes "lan_reach E EL (l, st)" and "l_isInit l"
  shows "l_ioCount l = int (count_list (l_posts l) (Lan_post SEND_PEND) + count_list (l_posts l) (Lan_post CANCEL_IO) +
      count_list (l_posts l) (Lan_post RELEASE_PEND)) + of_bool (l_recv_io l) + of_bool (l_send_io l) \<and>
    0 \<le> l_ioCount l \<and> l_ioCount l \<le> 3 \<and>
    (l_releaseFlag l \<longrightarrow> l_disconnect l \<and> \<not> l_recv_io l \<and> \<not> l_send_io l) \<and> (l_disconnect l \<or> l_recv_io l)"
proof -
  have "lan_inv no_lctx E EL (l, st)" using lan_reach_state[OF assms(1)] assms(2) by (auto simp: lan_state_def lan_fresh_def)
  note D = lan_okD(5)[OF lan_invD(1)[OF this], unfolded no_lctx_def lctx.simps lan_core_def]
  have b: "of_bool b \<le> (1 :: nat)" for b by (cases b) simp_all
  have io: "l_ioCount l = int (cp SEND_PEND l + cp CANCEL_IO l + cp RELEASE_PEND l + of_bool (l_recv_io l) + of_bool (l_send_io l) + 0)"
    using D by blast
  have le: "cp SEND_PEND l + of_bool (l_send_io l) \<le> 1" "cp CANCEL_IO l \<le> 1" "of_bool (l_recv_io l) \<le> (1 :: nat)"
    using D b[of "l_sendFlag l"] b[of "l_disconnect l"] b[of "l_recv_io l"] by linarith+
  have "cp SEND_PEND l + cp CANCEL_IO l + cp RELEASE_PEND l + of_bool (l_recv_io l) + of_bool (l_send_io l) \<le> 3"
  proof (cases "l_releaseFlag l")
    case True
    then have "cp SEND_PEND l = 0" "cp CANCEL_IO l = 0" "\<not> l_recv_io l" "\<not> l_send_io l" "cp RELEASE_PEND l \<le> 1" using D by auto
    then show ?thesis by simp
  next
    case False
    then have "cp RELEASE_PEND l = 0" using D by simp
    then show ?thesis using le by linarith
  qed
  then have "0 \<le> l_ioCount l \<and> l_ioCount l \<le> 3" unfolding io by linarith
  moreover have "l_ioCount l = int (cp SEND_PEND l + cp CANCEL_IO l + cp RELEASE_PEND l) + of_bool (l_recv_io l) + of_bool (l_send_io l)"
    using io by simp
  ultimately show ?thesis using D by blast
qed

theorem client_count_is_outstanding_witness:
  "0 \<le> l_ioCount (fst sample_client) \<and> l_ioCount (fst sample_client) \<le> 3"
proof -
  obtain a where s: "lan_reach {#} {} sample_client" "lan_stuck [a] (fst sample_client)" by (rule sample_client_run)
  then show ?thesis
    using client_count_is_outstanding[of "{#}" "{}" "fst sample_client" "snd sample_client"] by (simp add: lan_stuck_def)
qed

text \<open>
  C32. The client neither leaks a packet nor gives one back too early, as long as \<open>Connect\<close> is called anew only when nothing of the
  earlier connection is outstanding and no report comes before the first \<open>Connect\<close>. With \<open>E\<close> the references that the
  rest of the process holds and \<open>EL\<close> its log records, the packets in use are those of \<open>E\<close>, of the client's queue and
  of an unfinished send, each with as many references as it has places there; and the log records in use are those of \<open>EL\<close>
  and the queued ones, which are different from each other and from \<open>EL\<close>.
\<close>

theorem client_packets_conserved:
  assumes "lan_reach E EL (l, st)" and "l_isInit l"
  shows "(\<forall>a \<in># E + lan_owned no_lctx l. pk_ref_cnt (n_packets st a) = int (count (E + lan_owned no_lctx l) a)) \<and>
    MemoryPoolTls_GetUseSize (n_pool st) = of_nat (card (set_mset (E + lan_owned no_lctx l))) \<and>
    MemoryPoolTls_GetUseSize (lg_pool (n_syslog st)) = of_nat (card (EL \<union> set (l_logQueue l))) \<and>
    distinct (l_logQueue l) \<and> EL \<inter> set (l_logQueue l) = {}"
proof -
  have inv: "lan_inv no_lctx E EL (l, st)" using lan_reach_state[OF assms(1)] assms(2) by (auto simp: lan_state_def lan_fresh_def)
  note R = lan_invD(2)[OF inv, unfolded lan_res_def]
  have d: "distinct (l_logQueue l)" using lan_okD(1)[OF lan_invD(1)[OF inv]] by (simp add: lan_shape_def)
  have m: "mp_inv (n_pool st) (set_mset (E + lan_owned no_lctx l))" and lg: "mp_inv (lg_pool (n_syslog st)) (EL \<union> set (l_logQueue l))"
    using R by (auto simp: pk_ok_def lg_inv_def)
  show ?thesis using mp_use_size_counts[OF m] mp_use_size_counts[OF lg] R d
    by (auto simp: pk_ok_def)
qed

theorem client_packets_conserved_witness:
  "MemoryPoolTls_GetUseSize (n_pool (snd sample_client)) = of_nat (card (set_mset (lan_owned no_lctx (fst sample_client)))) \<and>
   distinct (l_logQueue (fst sample_client))"
proof -
  obtain a where s: "lan_reach {#} {} sample_client" "lan_stuck [a] (fst sample_client)" by (rule sample_client_run)
  then show ?thesis using client_packets_conserved[of "{#}" "{}" "fst sample_client" "snd sample_client"] by (simp add: lan_stuck_def)
qed

text \<open>
  C33. A client that loses its connection while a \<open>SEND_PEND\<close> is posted and packets are queued is never released,
  whatever happens next (a new \<open>Connect\<close> apart): \<open>trySend\<close> posts \<open>SEND_PEND\<close> again without looking at the disconnection, so the
  count never reaches zero, and the queued packets stay where they are. Only a log file that cannot be opened ends this. (This is what
  happens when the monitor server closes the connection before the login packet has been sent, as in the witness.)
\<close>

theorem closed_client_is_never_released:
  assumes "lan_reach E EL x" and "l_isInit (fst x)" and "l_disconnect (fst x)" and "l_sendQ (fst x) \<noteq> []"
    and "Lan_post SEND_PEND \<in> set (l_posts (fst x))"
  shows "((\<forall>t. e_opened (n_env (snd x) t)) \<longrightarrow> lan_run_events evs x \<noteq> None) \<and>
    (\<forall>x'. lan_run_events evs x = Some x' \<longrightarrow> Lan_post SEND_PEND \<in> set (l_posts (fst x')) \<and>
      l_sendQ (fst x') = l_sendQ (fst x) \<and> \<not> l_releaseFlag (fst x') \<and> 0 < l_ioCount (fst x'))"
proof -
  have S: "lan_stuck (l_sendQ (fst x)) (fst x)" using assms by (simp add: lan_stuck_def)
  have "Lan_post SEND_PEND \<in> set (l_posts (fst x')) \<and> l_sendQ (fst x') = l_sendQ (fst x) \<and> \<not> l_releaseFlag (fst x') \<and> 0 < l_ioCount (fst x')"
    if x': "lan_run_events evs x = Some x'" for x'
  proof -
    have S': "lan_stuck (l_sendQ (fst x)) (fst x')" by (rule stuck_run[OF assms(1) S x'])
    have "lan_inv no_lctx E EL (fst x', snd x')" using stuck_reach[OF lan_run_reach[OF x' assms(1)] S'] by simp
    from stuck_core(1,3)[OF this S'] show ?thesis using S' by (auto simp: lan_stuck_def)
  qed
  then show ?thesis using stuck_run_total[OF assms(1) S, of evs] by blast
qed

theorem closed_client_is_never_released_witness:
  "\<exists>x'. lan_run_events (sample_lan_events @ [Lan_take 0, Lan_take 0, Lan_disconnect, Lan_take 0, Lan_take 0])
      (sample_lan, sample_server) = Some x' \<and> \<not> l_releaseFlag (fst x')"
proof -
  obtain a where s: "lan_reach {#} {} sample_client" "lan_stuck [a] (fst sample_client)"
    "lan_run_events sample_lan_events (sample_lan, sample_server) = Some sample_client"
    "\<forall>t. e_opened (n_env (snd sample_client) t)" by (rule sample_client_run)
  have f: "l_isInit (fst sample_client)" "l_disconnect (fst sample_client)" "l_sendQ (fst sample_client) \<noteq> []"
    "Lan_post SEND_PEND \<in> set (l_posts (fst sample_client))"
    using s(2) by (simp_all add: lan_stuck_def)
  let ?evs = "[Lan_take 0, Lan_take 0, Lan_disconnect, Lan_take 0, Lan_take 0]"
  have "\<exists>x'. lan_run_events ?evs sample_client = Some x' \<and> \<not> l_releaseFlag (fst x')"
    using closed_client_is_never_released[OF s(1) f, of ?evs] s(4) by (cases "lan_run_events ?evs sample_client") blast+
  then show ?thesis unfolding lan_run_append s(3) bind.bind_lunit .
qed

text \<open>
  C34. \<open>SendMonitor\<close> on a live connection with room for seven packets queues exactly seven frames, behind what is
  queued already: each is the length 11, the type 20002, the kind of figure, the figure and the time stamp, little endian,
  and the figures are those of the server at that moment.
\<close>

theorem monitor_reports_are_framed:
  assumes "lan_reach E EL (l, st)" and "l_isInit l" and "\<not> l_disconnect l" and "length (l_sendQ l) \<le> 193"
  shows "\<exists>as l' st'. ChatServer_SendMonitor cpu mem tm (l, st) = Some (l', st') \<and> l_sendQ l' = l_sendQ l @ as \<and>
    map (\<lambda>a. lan_wire (n_packets st' a)) as =
      map (\<lambda>(kind, v). [11, 0, 0x22, 0x4E, kind] @ le_bytes 4 (v :: u32) @ le_bytes 4 tm)
        [(30, 1), (31, cpu), (32, mem), (33, CNetServer_GetSessionCount st), (34, c_loginCnt (chat st)),
         (35, c_collectMsgTPS (chat st)), (36, MemoryPoolTls_GetUseSize (n_pool st))] \<and>
    (\<forall>a \<in> set (l_sendQ l). n_packets st' a = n_packets st a) \<and> l_sendFlag l'"
proof -
  have inv: "lan_inv no_lctx E EL (l, st)" using lan_reach_state[OF assms(1)] assms(2) by (auto simp: lan_state_def lan_fresh_def)
  let ?rs = "monitor_report (MemoryPoolTls_GetUseSize (n_pool st)) cpu mem st"
  have "length (l_sendQ l) + length ?rs \<le> MAX_SENDQ" using assms(4) by (simp add: monitor_report_def MAX_SENDQ_def)
  from send_reports_effect[OF inv assms(3) this, of tm] obtain as l' st' where A:
    "ChatServer_SendMonitor cpu mem tm (l, st) = Some (l', st')" "l_sendQ l' = l_sendQ l @ as"
    "map (\<lambda>a. lan_wire (n_packets st' a)) as =
      map (\<lambda>(ty, v). le_bytes 2 (11 :: u16) @ le_bytes 2 (20002 :: u16) @ le_bytes 1 (monitor_data_value ty) @ le_bytes 4 v @ le_bytes 4 tm) ?rs"
    "\<forall>a \<in> set (l_sendQ l). n_packets st' a = n_packets st a" "?rs \<noteq> [] \<longrightarrow> l_sendFlag l'"
    by (auto simp: ChatServer_SendMonitor_def)
  have h: "le_bytes 2 (11 :: u16) = [11, 0]" "le_bytes 2 (20002 :: u16) = [0x22, 0x4E]" by code_simp+
  have k: "le_bytes 1 (b :: u8) = [b]" for b by (simp add: le_bytes_def)
  have "map (\<lambda>a. lan_wire (n_packets st' a)) as =
      map (\<lambda>(kind, v). [11, 0, 0x22, 0x4E, kind] @ le_bytes 4 (v :: u32) @ le_bytes 4 tm)
        [(30, 1), (31, cpu), (32, mem), (33, CNetServer_GetSessionCount st), (34, c_loginCnt (chat st)),
         (35, c_collectMsgTPS (chat st)), (36, MemoryPoolTls_GetUseSize (n_pool st))]"
    unfolding A(3) h k by (simp add: monitor_report_def)
  then show ?thesis using A by (auto simp: monitor_report_def)
qed

theorem monitor_reports_are_framed_witness:
  "\<exists>as l' st'. ChatServer_SendMonitor 3 5 1000 sample_connected = Some (l', st') \<and>
     l_sendQ l' = l_sendQ (fst sample_connected) @ as \<and> length as = 7 \<and>
     lan_wire (n_packets st' (as ! 0)) = [11, 0, 0x22, 0x4E, 30, 1, 0, 0, 0, 0xE8, 3, 0, 0]"
proof -
  have r: "length (l_sendQ (fst sample_connected)) \<le> 193" using sample_connected_run(4) by simp
  have b: "le_bytes 4 (1 :: u32) = [1, 0, 0, 0]" "le_bytes 4 (1000 :: u32) = [0xE8, 3, 0, 0]" by code_simp+
  obtain as l' st' where A: "ChatServer_SendMonitor 3 5 1000 sample_connected = Some (l', st')"
    "l_sendQ l' = l_sendQ (fst sample_connected) @ as"
    "map (\<lambda>a. lan_wire (n_packets st' a)) as =
      map (\<lambda>(kind, v). [11, 0, 0x22, 0x4E, kind] @ le_bytes 4 (v :: u32) @ le_bytes 4 (1000 :: u32))
        [(30, 1), (31, 3), (32, 5), (33, CNetServer_GetSessionCount (snd sample_connected)), (34, c_loginCnt (chat (snd sample_connected))),
         (35, c_collectMsgTPS (chat (snd sample_connected))), (36, MemoryPoolTls_GetUseSize (n_pool (snd sample_connected)))]"
    using monitor_reports_are_framed[of "{#}" "{}" "fst sample_connected" "snd sample_connected" 3 5 1000,
        unfolded prod.collapse, OF sample_connected_run(1,2,3) r]
    by (elim exE conjE) (rule that)
  have "length as = 7" using arg_cong[OF A(3), of length] unfolding length_map by simp
  moreover from this have "lan_wire (n_packets st' (as ! 0)) = map (\<lambda>a. lan_wire (n_packets st' a)) as ! 0" by simp
  ultimately show ?thesis using A b by simp
qed

text \<open>
  C35. When \<open>releaseClient\<close> has seen the workers end, in a \<open>Connect\<close> that failed or in \<open>Disconnect\<close>, a later \<open>Connect\<close> that the
  system grants succeeds: it returns true and the client counts as connected. But it starts no worker, and whatever is called and
  whatever happens from then on, there never is one: the posts of the client (the request to send the login packet among them) stay on the
  port, its receive stays pending and no send is ever started.
\<close>

theorem reconnected_client_has_no_worker:
  assumes "lan_reach E EL (l, st)" and "lan_event_ok l Lan_released"
    and "CLanClient_Connect monitor_callbacks ip port worker active nagle (handles, Some s, True, err) (CLanClient_released l, st) =
      Some (ret, l', st')"
  shows "ret \<and> l_isConnected l' \<and>
    (\<forall>evs x. lan_run lan_event_ok evs (l', st') = Some x \<longrightarrow>
      l_workers (fst x) = 0 \<and> (\<exists>ps. l_posts (fst x) = l_posts l' @ ps) \<and> (l_recv_io l' \<longrightarrow> l_recv_io (fst x)) \<and>
      l_send_io (fst x) = l_send_io l)"
proof -
  have w: "l_waiting l" "l_workers l = 0" using assms(2) by simp_all
  have "lan_inv no_lctx E EL (l, st)" using lan_reach_state[OF assms(1)] w by (auto simp: lan_state_def lan_fresh_def)
  then have i: "l_isInit (CLanClient_released l)" using lan_okD(2)[OF lan_invD(1)] by (simp add: CLanClient_released_def)
  note G = Connect_grows[OF assms(3) i]
  have c: "\<not> l_isConnected (CLanClient_released l)" by (simp add: CLanClient_released_def)
  have g: "l_workers l' = 0" "l_isInit l'" "l_send_io l' = l_send_io l"
    using G(1) w(2) i by (simp_all add: lan_grows_def CLanClient_released_def)
  have r: ret using G(3)[OF c] by simp
  moreover have "l_isConnected l'" by (rule G(2)[OF c r])
  moreover have "l_workers (fst x) = 0 \<and> (\<exists>ps. l_posts (fst x) = l_posts l' @ ps) \<and> (l_recv_io l' \<longrightarrow> l_recv_io (fst x)) \<and>
      l_send_io (fst x) = l_send_io l"
    if "lan_run lan_event_ok evs (l', st') = Some x" for evs x
    using grows_run[OF that] g by (simp add: lan_grows_def)
  ultimately show ?thesis by blast
qed

text \<open>The first \<open>Connect\<close> finds no server, the worker ends, the second is granted.\<close>

theorem reconnected_client_has_no_worker_witness:
  "\<exists>l st l' st'. lan_run_events [Lan_connect ''127.0.0.1'' 5000 1 1 True (True, Some 9, False, 10061), Lan_take 0]
      (sample_lan, sample_server) = Some (l, st) \<and>
    CLanClient_Connect monitor_callbacks ''127.0.0.1'' 5000 1 1 True (True, Some 10, True, 0) (CLanClient_released l, st) = Some (True, l', st') \<and>
      l_isConnected l' \<and> l_workers l' = 0"
proof -
  let ?l = "(lan_take_post 0 (CLanClient_releaseClient ((lan_initial ''127.0.0.1'' 5000 1 1 True sample_lan)
     \<lparr>l_serverSock := 9, l_open := False, l_isConnected := True\<rparr>)))\<lparr>l_workers := 0\<rparr>"
  have r: "lan_run_events [Lan_connect ''127.0.0.1'' 5000 1 1 True (True, Some 9, False, 10061), Lan_take 0]
      (sample_lan, sample_server) = Some (?l, sample_server)"
    by (simp add: lan_regular_def sample_lan_def CLanClient_ctor_def CLanClient_Connect_def CLanClient_connectSession_def monitor_callbacks_def
        MonitorClient_OnError_def CLanClient_releaseClient_def lan_initial_def lan_worker_def CLanClient_runIoThread_body_def
        lan_take_post_def)
  have ok: "lan_event_ok ?l Lan_released" by (simp add: lan_take_post_def CLanClient_releaseClient_def)
  note re = lan_run_reach[OF r sample_lan_new]
  have re2: "lan_reach {#} {} (CLanClient_released ?l, sample_server)"
    by (rule lan_stepped[OF re, of Lan_released]) (use ok in \<open>simp_all add: lan_regular_def\<close>)
  let ?ev = "Lan_connect ''127.0.0.1'' 5000 1 1 True (True, Some 10, True, 0)"
  have ev: "lan_regular (fst (CLanClient_released ?l, sample_server)) ?ev" "\<not> lan_ends ?ev (CLanClient_released ?l, sample_server)"
    using sample_lan_fresh
    by (simp_all add: lan_regular_def CLanClient_released_def lan_take_post_def CLanClient_releaseClient_def lan_initial_def lan_fresh_def)
  obtain ret l' st' where
    c: "CLanClient_Connect monitor_callbacks ''127.0.0.1'' 5000 1 1 True (True, Some 10, True, 0) (CLanClient_released ?l, sample_server) =
      Some (ret, l', st')" by (rule connect_goes_on[OF re2 ev])
  from reconnected_client_has_no_worker[OF re ok c] have "ret" "l_isConnected l'"
    "l_workers l' = 0" by (auto dest: spec[of _ "[]"])
  then have e: "ret = True" "l_isConnected l'" "l_workers l' = 0" by simp_all
  then show ?thesis using r c[unfolded e(1)] e by blast
qed

end
