(* ===== verification/BufAlloc.thy ===== *)
theory BufAlloc
  imports Prelude
begin

unbundle bit_operations_syntax

text \<open>
  \<^verbatim>\<open>BufferAllocator.cpp\<close>: buffers of half a page or a page, cut out of regions that the system reserves, with one cursor per
  size. The system's answers are arguments: the address \<^verbatim>\<open>VirtualAlloc\<close> returns for a new region and the one it returns
  for a commit. The last two fields are the system's: the regions reserved and the pages committed. The two counters of
  type \<^verbatim>\<open>short\<close> never exceed 16 and are integers here.
\<close>

subsection \<open>The code\<close>

definition PAGE_SIZE :: u64 where "PAGE_SIZE = 4096"
definition GRANULARITY :: u64 where "GRANULARITY = 65536"
definition HALF_PAGE :: u64 where "HALF_PAGE = 2048"

record bufalloc =
  ba_addr2048 :: u64
  ba_addr4096 :: u64
  ba_reserveMap :: "u64 \<rightharpoonup> int"
  ba_commitMap :: "u64 \<rightharpoonup> int"
  ba_reserved :: "u64 set"
  ba_committed :: "u64 set"

text \<open>The constructor ends the process on a system with other page sizes; the destructor when something was not returned.\<close>

definition BufferAllocator_ctor :: "u32 \<Rightarrow> u32 \<Rightarrow> bufalloc option" where
  "BufferAllocator_ctor dwPageSize dwAllocationGranularity =
     (if ucast dwPageSize \<noteq> PAGE_SIZE \<or> ucast dwAllocationGranularity \<noteq> GRANULARITY then None
      else Some \<lparr>ba_addr2048 = 0, ba_addr4096 = 0, ba_reserveMap = Map.empty, ba_commitMap = Map.empty,
        ba_reserved = {}, ba_committed = {}\<rparr>)"

definition BufferAllocator_dtor :: "bufalloc \<Rightarrow> unit option" where
  "BufferAllocator_dtor b = (if dom (ba_reserveMap b) \<noteq> {} \<or> dom (ba_commitMap b) \<noteq> {} then None else Some ())"

text \<open>\<open>std::map\<close>: \<open>insert\<close> keeps what is there, \<open>[]\<close> makes an entry.\<close>

definition map_insert :: "'k \<Rightarrow> 'v \<Rightarrow> ('k \<rightharpoonup> 'v) \<Rightarrow> ('k \<rightharpoonup> 'v)" where
  "map_insert k v m = (case m k of None \<Rightarrow> m(k \<mapsto> v) | Some _ \<Rightarrow> m)"

definition map_inc :: "'k \<Rightarrow> int \<Rightarrow> ('k \<rightharpoonup> int) \<Rightarrow> ('k \<rightharpoonup> int)" where
  "map_inc k d m = m(k \<mapsto> (case m k of None \<Rightarrow> 0 | Some v \<Rightarrow> v) + d)"

definition BufferAllocator_allocByAddr :: "u64 \<times> u64 \<Rightarrow> u64 \<Rightarrow> u64 \<Rightarrow> bufalloc \<Rightarrow> u64 \<times> u64 \<times> bufalloc" where
  "BufferAllocator_allocByAddr sys addr sz b =
     (let (addr, b) =
        (if addr = 0 \<or> addr AND (GRANULARITY - 1) = 0
         then (fst sys, b\<lparr>ba_reserved := insert (fst sys) (ba_reserved b), ba_reserveMap := map_insert (fst sys) 0 (ba_reserveMap b)\<rparr>)
         else (addr, b));
        (allocAddr, b) =
        (if addr AND (PAGE_SIZE - 1) = 0
         then (snd sys, b\<lparr>ba_committed := insert addr (ba_committed b),
            ba_reserveMap := map_inc (addr AND NOT (GRANULARITY - 1)) 1 (ba_reserveMap b),
            ba_commitMap := map_insert addr 1 (ba_commitMap b)\<rparr>)
         else (addr, b\<lparr>ba_commitMap := map_inc (addr AND NOT (PAGE_SIZE - 1)) 1 (ba_commitMap b)\<rparr>))
      in (allocAddr, addr + sz, b))"

definition BufferAllocator_Alloc :: "u64 \<times> u64 \<Rightarrow> int \<Rightarrow> bufalloc \<Rightarrow> (u64 \<times> bufalloc) option" where
  "BufferAllocator_Alloc sys sz b =
     (if sz \<le> 0 \<or> sz > uint PAGE_SIZE then None
      else if sz \<le> uint HALF_PAGE then
        let (a, addr, b) = BufferAllocator_allocByAddr sys (ba_addr2048 b) HALF_PAGE b in Some (a, b\<lparr>ba_addr2048 := addr\<rparr>)
      else
        let (a, addr, b) = BufferAllocator_allocByAddr sys (ba_addr4096 b) PAGE_SIZE b in Some (a, b\<lparr>ba_addr4096 := addr\<rparr>))"

definition BufferAllocator_fixDecommittedAddr :: "u64 \<Rightarrow> u64 \<Rightarrow> u64" where
  "BufferAllocator_fixDecommittedAddr decommitted addr = (if addr - decommitted < PAGE_SIZE then decommitted + PAGE_SIZE else addr)"

definition BufferAllocator_fixReleasedAddr :: "u64 \<Rightarrow> u64 \<Rightarrow> u64" where
  "BufferAllocator_fixReleasedAddr released addr = (if addr - released < GRANULARITY then 0 else addr)"

definition BufferAllocator_Free :: "u64 \<Rightarrow> bufalloc \<Rightarrow> bufalloc option" where
  "BufferAllocator_Free addr b =
     (let reserveAddr = addr AND NOT (GRANULARITY - 1); commitAddr = addr AND NOT (PAGE_SIZE - 1)
      in if ba_commitMap b commitAddr = None then None
         else
           let b = b\<lparr>ba_commitMap := map_inc commitAddr (- 1) (ba_commitMap b)\<rparr>
           in if ba_commitMap b commitAddr = Some 0 then
                let b = b\<lparr>ba_committed := ba_committed b - {commitAddr}, ba_commitMap := (ba_commitMap b)(commitAddr := None),
                      ba_addr2048 := BufferAllocator_fixDecommittedAddr commitAddr (ba_addr2048 b),
                      ba_addr4096 := BufferAllocator_fixDecommittedAddr commitAddr (ba_addr4096 b),
                      ba_reserveMap := map_inc reserveAddr (- 1) (ba_reserveMap b)\<rparr>
                in if ba_reserveMap b reserveAddr = Some 0 then
                     Some (b\<lparr>ba_reserved := ba_reserved b - {reserveAddr}, ba_reserveMap := (ba_reserveMap b)(reserveAddr := None),
                       ba_addr2048 := BufferAllocator_fixReleasedAddr reserveAddr (ba_addr2048 b),
                       ba_addr4096 := BufferAllocator_fixReleasedAddr reserveAddr (ba_addr4096 b)\<rparr>)
                   else Some b
              else Some b)"

text \<open>A sequence of calls. \<open>held\<close> are the buffers that are out, with their sizes; only such a buffer is returned, and the
  result of a call that the process does not survive is \<open>None\<close>.\<close>

datatype ba_call = Ba_alloc int u64 | Ba_free u64

fun ba_run :: "ba_call list \<Rightarrow> (u64 \<rightharpoonup> nat) \<times> bufalloc \<Rightarrow> ((u64 \<rightharpoonup> nat) \<times> bufalloc) option" where
  "ba_run [] x = Some x"
| "ba_run (Ba_alloc sz va # cs) (held, b) =
     (let cur = (if sz \<le> 2048 then ba_addr2048 b else ba_addr4096 b);
          cm = (if cur AND (GRANULARITY - 1) = 0 then va else cur)
      in case BufferAllocator_Alloc (va, cm) sz b of
           None \<Rightarrow> None
         | Some (a, b) \<Rightarrow> ba_run cs (held(a \<mapsto> if sz \<le> 2048 then 2048 else 4096), b))"
| "ba_run (Ba_free a # cs) (held, b) =
     (if a \<in> dom held then
        case BufferAllocator_Free a b of None \<Rightarrow> None | Some b \<Rightarrow> ba_run cs (held(a := None), b)
      else ba_run cs (held, b))"

subsection \<open>Pages and regions\<close>

abbreviation pgn :: "u64 \<Rightarrow> nat" where "pgn a \<equiv> unat a div 4096"
abbreviation rgn :: "u64 \<Rightarrow> nat" where "rgn a \<equiv> unat a div 65536"
abbreviation pg :: "u64 \<Rightarrow> u64" where "pg a \<equiv> a AND NOT (PAGE_SIZE - 1)"
abbreviation rg :: "u64 \<Rightarrow> u64" where "rg a \<equiv> a AND NOT (GRANULARITY - 1)"

lemma unat_and_mask: "unat (a AND mask n :: u64) = unat a mod 2 ^ n"
proof -
  have "unat (take_bit n a) = take_bit n (unat a)" by (rule unsigned_take_bit_eq)
  then show ?thesis unfolding take_bit_eq_mask[symmetric] by (simp add: take_bit_nat_def)
qed

lemma unat_and_not_mask: "unat (a AND NOT (mask n) :: u64) = unat a div 2 ^ n * 2 ^ n"
proof -
  have "a AND NOT (mask n) = push_bit n (drop_bit n a)"
    by (rule bit_word_eqI) (auto simp: bit_simps)
  moreover have "unat (push_bit n (drop_bit n a)) = unat a div 2 ^ n * 2 ^ n"
  proof -
    have "unat a < 2 ^ 64" using unsigned_less[of a, where 'a = nat] by simp
    then have "unat a div 2 ^ n * 2 ^ n < 2 ^ 64" using div_times_less_eq_dividend[of "unat a" "2 ^ n"] by linarith
    moreover have "unat (drop_bit n a) = unat a div 2 ^ n" by (rule unat_drop_bit_eq[unfolded drop_bit_nat_def])
    moreover have "unat (push_bit n (drop_bit n a)) = take_bit 64 (push_bit n (unat (drop_bit n a)))"
      using unsigned_push_bit_eq[of n "drop_bit n a", where 'a = nat] by simp
    ultimately show ?thesis by (simp only: push_bit_nat_def take_bit_nat_eq_self)
  qed
  ultimately show ?thesis by simp
qed

lemma masks: "GRANULARITY - 1 = mask 16" "PAGE_SIZE - 1 = mask 12"
  by (simp_all add: GRANULARITY_def PAGE_SIZE_def mask_eq_decr_exp)

lemma sizes [simp]: "unat GRANULARITY = 65536" "unat PAGE_SIZE = 4096" "unat HALF_PAGE = 2048"
  by (simp_all add: GRANULARITY_def PAGE_SIZE_def HALF_PAGE_def)

lemma unat_pg: "unat (pg a) = pgn a * 4096" and unat_rg: "unat (rg a) = rgn a * 65536"
  unfolding masks unat_and_not_mask by simp_all

lemma page_aligned: "a AND (PAGE_SIZE - 1) = 0 \<longleftrightarrow> unat a mod 4096 = 0"
proof -
  have "unat (a AND (PAGE_SIZE - 1)) = unat a mod 4096" unfolding masks unat_and_mask by simp
  then show ?thesis by (metis unsigned_0 unsigned_word_eqI)
qed

lemma region_aligned: "a AND (GRANULARITY - 1) = 0 \<longleftrightarrow> unat a mod 65536 = 0"
proof -
  have "unat (a AND (GRANULARITY - 1)) = unat a mod 65536" unfolding masks unat_and_mask by simp
  then show ?thesis by (metis unsigned_0 unsigned_word_eqI)
qed

lemma pg_eq_iff: "pg a = pg b \<longleftrightarrow> pgn a = pgn b" and rg_eq_iff: "rg a = rg b \<longleftrightarrow> rgn a = rgn b"
proof -
  have "pg a = pg b \<longleftrightarrow> unat (pg a) = unat (pg b)" by (metis unsigned_word_eqI)
  then show "pg a = pg b \<longleftrightarrow> pgn a = pgn b" unfolding unat_pg by simp
  have "rg a = rg b \<longleftrightarrow> unat (rg a) = unat (rg b)" by (metis unsigned_word_eqI)
  then show "rg a = rg b \<longleftrightarrow> rgn a = rgn b" unfolding unat_rg by simp
qed

lemma pgn_pg [simp]: "pgn (pg a) = pgn a" and rgn_pg: "rgn (pg a) = rgn a" and rgn_rg [simp]: "rgn (rg a) = rgn a"
  unfolding unat_pg unat_rg by simp_all


subsection \<open>The maps count\<close>

definition cnt :: "nat \<Rightarrow> int option" where
  "cnt k = (if k = 0 then None else Some (int k))"

definition on_page :: "(u64 \<rightharpoonup> nat) \<Rightarrow> u64 \<Rightarrow> u64 set" where
  "on_page held p = {a \<in> dom held. pg a = p}"

definition in_region :: "(u64 \<rightharpoonup> nat) \<Rightarrow> u64 \<Rightarrow> u64 set" where
  "in_region held r = {p \<in> pg ` dom held. rg p = r}"

definition ba_maps :: "(u64 \<rightharpoonup> nat) \<Rightarrow> bufalloc \<Rightarrow> bool" where
  "ba_maps held b \<longleftrightarrow> finite (dom held) \<and>
     (\<forall>p. ba_commitMap b p = cnt (card (on_page held p))) \<and> (\<forall>r. ba_reserveMap b r = cnt (card (in_region held r))) \<and>
     ba_committed b = pg ` dom held \<and> ba_reserved b = rg ` dom held"

lemma rg_pg [simp]: "rg (pg a) = rg a"
  using rg_eq_iff rgn_pg by blast

lemma cnt_Suc: "map_inc k 1 m k = cnt (Suc j)" if "m k = cnt j"
  using that by (simp add: cnt_def map_inc_def)

lemma on_page_alloc:
  "on_page (held(a \<mapsto> n)) p = (if pg a = p then insert a (on_page held p) else on_page held p)"
  by (auto simp: on_page_def)

lemma in_region_alloc:
  "in_region (held(a \<mapsto> n)) r = (if rg a = r then insert (pg a) (in_region held r) else in_region held r)"
  by (auto simp: in_region_def)

lemma finite_counts: "finite (dom held) \<Longrightarrow> finite (on_page held p) \<and> finite (in_region held r)"
  by (simp add: on_page_def in_region_def)

lemma maps_same_page:
  assumes m: "ba_maps held b" and a: "a \<notin> dom held" and p: "pg a \<in> pg ` dom held"
  shows "ba_maps (held(a \<mapsto> n)) (b\<lparr>ba_commitMap := map_inc (pg a) 1 (ba_commitMap b)\<rparr>)"
proof -
  have f: "finite (on_page held q)" for q using m finite_counts by (auto simp: ba_maps_def)
  have "a \<notin> on_page held (pg a)" using a by (simp add: on_page_def)
  then have "card (on_page (held(a \<mapsto> n)) (pg a)) = Suc (card (on_page held (pg a)))" using f by (simp add: on_page_alloc)
  then have c: "map_inc (pg a) 1 (ba_commitMap b) q = cnt (card (on_page (held(a \<mapsto> n)) q))" for q
    using m cnt_Suc[of "ba_commitMap b" "pg a"] by (cases "q = pg a") (auto simp: ba_maps_def on_page_alloc map_inc_def)
  from p obtain x where x: "x \<in> dom held" "pg a = pg x" by auto
  then have "rg a = rg x" using rg_pg by metis
  then have r: "rg a \<in> rg ` dom held" using x by auto
  have i: "in_region (held(a \<mapsto> n)) q = in_region held q" for q
  proof -
    have "pg a \<in> in_region held (rg a)" using p by (simp add: in_region_def)
    then show ?thesis by (auto simp: in_region_alloc insert_absorb)
  qed
  have "dom (held(a \<mapsto> n)) = insert a (dom held)" by simp
  then show ?thesis using m c i p r unfolding ba_maps_def by (simp add: insert_absorb)
qed

lemma maps_new_page:
  assumes m: "ba_maps held b" and a: "a \<notin> dom held" and p: "pg a \<notin> pg ` dom held"
  shows "ba_maps (held(a \<mapsto> n)) (b\<lparr>ba_committed := insert (pg a) (ba_committed b), ba_reserved := insert (rg a) (ba_reserved b),
    ba_reserveMap := map_inc (rg a) 1 (ba_reserveMap b), ba_commitMap := map_insert (pg a) 1 (ba_commitMap b)\<rparr>)"
proof -
  have f: "finite (in_region held q)" for q using m finite_counts by (auto simp: ba_maps_def)
  have e: "on_page held (pg a) = {}" using p unfolding on_page_def by (metis (mono_tags, lifting) Collect_empty_eq image_eqI)
  then have none: "ba_commitMap b (pg a) = None" using m by (simp add: ba_maps_def cnt_def)
  have c: "map_insert (pg a) 1 (ba_commitMap b) q = cnt (card (on_page (held(a \<mapsto> n)) q))" for q
    using m none e by (cases "q = pg a") (auto simp: ba_maps_def on_page_alloc map_insert_def cnt_def)
  have "pg a \<notin> in_region held (rg a)" using p by (auto simp: in_region_def)
  then have "card (in_region (held(a \<mapsto> n)) (rg a)) = Suc (card (in_region held (rg a)))" using f by (simp add: in_region_alloc)
  then have r: "map_inc (rg a) 1 (ba_reserveMap b) q = cnt (card (in_region (held(a \<mapsto> n)) q))" for q
    using m cnt_Suc[of "ba_reserveMap b" "rg a"] by (cases "q = rg a") (auto simp: ba_maps_def in_region_alloc map_inc_def)
  have "dom (held(a \<mapsto> n)) = insert a (dom held)" by simp
  then show ?thesis using m c r unfolding ba_maps_def by simp
qed


lemma on_page_free: "on_page (held(a := None)) p = on_page held p - {a}"
  by (auto simp: on_page_def)

lemma image_without:
  assumes "x \<in> D" and "x \<noteq> a" and "f x = f a"
  shows "f ` (D - {a}) = f ` D"
proof (intro equalityI subsetI)
  fix y assume "y \<in> f ` D"
  then obtain z where z: "z \<in> D" "y = f z" by auto
  show "y \<in> f ` (D - {a})"
  proof (cases "z = a")
    case True
    then have "y = f x" using z assms(3) by simp
    then show ?thesis using assms(1,2) by (intro image_eqI[of _ _ x]) auto
  qed (use z in auto)
qed auto

lemma maps_free_same:
  assumes m: "ba_maps held b" and a: "a \<in> dom held" and x: "x \<in> dom held" "x \<noteq> a" "pg x = pg a"
  shows "ba_maps (held(a := None)) (b\<lparr>ba_commitMap := map_inc (pg a) (- 1) (ba_commitMap b)\<rparr>)"
    and "map_inc (pg a) (- 1) (ba_commitMap b) (pg a) \<noteq> Some 0"
proof -
  have f: "finite (on_page held q)" for q using m finite_counts by (auto simp: ba_maps_def)
  have ax: "{a, x} \<subseteq> on_page held (pg a)" using a x by (auto simp: on_page_def)
  then have two: "2 \<le> card (on_page held (pg a))" using card_mono[OF f ax] x(2) by simp
  have v: "ba_commitMap b (pg a) = Some (int (card (on_page held (pg a))))" using m ax by (auto simp: ba_maps_def cnt_def)
  have "card (on_page (held(a := None)) (pg a)) = card (on_page held (pg a)) - 1" using f ax by (simp add: on_page_free)
  moreover have "on_page (held(a := None)) q = on_page held q" if "q \<noteq> pg a" for q using that by (auto simp: on_page_def)
  ultimately have c: "map_inc (pg a) (- 1) (ba_commitMap b) q = cnt (card (on_page (held(a := None)) q))" for q
    using m v two by (cases "q = pg a") (auto simp: ba_maps_def map_inc_def cnt_def)
  have same: "pg ` (dom held - {a}) = pg ` dom held" by (rule image_without[OF x])
  have "rg x = rg a" using x(3) rg_pg by metis
  then have same2: "rg ` (dom held - {a}) = rg ` dom held" by (rule image_without[OF x(1,2)])
  show "ba_maps (held(a := None)) (b\<lparr>ba_commitMap := map_inc (pg a) (- 1) (ba_commitMap b)\<rparr>)"
    using m c same same2 by (simp add: ba_maps_def in_region_def)
  show "map_inc (pg a) (- 1) (ba_commitMap b) (pg a) \<noteq> Some 0" using v two by (simp add: map_inc_def)
qed

lemma maps_free_page:
  assumes m: "ba_maps held b" and a: "a \<in> dom held" and last: "\<forall>x \<in> dom held. pg x = pg a \<longrightarrow> x = a"
  defines "held' \<equiv> held(a := None)"
  shows "map_inc (pg a) (- 1) (ba_commitMap b) (pg a) = Some 0"
    and "(map_inc (pg a) (- 1) (ba_commitMap b))(pg a := None) = (\<lambda>q. cnt (card (on_page held' q)))"
    and "pg ` dom held' = ba_committed b - {pg a}"
    and "rg a \<in> rg ` dom held' \<Longrightarrow> map_inc (rg a) (- 1) (ba_reserveMap b) = (\<lambda>r. cnt (card (in_region held' r))) \<and>
      map_inc (rg a) (- 1) (ba_reserveMap b) (rg a) \<noteq> Some 0 \<and> rg ` dom held' = ba_reserved b"
    and "rg a \<notin> rg ` dom held' \<Longrightarrow> (map_inc (rg a) (- 1) (ba_reserveMap b))(rg a := None) = (\<lambda>r. cnt (card (in_region held' r))) \<and>
      map_inc (rg a) (- 1) (ba_reserveMap b) (rg a) = Some 0 \<and> rg ` dom held' = ba_reserved b - {rg a}"
proof -
  have "finite (dom held)" using m by (simp add: ba_maps_def)
  note f = finite_counts[OF this]
  have op: "on_page held (pg a) = {a}" using last a by (auto simp: on_page_def)
  then have v: "ba_commitMap b (pg a) = Some 1" using m by (simp add: ba_maps_def cnt_def)
  then show z: "map_inc (pg a) (- 1) (ba_commitMap b) (pg a) = Some 0" by (simp add: map_inc_def)
  have o: "on_page held' q = on_page held q" if "q \<noteq> pg a" for q using that by (auto simp: on_page_def held'_def)
  have "on_page held' (pg a) = {}" using op by (simp add: held'_def on_page_free)
  with o show "(map_inc (pg a) (- 1) (ba_commitMap b))(pg a := None) = (\<lambda>q. cnt (card (on_page held' q)))"
    using m by (auto simp: ba_maps_def map_inc_def cnt_def)
  have d: "dom held' = dom held - {a}" by (auto simp: held'_def)
  have P: "pg ` dom held' = pg ` dom held - {pg a}" using last unfolding d by auto
  then show "pg ` dom held' = ba_committed b - {pg a}" using m by (simp add: ba_maps_def)
  have ir: "in_region held' r = in_region held r - {pg a}" for r using P by (auto simp: in_region_def)
  have pa: "pg a \<in> in_region held (rg a)" using a by (auto simp: in_region_def)
  then have k: "card (in_region held (rg a)) = Suc (card (in_region held' (rg a)))" using f ir by (metis card_Suc_Diff1)
  then have w: "ba_reserveMap b (rg a) = Some (int (Suc (card (in_region held' (rg a)))))"
    using m k pa by (auto simp: ba_maps_def cnt_def)
  have other: "in_region held' r = in_region held r" if "r \<noteq> rg a" for r using that unfolding ir by (auto simp: in_region_def)
  have mem: "rg a \<in> rg ` dom held' \<longleftrightarrow> in_region held' (rg a) \<noteq> {}"
  proof
    assume "rg a \<in> rg ` dom held'"
    then obtain x where "x \<in> dom held'" "rg a = rg x" by auto
    then have "pg x \<in> in_region held' (rg a)" by (auto simp: in_region_def)
    then show "in_region held' (rg a) \<noteq> {}" by auto
  next
    assume "in_region held' (rg a) \<noteq> {}"
    then obtain x where "x \<in> dom held'" "rg (pg x) = rg a" by (auto simp: in_region_def)
    then have "rg x = rg a" by simp
    then show "rg a \<in> rg ` dom held'" using \<open>x \<in> dom held'\<close> by (metis imageI)
  qed
  have f': "finite (in_region held' r)" for r using f ir by auto
  have R: "rg ` dom held = insert (rg a) (rg ` dom held')" using a d by auto
  show "map_inc (rg a) (- 1) (ba_reserveMap b) = (\<lambda>r. cnt (card (in_region held' r))) \<and>
      map_inc (rg a) (- 1) (ba_reserveMap b) (rg a) \<noteq> Some 0 \<and> rg ` dom held' = ba_reserved b" if "rg a \<in> rg ` dom held'"
  proof -
    have n0: "card (in_region held' (rg a)) \<noteq> 0" using that mem f' by simp
    have "map_inc (rg a) (- 1) (ba_reserveMap b) r = cnt (card (in_region held' r))" for r
      using m w n0 other by (cases "r = rg a") (auto simp: map_inc_def ba_maps_def cnt_def)
    moreover have "rg ` dom held' = ba_reserved b" using R that m by (simp add: ba_maps_def insert_absorb)
    moreover have "map_inc (rg a) (- 1) (ba_reserveMap b) (rg a) \<noteq> Some 0" using w n0 by (simp add: map_inc_def)
    ultimately show ?thesis by blast
  qed
  show "(map_inc (rg a) (- 1) (ba_reserveMap b))(rg a := None) = (\<lambda>r. cnt (card (in_region held' r))) \<and>
      map_inc (rg a) (- 1) (ba_reserveMap b) (rg a) = Some 0 \<and> rg ` dom held' = ba_reserved b - {rg a}" if "rg a \<notin> rg ` dom held'"
  proof -
    have n0: "in_region held' (rg a) = {}" using that mem by blast
    have "((map_inc (rg a) (- 1) (ba_reserveMap b))(rg a := None)) r = cnt (card (in_region held' r))" for r
      using m n0 other by (cases "r = rg a") (auto simp: map_inc_def ba_maps_def cnt_def)
    moreover have "rg ` dom held' = ba_reserved b - {rg a}" using R that m by (auto simp: ba_maps_def)
    moreover have "map_inc (rg a) (- 1) (ba_reserveMap b) (rg a) = Some 0" using w n0 by (simp add: map_inc_def)
    ultimately show ?thesis by blast
  qed
qed


subsection \<open>Where the buffers lie\<close>

definition buf_ok :: "(u64 \<rightharpoonup> nat) \<Rightarrow> bool" where
  "buf_ok held \<longleftrightarrow>
     (\<forall>a n. held a = Some n \<longrightarrow> (n = 2048 \<or> n = 4096) \<and> n dvd unat a \<and> 1 \<le> rgn a \<and> rgn a < 2 ^ 47) \<and>
     (\<forall>a \<in> dom held. \<forall>a' \<in> dom held. rgn a = rgn a' \<longrightarrow> held a = held a')"

text \<open>A cursor at the start of a region is null or stands behind a region that is full; the next call asks for a new region.
  Any other stands behind the last buffer of its region.\<close>

definition ba_cursor :: "nat \<Rightarrow> u64 \<Rightarrow> (u64 \<rightharpoonup> nat) \<Rightarrow> bool" where
  "ba_cursor n c held \<longleftrightarrow>
     (if 65536 dvd unat c then True
      else n dvd unat c \<and> (\<exists>a \<in> dom held. rgn a = rgn c) \<and>
        (\<forall>a \<in> dom held. rgn a = rgn c \<longrightarrow> held a = Some n \<and> unat a + n \<le> unat c) \<and>
        (4096 dvd unat c \<or> (\<exists>a \<in> dom held. pgn a = pgn c)))"

lemma next_cursor:
  assumes "n = 2048 \<or> n = (4096 :: nat)" and "n dvd x"
  shows "\<not> 65536 dvd x \<Longrightarrow> (\<not> 65536 dvd (x + n) \<and> (x + n) div 65536 = x div 65536) \<or>
      (65536 dvd (x + n) \<and> (x + n) div 65536 = Suc (x div 65536))"
    and "65536 dvd x \<Longrightarrow> \<not> 65536 dvd (x + n) \<and> (x + n) div 65536 = x div 65536"
    and "4096 dvd (x + n) \<or> (x + n) div 4096 = x div 4096"
proof -
  obtain m :: nat where m: "65536 = n * m" "m = 32 \<or> m = 16" and n0: "n \<noteq> 0" using assms(1) by (elim disjE) auto
  obtain k where k: "x = n * k" using assms(2) by auto
  have e: "x + n = n * (k + 1)" by (simp add: k)
  have d: "65536 dvd n * j \<longleftrightarrow> m dvd j" "n * j div 65536 = j div m" for j
    unfolding m(1) using n0 by (simp_all add: div_mult_mult1)
  have "(\<not> m dvd (k + 1) \<and> (k + 1) div m = k div m) \<or> (m dvd (k + 1) \<and> (k + 1) div m = Suc (k div m))"
    by (simp add: div_Suc dvd_eq_mod_eq_0)
  then show "\<not> 65536 dvd x \<Longrightarrow> (\<not> 65536 dvd (x + n) \<and> (x + n) div 65536 = x div 65536) \<or>
      (65536 dvd (x + n) \<and> (x + n) div 65536 = Suc (x div 65536))"
    unfolding e unfolding k d by blast
  have "\<not> m dvd (k + 1) \<and> (k + 1) div m = k div m" if "m dvd k"
  proof -
    have "\<not> m dvd 1" using m(2) by auto
    then have n: "\<not> m dvd (k + 1)" using that by (metis dvd_add_right_iff)
    then show ?thesis by (simp add: div_Suc dvd_eq_mod_eq_0)
  qed
  then show "65536 dvd x \<Longrightarrow> \<not> 65536 dvd (x + n) \<and> (x + n) div 65536 = x div 65536"
    unfolding e unfolding k d .
  obtain h :: nat where h: "4096 = n * h" "h = 2 \<or> h = 1" using assms(1) by (elim disjE) auto
  have d': "4096 dvd n * j \<longleftrightarrow> h dvd j" "n * j div 4096 = j div h" for j
    unfolding h(1) using n0 by (simp_all add: div_mult_mult1)
  have "h dvd (k + 1) \<or> (k + 1) div h = k div h" using h(2) by (elim disjE; hypsubst) presburger+
  then show "4096 dvd (x + n) \<or> (x + n) div 4096 = x div 4096"
    unfolding e unfolding k d' .
qed

lemma buf_ok_insert:
  assumes B: "buf_ok held" and n: "n = 2048 \<or> n = 4096" "n dvd unat c" "1 \<le> rgn c" "rgn c < 2 ^ 47"
    and same: "\<forall>a \<in> dom held. rgn a = rgn c \<longrightarrow> held a = Some n"
  shows "buf_ok (held(c \<mapsto> n))"
  unfolding buf_ok_def
proof (intro conjI allI ballI impI)
  fix a k assume "(held(c \<mapsto> n)) a = Some k"
  moreover have "held a = Some k \<Longrightarrow> (k = 2048 \<or> k = 4096) \<and> k dvd unat a \<and> 1 \<le> rgn a \<and> rgn a < 2 ^ 47"
    using B unfolding buf_ok_def by blast
  ultimately show "k = 2048 \<or> k = 4096" "k dvd unat a" "1 \<le> rgn a" "rgn a < 2 ^ 47"
    using n by (auto simp del: One_nat_def split: if_splits)
next
  fix a a' assume d: "a \<in> dom (held(c \<mapsto> n))" "a' \<in> dom (held(c \<mapsto> n))"
  have B2: "x \<in> dom held \<Longrightarrow> y \<in> dom held \<Longrightarrow> rgn x = rgn y \<Longrightarrow> held x = held y"
    for x y using B unfolding buf_ok_def by blast
  show "(held(c \<mapsto> n)) a = (held(c \<mapsto> n)) a'" if "rgn a = rgn a'"
    using d same that B2[of a a'] by (cases "a = c"; cases "a' = c"; simp)
qed

lemma unat_step:
  assumes "rgn c < 2 ^ 47" and "n = 2048 \<or> n = (4096 :: nat)"
  shows "unat (c + of_nat n) = unat c + n"
proof -
  have "unat c < 2 ^ 63" using assms(1) by simp
  then show ?thesis using assms(2) by (subst unat_add_small) auto
qed

lemma place_new:
  assumes B: "buf_ok held" and va: "65536 dvd unat va" "1 \<le> rgn va" "rgn va < 2 ^ 47" and n: "n = 2048 \<or> n = 4096"
    and gap: "\<forall>a \<in> dom held. rgn a \<noteq> rgn va"
  shows "va \<notin> dom held" and "buf_ok (held(va \<mapsto> n))" and "ba_cursor n (va + of_nat n) (held(va \<mapsto> n))"
    and "ba_cursor m d held \<Longrightarrow> ba_cursor m d (held(va \<mapsto> n))"
proof -
  show fresh: "va \<notin> dom held" using gap by blast
  have dvd: "n dvd unat va" using va(1) n by (auto elim: dvd_trans[rotated])
  show "buf_ok (held(va \<mapsto> n))" by (rule buf_ok_insert[OF B n dvd va(2,3)]) (use gap in auto)
  note u = unat_step[OF va(3) n] and N = next_cursor(2,3)[OF n dvd]
  show "ba_cursor n (va + of_nat n) (held(va \<mapsto> n))"
    using N va(1) gap fresh dvd by (auto simp: ba_cursor_def u)
  show "ba_cursor m d (held(va \<mapsto> n))" if c: "ba_cursor m d held"
  proof (cases "65536 dvd unat d")
    case False
    then have "rgn d \<noteq> rgn va" using c gap by (auto simp: ba_cursor_def)
    then show ?thesis using c False by (auto simp: ba_cursor_def)
  qed (simp add: ba_cursor_def)
qed

lemma place_next:
  assumes B: "buf_ok held" and c: "ba_cursor n c held" "\<not> 65536 dvd unat c" and n: "n = 2048 \<or> n = 4096"
  shows "c \<notin> dom held" and "buf_ok (held(c \<mapsto> n))" and "ba_cursor n (c + of_nat n) (held(c \<mapsto> n))"
    and "ba_cursor m d held \<Longrightarrow> m \<noteq> n \<Longrightarrow> ba_cursor m d (held(c \<mapsto> n))"
    and "4096 dvd unat c \<Longrightarrow> \<forall>a \<in> dom held. pgn a \<noteq> pgn c"
    and "\<not> 4096 dvd unat c \<Longrightarrow> \<exists>a \<in> dom held. pgn a = pgn c"
    and "\<exists>a \<in> dom held. rgn a = rgn c" and "rgn c < 2 ^ 47"
proof -
  have C: "n dvd unat c" "\<exists>a \<in> dom held. rgn a = rgn c"
    "\<forall>a \<in> dom held. rgn a = rgn c \<longrightarrow> held a = Some n \<and> unat a + n \<le> unat c"
    "4096 dvd unat c \<or> (\<exists>a \<in> dom held. pgn a = pgn c)"
    using c by (auto simp: ba_cursor_def)
  then show "\<exists>a \<in> dom held. rgn a = rgn c" "\<not> 4096 dvd unat c \<Longrightarrow> \<exists>a \<in> dom held. pgn a = pgn c" by auto
  obtain w where w: "w \<in> dom held" "rgn w = rgn c" "held w = Some n" using C by blast
  have r: "1 \<le> rgn c" "rgn c < 2 ^ 47" using B w unfolding buf_ok_def by metis+
  then show "rgn c < 2 ^ 47" by simp
  show fresh: "c \<notin> dom held" using C(3) n by force
  show "\<forall>a \<in> dom held. pgn a \<noteq> pgn c" if "4096 dvd unat c"
  proof
    fix a assume a: "a \<in> dom held"
    show "pgn a \<noteq> pgn c"
    proof
      assume p: "pgn a = pgn c"
      then have "unat a div 4096 div 16 = unat c div 4096 div 16" by simp
      then have "rgn a = rgn c" by (simp flip: div_mult2_eq)
      then have "unat a < unat c" using C(3) a n by force
      moreover have "unat c \<le> unat a" using p that by (metis div_times_less_eq_dividend dvd_div_mult_self)
      ultimately show False by simp
    qed
  qed
  have same: "\<forall>a \<in> dom held. rgn a = rgn c \<longrightarrow> held a = Some n" using C(3) by blast
  show "buf_ok (held(c \<mapsto> n))" by (rule buf_ok_insert[OF B n C(1) r same])
  note u = unat_step[OF r(2) n] and N = next_cursor(1,3)[OF n C(1)]
  from N(1)[OF c(2)] show "ba_cursor n (c + of_nat n) (held(c \<mapsto> n))"
  proof
    assume a: "\<not> 65536 dvd (unat c + n) \<and> (unat c + n) div 65536 = rgn c"
    have "n dvd unat c + n" using C(1) by simp
    moreover have "4096 dvd unat c + n \<or> (\<exists>x \<in> dom (held(c \<mapsto> n)). pgn x = (unat c + n) div 4096)" using N(2) by auto
    moreover have "(held(c \<mapsto> n)) x = Some n \<and> unat x + n \<le> unat c + n" if "x \<in> dom (held(c \<mapsto> n))" "rgn x = rgn c" for x
      using C(3) that by (cases "x = c") (simp, fastforce)
    ultimately show ?thesis using a unfolding ba_cursor_def u by simp
  next
    assume a: "65536 dvd (unat c + n) \<and> (unat c + n) div 65536 = Suc (rgn c)"
    then show ?thesis by (simp add: ba_cursor_def u)
  qed
  show "ba_cursor m d (held(c \<mapsto> n))" if "ba_cursor m d held" "m \<noteq> n"
  proof (cases "rgn d = rgn c")
    case True
    then have "\<not> 65536 dvd unat d \<Longrightarrow> held w = Some m" using that(1) w by (auto simp: ba_cursor_def)
    then show ?thesis using w that(2) by (cases "65536 dvd unat d") (auto simp: ba_cursor_def)
  next
    case False
    then show ?thesis using that(1) by (auto simp: ba_cursor_def)
  qed
qed


subsection \<open>Returning a buffer\<close>

lemma buf_ok_free: "buf_ok held \<Longrightarrow> buf_ok (held(a := None))"
  unfolding buf_ok_def by (auto split: if_splits)

lemma less_sub:
  assumes "unat p + k \<le> 2 ^ 64 - k" and that: "k < 2 ^ 64"
  shows "(c :: u64) - p < of_nat k \<longleftrightarrow> unat p \<le> unat c \<and> unat c < unat p + k"
proof -
  have k: "unat (of_nat k :: u64) = k" using that by (simp add: unat_of_nat take_bit_nat_eq_self)
  show ?thesis
  proof (cases "unat p \<le> unat c")
    case True
    then have "unat (c - p) = unat c - unat p" by (simp add: unat_sub word_le_nat_alt)
    then show ?thesis using True k by (auto simp: word_less_nat_alt)
  next
    case False
    then have "unat (c - p) = unat c + 2 ^ 64 - unat p" using unat_sub_if' [of c p] by simp
    then show ?thesis using False assms k by (auto simp: word_less_nat_alt)
  qed
qed

lemma fixDecommitted:
  assumes "rgn a < 2 ^ 47"
  shows "BufferAllocator_fixDecommittedAddr (pg a) c = (if pgn c = pgn a then pg a + PAGE_SIZE else c)"
    and "unat (pg a + PAGE_SIZE) = (pgn a + 1) * 4096"
proof -
  have a: "unat a < 2 ^ 63" using assms by simp
  then have p: "pgn a * 4096 < 2 ^ 63" using div_times_less_eq_dividend[of "unat a" 4096] by linarith
  have "c - pg a < PAGE_SIZE \<longleftrightarrow> pgn a * 4096 \<le> unat c \<and> unat c < pgn a * 4096 + 4096"
    using less_sub[of "pg a" 4096 c] p unfolding unat_pg by (simp add: PAGE_SIZE_def)
  also have "\<dots> \<longleftrightarrow> pgn c = pgn a"
    by (metis add.commute div_nat_eqI div_times_less_eq_dividend dividend_less_div_times mult.commute mult_Suc_right zero_less_numeral)
  finally show "BufferAllocator_fixDecommittedAddr (pg a) c = (if pgn c = pgn a then pg a + PAGE_SIZE else c)"
    by (simp add: BufferAllocator_fixDecommittedAddr_def)
  have "unat (pg a + PAGE_SIZE) = unat (pg a) + unat PAGE_SIZE"
    by (rule unat_add_small) (use p in \<open>simp add: unat_pg\<close>)
  then show "unat (pg a + PAGE_SIZE) = (pgn a + 1) * 4096" by (simp add: unat_pg)
qed

lemma fixReleased:
  assumes "rgn a < 2 ^ 47"
  shows "BufferAllocator_fixReleasedAddr (rg a) c = (if rgn c = rgn a then 0 else c)"
proof -
  have a: "unat a < 2 ^ 63" using assms by simp
  then have p: "rgn a * 65536 < 2 ^ 63" using div_times_less_eq_dividend[of "unat a" 65536] by linarith
  have "c - rg a < GRANULARITY \<longleftrightarrow> rgn a * 65536 \<le> unat c \<and> unat c < rgn a * 65536 + 65536"
    using less_sub[of "rg a" 65536 c] p unfolding unat_rg by (simp add: GRANULARITY_def)
  also have "\<dots> \<longleftrightarrow> rgn c = rgn a"
    by (metis add.commute div_nat_eqI div_times_less_eq_dividend dividend_less_div_times mult.commute mult_Suc_right zero_less_numeral)
  finally show ?thesis by (simp add: BufferAllocator_fixReleasedAddr_def)
qed


lemma cursor_free_same:
  assumes c: "ba_cursor n c held" and x: "x \<in> dom held" "x \<noteq> a" "pgn x = pgn a"
  shows "ba_cursor n c (held(a := None))"
proof (cases "65536 dvd unat c")
  case True
  then show ?thesis using c by (auto simp: ba_cursor_def)
next
  case False
  have "unat x div 4096 div 16 = unat a div 4096 div 16" using x(3) by simp
  then have r: "rgn x = rgn a" by (simp flip: div_mult2_eq)
  have w: "\<exists>y \<in> dom (held(a := None)). f y = f w" if "w \<in> dom held" "f x = f a" for f :: "u64 \<Rightarrow> nat" and w
    using that x by (cases "w = a") (auto intro: bexI[of _ x] bexI[of _ w])
  obtain v where "v \<in> dom held" "rgn v = rgn c" using c False by (auto simp: ba_cursor_def)
  then have "\<exists>y \<in> dom (held(a := None)). rgn y = rgn c" using w[of v rgn] r by simp
  moreover have "4096 dvd unat c \<or> (\<exists>y \<in> dom (held(a := None)). pgn y = pgn c)"
  proof (cases "4096 dvd unat c")
    case nd: False
    then obtain v where "v \<in> dom held" "pgn v = pgn c" using c False by (auto simp: ba_cursor_def)
    then show ?thesis using w[of v pgn] x(3) by simp
  qed simp
  ultimately show ?thesis using c False by (auto simp: ba_cursor_def)
qed

lemma cursor_free_page:
  assumes B: "buf_ok held" and c: "ba_cursor n c held" and n: "n = 2048 \<or> n = 4096" and a: "a \<in> dom held"
    and free: "c = pg a \<Longrightarrow> 65536 dvd unat c \<Longrightarrow> \<not> (\<exists>w \<in> dom (held(a := None)). rgn w = rgn a)"
  defines "held' \<equiv> held(a := None)" and "c1 \<equiv> BufferAllocator_fixDecommittedAddr (pg a) c"
  shows "\<exists>w \<in> dom held'. rgn w = rgn a \<Longrightarrow> ba_cursor n c1 held'"
    and "\<not> (\<exists>w \<in> dom held'. rgn w = rgn a) \<Longrightarrow> ba_cursor n (BufferAllocator_fixReleasedAddr (rg a) c1) held'"
proof -
  have d: "dom held' = dom held - {a}" by (auto simp: held'_def)
  have same: "held' x = held x" if "x \<in> dom held'" for x using that by (auto simp: held'_def)
  obtain k where "held a = Some k" using a by auto
  then have ra: "1 \<le> rgn a" "rgn a < 2 ^ 47" using B unfolding buf_ok_def by blast+
  note F = fixDecommitted(1)[OF ra(2), of c] fixDecommitted(2)[OF ra(2)] and R = fixReleased[OF ra(2)]
  have zero: "ba_cursor n 0 held'" by (simp add: ba_cursor_def)
  have big_iff: "65536 dvd m * 4096 \<longleftrightarrow> 16 dvd m" for m :: nat using dvd_times_right_cancel_iff[of "4096 :: nat" 16 m] by simp
  note big = iffD2[OF big_iff]
  have split: "rgn x = pgn x div 16" for x by (simp flip: div_mult2_eq)
  show goal1: "ba_cursor n c1 held'" if w: "\<exists>w \<in> dom held'. rgn w = rgn a"
  proof (cases "pgn c = pgn a")
    case False
    then have c1: "c1 = c" by (simp add: c1_def F(1))
    show ?thesis
    proof (cases "65536 dvd unat c")
      case True
      then show ?thesis using c d by (auto simp: ba_cursor_def c1)
    next
      case nd: False
      have "\<exists>y \<in> dom held'. rgn y = rgn c"
        using c nd w d by (cases "rgn c = rgn a") (auto simp: ba_cursor_def)
      moreover have "4096 dvd unat c \<or> (\<exists>y \<in> dom held'. pgn y = pgn c)"
        using c nd False d by (auto simp: ba_cursor_def)
      ultimately show ?thesis using c nd d same by (auto simp: ba_cursor_def c1)
    qed
  next
    case True
    then have c1: "c1 = pg a + PAGE_SIZE" by (simp add: c1_def F(1))
    have u: "unat c1 = (pgn a + 1) * 4096" unfolding c1 by (rule F(2))
    have rc: "rgn c = rgn a" using True split[of c] split[of a] by simp
    have nd: "\<not> 65536 dvd unat c"
    proof
      assume al: "65536 dvd unat c"
      then have "4096 dvd unat c" by (rule dvd_trans[rotated]) simp
      then have "unat c = unat (pg a)" unfolding unat_pg using True by (metis dvd_div_mult_self)
      then have "c = pg a" by (simp add: word_unat_eq_iff)
      then show False using free al w held'_def by blast
    qed
    have r1: "rgn c1 = (pgn a + 1) div 16" unfolding u by (simp flip: div_mult2_eq add: div_mult_mult1)
    have C3: "\<forall>x \<in> dom held. rgn x = rgn c \<longrightarrow> held x = Some n \<and> unat x + n \<le> unat c" using c nd by (simp add: ba_cursor_def)
    have le: "unat c \<le> unat c1" unfolding u using True dividend_less_div_times[of 4096 "unat c"] by simp
    show ?thesis
    proof (cases "16 dvd (pgn a + 1)")
      case True
      then have "rgn c1 = Suc (rgn a)" unfolding r1 split[of a] by (simp add: div_Suc dvd_eq_mod_eq_0)
      moreover have "65536 dvd unat c1" unfolding u by (rule big[OF True])
      ultimately show ?thesis by (simp add: ba_cursor_def)
    next
      case False
      then have "rgn c1 = rgn a" unfolding r1 split[of a] by (simp add: div_Suc dvd_eq_mod_eq_0)
      moreover have "n dvd unat c1" "4096 dvd unat c1" unfolding u using n by auto
      moreover have "held' x = Some n \<and> unat x + n \<le> unat c1" if "x \<in> dom held'" "rgn x = rgn a" for x
        using bspec[OF C3, of x] that rc same le unfolding d by simp
      moreover have "\<not> 65536 dvd unat c1" unfolding u big_iff by (rule False)
      ultimately show ?thesis using w unfolding ba_cursor_def by simp
    qed
  qed
  show "ba_cursor n (BufferAllocator_fixReleasedAddr (rg a) c1) held'" if w: "\<not> (\<exists>w \<in> dom held'. rgn w = rgn a)"
  proof (cases "rgn c1 = rgn a")
    case True
    then show ?thesis using zero by (simp add: R)
  next
    case nr: False
    then have e: "BufferAllocator_fixReleasedAddr (rg a) c1 = c1" by (simp add: R)
    show ?thesis
    proof (cases "pgn c = pgn a")
      case True
      then have c1: "c1 = pg a + PAGE_SIZE" by (simp add: c1_def F(1))
      have u: "unat c1 = (pgn a + 1) * 4096" unfolding c1 by (rule F(2))
      have r1: "rgn c1 = (pgn a + 1) div 16" unfolding u by (simp flip: div_mult2_eq add: div_mult_mult1)
      have s: "16 dvd (pgn a + 1)" "rgn c1 = Suc (rgn a)"
        using nr unfolding r1 split[of a] by (auto simp: div_Suc dvd_eq_mod_eq_0 split: if_splits)
      then have "65536 dvd unat c1" unfolding u by (intro big)
      then show ?thesis unfolding e by (simp add: ba_cursor_def)
    next
      case False
      then have c1: "c1 = c" by (simp add: c1_def F(1))
      have "rgn c \<noteq> rgn a" using nr unfolding c1 .
      have e': "BufferAllocator_fixReleasedAddr (rg a) c1 = c" by (rule trans[OF e c1])
      show ?thesis unfolding e'
      proof (cases "65536 dvd unat c")
        case True
        then show "ba_cursor n c held'" using c d by (auto simp: ba_cursor_def)
      next
        case nd: False
        have "\<exists>y \<in> dom held'. rgn y = rgn c" using c nd d \<open>rgn c \<noteq> rgn a\<close> by (fastforce simp: ba_cursor_def)
        moreover have "4096 dvd unat c \<or> (\<exists>y \<in> dom held'. pgn y = pgn c)"
          using c nd False d by (fastforce simp: ba_cursor_def)
        ultimately show "ba_cursor n c held'" using c nd d same by (auto simp: ba_cursor_def)
      qed
    qed
  qed
qed


subsection \<open>Every state\<close>

text \<open>The answer of \<^verbatim>\<open>VirtualAlloc\<close> to a reservation that succeeds: an aligned address of user space, not in the region at 0, which is
  not that of a region reserved already. It may be next to one, and it may be where a cursor stands.\<close>

definition va_answer :: "u64 \<Rightarrow> bufalloc \<Rightarrow> bool" where
  "va_answer va b \<longleftrightarrow> 65536 dvd unat va \<and> 1 \<le> rgn va \<and> rgn va < 2 ^ 47 \<and> va \<notin> ba_reserved b"

text \<open>The call of \<open>Free\<close> that goes wrong: the buffer is the last one on the first page of a region in which others remain, and a cursor that
  stands behind the full region before it, so at this very page, is taken for one inside it.\<close>

definition ba_misleads :: "u64 \<Rightarrow> (u64 \<rightharpoonup> nat) \<times> bufalloc \<Rightarrow> bool" where
  "ba_misleads a = (\<lambda>(held, b). pg a = rg a \<and> (\<forall>x \<in> dom held. pg x = pg a \<longrightarrow> x = a) \<and> (\<exists>x \<in> dom held. x \<noteq> a \<and> rg x = rg a) \<and>
     (ba_addr2048 b = pg a \<or> ba_addr4096 b = pg a))"

fun ba_call_ok :: "ba_call \<Rightarrow> (u64 \<rightharpoonup> nat) \<times> bufalloc \<Rightarrow> bool" where
  "ba_call_ok (Ba_alloc sz va) (held, b) \<longleftrightarrow> 0 < sz \<and> sz \<le> 4096 \<and> va_answer va b"
| "ba_call_ok (Ba_free a) (held, b) \<longleftrightarrow> a \<in> dom held \<and> \<not> ba_misleads a (held, b)"

inductive ba_reach :: "(u64 \<rightharpoonup> nat) \<times> bufalloc \<Rightarrow> bool" where
  ba_new: "BufferAllocator_ctor 4096 65536 = Some b \<Longrightarrow> ba_reach (Map.empty, b)"
| ba_step: "ba_reach x \<Longrightarrow> ba_call_ok c x \<Longrightarrow> ba_run [c] x = Some x' \<Longrightarrow> ba_reach x'"

definition ba_inv :: "(u64 \<rightharpoonup> nat) \<times> bufalloc \<Rightarrow> bool" where
  "ba_inv = (\<lambda>(held, b). buf_ok held \<and> ba_maps held b \<and> ba_cursor 2048 (ba_addr2048 b) held \<and> ba_cursor 4096 (ba_addr4096 b) held)"

lemma answer_region:
  assumes g: "va_answer va b" and m: "ba_maps held b" and a: "a \<in> dom held"
  shows "rgn a \<noteq> rgn va"
proof
  assume e: "rgn a = rgn va"
  have "unat va = rgn va * 65536" using g by (auto simp: va_answer_def)
  then have "va = rg a" using e unat_rg[of a] by (simp add: word_unat_eq_iff)
  moreover have "rg a \<in> ba_reserved b" using a m by (simp add: ba_maps_def)
  ultimately show False using g by (simp add: va_answer_def)
qed

lemma pg_self: "4096 dvd unat a \<Longrightarrow> pg a = a" and rg_self: "65536 dvd unat a \<Longrightarrow> rg a = a"
  using unat_pg[of a] unat_rg[of a] by (simp_all add: word_unat_eq_iff)

lemma ba_maps_cong:
  "ba_maps held b \<Longrightarrow> ba_commitMap b' = ba_commitMap b \<Longrightarrow> ba_reserveMap b' = ba_reserveMap b \<Longrightarrow>
     ba_committed b' = ba_committed b \<Longrightarrow> ba_reserved b' = ba_reserved b \<Longrightarrow> ba_maps held b'"
  by (simp add: ba_maps_def)

lemma allocByAddr_ok:
  assumes B: "buf_ok held" and m: "ba_maps held b" and g: "va_answer va b" and n: "n = 2048 \<or> n = 4096"
    and c: "ba_cursor n c held" and d: "ba_cursor k d held" "k \<noteq> n"
  defines "cm \<equiv> (if c AND (GRANULARITY - 1) = 0 then va else c)"
  obtains b' where "BufferAllocator_allocByAddr (va, cm) c (of_nat n) b = (cm, cm + of_nat n, b')" "cm \<notin> dom held"
    "buf_ok (held(cm \<mapsto> n))" "ba_maps (held(cm \<mapsto> n)) b'" "ba_cursor n (cm + of_nat n) (held(cm \<mapsto> n))" "ba_cursor k d (held(cm \<mapsto> n))"
    "ba_addr2048 b' = ba_addr2048 b" "ba_addr4096 b' = ba_addr4096 b"
proof (cases "65536 dvd unat c")
  case True
  then have al: "c AND (GRANULARITY - 1) = 0" unfolding region_aligned by simp
  then have cm: "cm = va" by (simp add: cm_def)
  have v: "65536 dvd unat va" "1 \<le> rgn va" "rgn va < 2 ^ 47" using g by (auto simp: va_answer_def)
  have gap: "\<forall>a \<in> dom held. rgn a \<noteq> rgn va" using answer_region[OF g m] by blast
  note P = place_new[OF B v n gap]
  have v4: "4096 dvd unat va" using v(1) by (rule dvd_trans[rotated]) simp
  have self: "pg va = va" "rg va = va" using pg_self[OF v4] rg_self[OF v(1)] .
  have pgva: "va AND (PAGE_SIZE - 1) = 0" unfolding page_aligned using v4 by simp
  have new: "pg va \<notin> pg ` dom held"
  proof
    assume "pg va \<in> pg ` dom held"
    then obtain x where "x \<in> dom held" "pg va = pg x" by auto
    then have "rg va = rg x" by (metis rg_pg)
    then show False using gap \<open>x \<in> dom held\<close> rg_eq_iff by metis
  qed
  have "va \<notin> ba_reserved b" using g by (simp add: va_answer_def)
  then have "in_region held va = {}" using m self by (auto simp: ba_maps_def in_region_def)
  then have none: "ba_reserveMap b va = None" using m by (simp add: ba_maps_def cnt_def)
  have ins: "map_inc va 1 (map_insert va 0 (ba_reserveMap b)) = map_inc va 1 (ba_reserveMap b)"
    using none by (simp add: map_inc_def map_insert_def)
  let ?b = "b\<lparr>ba_reserved := insert va (ba_reserved b), ba_reserveMap := map_inc va 1 (map_insert va 0 (ba_reserveMap b)),
    ba_committed := insert va (ba_committed b), ba_commitMap := map_insert va 1 (ba_commitMap b)\<rparr>"
  have "BufferAllocator_allocByAddr (va, cm) c (of_nat n) b = (va, va + of_nat n, ?b)"
    using al pgva self by (simp add: BufferAllocator_allocByAddr_def cm)
  moreover have "ba_maps (held(va \<mapsto> n)) ?b"
    by (rule ba_maps_cong[OF maps_new_page[OF m P(1) new]]) (simp_all add: ins self)
  ultimately show ?thesis using P(1,2,3) P(4)[OF d(1)] by (intro that[of ?b]) (simp_all add: cm)
next
  case False
  then have al: "c AND (GRANULARITY - 1) \<noteq> 0" unfolding region_aligned by (simp add: dvd_eq_mod_eq_0)
  then have cm: "cm = c" by (simp add: cm_def)
  have c0: "c \<noteq> 0" using al by auto
  note P = place_next[OF B c False n]
  obtain w where w: "w \<in> dom held" "rgn w = rgn c" using P(7) by blast
  then have "rg w = rg c" using rg_eq_iff by blast
  then have "rg c \<in> rg ` dom held" using w(1) by (metis imageI)
  then have res: "rg c \<in> ba_reserved b" using m by (simp add: ba_maps_def)
  show ?thesis
  proof (cases "4096 dvd unat c")
    case True
    then have pc: "c AND (PAGE_SIZE - 1) = 0" unfolding page_aligned by simp
    have new: "pg c \<notin> pg ` dom held"
    proof
      assume "pg c \<in> pg ` dom held"
      then obtain x where x: "x \<in> dom held" "pg c = pg x" by auto
      then have "pgn x = pgn c" using pg_eq_iff[of x c] by simp
      then show False using P(5)[OF True] x(1) by blast
    qed
    let ?b = "b\<lparr>ba_committed := insert c (ba_committed b), ba_reserveMap := map_inc (rg c) 1 (ba_reserveMap b),
      ba_commitMap := map_insert c 1 (ba_commitMap b)\<rparr>"
    have "BufferAllocator_allocByAddr (va, cm) c (of_nat n) b = (c, c + of_nat n, ?b)"
      using al pc c0 by (simp add: BufferAllocator_allocByAddr_def cm)
    moreover have "ba_maps (held(c \<mapsto> n)) ?b"
      by (rule ba_maps_cong[OF maps_new_page[OF m P(1) new]]) (use res in \<open>simp_all add: pg_self[OF True] insert_absorb\<close>)
    ultimately show ?thesis using P(1,2,3) P(4)[OF d(1,2)] by (intro that[of ?b]) (simp_all add: cm)
  next
    case nd: False
    then have pc: "c AND (PAGE_SIZE - 1) \<noteq> 0" unfolding page_aligned by (simp add: dvd_eq_mod_eq_0)
    have old: "pg c \<in> pg ` dom held" 
    proof -
      obtain x where x: "x \<in> dom held" "pgn x = pgn c" using P(6)[OF nd] by blast
      then have "pg c = pg x" using pg_eq_iff[of x c] by simp
      then show ?thesis using x(1) by (rule image_eqI)
    qed
    let ?b = "b\<lparr>ba_commitMap := map_inc (pg c) 1 (ba_commitMap b)\<rparr>"
    have "BufferAllocator_allocByAddr (va, cm) c (of_nat n) b = (c, c + of_nat n, ?b)"
      using al pc c0 by (simp add: BufferAllocator_allocByAddr_def cm)
    moreover have "ba_maps (held(c \<mapsto> n)) ?b" by (rule maps_same_page[OF m P(1) old])
    ultimately show ?thesis using P(1,2,3) P(4)[OF d(1,2)] by (intro that[of ?b]) (simp_all add: cm)
  qed
qed

lemma alloc_inv:
  assumes inv: "ba_inv (held, b)" and ok: "ba_call_ok (Ba_alloc sz va) (held, b)"
  obtains a b' where "ba_run [Ba_alloc sz va] (held, b) = Some (held(a \<mapsto> if sz \<le> 2048 then 2048 else 4096), b')"
    "a \<notin> dom held" "ba_inv (held(a \<mapsto> if sz \<le> 2048 then 2048 else 4096), b')"
proof -
  have I: "buf_ok held" "ba_maps held b" "ba_cursor 2048 (ba_addr2048 b) held" "ba_cursor 4096 (ba_addr4096 b) held"
    and g: "va_answer va b" and sz: "0 < sz" "sz \<le> 4096"
    using inv ok by (simp_all add: ba_inv_def)
  have szs: "\<not> sz \<le> 0" "\<not> sz > uint PAGE_SIZE" "sz \<le> uint HALF_PAGE \<longleftrightarrow> sz \<le> 2048"
    using sz by (simp_all add: PAGE_SIZE_def HALF_PAGE_def)
  show ?thesis
  proof (cases "sz \<le> 2048")
    case True
    let ?c = "ba_addr2048 b"
    define cm where "cm = (if ?c AND (GRANULARITY - 1) = 0 then va else ?c)"
    have h: "of_nat 2048 = HALF_PAGE" by (simp add: HALF_PAGE_def)
    obtain b' where A: "BufferAllocator_allocByAddr (va, cm) ?c HALF_PAGE b = (cm, cm + HALF_PAGE, b')" "cm \<notin> dom held"
      "buf_ok (held(cm \<mapsto> 2048))" "ba_maps (held(cm \<mapsto> 2048)) b'" "ba_cursor 2048 (cm + HALF_PAGE) (held(cm \<mapsto> 2048))"
      "ba_cursor 4096 (ba_addr4096 b) (held(cm \<mapsto> 2048))" "ba_addr2048 b' = ba_addr2048 b" "ba_addr4096 b' = ba_addr4096 b"
      by (rule allocByAddr_ok[OF I(1,2) g _ I(3,4), folded cm_def, unfolded h]) simp_all
    have m: "ba_maps (held(cm \<mapsto> 2048)) (b'\<lparr>ba_addr2048 := cm + HALF_PAGE\<rparr>)" by (rule ba_maps_cong[OF A(4)]) simp_all
    have "ba_run [Ba_alloc sz va] (held, b) = Some (held(cm \<mapsto> if sz \<le> 2048 then 2048 else 4096), b'\<lparr>ba_addr2048 := cm + HALF_PAGE\<rparr>)"
      using True szs A(1) by (simp add: BufferAllocator_Alloc_def Let_def flip: cm_def)
    moreover have "ba_inv (held(cm \<mapsto> if sz \<le> 2048 then 2048 else 4096), b'\<lparr>ba_addr2048 := cm + HALF_PAGE\<rparr>)"
      using True m A by (simp add: ba_inv_def)
    ultimately show ?thesis using A(2) by (intro that)
  next
    case False
    let ?c = "ba_addr4096 b"
    define cm where "cm = (if ?c AND (GRANULARITY - 1) = 0 then va else ?c)"
    have h: "of_nat 4096 = PAGE_SIZE" by (simp add: PAGE_SIZE_def)
    obtain b' where A: "BufferAllocator_allocByAddr (va, cm) ?c PAGE_SIZE b = (cm, cm + PAGE_SIZE, b')" "cm \<notin> dom held"
      "buf_ok (held(cm \<mapsto> 4096))" "ba_maps (held(cm \<mapsto> 4096)) b'" "ba_cursor 4096 (cm + PAGE_SIZE) (held(cm \<mapsto> 4096))"
      "ba_cursor 2048 (ba_addr2048 b) (held(cm \<mapsto> 4096))" "ba_addr2048 b' = ba_addr2048 b" "ba_addr4096 b' = ba_addr4096 b"
      by (rule allocByAddr_ok[OF I(1,2) g _ I(4,3), folded cm_def, unfolded h]) simp_all
    have m: "ba_maps (held(cm \<mapsto> 4096)) (b'\<lparr>ba_addr4096 := cm + PAGE_SIZE\<rparr>)" by (rule ba_maps_cong[OF A(4)]) simp_all
    have "ba_run [Ba_alloc sz va] (held, b) = Some (held(cm \<mapsto> if sz \<le> 2048 then 2048 else 4096), b'\<lparr>ba_addr4096 := cm + PAGE_SIZE\<rparr>)"
      using False szs A(1) by (simp add: BufferAllocator_Alloc_def Let_def flip: cm_def)
    moreover have "ba_inv (held(cm \<mapsto> if sz \<le> 2048 then 2048 else 4096), b'\<lparr>ba_addr4096 := cm + PAGE_SIZE\<rparr>)"
      using False m A by (simp add: ba_inv_def)
    ultimately show ?thesis using A(2) by (intro that)
  qed
qed


lemma free_inv:
  assumes inv: "ba_inv (held, b)" and ok: "ba_call_ok (Ba_free a) (held, b)"
  obtains b' where "ba_run [Ba_free a] (held, b) = Some (held(a := None), b')" "ba_inv (held(a := None), b')"
proof -
  have I: "buf_ok held" "ba_maps held b" "ba_cursor 2048 (ba_addr2048 b) held" "ba_cursor 4096 (ba_addr4096 b) held"
    using inv by (simp_all add: ba_inv_def)
  have a: "a \<in> dom held" and good: "\<not> ba_misleads a (held, b)" using ok by simp_all
  note B = buf_ok_free[OF I(1), of a]
  have fin: "finite (dom held)" using I(2) by (simp add: ba_maps_def)
  have "a \<in> on_page held (pg a)" using a by (simp add: on_page_def)
  then have "card (on_page held (pg a)) \<noteq> 0" using conjunct1[OF finite_counts[OF fin, of "pg a" 0]] by auto
  then have some: "ba_commitMap b (pg a) \<noteq> None" using I(2) by (simp add: ba_maps_def cnt_def)
  show ?thesis
  proof (cases "\<exists>x \<in> dom held. x \<noteq> a \<and> pg x = pg a")
    case True
    then obtain x where x: "x \<in> dom held" "x \<noteq> a" "pg x = pg a" by blast
    then have xp: "pgn x = pgn a" using pg_eq_iff by blast
    note M = maps_free_same[OF I(2) a x]
    let ?b = "b\<lparr>ba_commitMap := map_inc (pg a) (- 1) (ba_commitMap b)\<rparr>"
    have "BufferAllocator_Free a b = Some ?b" using some M(2) by (simp add: BufferAllocator_Free_def Let_def)
    moreover have "ba_inv (held(a := None), ?b)"
      using M(1) B cursor_free_same[OF I(3) x(1,2) xp] cursor_free_same[OF I(4) x(1,2) xp] by (simp add: ba_inv_def)
    ultimately show ?thesis using a by (intro that[of ?b]) simp_all
  next
    case False
    let ?held = "held(a := None)"
    have last: "\<forall>x \<in> dom held. pg x = pg a \<longrightarrow> x = a" using False by blast
    note M = maps_free_page[OF I(2) a last]
    define c2 where "c2 = BufferAllocator_fixDecommittedAddr (pg a) (ba_addr2048 b)"
    define c4 where "c4 = BufferAllocator_fixDecommittedAddr (pg a) (ba_addr4096 b)"
    have away: "\<not> (\<exists>w \<in> dom ?held. rgn w = rgn a)"
      if c: "c = pg a" "65536 dvd unat c" "c = ba_addr2048 b \<or> c = ba_addr4096 b" for c
    proof
      assume "\<exists>w \<in> dom ?held. rgn w = rgn a"
      then obtain w where w: "w \<in> dom ?held" "rgn w = rgn a" by blast
      have "rg w = rg a" using w(2) rg_eq_iff by blast
      moreover have "w \<in> dom held" "w \<noteq> a" using w(1) by (auto split: if_splits)
      ultimately have r: "\<exists>x \<in> dom held. x \<noteq> a \<and> rg x = rg a" by blast
      have "pg a = rg a" using rg_self[OF c(2)] unfolding c(1) rg_pg by (rule sym)
      moreover have "ba_addr2048 b = pg a \<or> ba_addr4096 b = pg a" using c(1,3) by metis
      ultimately show False using good last r unfolding ba_misleads_def prod.case by blast
    qed
    note C2 = cursor_free_page[OF I(1,3) _ a away, folded c2_def] and C4 = cursor_free_page[OF I(1,4) _ a away, folded c4_def]
    have rr: "(\<exists>w \<in> dom ?held. rgn w = rgn a) \<longleftrightarrow> rg a \<in> rg ` dom ?held"
      using rg_eq_iff by (metis (no_types, lifting) image_iff)
    let ?cm = "(map_inc (pg a) (- 1) (ba_commitMap b))(pg a := None)" and ?rm = "map_inc (rg a) (- 1) (ba_reserveMap b)"
    have fin': "finite (dom ?held)" using fin by simp
    show ?thesis
    proof (cases "rg a \<in> rg ` dom ?held")
      case True
      note R = M(4)[OF True]
      let ?b = "b\<lparr>ba_committed := ba_committed b - {pg a}, ba_commitMap := ?cm, ba_addr2048 := c2, ba_addr4096 := c4, ba_reserveMap := ?rm\<rparr>"
      have "BufferAllocator_Free a b = Some ?b"
        using some M(1) conjunct1[OF conjunct2[OF R]] by (simp add: BufferAllocator_Free_def Let_def c2_def c4_def)
      moreover have "ba_maps ?held ?b" unfolding ba_maps_def using fin' M(2,3) R by simp
      then have "ba_inv (?held, ?b)" using B C2(1) C4(1) True rr by (simp add: ba_inv_def)
      ultimately show ?thesis using a by (intro that[of ?b]) simp_all
    next
      case nr: False
      note R = M(5)[OF nr]
      let ?b = "b\<lparr>ba_committed := ba_committed b - {pg a}, ba_commitMap := ?cm,
        ba_addr2048 := BufferAllocator_fixReleasedAddr (rg a) c2, ba_addr4096 := BufferAllocator_fixReleasedAddr (rg a) c4,
        ba_reserveMap := ?rm(rg a := None), ba_reserved := ba_reserved b - {rg a}\<rparr>"
      have "BufferAllocator_Free a b = Some ?b"
        using some M(1) conjunct1[OF conjunct2[OF R]] by (simp add: BufferAllocator_Free_def Let_def c2_def c4_def)
      moreover have "ba_maps ?held ?b" unfolding ba_maps_def using fin' M(2,3) R by simp
      then have "ba_inv (?held, ?b)" using B C2(2) C4(2) nr rr by (simp add: ba_inv_def)
      ultimately show ?thesis using a by (intro that[of ?b]) simp_all
    qed
  qed
qed

lemma ba_new_inv: "BufferAllocator_ctor 4096 65536 = Some b \<Longrightarrow> ba_inv (Map.empty, b)"
  by (auto simp: BufferAllocator_ctor_def ba_inv_def buf_ok_def ba_maps_def ba_cursor_def on_page_def in_region_def cnt_def
      split: if_splits)

lemma ba_step_inv:
  assumes "ba_inv x" and "ba_call_ok c x"
  obtains x' where "ba_run [c] x = Some x'" "ba_inv x'"
proof -
  obtain held b where x: "x = (held, b)" by (cases x)
  show ?thesis
  proof (cases c)
    case (Ba_alloc sz va)
    show ?thesis using alloc_inv[OF assms(1)[unfolded x], of sz va] assms(2) that unfolding x Ba_alloc by metis
  next
    case (Ba_free a)
    show ?thesis using free_inv[OF assms(1)[unfolded x], of a] assms(2) that unfolding x Ba_free by metis
  qed
qed

lemma ba_reach_inv: "ba_reach x \<Longrightarrow> ba_inv x"
proof (induction rule: ba_reach.induct)
  case (ba_step x c x')
  obtain y where "ba_run [c] x = Some y" "ba_inv y" by (rule ba_step_inv[OF ba_step.IH ba_step.hyps(2)])
  then show ?case using ba_step.hyps(3) by simp
qed (rule ba_new_inv)

lemma buffers_apart:
  assumes B: "buf_ok held" and h: "held a = Some n" "held a' = Some n'" "a \<noteq> a'"
  shows "unat a + n \<le> unat a' \<or> unat a' + n' \<le> unat a"
proof -
  have B1: "(n = 2048 \<or> n = 4096) \<and> n dvd unat a" "(n' = 2048 \<or> n' = 4096) \<and> n' dvd unat a'" using B h unfolding buf_ok_def by blast+
  have apart: "x + k \<le> y" if "k dvd x" "k dvd y" "x < y" for k x y :: nat
  proof -
    have "k dvd y - x" using that by (simp add: dvd_diff_nat)
    then have "k \<le> y - x" using that by (simp add: dvd_imp_le)
    then show ?thesis using that(3) by linarith
  qed
  show ?thesis
  proof (cases "rgn a = rgn a'")
    case True
    then have "held a = held a'" using B h unfolding buf_ok_def by (metis domI)
    then have e: "n = n'" using h by simp
    have "unat a \<noteq> unat a'" using h(3) by (simp add: word_unat_eq_iff)
    then show ?thesis using apart[of n "unat a" "unat a'"] apart[of n "unat a'" "unat a"] B1 e by (cases "unat a < unat a'") auto
  next
    case False
    have d: "n dvd 65536" "n' dvd 65536" using B1 by auto
    have *: "x + k \<le> y" if "k dvd x" "k dvd 65536" "x div 65536 < y div 65536" for k x y :: nat
    proof -
      have lt: "x < (x div 65536 + 1) * 65536" using dividend_less_div_times[of 65536 x] by simp
      have "k dvd (x div 65536 + 1) * 65536" using that(2) by simp
      then have "x + k \<le> (x div 65536 + 1) * 65536" by (rule apart[OF that(1) _ lt])
      also have "\<dots> \<le> y div 65536 * 65536" using that(3) by (intro mult_le_mono1) simp
      also have "\<dots> \<le> y" by simp
      finally show ?thesis .
    qed
    show ?thesis using False *[of n "unat a" "unat a'"] *[of n' "unat a'" "unat a"] d B1 by (cases "rgn a < rgn a'") auto
  qed
qed

subsection \<open>Properties\<close>

text \<open>
  C36. The allocator works as long as the system grants its requests and no call of \<open>Free\<close> is of the kind of \<open>ba_misleads\<close> (it returns the last buffer
  on the first page of a region in which others are out, while a cursor stands at that page, behind the full region before it). Nothing is
  assumed of where the system reserves regions but that it does not give out the same one twice. Then every call completes, a
  new buffer is not one that is out, buffers are aligned to their size and lie in a committed page, no two overlap, and when all
  are back nothing is reserved or committed and the destructor succeeds.
\<close>

theorem buffers_are_disjoint:
  assumes "ba_reach (held, b)"
  shows "(\<forall>a n. held a = Some n \<longrightarrow> (n = 2048 \<or> n = 4096) \<and> n dvd unat a \<and> a AND NOT (PAGE_SIZE - 1) \<in> ba_committed b) \<and>
    (\<forall>a a' n n'. held a = Some n \<longrightarrow> held a' = Some n' \<longrightarrow> a \<noteq> a' \<longrightarrow> unat a + n \<le> unat a' \<or> unat a' + n' \<le> unat a) \<and>
    (ba_call_ok (Ba_alloc sz va) (held, b) \<longrightarrow> (\<exists>a x'. ba_run [Ba_alloc sz va] (held, b) = Some x' \<and> a \<notin> dom held \<and>
       fst x' = held(a \<mapsto> if sz \<le> 2048 then 2048 else 4096))) \<and>
    (\<forall>a. held a \<noteq> None \<longrightarrow> BufferAllocator_Free a b \<noteq> None) \<and>
    (held = Map.empty \<longrightarrow> BufferAllocator_dtor b = Some () \<and> ba_reserved b = {} \<and> ba_committed b = {})"
proof -
  have inv: "ba_inv (held, b)" by (rule ba_reach_inv[OF assms])
  then have B: "buf_ok held" and m: "ba_maps held b" by (simp_all add: ba_inv_def)
  have B1: "(n = 2048 \<or> n = 4096) \<and> n dvd unat a" if "held a = Some n" for a n using B that unfolding buf_ok_def by blast
  have 1: "a AND NOT (PAGE_SIZE - 1) \<in> ba_committed b" if "held a = Some n" for a n using m that by (auto simp: ba_maps_def)
  have 2: "unat a + n \<le> unat a' \<or> unat a' + n' \<le> unat a" if h: "held a = Some n" "held a' = Some n'" "a \<noteq> a'" for a a' n n'
    by (rule buffers_apart[OF B h])
  have 3: "\<exists>a x'. ba_run [Ba_alloc sz va] (held, b) = Some x' \<and> a \<notin> dom held \<and> fst x' = held(a \<mapsto> if sz \<le> 2048 then 2048 else 4096)"
    if "ba_call_ok (Ba_alloc sz va) (held, b)"
    using alloc_inv[OF inv that] by (metis fst_conv)
  have 4: "BufferAllocator_Free a b \<noteq> None" if "held a \<noteq> None" for a
  proof -
    have "a \<in> on_page held (pg a)" "finite (dom held)" using that m by (auto simp: on_page_def ba_maps_def)
    moreover from this have "finite (on_page held (pg a))" using finite_counts by blast
    ultimately have "card (on_page held (pg a)) \<noteq> 0" by auto
    then have "ba_commitMap b (pg a) \<noteq> None" using m by (simp add: ba_maps_def cnt_def)
    then show ?thesis by (simp add: BufferAllocator_Free_def Let_def)
  qed
  have 5: "BufferAllocator_dtor b = Some () \<and> ba_reserved b = {} \<and> ba_committed b = {}" if "held = Map.empty"
    using m that by (auto simp: ba_maps_def BufferAllocator_dtor_def on_page_def in_region_def cnt_def dom_def)
  show ?thesis using B1 1 2 3 4 5 by blast
qed

lemmas ba_defs = BufferAllocator_ctor_def BufferAllocator_Alloc_def BufferAllocator_allocByAddr_def BufferAllocator_Free_def
  BufferAllocator_fixDecommittedAddr_def BufferAllocator_fixReleasedAddr_def PAGE_SIZE_def GRANULARITY_def HALF_PAGE_def
  map_insert_def map_inc_def

lemma map_lookup:
  "map_inc k d m x = (if x = k then Some ((case m k of None \<Rightarrow> 0 | Some v \<Rightarrow> v) + d) else m x)"
  "map_insert k v m x = (if x = k then case m k of None \<Rightarrow> Some v | Some v \<Rightarrow> Some v else m x)"
  by (simp_all add: map_inc_def map_insert_def split: option.splits)

lemmas ba_eval = BufferAllocator_ctor_def BufferAllocator_Alloc_def BufferAllocator_allocByAddr_def BufferAllocator_Free_def
  BufferAllocator_fixDecommittedAddr_def BufferAllocator_fixReleasedAddr_def PAGE_SIZE_def GRANULARITY_def HALF_PAGE_def map_lookup

lemma sample_buffers:
  "\<exists>held b. ba_reach (held, b) \<and> held 0x100000 = Some 2048 \<and> held 0x200000 = Some 4096"
proof -
  define b0 where "b0 = \<lparr>ba_addr2048 = 0, ba_addr4096 = 0, ba_reserveMap = Map.empty, ba_commitMap = Map.empty,
    ba_reserved = {}, ba_committed = {}\<rparr>"
  define b1 where "b1 = \<lparr>ba_addr2048 = 0x100800, ba_addr4096 = 0, ba_reserveMap = [0x100000 \<mapsto> 1], ba_commitMap = [0x100000 \<mapsto> 1],
    ba_reserved = {0x100000}, ba_committed = {0x100000}\<rparr>"
  define b2 where "b2 = b1\<lparr>ba_addr4096 := 0x201000, ba_reserveMap := [0x100000 \<mapsto> 1, 0x200000 \<mapsto> 1],
    ba_commitMap := [0x100000 \<mapsto> 1, 0x200000 \<mapsto> 1], ba_reserved := {0x200000, 0x100000}, ba_committed := {0x200000, 0x100000}\<rparr>"
  have "BufferAllocator_ctor 4096 65536 = Some b0" by (simp add: ba_defs b0_def)
  then have r0: "ba_reach (Map.empty, b0)" by (rule ba_new)
  have ok1: "ba_call_ok (Ba_alloc 2001 0x100000) (Map.empty, b0)" by (simp add: b0_def va_answer_def dvd_eq_mod_eq_0)
  have run1: "ba_run [Ba_alloc 2001 0x100000] (Map.empty, b0) = Some ([0x100000 \<mapsto> 2048], b1)"
    unfolding b0_def b1_def by (simp add: ba_defs)
  note r1 = ba_step[OF r0 ok1 run1]
  have ok2: "ba_call_ok (Ba_alloc 4001 0x200000) ([0x100000 \<mapsto> 2048], b1)" by (simp add: b1_def va_answer_def dvd_eq_mod_eq_0)
  have run2: "ba_run [Ba_alloc 4001 0x200000] ([0x100000 \<mapsto> 2048], b1) = Some ([0x100000 \<mapsto> 2048, 0x200000 \<mapsto> 4096], b2)"
    unfolding b1_def b2_def by (simp add: ba_defs)
  show ?thesis using ba_step[OF r1 ok2 run2]
    by (intro exI[of _ "[0x100000 \<mapsto> 2048, 0x200000 \<mapsto> 4096]"] exI[of _ b2]) simp
qed

theorem buffers_are_disjoint_witness:
  "\<exists>held b. ba_reach (held, b) \<and> held 0x100000 = Some 2048 \<and> held 0x200000 = Some 4096 \<and> 0x100000 \<in> ba_committed b \<and>
     BufferAllocator_Free 0x200000 b \<noteq> None"
proof -
  obtain held b where r: "ba_reach (held, b)" "held 0x100000 = Some 2048" "held 0x200000 = Some 4096" using sample_buffers by blast
  have "(0x100000 :: u64) AND NOT (PAGE_SIZE - 1) = 0x100000" by (simp add: PAGE_SIZE_def)
  then have "0x100000 \<in> ba_committed b" using conjunct1[OF buffers_are_disjoint[OF r(1)], rule_format, OF r(2)] by simp
  moreover have "BufferAllocator_Free 0x200000 b \<noteq> None"
    using conjunct1[OF conjunct2[OF conjunct2[OF conjunct2[OF buffers_are_disjoint[OF r(1)]]]]] r(3)
    by simp
  ultimately show ?thesis using r by (intro exI[of _ held] exI[of _ b] conjI)
qed

text \<open>Pages are cut out of the region at \<open>0x110000\<close> until the cursor points behind it.\<close>

definition ba_filled :: "u64 \<Rightarrow> (u64 \<rightharpoonup> nat) \<times> bufalloc \<Rightarrow> bool" where
  "ba_filled c = (\<lambda>(held, b). ba_addr2048 b = 0 \<and> ba_addr4096 b = c \<and> ba_commitMap b 0x120000 = None \<and>
     ba_commitMap b 0x121000 = None \<and> ba_reserveMap b 0x120000 = None)"

abbreviation (input) page_cursor :: "u64 \<Rightarrow> bool" where
  "page_cursor c \<equiv> c AND 0xFFFF \<noteq> 0 \<and> c AND 0xFFF = 0 \<and> c \<noteq> 0x120000 \<and> c \<noteq> 0x121000 \<and> c AND NOT 0xFFFF \<noteq> 0x120000"

lemma filled_step:
  assumes "ba_filled c x" and "page_cursor c"
  shows "\<exists>y. ba_run [Ba_alloc 4096 va] x = Some y \<and> ba_filled (c + 4096) y"
  using assms by (cases x) (auto simp: ba_filled_def ba_eval Let_def)

lemma ba_run_Cons: "ba_run [c] x = Some y \<Longrightarrow> ba_run (c # cs) x = ba_run cs y"
  by (cases c; cases x) (auto simp: Let_def split: option.splits prod.splits if_splits)

lemma ba_run_append: "ba_run (cs @ ds) x = (case ba_run cs x of None \<Rightarrow> None | Some y \<Rightarrow> ba_run ds y)"
  by (induction cs x rule: ba_run.induct) (auto simp: Let_def split: option.splits prod.splits)

lemma filled_steps:
  assumes "ba_filled c x" and "\<forall>i < n. page_cursor (c + of_nat i * 4096)"
  shows "\<exists>y. ba_run (replicate n (Ba_alloc 4096 va)) x = Some y \<and> ba_filled (c + of_nat n * 4096) y"
  using assms
proof (induction n arbitrary: c x)
  case (Suc n)
  have "page_cursor c" using Suc.prems(2)[rule_format, of 0] by simp
  then obtain y where y: "ba_run [Ba_alloc 4096 va] x = Some y" "ba_filled (c + 4096) y"
    using filled_step[OF Suc.prems(1)] by blast
  have "\<forall>i < n. page_cursor ((c + 4096) + of_nat i * 4096)"
  proof (intro allI impI)
    fix i assume "i < n"
    then show "page_cursor ((c + 4096) + of_nat i * 4096)"
      using Suc.prems(2)[rule_format, of "Suc i"] by (simp add: algebra_simps)
  qed
  from Suc.IH[OF y(2) this] show ?case by (simp add: ba_run_Cons[OF y(1)] algebra_simps)
qed simp

lemma below_15: "(\<forall>i < 15. P i) \<longleftrightarrow> P 0 \<and> P 1 \<and> P 2 \<and> P 3 \<and> P 4 \<and> P 5 \<and> P 6 \<and> P 7 \<and> P 8 \<and> P 9 \<and> P 10 \<and> P 11 \<and> P 12 \<and> P 13 \<and> P (14 :: nat)"
  by (simp add: eval_nat_numeral All_less_Suc) blast

lemma filled_region:
  assumes "BufferAllocator_ctor 4096 65536 = Some b0"
  shows "\<exists>y. ba_run (replicate 16 (Ba_alloc 4096 0x110000)) (Map.empty, b0) = Some y \<and> ba_filled 0x120000 y"
proof -
  obtain x where x: "ba_run [Ba_alloc 4096 0x110000] (Map.empty, b0) = Some x" "ba_filled 0x111000 x"
    using assms by (auto simp: ba_filled_def ba_eval)
  have "\<forall>i < 15. page_cursor (0x111000 + of_nat i * 4096)" unfolding below_15 by simp
  from filled_steps[OF x(2) this, of "0x110000"]
  obtain y where y: "ba_run (replicate 15 (Ba_alloc 4096 0x110000)) x = Some y" "ba_filled 0x120000 y" by auto
  have "replicate 16 a = a # replicate 15 a" for a :: ba_call by (simp add: numeral_eq_Suc)
  then show ?thesis using y by (simp only: ba_run_Cons[OF x(1)]) blast
qed

lemma shared_region:
  assumes "ba_filled 0x120000 y"
  shows "\<exists>held b b'. ba_run [Ba_alloc 2048 0x120000, Ba_alloc 2048 0x120000, Ba_alloc 2048 0x120000, Ba_free 0x120000, Ba_free 0x120800] y =
       Some (held, b) \<and> held 0x121000 = Some 2048 \<and> BufferAllocator_Alloc (0x130000, 0x121000) 4096 b = Some (0x121000, b')"
  using assms by (cases y) (simp add: ba_filled_def ba_eval)

text \<open>
  C37. In the case left out, \<open>ba_misleads\<close>, the allocator hands out memory that is in use. The system answers with two neighbouring regions, sixteen
  buffers of a page fill the first, and the first page of the second one is returned: the cursor for pages, which points right behind the
  first region, is taken for one inside the page that is decommitted, moves into the second region, and the next buffer of a
  page is the memory of a buffer of half a page that is still out.
\<close>

theorem neighbouring_regions_share_memory:
  "\<exists>b0 held b b'. BufferAllocator_ctor 4096 65536 = Some b0 \<and>
     ba_run (replicate 16 (Ba_alloc 4096 0x110000) @ replicate 3 (Ba_alloc 2048 0x120000) @ [Ba_free 0x120000, Ba_free 0x120800])
       (Map.empty, b0) = Some (held, b) \<and>
     held 0x121000 = Some 2048 \<and> BufferAllocator_Alloc (0x130000, 0x121000) 4096 b = Some (0x121000, b')"
proof -
  obtain b0 where b0: "BufferAllocator_ctor 4096 65536 = Some b0" by (simp add: ba_eval)
  obtain y where y: "ba_run (replicate 16 (Ba_alloc 4096 0x110000)) (Map.empty, b0) = Some y" "ba_filled 0x120000 y"
    using filled_region[OF b0] by blast
  have r: "replicate 3 x @ [z, w] = [x, x, x, z, w]" for x z w :: ba_call by (simp add: numeral_3_eq_3)
  show ?thesis using b0 shared_region[OF y(2)] by (auto simp: ba_run_append[of "replicate 16 _"] y(1) r)
qed

end
