(* ===== verification/Profile.thy ===== *)
theory Profile
  imports Prelude "HOL-Library.Multiset"
begin

text \<open>
  \<^verbatim>\<open>ProfileTls.cpp\<close> and \<^verbatim>\<open>ProfileTls.h\<close>: each thread has a table of the scopes it measures; a scope
  keeps the sum, the number, the two shortest and the two longest of its measurements. A thread is a number and its TLS slot an
  entry of a map; \<open>GetCurrentThreadId\<close> and the performance counter are arguments. The lock of a table makes each call
  one step. A \<^verbatim>\<open>__int64\<close> is a word whose comparisons are written with \<open>sint\<close>. Tags hold no terminator.
\<close>

subsection \<open>The code\<close>

definition MAX_THREAD :: int where "MAX_THREAD = 120"
definition MAX_PROFILE :: nat where "MAX_PROFILE = 40"
definition PRO_TAG_SIZE :: nat where "PRO_TAG_SIZE = 64"
definition LLONG_MAX :: u64 where "LLONG_MAX = 0x7FFFFFFFFFFFFFFF"

type_synonym tag = "u16 list"

record stPROFILE =
  p_flag :: bool
  p_name :: tag
  p_startTime :: u64
  p_totalTime :: u64
  p_min :: "u64 list"
  p_max :: "u64 list"
  p_call :: u64

record THREAD_PROFILE =
  t_thread_id :: u32
  t_profiles :: "stPROFILE list"
  t_idx :: nat

record prof_state =
  threadProfiles :: "THREAD_PROFILE list"
  tpIdx :: int
  prof_tls :: "nat \<rightharpoonup> nat"

text \<open>Static storage is zero when the program starts.\<close>

definition zero_profile :: stPROFILE where
  "zero_profile = \<lparr>p_flag = False, p_name = [], p_startTime = 0, p_totalTime = 0, p_min = [0, 0], p_max = [0, 0], p_call = 0\<rparr>"

definition prof_init :: prof_state where
  "prof_init = \<lparr>threadProfiles = replicate (nat MAX_THREAD) \<lparr>t_thread_id = 0, t_profiles = replicate MAX_PROFILE zero_profile, t_idx = 0\<rparr>,
     tpIdx = - 1, prof_tls = Map.empty\<rparr>"

definition InitProfile :: "nat \<Rightarrow> THREAD_PROFILE \<Rightarrow> THREAD_PROFILE" where
  "InitProfile j tp = tp\<lparr>t_profiles := (t_profiles tp)[j := (t_profiles tp ! j)\<lparr>p_flag := True, p_min := [LLONG_MAX, LLONG_MAX], p_max := [0, 0],
     p_call := 0, p_totalTime := 0, p_startTime := 0\<rparr>]\<rparr>"

text \<open>The search of \<open>ProfileBegin\<close> and \<open>ProfileEnd\<close>.\<close>

definition find_profile :: "tag \<Rightarrow> stPROFILE list \<Rightarrow> nat option" where
  "find_profile tag ps = List.find (\<lambda>j. p_flag (ps ! j) \<and> p_name (ps ! j) = tag) [0..<MAX_PROFILE]"

text \<open>What is written behind a table, past the tag buffer or through a null pointer ends the computation.\<close>

definition begin_in_table :: "u64 \<Rightarrow> tag \<Rightarrow> THREAD_PROFILE \<Rightarrow> THREAD_PROFILE option" where
  "begin_in_table now tag tp =
     (let found =
        (case find_profile tag (t_profiles tp) of
           Some j \<Rightarrow> Some (j, tp)
         | None \<Rightarrow>
             let j = t_idx tp; tp = tp\<lparr>t_idx := t_idx tp + 1\<rparr>
             in if j \<ge> MAX_PROFILE \<or> length tag \<ge> PRO_TAG_SIZE then None
                else Some (j, InitProfile j (tp\<lparr>t_profiles := (t_profiles tp)[j := (t_profiles tp ! j)\<lparr>p_name := tag\<rparr>]\<rparr>)))
      in case found of
           None \<Rightarrow> None
         | Some (j, tp) \<Rightarrow>
             if p_startTime (t_profiles tp ! j) \<noteq> 0 then None
             else Some (tp\<lparr>t_profiles := (t_profiles tp)[j := (t_profiles tp ! j)\<lparr>p_startTime := now\<rparr>]\<rparr>))"

definition ProfileBegin :: "nat \<Rightarrow> u32 \<Rightarrow> u64 \<Rightarrow> tag \<Rightarrow> prof_state \<Rightarrow> prof_state option" where
  "ProfileBegin thr thread_id now tag st =
     (let registered =
        (case prof_tls st thr of
           Some i \<Rightarrow> Some (i, st)
         | None \<Rightarrow>
             let idx = tpIdx st + 1; st = st\<lparr>tpIdx := idx\<rparr>
             in if idx = MAX_THREAD then None
                else Some (nat idx, st\<lparr>threadProfiles := (threadProfiles st)[nat idx := (threadProfiles st ! nat idx)\<lparr>t_thread_id := thread_id\<rparr>],
                       prof_tls := (prof_tls st)(thr \<mapsto> nat idx)\<rparr>))
      in case registered of
           None \<Rightarrow> None
         | Some (i, st) \<Rightarrow>
             (case begin_in_table now tag (threadProfiles st ! i) of
                None \<Rightarrow> None
              | Some tp \<Rightarrow> Some (st\<lparr>threadProfiles := (threadProfiles st)[i := tp]\<rparr>)))"

text \<open>The two loops that keep the two shortest and the two longest: a measurement takes the place of the first one it beats, and
  that one goes on to the next.\<close>

definition keep_min :: "u64 \<Rightarrow> u64 list \<Rightarrow> u64 list" where
  "keep_min diffTime mn = fst (fold (\<lambda>cnt (mn, cmpTime). if sint (mn ! cnt) > sint cmpTime then (mn[cnt := cmpTime], mn ! cnt) else (mn, cmpTime))
     [0..<2] (mn, diffTime))"

definition keep_max :: "u64 \<Rightarrow> u64 list \<Rightarrow> u64 list" where
  "keep_max diffTime mx = fst (fold (\<lambda>cnt (mx, cmpTime). if sint (mx ! cnt) < sint cmpTime then (mx[cnt := cmpTime], mx ! cnt) else (mx, cmpTime))
     [0..<2] (mx, diffTime))"

definition end_profile :: "u64 \<Rightarrow> stPROFILE \<Rightarrow> stPROFILE" where
  "end_profile endTime p =
     (let diffTime = endTime - p_startTime p
      in p\<lparr>p_startTime := 0, p_min := keep_min diffTime (p_min p), p_max := keep_max diffTime (p_max p),
           p_totalTime := p_totalTime p + diffTime, p_call := p_call p + 1\<rparr>)"

definition ProfileEnd :: "nat \<Rightarrow> u64 \<Rightarrow> tag \<Rightarrow> prof_state \<Rightarrow> prof_state option" where
  "ProfileEnd thr endTime tag st =
     (case prof_tls st thr of
        None \<Rightarrow> None
      | Some i \<Rightarrow>
          let tp = threadProfiles st ! i
          in case find_profile tag (t_profiles tp) of
               None \<Rightarrow> None
             | Some j \<Rightarrow> Some (st\<lparr>threadProfiles := (threadProfiles st)[i :=
                 tp\<lparr>t_profiles := (t_profiles tp)[j := end_profile endTime (t_profiles tp ! j)]\<rparr>]\<rparr>))"

definition reset_table :: "THREAD_PROFILE \<Rightarrow> THREAD_PROFILE" where
  "reset_table tp = fold (\<lambda>j tp. if p_flag (t_profiles tp ! j) then InitProfile j tp else tp) [0..<MAX_PROFILE] tp"

definition ProfileReset :: "prof_state \<Rightarrow> prof_state" where
  "ProfileReset st = fold (\<lambda>i st. st\<lparr>threadProfiles := (threadProfiles st)[i := reset_table (threadProfiles st ! i)]\<rparr>)
     [0..<nat (tpIdx st + 1)] st"

text \<open>The rows that \<open>ProfileDataOutText\<close> and \<open>ProfilePrint\<close> write, in the integers the code computes before it
  converts to \<^verbatim>\<open>double\<close> and divides: the thread and the tag, the numerator and the denominator of the average, the
  shortest, the longest and the number of calls.\<close>

definition profile_row :: "u32 \<Rightarrow> stPROFILE \<Rightarrow> u32 \<times> tag \<times> u64 \<times> u64 \<times> u64 \<times> u64 \<times> u64" where
  "profile_row thread_id p = (thread_id, p_name p,
     p_totalTime p - (p_min p ! 0 + p_min p ! 1) - (p_max p ! 0 + p_max p ! 1), p_call p - 4, p_min p ! 0, p_max p ! 0, p_call p)"

definition profile_rows :: "prof_state \<Rightarrow> (u32 \<times> tag \<times> u64 \<times> u64 \<times> u64 \<times> u64 \<times> u64) list" where
  "profile_rows st = concat (map (\<lambda>i. map (\<lambda>j. profile_row (t_thread_id (threadProfiles st ! i)) (t_profiles (threadProfiles st ! i) ! j))
     (filter (\<lambda>j. p_flag (t_profiles (threadProfiles st ! i) ! j)) [0..<MAX_PROFILE])) [0..<nat (tpIdx st + 1)])"

datatype prof_call = Prof_begin nat u32 u64 tag | Prof_end nat u64 tag | Prof_reset

fun prof_step :: "prof_call \<Rightarrow> prof_state \<Rightarrow> prof_state option" where
  "prof_step (Prof_begin thr thread_id now tag) st = ProfileBegin thr thread_id now tag st"
| "prof_step (Prof_end thr endTime tag) st = ProfileEnd thr endTime tag st"
| "prof_step Prof_reset st = Some (ProfileReset st)"

fun prof_run :: "prof_call list \<Rightarrow> prof_state \<Rightarrow> prof_state option" where
  "prof_run [] st = Some st"
| "prof_run (c # cs) st = Option.bind (prof_step c st) (prof_run cs)"

subsection \<open>What it stands for\<close>

text \<open>Abstractly a thread has, for each tag, the time at which its open scope began (0 when none is open) and all its measurements since
  the last reset, the newest first.\<close>

type_synonym prof_spec = "nat \<rightharpoonup> u32 \<times> (tag \<rightharpoonup> u64 \<times> u64 list)"

fun ps_step :: "prof_call \<Rightarrow> prof_spec \<Rightarrow> prof_spec option" where
  "ps_step (Prof_begin thr thread_id now tag) sp =
     (let (tid, m) = (case sp thr of None \<Rightarrow> (thread_id, Map.empty) | Some x \<Rightarrow> x)
      in if sp thr = None \<and> card (dom sp) = 120 then None
         else case m tag of
           None \<Rightarrow> if card (dom m) = 40 \<or> length tag \<ge> 64 then None else Some (sp(thr \<mapsto> (tid, m(tag \<mapsto> (now, [])))))
         | Some (start, ds) \<Rightarrow> if start \<noteq> 0 then None else Some (sp(thr \<mapsto> (tid, m(tag \<mapsto> (now, ds))))))"
| "ps_step (Prof_end thr endTime tag) sp =
     (case sp thr of None \<Rightarrow> None
      | Some (tid, m) \<Rightarrow>
         (case m tag of None \<Rightarrow> None
          | Some (start, ds) \<Rightarrow> Some (sp(thr \<mapsto> (tid, m(tag \<mapsto> (0, (endTime - start) # ds)))))))"
| "ps_step Prof_reset sp = Some (\<lambda>thr. map_option (\<lambda>(tid, m). (tid, \<lambda>tag. map_option (\<lambda>_. (0, [])) (m tag))) (sp thr))"

fun ps_run :: "prof_call list \<Rightarrow> prof_spec \<Rightarrow> prof_spec option" where
  "ps_run [] sp = Some sp"
| "ps_run (c # cs) sp = Option.bind (ps_step c sp) (ps_run cs)"

text \<open>The entry that belongs to a list of measurements.\<close>

definition summary :: "tag \<Rightarrow> u64 \<times> u64 list \<Rightarrow> stPROFILE" where
  "summary tag = (\<lambda>(start, ds). \<lparr>p_flag = True, p_name = tag, p_startTime = start, p_totalTime = sum_list ds,
     p_min = take 2 (sort_key sint (ds @ [LLONG_MAX, LLONG_MAX])), p_max = take 2 (sort_key (\<lambda>d. - sint d) (ds @ [0, 0])),
     p_call = of_nat (length ds)\<rparr>)"

definition prof_view :: "prof_state \<Rightarrow> nat \<Rightarrow> (u32 \<times> (tag \<rightharpoonup> stPROFILE)) option" where
  "prof_view st thr = (case prof_tls st thr of None \<Rightarrow> None
     | Some i \<Rightarrow> let tp = threadProfiles st ! i in Some (t_thread_id tp, \<lambda>tag. map_option ((!) (t_profiles tp)) (find_profile tag (t_profiles tp))))"

definition ps_view :: "prof_spec \<Rightarrow> nat \<Rightarrow> (u32 \<times> (tag \<rightharpoonup> stPROFILE)) option" where
  "ps_view sp thr = map_option (\<lambda>(tid, m). (tid, \<lambda>tag. map_option (summary tag) (m tag))) (sp thr)"

subsection \<open>The two shortest and the two longest\<close>

lemma keep_two:
  assumes "f x \<le> f y" and inj: "inj f"
  shows "fst (fold (\<lambda>cnt (mn, c). if f (mn ! cnt) > f c then (mn[cnt := c], mn ! cnt) else (mn, c)) [0..<2] ([x, y], d)) =
    take 2 (insort_key f d (x # y # r))" (is "?l = ?r")
proof -
  have two: "[0..<2] = [0, Suc 0]" by (simp add: upt_rec)
  have e: "f d = f z \<Longrightarrow> d = z" for z using inj by (auto dest: injD)
  show ?thesis using assms(1) e[of x] e[of y] injD[OF inj, of x y] unfolding two by (auto simp: numeral_2_eq_2)
qed

lemma take2_insort:
  assumes "sorted (map f xs)" and "2 \<le> length xs" and inj: "inj f"
  shows "fst (fold (\<lambda>cnt (mn, c). if f (mn ! cnt) > f c then (mn[cnt := c], mn ! cnt) else (mn, c)) [0..<2] (take 2 xs, d)) =
    take 2 (insort_key f d xs)"
proof -
  obtain x y r where xs: "xs = x # y # r" using assms(2) by (cases xs; cases "tl xs") auto
  then have "f x \<le> f y" using assms(1) by simp
  from keep_two[OF this inj] show ?thesis unfolding xs by (simp add: numeral_2_eq_2)
qed

lemma inj_sint: "inj (sint :: u64 \<Rightarrow> int)"
  by (rule injI) (rule signed_word_eqI)

lemma keep_min_step:
  "keep_min d (take 2 (sort_key sint (ds @ [LLONG_MAX, LLONG_MAX]))) = take 2 (sort_key sint ((d # ds) @ [LLONG_MAX, LLONG_MAX]))"
  unfolding keep_min_def using take2_insort[OF sorted_sort_key _ inj_sint, of "ds @ [LLONG_MAX, LLONG_MAX]" d] by simp

lemma keep_max_step: "keep_max d (take 2 (sort_key (\<lambda>d. - sint d) (ds @ [0, 0]))) = take 2 (sort_key (\<lambda>d. - sint d) ((d # ds) @ [0, 0]))"
proof -
  have "inj (\<lambda>d :: u64. - sint d)" by (rule injI) (metis neg_equal_iff_equal signed_word_eqI)
  from take2_insort[OF sorted_sort_key _ this, of "ds @ [0, 0]" d] show ?thesis unfolding keep_max_def by simp
qed

lemma end_summary: "end_profile now (summary tag (start, ds)) = summary tag (0, (now - start) # ds)"
  using keep_min_step[of "now - start" ds] keep_max_step[of "now - start" ds]
  by (simp add: end_profile_def summary_def Let_def)

subsection \<open>The table of a thread\<close>

definition table_rel :: "THREAD_PROFILE \<Rightarrow> (tag \<rightharpoonup> u64 \<times> u64 list) \<Rightarrow> bool" where
  "table_rel tp m \<longleftrightarrow> (\<exists>ts. length (t_profiles tp) = 40 \<and> length ts = t_idx tp \<and> t_idx tp \<le> 40 \<and> distinct ts \<and> dom m = set ts \<and>
     (\<forall>j < 40. if j < t_idx tp then t_profiles tp ! j = summary (ts ! j) (the (m (ts ! j))) else \<not> p_flag (t_profiles tp ! j)))"

lemma table_relI:
  assumes "length (t_profiles tp) = 40" and "length ts = t_idx tp" and "t_idx tp \<le> 40" and "distinct ts" and "dom m = set ts"
    and "\<And>j. j < 40 \<Longrightarrow> if j < t_idx tp then t_profiles tp ! j = summary (ts ! j) (the (m (ts ! j))) else \<not> p_flag (t_profiles tp ! j)"
  shows "table_rel tp m"
  unfolding table_rel_def using assms by (intro exI[of _ ts]) blast

lemma summary_simps [simp]: "p_flag (summary t e)" "p_name (summary t e) = t" "p_startTime (summary t e) = fst e"
  "p_call (summary t e) = of_nat (length (snd e))" "p_totalTime (summary t e) = sum_list (snd e)"
  by (simp_all add: summary_def split: prod.splits)

lemma table_find:
  assumes "table_rel tp m"
  shows "case m tag of None \<Rightarrow> find_profile tag (t_profiles tp) = None
    | Some e \<Rightarrow> \<exists>j. find_profile tag (t_profiles tp) = Some j \<and> j < t_idx tp \<and> t_idx tp \<le> 40 \<and> t_profiles tp ! j = summary tag e"
proof -
  obtain ts where ts: "length ts = t_idx tp" "t_idx tp \<le> 40" "distinct ts" "dom m = set ts"
    and row: "\<And>j. j < 40 \<Longrightarrow> if j < t_idx tp then t_profiles tp ! j = summary (ts ! j) (the (m (ts ! j))) else \<not> p_flag (t_profiles tp ! j)"
    using assms unfolding table_rel_def by blast
  have hit: "p_flag (t_profiles tp ! j) \<and> p_name (t_profiles tp ! j) = tag \<longleftrightarrow> j < t_idx tp \<and> ts ! j = tag" if "j < 40" for j
    using row[OF that] by (auto split: if_splits)
  show ?thesis
  proof (cases "m tag")
    case None
    then have "tag \<notin> set ts" using ts(4) by auto
    then have "\<not> (j < t_idx tp \<and> ts ! j = tag)" for j using ts(1) by auto
    then show ?thesis using None hit by (auto simp: find_profile_def find_None_iff MAX_PROFILE_def)
  next
    case (Some e)
    then have "tag \<in> set ts" using ts(4) by auto
    then obtain j where j: "j < t_idx tp" "ts ! j = tag" using ts(1) by (auto simp: in_set_conv_nth)
    have uniq: "i = j" if "i < t_idx tp" "ts ! i = tag" for i using that j ts(1,3) nth_eq_iff_index_eq by metis
    have j40: "j < 40" using j(1) ts(2) by simp
    have "\<not> (p_flag (t_profiles tp ! i) \<and> p_name (t_profiles tp ! i) = tag)" if "i < j" for i
      using hit[of i] uniq[of i] that j40 by auto
    then have "find_profile tag (t_profiles tp) = Some j"
      using hit[OF j40] j j40 unfolding find_profile_def MAX_PROFILE_def find_Some_iff by (intro exI[of _ j]) simp
    moreover have "t_profiles tp ! j = summary tag e" using row[of j] j ts(2) Some by simp
    ultimately show ?thesis using Some j ts(2) by auto
  qed
qed

lemma table_view: "table_rel tp m \<Longrightarrow> map_option ((!) (t_profiles tp)) (find_profile tag (t_profiles tp)) = map_option (summary tag) (m tag)"
  using table_find[of tp m tag] by (auto split: option.splits)

lemma table_card: "table_rel tp m \<Longrightarrow> card (dom m) = t_idx tp"
  unfolding table_rel_def using distinct_card by metis

lemma table_replace:
  assumes R: "table_rel tp m" and j: "find_profile tag (t_profiles tp) = Some j" and m: "m tag \<noteq> None"
  shows "table_rel (tp\<lparr>t_profiles := (t_profiles tp)[j := summary tag e]\<rparr>) (m(tag \<mapsto> e))"
proof -
  obtain ts where ts: "length (t_profiles tp) = 40" "length ts = t_idx tp" "t_idx tp \<le> 40" "distinct ts" "dom m = set ts"
    and row: "\<And>j. j < 40 \<Longrightarrow> if j < t_idx tp then t_profiles tp ! j = summary (ts ! j) (the (m (ts ! j))) else \<not> p_flag (t_profiles tp ! j)"
    using R unfolding table_rel_def by blast
  from table_find[OF R, of tag] m j obtain e0 where J: "j < t_idx tp" "t_profiles tp ! j = summary tag e0" by auto
  have tj: "ts ! j = tag" using row[of j] J ts(3) by (metis order_less_le_trans summary_simps(2))
  have other: "ts ! i \<noteq> tag" if "i < t_idx tp" "i \<noteq> j" for i using that tj ts(2,4) J(1) nth_eq_iff_index_eq by metis
  have "insert tag (set ts) = set ts" using m ts(5) by auto
  moreover have "(if i < t_idx tp then (t_profiles tp)[j := summary tag e] ! i = summary (ts ! i) (the ((m(tag \<mapsto> e)) (ts ! i)))
      else \<not> p_flag ((t_profiles tp)[j := summary tag e] ! i))" if "i < 40" for i
    using row[OF that] other[of i] tj J ts(1,3) by (cases "i = j") auto
  ultimately show ?thesis using ts by (intro table_relI[of _ ts]) simp_all
qed

lemma table_extend:
  assumes R: "table_rel tp m" and m: "m tag = None" and room: "t_idx tp < 40"
  shows "table_rel (tp\<lparr>t_idx := t_idx tp + 1, t_profiles := (t_profiles tp)[t_idx tp := summary tag e]\<rparr>) (m(tag \<mapsto> e))"
proof -
  obtain ts where ts: "length (t_profiles tp) = 40" "length ts = t_idx tp" "t_idx tp \<le> 40" "distinct ts" "dom m = set ts"
    and row: "\<And>j. j < 40 \<Longrightarrow> if j < t_idx tp then t_profiles tp ! j = summary (ts ! j) (the (m (ts ! j))) else \<not> p_flag (t_profiles tp ! j)"
    using R unfolding table_rel_def by blast
  have new: "tag \<notin> set ts" using m ts(5) by auto
  have "(if i < t_idx tp + 1 then (t_profiles tp)[t_idx tp := summary tag e] ! i = summary ((ts @ [tag]) ! i) (the ((m(tag \<mapsto> e)) ((ts @ [tag]) ! i)))
      else \<not> p_flag ((t_profiles tp)[t_idx tp := summary tag e] ! i))" if "i < 40" for i
  proof (cases "i < t_idx tp")
    case True
    then have "ts ! i \<noteq> tag" using new ts(2) by auto
    then show ?thesis using True row[OF that] ts(2) by (simp add: nth_append)
  qed (use row[OF that] ts(1,2) that room in \<open>auto simp: nth_append nth_list_update\<close>)
  note rows = this
  show ?thesis
  proof (rule table_relI[of _ "ts @ [tag]"])
    show "if i < t_idx (tp\<lparr>t_idx := t_idx tp + 1, t_profiles := (t_profiles tp)[t_idx tp := summary tag e]\<rparr>)
      then t_profiles (tp\<lparr>t_idx := t_idx tp + 1, t_profiles := (t_profiles tp)[t_idx tp := summary tag e]\<rparr>) ! i =
        summary ((ts @ [tag]) ! i) (the ((m(tag \<mapsto> e)) ((ts @ [tag]) ! i)))
      else \<not> p_flag (t_profiles (tp\<lparr>t_idx := t_idx tp + 1, t_profiles := (t_profiles tp)[t_idx tp := summary tag e]\<rparr>) ! i)" if "i < 40" for i
      using rows[OF that] by (cases "i < Suc (t_idx tp)") simp_all
  qed (use ts new room in simp_all)
qed

definition spec_begin :: "u64 \<Rightarrow> tag \<Rightarrow> (tag \<rightharpoonup> u64 \<times> u64 list) \<Rightarrow> (tag \<rightharpoonup> u64 \<times> u64 list) option" where
  "spec_begin now tag m = (case m tag of
     None \<Rightarrow> if card (dom m) = 40 \<or> length tag \<ge> 64 then None else Some (m(tag \<mapsto> (now, [])))
   | Some (start, ds) \<Rightarrow> if start \<noteq> 0 then None else Some (m(tag \<mapsto> (now, ds))))"

lemma started: "(summary tag (start, ds))\<lparr>p_startTime := now\<rparr> = summary tag (now, ds)"
  by (simp add: summary_def)

lemma initialised:
  "length ps = 40 \<Longrightarrow> j < 40 \<Longrightarrow> t_profiles (InitProfile j (tp\<lparr>t_idx := n, t_profiles := ps[j := (ps ! j)\<lparr>p_name := tag\<rparr>]\<rparr>)) = ps[j := summary tag (0, [])]"
  "InitProfile j (tp\<lparr>t_profiles := ps\<rparr>) = tp\<lparr>t_profiles := t_profiles (InitProfile j (tp\<lparr>t_profiles := ps\<rparr>))\<rparr>"
  by (cases "ps ! j"; simp add: InitProfile_def summary_def numeral_2_eq_2) (simp add: InitProfile_def)

lemma begin_table:
  assumes R: "table_rel tp m"
  shows "rel_option (\<lambda>tp' m'. table_rel tp' m' \<and> t_thread_id tp' = t_thread_id tp) (begin_in_table now tag tp) (spec_begin now tag m)"
proof (cases "m tag")
  case None
  then have f: "find_profile tag (t_profiles tp) = None" using table_find[OF R, of tag] by simp
  have c: "card (dom m) = t_idx tp" by (rule table_card[OF R])
  have l: "length (t_profiles tp) = 40" "t_idx tp \<le> 40" using R by (auto simp: table_rel_def)
  show ?thesis
  proof (cases "t_idx tp = 40 \<or> length tag \<ge> 64")
    case False
    then have i: "t_idx tp < 40" using l by simp
    define tp1 where "tp1 = InitProfile (t_idx tp) (tp\<lparr>t_idx := Suc (t_idx tp),
      t_profiles := (t_profiles tp)[t_idx tp := (t_profiles tp ! t_idx tp)\<lparr>p_name := tag\<rparr>]\<rparr>)"
    have p1: "t_profiles tp1 = (t_profiles tp)[t_idx tp := summary tag (0, [])]" unfolding tp1_def by (rule initialised(1)[OF l(1) i])
    have "tp1 = tp\<lparr>t_idx := Suc (t_idx tp), t_profiles := t_profiles tp1\<rparr>" unfolding tp1_def by (simp add: InitProfile_def)
    moreover have "begin_in_table now tag tp = Some (tp1\<lparr>t_profiles := (t_profiles tp1)[t_idx tp := (t_profiles tp1 ! t_idx tp)\<lparr>p_startTime := now\<rparr>]\<rparr>)"
      using f False i l(1) p1 by (simp add: begin_in_table_def MAX_PROFILE_def PRO_TAG_SIZE_def Let_def flip: tp1_def)
    ultimately have "begin_in_table now tag tp = Some (tp\<lparr>t_idx := t_idx tp + 1, t_profiles := (t_profiles tp)[t_idx tp := summary tag (now, [])]\<rparr>)"
      using p1 i l(1) by (simp add: started)
    then show ?thesis using table_extend[OF R None i, of "(now, [])"] None False c by (simp add: spec_begin_def)
  qed (use None f c in \<open>auto simp: begin_in_table_def spec_begin_def MAX_PROFILE_def PRO_TAG_SIZE_def Let_def\<close>)
next
  case (Some e)
  obtain start ds where e: "e = (start, ds)" by (cases e)
  from table_find[OF R, of tag] Some obtain j where j: "find_profile tag (t_profiles tp) = Some j" "t_profiles tp ! j = summary tag (start, ds)"
    by (auto simp: e)
  then have "begin_in_table now tag tp = (if start \<noteq> 0 then None else Some (tp\<lparr>t_profiles := (t_profiles tp)[j := summary tag (now, ds)]\<rparr>))"
    by (simp add: begin_in_table_def started)
  then show ?thesis using table_replace[OF R j(1), of "(now, ds)"] Some by (simp add: spec_begin_def e)
qed

lemma end_table:
  assumes R: "table_rel tp m"
  shows "case m tag of None \<Rightarrow> find_profile tag (t_profiles tp) = None
    | Some (start, ds) \<Rightarrow> \<exists>j. find_profile tag (t_profiles tp) = Some j \<and>
        table_rel (tp\<lparr>t_profiles := (t_profiles tp)[j := end_profile endTime (t_profiles tp ! j)]\<rparr>) (m(tag \<mapsto> (0, (endTime - start) # ds)))"
proof (cases "m tag")
  case (Some e)
  obtain start ds where e: "e = (start, ds)" by (cases e)
  from table_find[OF R, of tag] Some obtain j where j: "find_profile tag (t_profiles tp) = Some j" "t_profiles tp ! j = summary tag (start, ds)"
    by (auto simp: e)
  then show ?thesis using table_replace[OF R j(1), of "(0, (endTime - start) # ds)"] Some by (simp add: e end_summary)
qed (use table_find[OF R, of tag] in simp)

subsection \<open>Reset\<close>

lemma reset_rows:
  "n \<le> length (t_profiles tp) \<Longrightarrow>
   (let tp' = fold (\<lambda>j tp. if p_flag (t_profiles tp ! j) then InitProfile j tp else tp) [0..<n] tp in
     length (t_profiles tp') = length (t_profiles tp) \<and> t_idx tp' = t_idx tp \<and> t_thread_id tp' = t_thread_id tp \<and>
     (\<forall>j < length (t_profiles tp). t_profiles tp' ! j =
        (if j < n \<and> p_flag (t_profiles tp ! j) then summary (p_name (t_profiles tp ! j)) (0, []) else t_profiles tp ! j)))"
proof (induction n)
  case (Suc n)
  define tp' where "tp' = fold (\<lambda>j tp. if p_flag (t_profiles tp ! j) then InitProfile j tp else tp) [0..<n] tp"
  have IH: "length (t_profiles tp') = length (t_profiles tp)" "t_idx tp' = t_idx tp" "t_thread_id tp' = t_thread_id tp"
    "\<And>j. j < length (t_profiles tp) \<Longrightarrow> t_profiles tp' ! j =
        (if j < n \<and> p_flag (t_profiles tp ! j) then summary (p_name (t_profiles tp ! j)) (0, []) else t_profiles tp ! j)"
    using Suc by (auto simp: Let_def tp'_def)
  have n: "t_profiles tp' ! n = t_profiles tp ! n" using IH(4)[of n] Suc.prems by simp
  have s: "t_profiles (InitProfile n tp') ! n = summary (p_name (t_profiles tp ! n)) (0, [])"
    using n IH(1) Suc.prems by (cases "t_profiles tp ! n") (simp add: InitProfile_def summary_def numeral_2_eq_2)
  have o: "t_profiles (InitProfile n tp') ! j = t_profiles tp' ! j" if "j \<noteq> n" for j using that by (simp add: InitProfile_def)
  define tp2 where "tp2 = (if p_flag (t_profiles tp' ! n) then InitProfile n tp' else tp')"
  have "t_profiles tp2 ! j =
      (if j < Suc n \<and> p_flag (t_profiles tp ! j) then summary (p_name (t_profiles tp ! j)) (0, []) else t_profiles tp ! j)"
    if "j < length (t_profiles tp)" for j
    using IH(4)[OF that] n s o[of j] unfolding tp2_def by (cases "j = n") auto
  moreover have "length (t_profiles tp2) = length (t_profiles tp')" "t_idx tp2 = t_idx tp'"
    "t_thread_id tp2 = t_thread_id tp'" by (simp_all add: tp2_def InitProfile_def)
  moreover have "fold (\<lambda>j tp. if p_flag (t_profiles tp ! j) then InitProfile j tp else tp) [0..<Suc n] tp = tp2"
    by (simp add: tp2_def tp'_def)
  ultimately show ?case using IH(1-3) unfolding Let_def by (simp only:) blast
qed simp

lemma reset_table:
  assumes R: "table_rel tp m"
  shows "table_rel (reset_table tp) (\<lambda>tag. map_option (\<lambda>_. (0, [])) (m tag))" and "t_thread_id (reset_table tp) = t_thread_id tp"
proof -
  obtain ts where ts: "length (t_profiles tp) = 40" "length ts = t_idx tp" "t_idx tp \<le> 40" "distinct ts" "dom m = set ts"
    and row: "\<And>j. j < 40 \<Longrightarrow> if j < t_idx tp then t_profiles tp ! j = summary (ts ! j) (the (m (ts ! j))) else \<not> p_flag (t_profiles tp ! j)"
    using R unfolding table_rel_def by blast
  have r: "length (t_profiles (reset_table tp)) = 40" "t_idx (reset_table tp) = t_idx tp" "t_thread_id (reset_table tp) = t_thread_id tp"
    "\<And>j. j < 40 \<Longrightarrow> t_profiles (reset_table tp) ! j = (if p_flag (t_profiles tp ! j) then summary (p_name (t_profiles tp ! j)) (0, []) else t_profiles tp ! j)"
    using reset_rows[of 40 tp] ts(1) by (simp_all add: reset_table_def MAX_PROFILE_def Let_def)
  then show "t_thread_id (reset_table tp) = t_thread_id tp" by simp
  have m: "m (ts ! j) \<noteq> None" if "j < t_idx tp" for j
  proof -
    have "ts ! j \<in> dom m" using that ts(2,5) by simp
    then show ?thesis by (simp add: dom_def)
  qed
  show "table_rel (reset_table tp) (\<lambda>tag. map_option (\<lambda>_. (0, [])) (m tag))"
  proof (rule table_relI[of _ ts])
    show "if j < t_idx (reset_table tp) then t_profiles (reset_table tp) ! j = summary (ts ! j) (the (map_option (\<lambda>_. (0, [])) (m (ts ! j))))
      else \<not> p_flag (t_profiles (reset_table tp) ! j)" if "j < 40" for j
      using r(2) r(4)[OF that] row[OF that] m[of j] by (cases "j < t_idx tp") auto
    show "dom (\<lambda>tag. map_option (\<lambda>_. (0 :: u64, [] :: u64 list)) (m tag)) = set ts" using ts(5) by (auto simp: dom_def)
  qed (use ts r in simp_all)
qed

subsection \<open>All threads\<close>

fun thread_rel :: "THREAD_PROFILE \<Rightarrow> u32 \<times> (tag \<rightharpoonup> u64 \<times> u64 list) \<Rightarrow> bool" where
  "thread_rel tp (tid, m) \<longleftrightarrow> table_rel tp m \<and> t_thread_id tp = tid"

definition fresh_thread :: THREAD_PROFILE where
  "fresh_thread = \<lparr>t_thread_id = 0, t_profiles = replicate MAX_PROFILE zero_profile, t_idx = 0\<rparr>"

definition prof_rel :: "prof_state \<Rightarrow> prof_spec \<Rightarrow> bool" where
  "prof_rel st sp \<longleftrightarrow> tpIdx st = int (card (dom sp)) - 1 \<and> card (dom sp) \<le> 120 \<and> length (threadProfiles st) = 120 \<and> finite (dom sp) \<and>
     dom (prof_tls st) = dom sp \<and> inj_on (prof_tls st) (dom sp) \<and>
     (\<forall>thr i x. prof_tls st thr = Some i \<longrightarrow> sp thr = Some x \<longrightarrow> i < card (dom sp) \<and> thread_rel (threadProfiles st ! i) x) \<and>
     (\<forall>i < 120. card (dom sp) \<le> i \<longrightarrow> threadProfiles st ! i = fresh_thread)"

lemma prof_relD:
  assumes "prof_rel st sp"
  shows "prof_tls st thr = None \<longleftrightarrow> sp thr = None" and "prof_tls st thr = Some i \<Longrightarrow> \<exists>x. sp thr = Some x"
    and "prof_tls st thr = Some i \<Longrightarrow> sp thr = Some x \<Longrightarrow> i < card (dom sp) \<and> i < 120 \<and> thread_rel (threadProfiles st ! i) x"
proof -
  have d: "dom (prof_tls st) = dom sp" and c: "card (dom sp) \<le> 120"
    and r: "\<And>i x. prof_tls st thr = Some i \<Longrightarrow> sp thr = Some x \<Longrightarrow> i < card (dom sp) \<and> thread_rel (threadProfiles st ! i) x"
    using assms unfolding prof_rel_def by blast+
  show "prof_tls st thr = None \<longleftrightarrow> sp thr = None" using d by (metis domIff)
  show "prof_tls st thr = Some i \<Longrightarrow> \<exists>x. sp thr = Some x" using d by blast
  show "prof_tls st thr = Some i \<Longrightarrow> sp thr = Some x \<Longrightarrow> i < card (dom sp) \<and> i < 120 \<and> thread_rel (threadProfiles st ! i) x"
    using r[of i x] c by simp
qed

lemma fresh_rel: "table_rel (fresh_thread\<lparr>t_thread_id := tid\<rparr>) Map.empty"
  by (rule table_relI[of _ "[]"]) (simp_all add: fresh_thread_def MAX_PROFILE_def zero_profile_def)

lemma init_rel: "prof_rel prof_init Map.empty"
  by (simp add: prof_rel_def prof_init_def fresh_thread_def MAX_THREAD_def)

lemma rel_update:
  assumes R: "prof_rel st sp" and i: "prof_tls st thr = Some i" and t: "thread_rel tp x"
  shows "prof_rel (st\<lparr>threadProfiles := (threadProfiles st)[i := tp]\<rparr>) (sp(thr \<mapsto> x))"
proof -
  obtain x0 where x0: "sp thr = Some x0" using prof_relD(2)[OF R i] by blast
  then have d: "dom (sp(thr \<mapsto> x)) = dom sp" by auto
  have l: "i < card (dom sp)" "i < 120" using prof_relD(3)[OF R i x0] by simp_all
  have inj: "inj_on (prof_tls st) (dom sp)" and dd: "dom (prof_tls st) = dom sp" using R by (simp_all add: prof_rel_def)
  have "k < card (dom sp) \<and> thread_rel ((threadProfiles st)[i := tp] ! k) y"
    if k: "prof_tls st u = Some k" "(sp(thr \<mapsto> x)) u = Some y" for u k y
  proof (cases "u = thr")
    case True
    then show ?thesis using k i t l R by (simp add: prof_rel_def)
  next
    case False
    have "u \<in> dom sp" "thr \<in> dom sp" using k(1) i dd by blast+
    then have "k \<noteq> i" using inj k(1) i False by (metis inj_onD)
    then show ?thesis using prof_relD(3)[OF R k(1)] k(2) False by simp
  qed
  then show ?thesis using R l unfolding prof_rel_def d by simp
qed

lemma rel_register:
  assumes R: "prof_rel st sp" and new: "prof_tls st thr = None" and room: "card (dom sp) < 120"
  defines "n \<equiv> card (dom sp)"
  shows "prof_rel (st\<lparr>tpIdx := int n, threadProfiles := (threadProfiles st)[n := (threadProfiles st ! n)\<lparr>t_thread_id := tid\<rparr>],
    prof_tls := (prof_tls st)(thr \<mapsto> n)\<rparr>) (sp(thr \<mapsto> (tid, Map.empty)))"
proof -
  have none: "thr \<notin> dom sp" using prof_relD(1)[OF R] new by (simp add: domIff)
  have fin: "finite (dom sp)" and inj: "inj_on (prof_tls st) (dom sp)" and dd: "dom (prof_tls st) = dom sp" and len: "length (threadProfiles st) = 120"
    and fresh: "\<And>i. i < 120 \<Longrightarrow> n \<le> i \<Longrightarrow> threadProfiles st ! i = fresh_thread" using R by (simp_all add: prof_rel_def n_def)
  have c: "card (dom (sp(thr \<mapsto> (tid, Map.empty)))) = Suc n" using none fin by (simp add: n_def)
  have below: "prof_tls st u \<noteq> Some n" for u
  proof
    assume u: "prof_tls st u = Some n"
    then obtain x where "sp u = Some x" using prof_relD(2)[OF R] by blast
    then show False using prof_relD(3)[OF R u] by (simp add: n_def)
  qed
  have "inj_on ((prof_tls st)(thr \<mapsto> n)) (insert thr (dom sp))"
    using inj below none by (simp add: inj_on_def) (metis domIff)
  moreover have "k < Suc n \<and> thread_rel ((threadProfiles st)[n := (threadProfiles st ! n)\<lparr>t_thread_id := tid\<rparr>] ! k) y"
    if k: "((prof_tls st)(thr \<mapsto> n)) u = Some k" "(sp(thr \<mapsto> (tid, Map.empty))) u = Some y" for u k y
  proof (cases "u = thr")
    case True
    then show ?thesis using k fresh_rel[of tid] fresh[of n] room len by (auto simp: n_def fresh_thread_def)
  next
    case False
    then have "k < n" "thread_rel (threadProfiles st ! k) y" using prof_relD(3)[OF R, of u k y] k by (simp_all add: n_def)
    then show ?thesis by simp
  qed
  ultimately show ?thesis unfolding prof_rel_def c using R len fin dd room fresh by (simp add: n_def nth_list_update)
qed

lemma begin_step: "prof_rel st sp \<Longrightarrow> rel_option prof_rel (ProfileBegin thr thread_id now tag st) (ps_step (Prof_begin thr thread_id now tag) sp)"
proof -
  assume R: "prof_rel st sp"
  have ps: "ps_step (Prof_begin thr thread_id now tag) sp =
    (let (tid, m) = (case sp thr of None \<Rightarrow> (thread_id, Map.empty) | Some x \<Rightarrow> x)
     in if sp thr = None \<and> card (dom sp) = 120 then None else map_option (\<lambda>m. sp(thr \<mapsto> (tid, m))) (spec_begin now tag m))"
    by (auto simp: spec_begin_def split: option.splits prod.splits)
  have go: "rel_option prof_rel
      (case begin_in_table now tag (threadProfiles st ! i) of None \<Rightarrow> None | Some tp \<Rightarrow> Some (st\<lparr>threadProfiles := (threadProfiles st)[i := tp]\<rparr>))
      (map_option (\<lambda>m. sp(thr \<mapsto> (tid, m))) (spec_begin now tag m))"
    if R: "prof_rel st sp" and i: "prof_tls st thr = Some i" and x: "sp thr = Some (tid, m)" for st sp i tid m
  proof -
    have t: "table_rel (threadProfiles st ! i) m" "t_thread_id (threadProfiles st ! i) = tid" using prof_relD(3)[OF R i x] by simp_all
    show ?thesis using begin_table[OF t(1), of now tag] rel_update[OF R i] t(2)
      by (cases "begin_in_table now tag (threadProfiles st ! i)"; cases "spec_begin now tag m") auto
  qed
  show ?thesis
  proof (cases "prof_tls st thr")
    case (Some i)
    then obtain tid m where x: "sp thr = Some (tid, m)" using prof_relD(2)[OF R Some] by auto
    show ?thesis unfolding ps using go[OF R Some x] by (simp add: ProfileBegin_def Some x)
  next
    case None
    then have x: "sp thr = None" using prof_relD(1)[OF R] by simp
    have idx: "tpIdx st + 1 = int (card (dom sp))" "card (dom sp) \<le> 120" using R by (simp_all add: prof_rel_def)
    show ?thesis
    proof (cases "card (dom sp) = 120")
      case False
      with idx have room: "card (dom sp) < 120" by simp
      from go[OF rel_register[OF R None room, of thread_id], of "card (dom sp)" thread_id Map.empty]
      show ?thesis unfolding ps using idx room by (simp add: ProfileBegin_def None x MAX_THREAD_def Let_def)
    qed (simp add: ps ProfileBegin_def None x idx MAX_THREAD_def Let_def)
  qed
qed

lemma end_step:
  assumes R: "prof_rel st sp"
  shows "rel_option prof_rel (ProfileEnd thr now tag st) (ps_step (Prof_end thr now tag) sp)"
proof (cases "prof_tls st thr")
  case None
  then have "sp thr = None" using prof_relD(1)[OF R, of thr] by simp
  then show ?thesis using None by (simp add: ProfileEnd_def)
next
  case (Some i)
  obtain tid m where x: "sp thr = Some (tid, m)" using prof_relD(2)[OF R Some] by auto
  then have t: "table_rel (threadProfiles st ! i) m" "t_thread_id (threadProfiles st ! i) = tid" using prof_relD(3)[OF R Some x] by simp_all
  show ?thesis
  proof (cases "m tag")
    case None
    then show ?thesis using end_table[OF t(1), of tag now] by (simp add: ProfileEnd_def Some x)
  next
    case e: (Some e)
    obtain start ds where e2: "e = (start, ds)" by (cases e)
    from end_table[OF t(1), of tag now] e obtain j where j: "find_profile tag (t_profiles (threadProfiles st ! i)) = Some j"
      "table_rel ((threadProfiles st ! i)\<lparr>t_profiles := (t_profiles (threadProfiles st ! i))[j := end_profile now (t_profiles (threadProfiles st ! i) ! j)]\<rparr>)
         (m(tag \<mapsto> (0, (now - start) # ds)))" by (auto simp: e2)
    let ?tp = "(threadProfiles st ! i)\<lparr>t_profiles := (t_profiles (threadProfiles st ! i))[j := end_profile now (t_profiles (threadProfiles st ! i) ! j)]\<rparr>"
    have "thread_rel ?tp (tid, m(tag \<mapsto> (0, (now - start) # ds)))" using j(2) t(2) by simp
    from rel_update[OF R Some this] show ?thesis using j(1) e by (simp add: ProfileEnd_def Some x e2 Let_def)
  qed
qed

lemma reset_threads:
  "n \<le> length (threadProfiles st) \<Longrightarrow>
   fold (\<lambda>i st. st\<lparr>threadProfiles := (threadProfiles st)[i := f (threadProfiles st ! i)]\<rparr>) [0..<n] st =
     st\<lparr>threadProfiles := map f (take n (threadProfiles st)) @ drop n (threadProfiles st)\<rparr>"
  by (induction n) (auto simp: take_Suc_conv_app_nth nth_append list_update_append Cons_nth_drop_Suc[symmetric])

lemma reset_step: "prof_rel st sp \<Longrightarrow> rel_option prof_rel (prof_step Prof_reset st) (ps_step Prof_reset sp)"
proof -
  assume R: "prof_rel st sp"
  define sp' where "sp' = (\<lambda>thr. map_option (\<lambda>(tid, m). (tid, \<lambda>tag. map_option (\<lambda>_. (0 :: u64, [] :: u64 list)) (m tag))) (sp thr))"
  define n where "n = card (dom sp)"
  have d: "dom sp' = dom sp" by (auto simp: sp'_def)
  have n: "n \<le> 120" "length (threadProfiles st) = 120" "nat (tpIdx st + 1) = n" using R by (simp_all add: prof_rel_def n_def)
  define ts where "ts = map reset_table (take n (threadProfiles st)) @ drop n (threadProfiles st)"
  have reset: "ProfileReset st = st\<lparr>threadProfiles := ts\<rparr>" using reset_threads[of n st reset_table] n by (simp add: ProfileReset_def ts_def)
  have low: "ts ! i = reset_table (threadProfiles st ! i)" if "i < n" for i using that n by (simp add: ts_def nth_append)
  have high: "ts ! i = threadProfiles st ! i" if "n \<le> i" "i < 120" for i using that n by (simp add: ts_def nth_append)
  have "k < n \<and> thread_rel (ts ! k) y" if k: "prof_tls st u = Some k" "sp' u = Some y" for u k y
  proof -
    obtain tid m where x: "sp u = Some (tid, m)" using prof_relD(2)[OF R k(1)] by auto
    then have "k < n" "table_rel (threadProfiles st ! k) m" "t_thread_id (threadProfiles st ! k) = tid"
      using prof_relD(3)[OF R k(1) x] by (simp_all add: n_def)
    then show ?thesis using k(2) x low[of k] reset_table by (auto simp: sp'_def)
  qed
  moreover have "length ts = 120" using n by (simp add: ts_def)
  ultimately have "prof_rel (ProfileReset st) sp'" using R high unfolding prof_rel_def d reset n_def by simp
  then show ?thesis by (simp add: sp'_def)
qed

lemma prof_step_rel: "prof_rel st sp \<Longrightarrow> rel_option prof_rel (prof_step c st) (ps_step c sp)"
  using begin_step end_step reset_step by (cases c) (simp_all only: prof_step.simps)

lemma prof_run_rel: "prof_rel st sp \<Longrightarrow> rel_option prof_rel (prof_run cs st) (ps_run cs sp)"
proof (induction cs arbitrary: st sp)
  case (Cons c cs)
  show ?case using prof_step_rel[OF Cons.prems, of c] Cons.IH by (cases "prof_step c st"; cases "ps_step c sp") auto
qed simp

lemma prof_view_rel: "prof_rel st sp \<Longrightarrow> prof_view st = ps_view sp"
proof
  fix thr assume R: "prof_rel st sp"
  show "prof_view st thr = ps_view sp thr"
  proof (cases "prof_tls st thr")
    case None
    then have "sp thr = None" using prof_relD(1)[OF R, of thr] by simp
    then show ?thesis using None by (simp add: prof_view_def ps_view_def)
  next
    case (Some i)
    then obtain tid m where x: "sp thr = Some (tid, m)" using prof_relD(2)[OF R Some] by auto
    from prof_relD(3)[OF R Some x] show ?thesis using table_view by (auto simp: prof_view_def ps_view_def Some x Let_def)
  qed
qed

subsection \<open>The trimmed average\<close>

lemma sorted_key_unique:
  assumes "mset xs = mset ys" and "sorted (map f xs)" and "sorted (map f ys)" and inj: "inj f"
  shows "xs = ys"
proof -
  have "mset (map f xs) = mset (map f ys)" using assms(1) by simp
  then have "map f xs = map f ys" using assms(2,3) by (metis properties_for_sort)
  then show ?thesis using inj by (simp add: inj_map_eq_map)
qed

lemma sint_le_LLONG_MAX: "sint (d :: u64) \<le> sint LLONG_MAX"
proof -
  have "sint LLONG_MAX = 2 ^ 63 - 1" by (simp add: LLONG_MAX_def sint_uint signed_take_bit_def)
  moreover have "sint d < 2 ^ 63" using sint_lt[of d] by simp
  ultimately show ?thesis by simp
qed

lemma sort_min: "sort_key sint (ds @ [LLONG_MAX, LLONG_MAX]) = sort_key sint ds @ [LLONG_MAX, LLONG_MAX]"
  by (rule sorted_key_unique[where f = sint]) (simp_all add: sorted_append sint_le_LLONG_MAX inj_sint)

lemma sort_max:
  assumes "\<forall>d \<in> set ds. 0 \<le> sint d"
  shows "sort_key (\<lambda>d. - sint d) (ds @ [0, 0]) = rev (sort_key sint ds) @ [0, 0 :: u64]"
proof (rule sorted_key_unique[where f = "\<lambda>d. - sint d"])
  have "sorted_wrt (\<lambda>x y. sint x \<le> sint y) (sort_key sint ds)" using sorted_sort_key[of sint ds] by (simp add: sorted_map)
  then show "sorted (map (\<lambda>d. - sint d) (rev (sort_key sint ds) @ [0, 0]))"
    using assms by (simp add: sorted_append sorted_map sorted_wrt_rev)
  show "inj (\<lambda>d :: u64. - sint d)" by (rule injI) (metis neg_equal_iff_equal signed_word_eqI)
qed simp_all

lemma take_two: "2 \<le> length xs \<Longrightarrow> take 2 xs = [xs ! 0, xs ! 1]"
  by (cases xs; cases "tl xs") auto

lemma sum_middle:
  fixes s :: "u64 list"
  assumes n: "4 \<le> length s"
  shows "sum_list s - (s ! 0 + s ! 1) - (rev s ! 0 + rev s ! 1) = sum_list (drop 2 (take (length s - 2) s))"
proof -
  define mid where "mid = drop 2 (take (length s - 2) s)"
  have "take (length s - 2) s = take 2 s @ mid" 
    using append_take_drop_id[of 2 "take (length s - 2) s", symmetric] n by (simp add: mid_def take_take min_absorb1 del: append_take_drop_id)
  then have s: "s = take 2 s @ mid @ drop (length s - 2) s" by (metis append.assoc append_take_drop_id)
  have a: "take 2 s = [s ! 0, s ! 1]" using n by (simp add: take_two)
  have b: "rev (drop (length s - 2) s) = [rev s ! 0, rev s ! 1]"
  proof -
    have "rev (drop (length s - 2) s) = take 2 (rev s)" using n by (simp add: rev_drop)
    then show ?thesis using n by (simp add: take_two)
  qed
  have "sum_list s = sum_list (take 2 s) + (sum_list mid + sum_list (rev (drop (length s - 2) s)))"
    by (subst s) (simp add: sum_list_rev)
  then show ?thesis unfolding a b mid_def by simp
qed

lemma trimmed_row:
  assumes n: "4 \<le> length ds" and pos: "\<forall>d \<in> set ds. 0 \<le> sint d"
  shows "profile_row tid (summary tag (start, ds)) = (tid, tag, sum_list (drop 2 (take (length ds - 2) (sort_key sint ds))), of_nat (length ds - 4),
    hd (sort_key sint ds), last (sort_key sint ds), of_nat (length ds))"
proof -
  define s where "s = sort_key sint ds"
  have l: "length s = length ds" by (simp add: s_def)
  have m: "mset s = mset ds" by (simp add: s_def)
  then have sum: "sum_list ds = sum_list s" by (metis sum_mset_sum_list)
  have mn: "p_min (summary tag (start, ds)) ! 0 = s ! 0" "p_min (summary tag (start, ds)) ! 1 = s ! 1"
    using n l by (simp_all add: summary_def sort_min nth_append flip: s_def)
  have mx: "p_max (summary tag (start, ds)) ! 0 = rev s ! 0" "p_max (summary tag (start, ds)) ! 1 = rev s ! 1"
    using n l by (simp_all add: summary_def sort_max[OF pos] nth_append flip: s_def)
  have ne: "s \<noteq> []" using n l by auto
  have e: "hd s = s ! 0" "last s = rev s ! 0" using ne by (simp_all add: hd_conv_nth last_conv_nth rev_nth)
  have "(of_nat (length ds) :: u64) - 4 = of_nat (length ds - 4)" using n by (simp add: of_nat_diff)
  moreover have "sum_list ds - (s ! 0 + s ! 1) - (rev s ! 0 + rev s ! 1) = sum_list (drop 2 (take (length ds - 2) s))"
    using sum_middle[of s] n unfolding sum l by simp
  ultimately show ?thesis unfolding profile_row_def mn mx s_def[symmetric] e by simp
qed

lemma row_written:
  assumes R: "prof_rel st sp" and t: "sp thr = Some (tid, m)" and e: "m tag = Some (start, ds)"
  shows "profile_row tid (summary tag (start, ds)) \<in> set (profile_rows st)"
proof -
  obtain i where i: "prof_tls st thr = Some i" using prof_relD(1)[OF R, of thr] t by auto
  from prof_relD(3)[OF R i t] have x: "i < card (dom sp)" "table_rel (threadProfiles st ! i) m" "t_thread_id (threadProfiles st ! i) = tid" by simp_all
  from table_find[OF x(2), of tag] e obtain j where "j < t_idx (threadProfiles st ! i)" "t_idx (threadProfiles st ! i) \<le> 40"
    and j2: "t_profiles (threadProfiles st ! i) ! j = summary tag (start, ds)" by auto
  then have j: "j < 40" "t_profiles (threadProfiles st ! i) ! j = summary tag (start, ds)" by simp_all
  have "nat (tpIdx st + 1) = card (dom sp)" using R by (simp add: prof_rel_def)
  then show ?thesis unfolding profile_rows_def using x(1,3) j by (auto simp: MAX_PROFILE_def image_iff intro!: bexI[of _ i] exI[of _ j])
qed

subsection \<open>Properties\<close>

text \<open>
  C38. The profiler keeps what it measures: for every sequence of begins, ends and resets, from any number of threads, it fails
  exactly when the abstract profiler does (a 121st thread, a 41st tag, a tag of 64 characters or more, a scope begun twice, an end without an
  entry), and otherwise every thread has for every tag the entry that belongs to all its measurements since the last reset: their
  sum, their number, the two shortest and the two longest of them.
\<close>

theorem profiler_refines_measurements:
  "map_option prof_view (prof_run cs prof_init) = map_option ps_view (ps_run cs Map.empty)"
  using prof_run_rel[OF init_rel, of cs] prof_view_rel by (cases "prof_run cs prof_init"; cases "ps_run cs Map.empty") auto

text \<open>
  C39. The report shows, for each scope measured at least four times, the total without the two shortest and the two longest measurements over
  the number of the others, the shortest, the longest and the number of calls.
\<close>

theorem report_is_trimmed:
  assumes "prof_run cs prof_init = Some st" and "ps_run cs Map.empty = Some sp" and "sp thr = Some (tid, m)" and "m tag = Some (start, ds)"
    and "4 \<le> length ds" and "\<forall>d \<in> set ds. 0 \<le> sint d"
  shows "(tid, tag, sum_list (drop 2 (take (length ds - 2) (sort_key sint ds))), of_nat (length ds - 4),
    hd (sort_key sint ds), last (sort_key sint ds), of_nat (length ds)) \<in> set (profile_rows st)"
proof -
  have "prof_rel st sp" using prof_run_rel[OF init_rel, of cs] assms(1,2) by simp
  from row_written[OF this assms(3,4)] show ?thesis unfolding trimmed_row[OF assms(5,6)] .
qed

theorem report_is_trimmed_witness:
  "\<exists>st. prof_run [Prof_begin 7 99 10 [74], Prof_end 7 15 [74], Prof_begin 7 99 20 [74], Prof_end 7 21 [74], Prof_begin 7 99 30 [74], Prof_end 7 37 [74],
      Prof_begin 7 99 40 [74], Prof_end 7 42 [74], Prof_begin 7 99 50 [74], Prof_end 7 53 [74]] prof_init = Some st \<and>
     (99, [74], 3, 1, 1, 7, 5) \<in> set (profile_rows st)"
proof -
  let ?cs = "[Prof_begin 7 99 10 [74], Prof_end 7 15 [74], Prof_begin 7 99 20 [74], Prof_end 7 21 [74], Prof_begin 7 99 30 [74], Prof_end 7 37 [74],
      Prof_begin 7 99 40 [74], Prof_end 7 42 [74], Prof_begin 7 99 50 [74], Prof_end 7 53 [74 :: u16]]"
  have sp: "ps_run ?cs Map.empty = Some [7 \<mapsto> (99, [[74] \<mapsto> (0, [3, 2, 7, 1, 5])])]" by simp
  then obtain st where st: "prof_run ?cs prof_init = Some st"
    using prof_run_rel[OF init_rel, of ?cs] by (cases "prof_run ?cs prof_init") auto
  have pos: "\<forall>d \<in> set [3, 2, 7, 1, 5 :: u64]. 0 \<le> sint d" by simp
  have "sort_key sint [3, 2, 7, 1, 5 :: u64] = [1, 2, 3, 5, 7]" by simp
  then have "(99, [74], 3, 1, 1, 7, 5) \<in> set (profile_rows st)"
    using report_is_trimmed[OF st sp, of 7 99 "[[74] \<mapsto> (0, [3, 2, 7, 1, 5])]" "[74]" 0 "[3, 2, 7, 1, 5]"] pos by simp
  with st show ?thesis by blast
qed

end
