(* ===== verification/Spec2Isabelle.thy ===== *)
theory Spec2Isabelle
  imports Ring TlsPool Protocol Log TextRound ServerProps Broadcast Framing LfStackProps LfQueueProps SessionRefNet ObjPool
    LanProps BufAlloc Profile
begin

section \<open>The chat server ChatServerMT\<close>

text \<open>
  A multi-threaded chat server for Windows. \<^verbatim>\<open>CNetServer\<close> is its network library: worker threads take the
  completions of an I/O completion port, receive into a byte ring per session, cut the bytes into packets and hand these to the
  derived class \<^verbatim>\<open>ChatServer\<close>, whose callbacks (\<^verbatim>\<open>ProcPacket.cpp\<close>) log users in, move them over a map of
  sectors and send their messages to the users around them. Packets, users and log records come from pools, are passed by
  pointer and counted. A second connection, \<^verbatim>\<open>CLanClient\<close> with the derived class \<^verbatim>\<open>MonitorClient\<close>, reports figures
  to a monitor server.

  \<^bold>\<open>How the code is modelled.\<close> A class is a record of its members, a derived class an extension of the record of its base
  (\<open>chat\<close> extends \<open>net\<close>), a function of the code a definition of the same name that takes and returns the state. Integers whose
  wrap-around the code relies on are words of their width; reference counts are integers with the bounds proved. A pointer to a session, packet
  or user is its index or number, so aliasing is visible. A result \<open>None\<close> is the end of the process: \<^verbatim>\<open>CrashDump::Crash\<close>, a
  deliberate write to a null pointer, or an access outside an array; three reads that only run on behind the end of a text without a
  terminator (\<open>ProcLogin\<close>, \<open>MakeMessage\<close>) go on with arbitrary memory instead. What the system answers (a send that fails, the bytes that arrive, the addresses
  of memory, the time, random keys) and what the code leaves uninitialised is read from the environment that the state carries
  or is an argument, so that the theorems hold for every answer, within what is listed below under what is assumed; a log file that
  cannot be opened is such an answer, and ends the process as in \<^verbatim>\<open>CLog::WriteFile\<close>.

  \<^bold>\<open>What runs as one step.\<close> The models of the network library, the chat server and the client run each handler as one step, in any order
  the system may deliver completions, posts, connections and time-outs. The code that is synchronised by single atomic
  instructions is modelled a second time one memory access per step, under every schedule of any number of threads: \<open>SessionRef\<close> (the
  reference count of a session), \<open>LfStack\<close> and \<open>LfQueue\<close>. \<open>SessionRefNet\<close> checks the two models of the count against each other.
\<close>

subsection \<open>Theories and sources\<close>

text \<open>
  \<^item> \<open>Prelude\<close>: word types, copying of bytes, lemmas on words, lists and maps. \<open>Interleave\<close>: sums and sets over the positions of threads.
  \<^item> \<open>Fifo\<close>, \<open>Ring\<close>: the contract of a byte queue as a locale, and \<^verbatim>\<open>RingBuffer\<close> as its interpretation: enqueue, dequeue,
    peek, the direct segments for the socket calls; refinement of a bounded list.
  \<^item> \<open>PoolSpec\<close>: the contracts of an object pool as locales, one of a pool that always delivers and one of a pool that may run out.
    \<open>TlsPool\<close> (\<^verbatim>\<open>MemoryPoolTls.h\<close>) and
    \<open>ObjPool\<close> (\<^verbatim>\<open>ObjectPool.h\<close>) interpret them: no object is out twice, whatever the order of the threads' calls.
  \<^item> \<open>Bytes\<close>, \<open>Packet\<close>, \<open>Protocol\<close>: \<^verbatim>\<open>CPacket\<close>, \<^verbatim>\<open>CommonProtocol.h\<close>, \<^verbatim>\<open>Define.h\<close>,
    \<^verbatim>\<open>PacketMaker.cpp\<close>: serialisation, headers, the cipher; round trips of the cipher and of a whole chat message.
  \<^item> \<open>Log\<close>: \<^verbatim>\<open>CLog\<close>. \<open>TextParse\<close>, \<open>TextRound\<close>: \<^verbatim>\<open>TextParser.cpp\<close> and its round trip with a writer of the format.
  \<^item> \<open>NetState\<close>, \<open>Net\<close>: \<^verbatim>\<open>session.h\<close>, \<^verbatim>\<open>CNetServer\<close>. \<open>NetInv\<close>, \<open>NetRes\<close>, \<open>NetLemmas\<close>, \<open>NetSafe\<close>: the
    invariant (the I/O count of a session is the number of its outstanding operations, packets and log records are conserved, released sessions are
    idle) and that every handler keeps it and does not fail, for any derived class that meets the locale \<open>derived_class\<close>. \<open>NetRun\<close>:
    the events of a run. \<open>NetMono\<close>: derived classes that fail less often.
  \<^item> \<open>Users\<close>, \<open>Chat\<close>: \<^verbatim>\<open>User\<close>, \<^verbatim>\<open>Sector\<close>, \<^verbatim>\<open>ChatServer.cpp\<close>, \<^verbatim>\<open>ProcPacket.cpp\<close>. \<open>ChatInv\<close>,
    \<open>ChatSafe\<close>: the invariant of users, accounts, sectors and locks, and \<^verbatim>\<open>ChatServer\<close> as an interpretation of \<open>derived_class\<close>.
  \<^item> \<open>ServerStart\<close>, \<open>Server\<close>, \<open>ServerProps\<close>: construction, configuration and start of the whole server, its reachable states, and what
    holds in them. \<open>Broadcast\<close>: who gets a chat message. \<open>Framing\<close>: the receive loop against cutting a byte stream.
  \<^item> \<open>LfStack\<close>, \<open>LfStackSafe\<close>, \<open>LfStackProps\<close>: \<^verbatim>\<open>LockFreePool.h\<close>, \<^verbatim>\<open>LockFreeStack.h\<close>. \<open>LfQueue\<close>,
    \<open>LfQueueProps\<close>: \<^verbatim>\<open>LockFreeQueue.h\<close> and the contract of a bounded queue. \<open>SessionRef\<close>, \<open>SessionRefNet\<close>: as above.
  \<^item> \<open>Lan\<close>, \<open>LanInv\<close>, \<open>LanSafe\<close>: \<^verbatim>\<open>CLanClient\<close>, its invariant, and that its operations keep it for any derived class that meets
    \<open>lan_client\<close>. \<open>Monitor\<close>: \<^verbatim>\<open>MonitorClient.cpp\<close> and the part of \<^verbatim>\<open>ChatServer.cpp\<close> that uses it. \<open>LanRun\<close>,
    \<open>LanProps\<close>: runs of the client beside the rest of the process, and what holds in every state it can reach.
  \<^item> \<open>BufAlloc\<close>: \<^verbatim>\<open>BufferAllocator.cpp\<close>, cutting regions of the address space into pages and half pages.
  \<^item> \<open>Profile\<close>: \<^verbatim>\<open>ProfileTls.cpp\<close>, as a refinement of the list of all measurements.
\<close>

subsection \<open>Bounds and loops\<close>

text \<open>
  The receive loops of \<open>Net\<close> and \<open>Lan\<close> have the fill of the ring plus one as fuel: each turn but the last takes at least six, or two,
  bytes out of the ring, so the fuel is not used up. Running out of fuel is the result \<open>None\<close>, which the invariant proofs exclude, and
  \<open>Framing\<close> shows that the loop handles what the specification on the byte stream does. The scanners of the configuration
  file recurse on what is left of the buffer. All other loops are structural or over lists. The loops of the lock-free structures are steps of a
  relation; that a thread which runs alone returns is a theorem with its number of steps.
\<close>

subsection \<open>What is assumed\<close>

text \<open>
  Completions are delivered for operations that were posted, once each, and not for others. A completion is handled
  as one step: the interleavings of the reference count within it are those of \<open>SessionRef\<close>, the users' and sectors' locks are checked for a
  fixed order and for being given back. A started server has at most 65536 sessions, and the memory it gets has the sizes it asked for (\<open>booted\<close>,
  \<open>system_ok\<close>).

  Some theorems have a hypothesis that the code does not ensure; it is stated in each of them. \<open>LfStack\<close> runs every schedule, and
  linearizability and the sharing of blocks are proved for those in which the 17-bit counter beside a pointer
  does not come round while a thread is between its read and its swap (\<open>lf_timely\<close>; every schedule of fewer than \<open>2 ^ 17\<close> actions is one).
  The client of the monitor server is followed as long as \<open>Connect\<close> is called anew only when the reference
  count of the earlier connection is zero, and no report comes before the first \<open>Connect\<close> (\<open>lan_in_scope\<close>); \<open>l_recv_io\<close> and \<open>l_send_io\<close> stand for
  the operations of one connection. In \<open>BufAlloc\<close>
  the property \<open>buffers_are_disjoint\<close> assumes of the system only that it grants what is asked and never gives out a region twice, and leaves out one kind
  of \<open>Free\<close> (\<open>ba_misleads\<close>); \<open>neighbouring_regions_share_memory\<close> shows what happens there.

  In \<open>LfQueue\<close> the calls of the node pool are single steps, which the theorems on the pool justify. In \<open>Profile\<close> a thread is identified by its slot, not by its
  number in the system, which can be used again.
\<close>

subsection \<open>Not modelled\<close>

text \<open>
  \<^item> \<^verbatim>\<open>Tracer\<close>: debugging records that no code reads.
  \<^item> \<^verbatim>\<open>CCpuUsage\<close>, \<^verbatim>\<open>CPDH\<close>: floating-point percentages and performance counters of the system; their figures are arguments of
    the reports to the monitor server.
  \<^item> \<^verbatim>\<open>CrashDump\<close>: handlers of the system and the dump file; \<open>Crash\<close> is the result \<open>None\<close>.
  \<^item> \<^verbatim>\<open>main.cpp\<close>: the console loop. \<^verbatim>\<open>cpp_redis\<close>: a third-party header that no file of the program includes.
  \<^item> In \<^verbatim>\<open>CPacket\<close>: \<open>operator=\<close>, which nothing uses, and \<^verbatim>\<open>PacketPtr\<close>, which is compiled only with \<^verbatim>\<open>AUTO_PACKET\<close>.
  \<^item> Of the rest: the calls that open sockets and start threads, destructors that only free memory, the texts of the console output, and in
    \<^verbatim>\<open>ProfileTls\<close> the conversion of a row to floating point.
\<close>

end
